(* ===== verification/Prelude.thy ===== *)
theory Prelude
  imports Main "HOL-Library.Word"
begin

text \<open>
  Shared vocabulary of the development: the machine types of the kernel, the
  monad in which kernel functions are written, little-endian access to byte
  lists, and the generic lemmas on lists and words the component theories use.

  A kernel function is a state transformer whose outcome is one of three things:
  it returns (\<open>Ret\<close>); it calls \<open>panic\<close>, which in \<open>console.c\<close> freezes the machine
  and never returns (\<open>Panic\<close>, with the message); or it gives up the processor in \<open>sched\<close>
  (\<open>Switch\<close>, with the state in which the scheduler takes over and the rest of the
  computation, a function of the state in which the process is resumed). A process
  may give up the processor any number of times, so the outcomes form a codatatype.
\<close>

section \<open>Machine types\<close>

type_synonym u8 = "8 word"
type_synonym u16 = "16 word"
type_synonym u32 = "32 word"

text \<open>The facts that characterise the operations of the model, by kind.\<close>

named_theorems kmonad_simps "evaluation of kernel computations"
named_theorems const_defs "the preprocessor constants of the C headers"

section \<open>Kernel computations\<close>

codatatype ('r, dead 's) outcome =
    Ret 'r 's
  | Panic string
  | Switch 's "'s \<Rightarrow> ('r, 's) outcome"

type_synonym ('r, 's) km = "'s \<Rightarrow> ('r, 's) outcome"

primcorec obind ::
  "('a, 's) outcome \<Rightarrow> ('a \<Rightarrow> 's \<Rightarrow> ('b, 's) outcome) \<Rightarrow> ('b, 's) outcome" where
  "obind x f = (case x of
      Ret r s \<Rightarrow> f r s
    | Panic e \<Rightarrow> Panic e
    | Switch s k \<Rightarrow> Switch s (\<lambda>s'. obind (k s') f))"

definition ret :: "'r \<Rightarrow> ('r, 's) km" where
  "ret r = (\<lambda>s. Ret r s)"

definition seq :: "('a, 's) km \<Rightarrow> ('a \<Rightarrow> ('b, 's) km) \<Rightarrow> ('b, 's) km" where
  "seq m f = (\<lambda>s. obind (m s) f)"

definition gets :: "('s \<Rightarrow> 'r) \<Rightarrow> ('r, 's) km" where
  "gets f = (\<lambda>s. Ret (f s) s)"

definition modify :: "('s \<Rightarrow> 's) \<Rightarrow> (unit, 's) km" where
  "modify f = (\<lambda>s. Ret () (f s))"

definition panic :: "string \<Rightarrow> ('r, 's) km" where
  "panic msg = (\<lambda>s. Panic msg)"

text \<open>
  A loop whose body answers \<open>Inl r\<close> to leave the loop with \<open>r\<close> and \<open>Inr a\<close> to go round again
  with loop state \<open>a\<close>. Every loop of the kernel that is written with it sleeps in each
  round that goes on; a round that does not is followed by a preemption.
\<close>

primcorec oiter :: "('a \<Rightarrow> ('r + 'a, 's) km) \<Rightarrow> ('r + 'a, 's) outcome \<Rightarrow> ('r, 's) outcome" where
  "oiter body x = (case x of
      Panic e \<Rightarrow> Panic e
    | Switch s k \<Rightarrow> Switch s (\<lambda>s'. oiter body (k s'))
    | Ret z s \<Rightarrow> (case z of
          Inl r \<Rightarrow> Ret r s
        | Inr a \<Rightarrow> (case body a s of
              Panic e \<Rightarrow> Panic e
            | Switch t k \<Rightarrow> Switch t (\<lambda>s'. oiter body (k s'))
            | Ret z' t \<Rightarrow> (case z' of
                  Inl r \<Rightarrow> Ret r t
                | Inr a' \<Rightarrow> Switch t (\<lambda>s'. oiter body (Ret (Inr a') s'))))))"

definition iterate :: "('a \<Rightarrow> ('r + 'a, 's) km) \<Rightarrow> 'a \<Rightarrow> ('r, 's) km" where
  "iterate body a = (\<lambda>s. oiter body (body a s))"

text \<open>A loop without end that nothing can leave; the clock interrupt goes on taking the processor away.\<close>

definition forever :: "('r, 's) km" where
  "forever = iterate (\<lambda>_. ret (Inr ())) ()"

text \<open>\<open>for\<close> over a list of values, without early exit.\<close>

fun for_each :: "('a \<Rightarrow> (unit, 's) km) \<Rightarrow> 'a list \<Rightarrow> (unit, 's) km" where
  "for_each f [] = ret ()"
| "for_each f (x # xs) = seq (f x) (\<lambda>_. for_each f xs)"

text \<open>The computation returns without giving up the processor and its result satisfies \<open>Q\<close>.\<close>

definition returns :: "('r, 's) outcome \<Rightarrow> ('r \<Rightarrow> 's \<Rightarrow> bool) \<Rightarrow> bool" where
  "returns x Q \<longleftrightarrow> (case x of Ret r s \<Rightarrow> Q r s | _ \<Rightarrow> False)"

lemma obind_simps [simp, kmonad_simps]:
  "obind (Ret r s) f = f r s"
  "obind (Panic e) f = Panic e"
  "obind (Switch s k) f = Switch s (\<lambda>s'. obind (k s') f)"
  by (subst obind.code; simp)+

lemma oiter_simps [simp, kmonad_simps]:
  "oiter body (Ret (Inl r) s) = Ret r s"
  "oiter body (Panic e) = Panic e"
  "oiter body (Switch s k) = Switch s (\<lambda>s'. oiter body (k s'))"
  by (subst oiter.code; simp)+

lemma ret_apply [simp, kmonad_simps]: "ret r s = Ret r s"
  by (simp add: ret_def)

lemma gets_apply [simp, kmonad_simps]: "gets f s = Ret (f s) s"
  by (simp add: gets_def)

lemma modify_apply [simp, kmonad_simps]: "modify f s = Ret () (f s)"
  by (simp add: modify_def)

lemma panic_apply [simp, kmonad_simps]: "panic msg s = Panic msg"
  by (simp add: panic_def)

lemma seq_apply [kmonad_simps]: "seq m f s = obind (m s) f"
  by (simp add: seq_def)

lemma seq_Ret [simp]: "m s = Ret r t \<Longrightarrow> seq m f s = f r t"
  by (simp add: seq_def)

lemma seq_Panic [simp]: "m s = Panic e \<Longrightarrow> seq m f s = Panic e"
  by (simp add: seq_def)

lemma seq_Switch [simp]: "m s = Switch t k \<Longrightarrow> seq m f s = Switch t (\<lambda>s'. obind (k s') f)"
  by (simp add: seq_def)

lemma obind_eq_Ret:
  "obind x f = Ret r t \<longleftrightarrow> (\<exists>r' s'. x = Ret r' s' \<and> f r' s' = Ret r t)"
  by (cases x) auto

lemma obind_eq_Panic:
  "obind x f = Panic e \<longleftrightarrow> x = Panic e \<or> (\<exists>r' s'. x = Ret r' s' \<and> f r' s' = Panic e)"
  by (cases x) auto

lemma seq_eq_Ret:
  "seq m f s = Ret r t \<longleftrightarrow> (\<exists>r' s'. m s = Ret r' s' \<and> f r' s' = Ret r t)"
  by (simp add: seq_def obind_eq_Ret)

lemma seq_eq_Panic:
  "seq m f s = Panic e \<longleftrightarrow> m s = Panic e \<or> (\<exists>r' s'. m s = Ret r' s' \<and> f r' s' = Panic e)"
  by (simp add: seq_def obind_eq_Panic)

lemma seq_RetE:
  assumes "seq m f s = Ret r t"
  obtains r' s' where "m s = Ret r' s'" "f r' s' = Ret r t"
  using assms by (auto simp: seq_eq_Ret)

lemma seq_ret_left [simp]: "seq (ret r) f = f r"
  by (rule ext) simp

lemma obind_obind: "obind (obind x f) g = obind x (\<lambda>r s. obind (f r s) g)"
  by (coinduction arbitrary: x rule: outcome.coinduct_strong)
    (auto split: outcome.splits simp: rel_fun_def)

lemma seq_assoc: "seq (seq m f) g = seq m (\<lambda>r. seq (f r) g)"
  by (rule ext) (simp add: seq_def obind_obind)

lemma iterate_unfold:
  assumes "\<And>b t. body a s \<noteq> Ret (Inr b) t"
  shows "iterate body a s = (case body a s of
      Ret z t \<Rightarrow> (case z of Inl r \<Rightarrow> Ret r t | Inr b \<Rightarrow> iterate body b t)
    | Panic e \<Rightarrow> Panic e
    | Switch t k \<Rightarrow> Switch t (\<lambda>s'. oiter body (k s')))"
  using assms by (auto simp: iterate_def split: outcome.split sum.split)

text \<open>A loop whose body leaves it at once, or waits and goes round again.\<close>

lemma oiter_Inr:
  assumes "\<And>b t. body a s \<noteq> Ret (Inr b) t"
  shows "oiter body (Ret (Inr a) s) = iterate body a s"
  using assms by (subst oiter.code) (auto simp: iterate_def split: outcome.split sum.split)

lemma returns_simps [simp]:
  "returns (Ret r s) Q \<longleftrightarrow> Q r s"
  "\<not> returns (Panic e) Q"
  "\<not> returns (Switch s k) Q"
  by (auto simp: returns_def)

lemma returns_seq:
  "returns (seq m f s) Q \<longleftrightarrow> returns (m s) (\<lambda>r t. returns (f r t) Q)"
  by (cases "m s") auto

lemma returns_seqI [intro?]:
  assumes "returns (m s) P" "\<And>r t. P r t \<Longrightarrow> returns (f r t) Q"
  shows "returns (seq m f s) Q"
  using assms by (cases "m s") auto

lemma returns_mono:
  assumes "returns x P" "\<And>r t. P r t \<Longrightarrow> Q r t"
  shows "returns x Q"
  using assms by (cases x) auto

lemma returns_conj:
  "returns x (\<lambda>r t. P r t \<and> Q r t) \<longleftrightarrow> returns x P \<and> returns x Q"
  by (cases x) auto

lemma returnsE:
  assumes "returns x Q"
  obtains r t where "x = Ret r t" "Q r t"
  using assms by (cases x) auto

lemma returns_unitE:
  assumes "returns x Q"
  obtains t where "x = Ret () t" "Q () t"
  using assms by (cases x) auto

lemma for_each_returns:
  assumes "\<And>k s. k < length xs \<Longrightarrow> I k s \<Longrightarrow> returns (f (xs ! k) s) (\<lambda>_ t. I (Suc k) t)" and "I 0 s"
  shows "returns (for_each f xs s) (\<lambda>_ t. I (length xs) t)"
  using assms
proof (induction xs arbitrary: I s)
  case Nil
  then show ?case by simp
next
  case (Cons x xs)
  obtain t where t: "f x s = Ret () t" "I (Suc 0) t"
    using Cons.prems(1) [of 0 s] Cons.prems(2) by (auto elim: returns_unitE)
  have "returns (for_each f xs t) (\<lambda>_ u. I (Suc (length xs)) u)"
    by (rule Cons.IH [of "\<lambda>k. I (Suc k)"]) (use Cons.prems(1) [of "Suc _"] t(2) in auto)
  then show ?case using t(1) by simp
qed

lemma seq_gets_stable:
  assumes "returns (m s) (\<lambda>r t. g t = x)"
  shows "seq m (\<lambda>r. seq (gets g) (F r)) s = seq m (\<lambda>r. F r x) s"
  using assms by (cases "m s") (simp_all add: seq_def)

lemma find_SomeD: "find P xs = Some x \<Longrightarrow> x \<in> set xs \<and> P x"
  by (induction xs) (auto split: if_splits)

lemma find_ex: "\<exists>x\<in>set xs. P x \<Longrightarrow> \<exists>x. find P xs = Some x"
  by (induction xs) auto

section \<open>Every return\<close>

text \<open>Whatever happens while a computation is switched out, if it returns it does so with \<open>Q\<close>.\<close>

coinductive ensures :: "('r \<Rightarrow> 's \<Rightarrow> bool) \<Rightarrow> ('r, 's) outcome \<Rightarrow> bool" for Q where
  ensures_Ret: "Q r s \<Longrightarrow> ensures Q (Ret r s)"
| ensures_Panic: "ensures Q (Panic e)"
| ensures_Switch: "(\<And>s. ensures Q (k s)) \<Longrightarrow> ensures Q (Switch t k)"

inductive_simps ensures_simps [simp]:
  "ensures Q (Ret r s)" "ensures Q (Panic e)" "ensures Q (Switch t k)"

lemma ensures_obind:
  assumes "\<And>r s. ensures Q (f r s)"
  shows "ensures Q (obind y f)"
proof (coinduction arbitrary: y rule: ensures.coinduct)
  case (ensures y)
  show ?case
  proof (cases y)
    case (Ret r s)
    then show ?thesis using assms [of r s] by (auto elim: ensures.cases)
  qed auto
qed

lemma ensures_seq: "(\<And>r s. ensures Q (f r s)) \<Longrightarrow> ensures Q (seq m f s)"
  by (simp add: seq_def ensures_obind)

lemma ensures_if: "(b \<Longrightarrow> ensures Q (x s)) \<Longrightarrow> (\<not> b \<Longrightarrow> ensures Q (y s)) \<Longrightarrow> ensures Q ((if b then x else y) s)"
  by simp

section \<open>Ring buffers\<close>

text \<open>The \<open>n\<close> elements from index \<open>i\<close> on of a circular buffer with \<open>N\<close> places.\<close>

definition ring_seg :: "nat \<Rightarrow> (nat \<Rightarrow> 'a) \<Rightarrow> nat \<Rightarrow> nat \<Rightarrow> 'a list" where
  "ring_seg N b i n = map (\<lambda>k. b ((i + k) mod N)) [0 ..< n]"

lemma ring_seg_length [simp]: "length (ring_seg N b i n) = n"
  by (simp add: ring_seg_def)

lemma ring_seg_0 [simp]: "ring_seg N b i 0 = []"
  by (simp add: ring_seg_def)

lemma ring_seg_Suc: "ring_seg N b i (Suc n) = ring_seg N b i n @ [b ((i + n) mod N)]"
  by (simp add: ring_seg_def)

lemma ring_seg_Cons: "ring_seg N b i (Suc n) = b (i mod N) # ring_seg N b (Suc i) n"
  by (simp add: ring_seg_def upt_conv_Cons map_Suc_upt [symmetric] del: upt_Suc)

lemma ring_seg_add: "ring_seg N b i (m + n) = ring_seg N b i m @ ring_seg N b (i + m) n"
  by (induction n) (simp_all add: ring_seg_Suc add.assoc)

lemma ring_seg_mod: "i mod N = j mod N \<Longrightarrow> ring_seg N b i n = ring_seg N b j n"
  unfolding ring_seg_def by (metis mod_add_left_eq)

lemma ring_seg_upd:
  assumes "n \<le> k" "k < N"
  shows "ring_seg N (b((i + k) mod N := v)) i n = ring_seg N b i n"
proof -
  have "(i + j) mod N \<noteq> (i + k) mod N" if "j < n" for j
  proof
    assume e: "(i + j) mod N = (i + k) mod N"
    have "k - j < N" "j \<le> k" using that assms by auto
    from e have "N dvd (i + k) - (i + j)"
      by (metis mod_eq_dvd_iff_nat add_le_mono1 \<open>j \<le> k\<close> add_left_mono)
    then have "N dvd k - j" by simp
    then have "k - j = 0" using \<open>k - j < N\<close> by (metis dvd_imp_le not_less gr0I)
    with that assms show False by simp
  qed
  then show ?thesis by (auto simp: ring_seg_def)
qed

section \<open>Little-endian bytes\<close>

unbundle bit_operations_syntax

definition byte_of :: "nat \<Rightarrow> u32 \<Rightarrow> u8" where
  "byte_of i w = ucast (drop_bit (8 * i) w)"

definition le32_of :: "u8 \<Rightarrow> u8 \<Rightarrow> u8 \<Rightarrow> u8 \<Rightarrow> u32" where
  "le32_of b0 b1 b2 b3 =
     ucast b0 OR push_bit 8 (ucast b1) OR push_bit 16 (ucast b2) OR push_bit 24 (ucast b3)"

definition le16_of :: "u8 \<Rightarrow> u8 \<Rightarrow> u16" where
  "le16_of b0 b1 = ucast b0 OR push_bit 8 (ucast b1)"

definition lo8 :: "u16 \<Rightarrow> u8" where "lo8 w = ucast w"
definition hi8 :: "u16 \<Rightarrow> u8" where "hi8 w = ucast (drop_bit 8 w)"

lemma u32_bound: "unat (x :: u32) < 4294967296"
  by (rule less_le_trans [OF unsigned_less]) simp

lemma unat_add_mod: "N dvd 4294967296 \<Longrightarrow> unat (x + y :: u32) mod N = (unat x + unat y) mod N"
  by (simp add: unat_word_ariths mod_mod_cancel)

lemma bit_u8_beyond: "8 \<le> k \<Longrightarrow> \<not> bit (b :: u8) k"
  by (simp add: bit_word.rep_eq bit_take_bit_iff)

lemma le32_of_byte_of [simp]:
  "le32_of (byte_of 0 w) (byte_of (Suc 0) w) (byte_of 2 w) (byte_of 3 w) = w"
proof (rule bit_word_eqI)
  fix n assume "n < LENGTH(32)"
  then consider "n < 8" | "8 \<le> n" "n < 16" | "16 \<le> n" "n < 24" | "24 \<le> n" "n < 32"
    by fastforce
  then show "bit (le32_of (byte_of 0 w) (byte_of (Suc 0) w) (byte_of 2 w) (byte_of 3 w)) n = bit w n"
    by cases (auto simp: le32_of_def byte_of_def bit_simps)
qed

lemma byte_of_le32_of [simp]:
  "byte_of 0 (le32_of b0 b1 b2 b3) = b0"
  "byte_of (Suc 0) (le32_of b0 b1 b2 b3) = b1"
  "byte_of 2 (le32_of b0 b1 b2 b3) = b2"
  "byte_of 3 (le32_of b0 b1 b2 b3) = b3"
  by (auto intro!: bit_word_eqI simp: le32_of_def byte_of_def bit_simps bit_u8_beyond)

lemma le16_of_lo8_hi8 [simp]: "le16_of (lo8 w) (hi8 w) = w"
  by (auto intro!: bit_word_eqI simp: le16_of_def lo8_def hi8_def bit_simps)

lemma lo8_le16_of [simp]: "lo8 (le16_of b0 b1) = b0"
  and hi8_le16_of [simp]: "hi8 (le16_of b0 b1) = b1"
  by (auto intro!: bit_word_eqI simp: le16_of_def lo8_def hi8_def bit_simps bit_u8_beyond)

end
