(* ===== verification/Params.thy ===== *)
theory Params
  imports Prelude
begin

text \<open>
  The constants and address macros of \<open>param.h\<close>, \<open>memlayout.h\<close>, \<open>mmu.h\<close> and \<open>fs.h\<close>.
  Counts and table sizes are \<open>nat\<close>; addresses and everything computed from addresses are
  32-bit words, as in the C code, where \<open>uint\<close> arithmetic wraps.
\<close>

unbundle bit_operations_syntax

section \<open>param.h\<close>

definition NPROC :: nat where [const_defs]: "NPROC = 64"
definition KSTACKSIZE :: u32 where [const_defs]: "KSTACKSIZE = 4096"
definition NCPU :: nat where [const_defs]: "NCPU = 4"
definition NOFILE :: nat where [const_defs]: "NOFILE = 16"
definition NFILE :: nat where [const_defs]: "NFILE = 100"
definition NINODE :: nat where [const_defs]: "NINODE = 50"
definition NDEV :: nat where [const_defs]: "NDEV = 10"
definition ROOTDEV :: nat where [const_defs]: "ROOTDEV = 1"
definition MAXARG :: nat where [const_defs]: "MAXARG = 32"
definition MAXOPBLOCKS :: nat where [const_defs]: "MAXOPBLOCKS = 10"
definition LOGSIZE :: nat where [const_defs]: "LOGSIZE = MAXOPBLOCKS * 3"
definition NBUF :: nat where [const_defs]: "NBUF = MAXOPBLOCKS * 3"
definition FSSIZE :: nat where [const_defs]: "FSSIZE = 1000"

section \<open>memlayout.h\<close>

definition EXTMEM :: u32 where [const_defs]: "EXTMEM = 0x100000"
definition PHYSTOP :: u32 where [const_defs]: "PHYSTOP = 0x20000000"
definition DEVSPACE :: u32 where [const_defs]: "DEVSPACE = 0xFE000000"
definition KERNBASE :: u32 where [const_defs]: "KERNBASE = 0x80000000"
definition KERNLINK :: u32 where [const_defs]: "KERNLINK = KERNBASE + EXTMEM"
definition PCI_BAR_BASE :: u32 where [const_defs]: "PCI_BAR_BASE = 0x80000000"
definition PCI_VP_OFFSET :: u32 where [const_defs]: "PCI_VP_OFFSET = 0x40000000"

definition V2P :: "u32 \<Rightarrow> u32" where "V2P a = a - KERNBASE"
definition P2V :: "u32 \<Rightarrow> u32" where "P2V a = a + KERNBASE"

lemma P2V_V2P [simp]: "P2V (V2P a) = a"
  by (simp add: P2V_def V2P_def)

lemma V2P_P2V [simp]: "V2P (P2V a) = a"
  by (simp add: P2V_def V2P_def)

section \<open>mmu.h: pages and page table entries\<close>

definition PGSIZE :: u32 where [const_defs]: "PGSIZE = 4096"
definition NPDENTRIES :: nat where [const_defs]: "NPDENTRIES = 1024"

definition PDX :: "u32 \<Rightarrow> u32" where "PDX va = drop_bit 22 va AND 0x3FF"
definition PTX :: "u32 \<Rightarrow> u32" where "PTX va = drop_bit 12 va AND 0x3FF"
definition PGADDR :: "u32 \<Rightarrow> u32 \<Rightarrow> u32 \<Rightarrow> u32" where
  "PGADDR d t off = push_bit 22 d OR push_bit 12 t OR off"
definition PGROUNDUP :: "u32 \<Rightarrow> u32" where
  "PGROUNDUP sz = (sz + PGSIZE - 1) AND NOT (PGSIZE - 1)"
definition PGROUNDDOWN :: "u32 \<Rightarrow> u32" where
  "PGROUNDDOWN a = a AND NOT (PGSIZE - 1)"

definition PTE_P :: u32 where [const_defs]: "PTE_P = 0x001"
definition PTE_W :: u32 where [const_defs]: "PTE_W = 0x002"
definition PTE_U :: u32 where [const_defs]: "PTE_U = 0x004"
definition PTE_ADDR :: "u32 \<Rightarrow> u32" where "PTE_ADDR pte = pte AND NOT 0xFFF"
definition PTE_FLAGS :: "u32 \<Rightarrow> u32" where "PTE_FLAGS pte = pte AND 0xFFF"

section \<open>fs.h: the on-disk format\<close>

definition ROOTINO :: nat where [const_defs]: "ROOTINO = 1"
definition BSIZE :: nat where [const_defs]: "BSIZE = 512"
definition NDIRECT :: nat where [const_defs]: "NDIRECT = 12"
definition NINDIRECT :: nat where [const_defs]: "NINDIRECT = BSIZE div 4"
definition MAXFILE :: nat where [const_defs]: "MAXFILE = NDIRECT + NINDIRECT"
definition IPB :: nat where [const_defs]: "IPB = BSIZE div 64"
definition BPB :: nat where [const_defs]: "BPB = BSIZE * 8"
definition DIRSIZ :: nat where [const_defs]: "DIRSIZ = 14"

record superblock =
  sb_size :: nat
  sb_nblocks :: nat
  sb_ninodes :: nat
  sb_nlog :: nat
  sb_logstart :: nat
  sb_inodestart :: nat
  sb_bmapstart :: nat

definition IBLOCK :: "nat \<Rightarrow> superblock \<Rightarrow> nat" where
  "IBLOCK i sb = i div IPB + sb_inodestart sb"
definition BBLOCK :: "nat \<Rightarrow> superblock \<Rightarrow> nat" where
  "BBLOCK b sb = b div BPB + sb_bmapstart sb"

section \<open>Facts about pages\<close>

text \<open>Rounding is rounding: the bit masks of \<open>mmu.h\<close> compute multiples of the page size.\<close>

lemma and_not_mask_eq:
  fixes a :: u32
  shows "a AND - 4096 = push_bit 12 (drop_bit 12 a)"
proof -
  have *: "(- 4096 :: u32) = NOT (mask 12)" by (simp add: mask_eq_exp_minus_1)
  show ?thesis
    unfolding * by (auto intro!: bit_word_eqI simp: bit_simps)
qed

lemma unat_and_not_mask:
  fixes a :: u32
  shows "unat (a AND - 4096) = unat a div 4096 * 4096"
proof -
  have "unat a < 2 ^ 32" using unsigned_less [of a] by simp
  then have "unat a div 4096 * 4096 < 2 ^ 32" by simp
  then show ?thesis
    by (simp add: and_not_mask_eq drop_bit_eq_div push_bit_eq_mult unat_word_ariths unat_div)
qed

lemma unat_PGROUNDDOWN: "unat (PGROUNDDOWN a) = unat a div 4096 * 4096"
  by (simp add: PGROUNDDOWN_def PGSIZE_def unat_and_not_mask)

lemma unat_PGROUNDUP:
  assumes "unat a + 4095 < 2 ^ 32"
  shows "unat (PGROUNDUP a) = (unat a + 4095) div 4096 * 4096"
proof -
  have "unat (a + 4095) = unat a + 4095"
    using assms by (simp add: unat_word_ariths)
  then show ?thesis
    by (simp add: PGROUNDUP_def PGSIZE_def unat_and_not_mask add.commute)
qed

end
