(* ===== verification/Kstate.thy ===== *)
theory Kstate
  imports Params
begin

text \<open>
  The base of the kernel state, which every subsystem extends: the spin locks the running
  processor holds, the process table and the process that runs. The operations
  of \<open>proc.c\<close> that every other file calls are here (\<open>myproc\<close>, \<open>sched\<close>, \<open>sleep\<close>, \<open>wakeup\<close>).

  A spin lock is seen from the processor that runs the code: \<open>held\<close> is the set of locks
  this processor holds. A section that holds a spin lock runs with
  interrupts off and cannot be descheduled (\<open>sched\<close> panics unless \<open>ptable.lock\<close> is the only lock
  held), so another process can only be seen to act at a \<open>Switch\<close>. The theory of the
  locks themselves, with \<open>xchg\<close>, \<open>ncli\<close>, \<open>intena\<close> and several processors, relates the two views.

  A table of the C code with a fixed number of entries is a function from the index; the
  state has one field per global variable.
\<close>

section \<open>Locks, channels and processes\<close>

text \<open>
  The sleep channels of the kernel; in C a channel is the address of the object waited for.
\<close>

datatype chan =
    ChBuf nat        \<comment> \<open>\<open>sleep(b, ...)\<close> in \<open>ide.c\<close>\<close>
  | ChBufLock nat    \<comment> \<open>the sleep lock of \<open>bcache.buf[i]\<close>\<close>
  | ChInodeLock nat  \<comment> \<open>the sleep lock of \<open>icache.inode[i]\<close>\<close>
  | ChLog            \<comment> \<open>\<open>&log\<close>\<close>
  | ChPipeRead u32   \<comment> \<open>\<open>&p->nread\<close>\<close>
  | ChPipeWrite u32  \<comment> \<open>\<open>&p->nwrite\<close>\<close>
  | ChInput          \<comment> \<open>\<open>&input.r\<close>\<close>
  | ChTicks          \<comment> \<open>\<open>&ticks\<close>\<close>
  | ChProc nat       \<comment> \<open>a \<open>struct proc\<close>, for \<open>wait\<close>\<close>

datatype lockid =
    LKmem | LBcache | LLog | LIcache | LFtable | LPtable | LIde | LCons | LTicks
  | LPipe u32
  | LSleep chan      \<comment> \<open>the spin lock inside the sleep lock with that address\<close>

datatype procstate = UNUSED | EMBRYO | SLEEPING | RUNNABLE | RUNNING | ZOMBIE

record proc =
  p_sz :: u32
  p_pgdir :: u32
  p_kstack :: u32
  p_state :: procstate
  p_pid :: u32
  p_parent :: "nat option"
  p_tf :: u32
  p_context :: u32
  p_chan :: "chan option"
  p_killed :: bool
  p_ofile :: "nat \<Rightarrow> nat option"
  p_cwd :: "nat option"
  p_name :: "u8 list"

text \<open>An entry of the table in zeroed memory, as the kernel starts with it.\<close>

definition zero_proc :: proc where
  "zero_proc = \<lparr>p_sz = 0, p_pgdir = 0, p_kstack = 0, p_state = UNUSED, p_pid = 0, p_parent = None, p_tf = 0, p_context = 0,
     p_chan = None, p_killed = False, p_ofile = (\<lambda>_. None), p_cwd = None, p_name = replicate 16 0\<rparr>"

record kbase =
  held :: "lockid set"
  ptable :: "nat \<Rightarrow> proc"
  curproc :: "nat option"

definition acquire :: "lockid \<Rightarrow> (unit, 'z kbase_scheme) km" where
  "acquire l = (\<lambda>s. if l \<in> held s then Panic ''acquire'' else Ret () (s\<lparr>held := insert l (held s)\<rparr>))"

definition release :: "lockid \<Rightarrow> (unit, 'z kbase_scheme) km" where
  "release l = (\<lambda>s. if l \<notin> held s then Panic ''release'' else Ret () (s\<lparr>held := held s - {l}\<rparr>))"

definition initlock :: "lockid \<Rightarrow> (unit, 'z kbase_scheme) km" where
  "initlock l = modify (\<lambda>s. s\<lparr>held := held s - {l}\<rparr>)"

section \<open>Sleeping and waking up (proc.c)\<close>

definition myproc :: "(nat option, 'z kbase_scheme) km" where
  "myproc = gets curproc"

definition upd_proc :: "nat \<Rightarrow> (proc \<Rightarrow> proc) \<Rightarrow> (unit, 'z kbase_scheme) km" where
  "upd_proc i f = modify (\<lambda>s. s\<lparr>ptable := (ptable s)(i := f (ptable s i))\<rparr>)"

text \<open>\<open>swtch\<close> to the scheduler: the process continues when the scheduler comes back to it.\<close>

definition swtch :: "(unit, 's) km" where
  "swtch = (\<lambda>s. Switch s (\<lambda>s'. Ret () s'))"

text \<open>
  Interrupts are off while a lock is held and \<open>ncli\<close> is the number of locks held, so the
  check \<open>ncli != 1\<close> is that \<open>ptable.lock\<close> is the only one, and the last check cannot fail.
\<close>

definition sched :: "nat \<Rightarrow> (unit, 'z kbase_scheme) km" where
  "sched p = (\<lambda>s.
     if LPtable \<notin> held s then Panic ''sched ptable.lock''
     else if held s \<noteq> {LPtable} then Panic ''sched locks''
     else if p_state (ptable s p) = RUNNING then Panic ''sched running''
     else swtch s)"

definition yield :: "(unit, 'z kbase_scheme) km" where
  "yield =
     seq (acquire LPtable) (\<lambda>_.
     seq myproc (\<lambda>mp. case mp of None \<Rightarrow> panic ''trap'' | Some p \<Rightarrow>
     seq (upd_proc p (p_state_update (\<lambda>_. RUNNABLE))) (\<lambda>_.
     seq (sched p) (\<lambda>_.
     release LPtable))))"

definition sleep :: "chan \<Rightarrow> lockid \<Rightarrow> (unit, 'z kbase_scheme) km" where
  "sleep ch lk =
     seq myproc (\<lambda>mp. case mp of None \<Rightarrow> panic ''sleep'' | Some p \<Rightarrow>
     seq (if lk \<noteq> LPtable then seq (acquire LPtable) (\<lambda>_. release lk) else ret ()) (\<lambda>_.
     seq (upd_proc p (p_chan_update (\<lambda>_. Some ch))) (\<lambda>_.
     seq (upd_proc p (p_state_update (\<lambda>_. SLEEPING))) (\<lambda>_.
     seq (sched p) (\<lambda>_.
     seq (upd_proc p (p_chan_update (\<lambda>_. None))) (\<lambda>_.
     if lk \<noteq> LPtable then seq (release LPtable) (\<lambda>_. acquire lk) else ret ()))))))"

definition wakeup1 :: "chan \<Rightarrow> (unit, 'z kbase_scheme) km" where
  "wakeup1 ch = modify (\<lambda>s. s\<lparr>ptable := (\<lambda>i.
     if i < NPROC \<and> p_state (ptable s i) = SLEEPING \<and> p_chan (ptable s i) = Some ch
     then (ptable s i)\<lparr>p_state := RUNNABLE\<rparr> else ptable s i)\<rparr>)"

definition wakeup :: "chan \<Rightarrow> (unit, 'z kbase_scheme) km" where
  "wakeup ch =
     seq (acquire LPtable) (\<lambda>_.
     seq (wakeup1 ch) (\<lambda>_.
     release LPtable))"

text \<open>\<open>while(c) sleep(chan, lk);\<close>\<close>

definition sleep_while :: "('z kbase_scheme \<Rightarrow> bool) \<Rightarrow> chan \<Rightarrow> lockid \<Rightarrow> (unit, 'z kbase_scheme) km" where
  "sleep_while c ch lk = iterate (\<lambda>_.
     seq (gets c) (\<lambda>b.
     if b then seq (sleep ch lk) (\<lambda>_. ret (Inr ())) else ret (Inl ()))) ()"

text \<open>The effect of a wakeup on the process table.\<close>

definition woken :: "chan \<Rightarrow> (nat \<Rightarrow> proc) \<Rightarrow> nat \<Rightarrow> proc" where
  "woken ch pt = (\<lambda>i.
     if i < NPROC \<and> p_state (pt i) = SLEEPING \<and> p_chan (pt i) = Some ch
     then (pt i)\<lparr>p_state := RUNNABLE\<rparr> else pt i)"

text \<open>The state in which a process that sleeps hands over to the scheduler.\<close>

definition asleep :: "nat \<Rightarrow> chan \<Rightarrow> 'z kbase_scheme \<Rightarrow> 'z kbase_scheme" where
  "asleep p ch s = s\<lparr>held := {LPtable},
     ptable := (ptable s)(p := (ptable s p)\<lparr>p_chan := Some ch, p_state := SLEEPING\<rparr>)\<rparr>"

definition awake :: "nat \<Rightarrow> 'z kbase_scheme \<Rightarrow> 'z kbase_scheme" where
  "awake p s = s\<lparr>ptable := (ptable s)(p := (ptable s p)\<lparr>p_chan := None\<rparr>)\<rparr>"

section \<open>Evaluation of the locks\<close>

lemma held_update_id [simp]: "held s = h \<Longrightarrow> s\<lparr>held := h\<rparr> = s"
  by (cases s) simp

lemma acquire_free [simp]: "l \<notin> held s \<Longrightarrow> acquire l s = Ret () (s\<lparr>held := insert l (held s)\<rparr>)"
  by (simp add: acquire_def)

lemma acquire_held [simp]: "l \<in> held s \<Longrightarrow> acquire l s = Panic ''acquire''"
  by (simp add: acquire_def)

lemma release_held [simp]: "l \<in> held s \<Longrightarrow> release l s = Ret () (s\<lparr>held := held s - {l}\<rparr>)"
  by (simp add: release_def)

lemma release_free [simp]: "l \<notin> held s \<Longrightarrow> release l s = Panic ''release''"
  by (simp add: release_def)

lemma initlock_apply [simp]: "initlock l s = Ret () (s\<lparr>held := held s - {l}\<rparr>)"
  by (simp add: initlock_def)

lemma myproc_apply [simp]: "myproc s = Ret (curproc s) s"
  by (simp add: myproc_def)

lemma upd_proc_apply [simp]:
  "upd_proc i f s = Ret () (s\<lparr>ptable := (ptable s)(i := f (ptable s i))\<rparr>)"
  by (simp add: upd_proc_def)

lemma wakeup1_apply [simp]: "wakeup1 ch s = Ret () (s\<lparr>ptable := woken ch (ptable s)\<rparr>)"
  by (simp add: wakeup1_def woken_def)

lemma wakeup_apply:
  "LPtable \<notin> held s \<Longrightarrow> wakeup ch s = Ret () (s\<lparr>ptable := woken ch (ptable s)\<rparr>)"
  by (simp add: wakeup_def)

lemma woken_fields [simp]:
  "p_pid (woken ch pt i) = p_pid (pt i)"
  "p_parent (woken ch pt i) = p_parent (pt i)"
  "p_chan (woken ch pt i) = p_chan (pt i)"
  "p_killed (woken ch pt i) = p_killed (pt i)"
  "p_ofile (woken ch pt i) = p_ofile (pt i)"
  "p_cwd (woken ch pt i) = p_cwd (pt i)"
  "p_sz (woken ch pt i) = p_sz (pt i)"
  "p_pgdir (woken ch pt i) = p_pgdir (pt i)"
  "p_kstack (woken ch pt i) = p_kstack (pt i)"
  "p_tf (woken ch pt i) = p_tf (pt i)"
  "p_context (woken ch pt i) = p_context (pt i)"
  "p_name (woken ch pt i) = p_name (pt i)"
  by (simp_all add: woken_def)

lemma woken_woken [simp]: "woken ch (woken ch pt) = woken ch pt"
  by (rule ext) (simp add: woken_def)

lemma woken_state:
  "p_state (woken ch pt i) = (if i < NPROC \<and> p_state (pt i) = SLEEPING \<and> p_chan (pt i) = Some ch
     then RUNNABLE else p_state (pt i))"
  by (simp add: woken_def)

lemma sleep_while_done [simp]: "\<not> c s \<Longrightarrow> sleep_while c ch lk s = Ret () s"
  by (simp add: sleep_while_def iterate_def)

lemma sleep_apply:
  assumes "curproc s = Some p" "held s = {lk}"
  shows "sleep ch lk s = Switch (asleep p ch s) (\<lambda>s'.
     if lk = LPtable then Ret () (awake p s')
     else obind (release LPtable (awake p s')) (\<lambda>_. acquire lk))"
proof (cases "lk = LPtable")
  case True
  then show ?thesis
    using assms by (simp add: sleep_def sched_def swtch_def asleep_def awake_def kmonad_simps)
next
  case False
  then have "insert LPtable {lk} - {lk} = {LPtable}" by auto
  then show ?thesis
    using assms False
    by (simp add: sleep_def sched_def swtch_def asleep_def awake_def kmonad_simps)
qed

text \<open>
  A loop whose body either leaves it or sleeps and goes round again: when the body sleeps, the loop
  hands over to the scheduler, and when it is resumed the body is run again.
\<close>

lemma iterate_wait:
  assumes body: "body a s = seq (sleep ch lk) (\<lambda>_. ret (Inr a)) s'"
    and s': "curproc s' = Some p" "held s' = {lk}" "lk \<noteq> LPtable"
    and guarded: "\<And>u b t. curproc u = Some p \<Longrightarrow> held u = {lk} \<Longrightarrow> body a u \<noteq> Ret (Inr b) t"
  shows "\<exists>k. iterate body a s = Switch (asleep p ch s') k
    \<and> (\<forall>u. held u = {LPtable} \<longrightarrow> curproc u = Some p \<longrightarrow>
         k u = iterate body a ((awake p u)\<lparr>held := {lk}\<rparr>))"
proof -
  have "oiter body (Ret (Inr a) u) = iterate body a u" if "curproc u = Some p" "held u = {lk}" for u
    using oiter_Inr [of body a u] guarded [OF that] by simp
  then show ?thesis
    using s' by (simp add: iterate_def body sleep_apply kmonad_simps awake_def)
qed

text \<open>
  One round of a waiting loop: the process sleeps, and when it is resumed it looks at the
  condition again.
\<close>

lemma sleep_while_wait:
  assumes "curproc s = Some p" "held s = {lk}" "lk \<noteq> LPtable" "c s"
  shows "\<exists>k. sleep_while c ch lk s = Switch (asleep p ch s) k
    \<and> (\<forall>u. held u = {LPtable} \<longrightarrow> curproc u = Some p \<longrightarrow>
         k u = sleep_while c ch lk ((awake p u)\<lparr>held := {lk}\<rparr>))"
proof -
  let ?body = "\<lambda>_ :: unit. seq (gets c) (\<lambda>b.
     if b then seq (sleep ch lk) (\<lambda>_. ret (Inr ())) else ret (Inl ()))"
  have guarded: "?body () u \<noteq> Ret (Inr b) t" if "curproc u = Some p" "held u = {lk}" for u b t
    using that by (auto simp: sleep_apply kmonad_simps)
  have "oiter ?body (Ret (Inr ()) u) = sleep_while c ch lk u"
    if "curproc u = Some p" "held u = {lk}" for u
    using oiter_Inr [of ?body "()" u] guarded [OF that] by (simp add: sleep_while_def)
  then show ?thesis
    using assms
    by (simp add: sleep_while_def iterate_def sleep_apply kmonad_simps awake_def)
qed



end
