(* ===== verification/Sleeplock.thy ===== *)
theory Sleeplock
  imports Kstate
begin

text \<open>
  The sleep locks of \<open>sleeplock.c\<close>. A sleep lock lives in a buffer or in an inode; the locale
  \<open>sleeplock_cell\<close> states what the code relies on of the place where it lives, and the behaviour of
  the three operations is proved there once, for the buffer cache and the inode cache.
\<close>

section \<open>Operations\<close>

record sleeplock =
  sl_locked :: bool
  sl_pid :: u32

definition initsleeplock :: sleeplock where
  "initsleeplock = \<lparr>sl_locked = False, sl_pid = 0\<rparr>"

text \<open>
  A sleep lock is a field of a buffer or of an inode: \<open>rd\<close> reads it from the state, \<open>wr\<close>
  updates it, and \<open>ch\<close> is its address.
\<close>

definition acquiresleep ::
  "('z kbase_scheme \<Rightarrow> sleeplock) \<Rightarrow> ((sleeplock \<Rightarrow> sleeplock) \<Rightarrow> 'z kbase_scheme \<Rightarrow> 'z kbase_scheme)
    \<Rightarrow> chan \<Rightarrow> (unit, 'z kbase_scheme) km" where
  "acquiresleep rd wr ch =
     seq (acquire (LSleep ch)) (\<lambda>_.
     seq (sleep_while (\<lambda>s. sl_locked (rd s)) ch (LSleep ch)) (\<lambda>_.
     seq (modify (wr (sl_locked_update (\<lambda>_. True)))) (\<lambda>_.
     seq myproc (\<lambda>mp. case mp of None \<Rightarrow> panic ''trap'' | Some p \<Rightarrow>
     seq (gets (\<lambda>s. p_pid (ptable s p))) (\<lambda>pid.
     seq (modify (wr (sl_pid_update (\<lambda>_. pid)))) (\<lambda>_.
     release (LSleep ch)))))))"

definition releasesleep ::
  "((sleeplock \<Rightarrow> sleeplock) \<Rightarrow> 'z kbase_scheme \<Rightarrow> 'z kbase_scheme) \<Rightarrow> chan
    \<Rightarrow> (unit, 'z kbase_scheme) km" where
  "releasesleep wr ch =
     seq (acquire (LSleep ch)) (\<lambda>_.
     seq (modify (wr (sl_locked_update (\<lambda>_. False)))) (\<lambda>_.
     seq (modify (wr (sl_pid_update (\<lambda>_. 0)))) (\<lambda>_.
     seq (wakeup ch) (\<lambda>_.
     release (LSleep ch)))))"

definition holdingsleep ::
  "('z kbase_scheme \<Rightarrow> sleeplock) \<Rightarrow> chan \<Rightarrow> (bool, 'z kbase_scheme) km" where
  "holdingsleep rd ch =
     seq (acquire (LSleep ch)) (\<lambda>_.
     seq (gets (\<lambda>s. sl_locked (rd s))) (\<lambda>r.
     seq (release (LSleep ch)) (\<lambda>_.
     ret r)))"

text \<open>The outcome of a computation that is resumed in the given states one after the other.\<close>

fun resume :: "('r, 's) outcome \<Rightarrow> 's list \<Rightarrow> ('r, 's) outcome" where
  "resume x [] = x"
| "resume x (s # ss) = (case x of Switch t k \<Rightarrow> resume (k s) ss | _ \<Rightarrow> x)"

section \<open>Behaviour\<close>

lemma sleeplock_overwrite [simp]:
  "(\<lambda>x. x\<lparr>sl_locked := a, sl_pid := b\<rparr>) = (\<lambda>_ :: sleeplock. \<lparr>sl_locked = a, sl_pid = b\<rparr>)"
  by (rule ext) (simp add: sleeplock.equality)

locale sleeplock_cell =
  fixes rd :: "'z kbase_scheme \<Rightarrow> sleeplock"
    and wr :: "(sleeplock \<Rightarrow> sleeplock) \<Rightarrow> 'z kbase_scheme \<Rightarrow> 'z kbase_scheme"
    and ch :: chan
  assumes rd_wr [simp]: "rd (wr f s) = f (rd s)"
    and wr_wr: "wr f (wr g s) = wr (\<lambda>x. f (g x)) s"
    and rd_held [simp]: "rd (held_update h s) = rd s"
    and rd_ptable [simp]: "rd (ptable_update pt s) = rd s"
    and wr_held: "wr f (held_update h s) = held_update h (wr f s)"
    and wr_ptable: "wr f (ptable_update pt s) = ptable_update pt (wr f s)"
    and held_wr [simp]: "held (wr f s) = held s"
    and ptable_wr [simp]: "ptable (wr f s) = ptable s"
    and curproc_wr [simp]: "curproc (wr f s) = curproc s"
begin

lemma acquiresleep_free:
  assumes "LSleep ch \<notin> held s" "curproc s = Some p" "\<not> sl_locked (rd s)"
  shows "acquiresleep rd wr ch s =
    Ret () (wr (\<lambda>_. \<lparr>sl_locked = True, sl_pid = p_pid (ptable s p)\<rparr>) s)"
  using assms by (simp add: acquiresleep_def wr_held wr_wr)

lemma releasesleep_apply:
  assumes "LSleep ch \<notin> held s" "LPtable \<notin> held s"
  shows "releasesleep wr ch s = Ret () (wr (\<lambda>_. initsleeplock) (s\<lparr>ptable := woken ch (ptable s)\<rparr>))"
  using assms
  by (simp add: releasesleep_def wakeup_apply wr_held wr_wr wr_ptable initsleeplock_def)

lemma holdingsleep_apply:
  assumes "LSleep ch \<notin> held s"
  shows "holdingsleep rd ch s = Ret (sl_locked (rd s)) s"
  using assms by (simp add: holdingsleep_def)

lemma wait_loop:
  assumes "held s = {LSleep ch}" "curproc s = Some p"
    and "\<forall>u\<in>set us. held u = {LPtable} \<and> curproc u = Some p"
    and "length us = n" "\<forall>i<n. sl_locked (rd ((s # us) ! i))"
  shows "resume (obind (sleep_while (\<lambda>s. sl_locked (rd s)) ch (LSleep ch) s) f) us =
    obind (sleep_while (\<lambda>s. sl_locked (rd s)) ch (LSleep ch)
      (if us = [] then s else (awake p (last us))\<lparr>held := {LSleep ch}\<rparr>)) f"
  using assms
proof (induction us arbitrary: s n)
  case Nil
  then show ?case by simp
next
  case (Cons u us)
  let ?W = "sleep_while (\<lambda>s. sl_locked (rd s)) ch (LSleep ch)"
  let ?u = "(awake p u)\<lparr>held := {LSleep ch}\<rparr>"
  have locked: "sl_locked (rd s)" using Cons.prems(4,5) by force
  obtain k where k: "?W s = Switch (asleep p ch s) k"
    "\<And>u. held u = {LPtable} \<Longrightarrow> curproc u = Some p \<Longrightarrow> k u = ?W ((awake p u)\<lparr>held := {LSleep ch}\<rparr>)"
    using sleep_while_wait [of s p "LSleep ch" "\<lambda>s. sl_locked (rd s)" ch] Cons.prems(1,2) locked
    by auto
  have "resume (obind (?W ?u) f) us =
      obind (?W (if us = [] then ?u else (awake p (last us))\<lparr>held := {LSleep ch}\<rparr>)) f"
  proof (rule Cons.IH [where n = "length us"])
    show "\<forall>i<length us. sl_locked (rd ((?u # us) ! i))"
    proof (intro allI impI)
      fix i assume "i < length us"
      then have "sl_locked (rd ((s # u # us) ! Suc i))" using Cons.prems(4,5) by auto
      then show "sl_locked (rd ((?u # us) ! i))" by (cases i) (auto simp: awake_def)
    qed
  qed (use Cons.prems in \<open>auto simp: awake_def\<close>)
  moreover have "k u = ?W ?u" using k(2) Cons.prems(3) by simp
  ultimately show ?case using k(1) by simp
qed

text \<open>
  A process that finds the lock taken sleeps for as long as it is resumed with the lock
  still taken, and has the lock once it is resumed with the lock free.
\<close>

lemma acquiresleep_resume:
  assumes "held s = {}" "curproc s = Some p"
    and "\<forall>u\<in>set us. held u = {LPtable} \<and> curproc u = Some p"
    and "\<forall>i<length us. sl_locked (rd ((s # us) ! i))"
  shows "if sl_locked (rd (last (s # us)))
     then \<exists>t k. resume (acquiresleep rd wr ch s) us = Switch t k
     else returns (resume (acquiresleep rd wr ch s) us)
            (\<lambda>_ t. sl_locked (rd t) \<and> sl_pid (rd t) = p_pid (ptable (last (s # us)) p) \<and> held t = {})"
proof -
  let ?W = "sleep_while (\<lambda>s. sl_locked (rd s)) ch (LSleep ch)"
  let ?s = "s\<lparr>held := {LSleep ch}\<rparr>"
  define f where "f = (\<lambda>_ :: unit.
     seq (modify (wr (sl_locked_update (\<lambda>_. True)))) (\<lambda>_.
     seq myproc (\<lambda>mp. case mp of None \<Rightarrow> panic ''trap'' | Some p \<Rightarrow>
     seq (gets (\<lambda>s. p_pid (ptable s p))) (\<lambda>pid.
     seq (modify (wr (sl_pid_update (\<lambda>_. pid)))) (\<lambda>_.
     release (LSleep ch))))))"
  let ?e = "if us = [] then ?s else (awake p (last us))\<lparr>held := {LSleep ch}\<rparr>"
  have "acquiresleep rd wr ch s = obind (?W ?s) f"
    using assms(1) by (simp add: acquiresleep_def f_def kmonad_simps)
  moreover have "resume (obind (?W ?s) f) us = obind (?W ?e) f"
  proof (rule wait_loop)
    show "\<forall>i<length us. sl_locked (rd ((?s # us) ! i))"
    proof (intro allI impI)
      fix i assume "i < length us"
      then show "sl_locked (rd ((?s # us) ! i))" using assms(4) by (cases i) auto
    qed
  qed (use assms in auto)
  moreover have e: "held ?e = {LSleep ch}" "curproc ?e = Some p"
    "rd ?e = rd (last (s # us))" "p_pid (ptable ?e p) = p_pid (ptable (last (s # us)) p)"
    using assms by (auto simp: awake_def)
  ultimately show ?thesis
    using sleep_while_wait [of ?e p "LSleep ch" "\<lambda>s. sl_locked (rd s)" ch]
    by (auto simp: f_def kmonad_simps)
qed

end

end
