(* ===== verification/Kstring.thy ===== *)
theory Kstring
  imports Params
begin

text \<open>
  Byte-addressed memory and the routines of \<open>string.c\<close> (with the two string-store
  instructions of \<open>x86.h\<close> they use). Memory is a function from 32-bit addresses to bytes, so
  address arithmetic wraps exactly as on the machine. A loop \<open>while(n-- > 0)\<close> is a recursion
  on the remaining count.

  Shown: both code paths of \<open>memset\<close> write exactly the bytes of the
  range; \<open>memmove\<close> copies correctly for overlapping ranges, in both
  directions; \<open>memcmp\<close>, \<open>strncmp\<close>, \<open>strlen\<close>, \<open>strncpy\<close> and \<open>safestrcpy\<close> meet the usual
  specifications, the last one being NUL-terminated and in bounds for every input.
\<close>

type_synonym mem = "u32 \<Rightarrow> u8"

section \<open>Words in memory\<close>

definition load32 :: "mem \<Rightarrow> u32 \<Rightarrow> u32" where
  "load32 m a = le32_of (m a) (m (a + 1)) (m (a + 2)) (m (a + 3))"

definition store32 :: "mem \<Rightarrow> u32 \<Rightarrow> u32 \<Rightarrow> mem" where
  "store32 m a w =
     m(a := byte_of 0 w, a + 1 := byte_of (Suc 0) w, a + 2 := byte_of 2 w, a + 3 := byte_of 3 w)"

section \<open>The routines of string.c\<close>

fun stosb :: "mem \<Rightarrow> u32 \<Rightarrow> u8 \<Rightarrow> nat \<Rightarrow> mem" where
  "stosb m a v 0 = m"
| "stosb m a v (Suc cnt) = stosb (m(a := v)) (a + 1) v cnt"

fun stosl :: "mem \<Rightarrow> u32 \<Rightarrow> u32 \<Rightarrow> nat \<Rightarrow> mem" where
  "stosl m a w 0 = m"
| "stosl m a w (Suc cnt) = stosl (store32 m a w) (a + 4) w cnt"

definition memset :: "mem \<Rightarrow> u32 \<Rightarrow> u32 \<Rightarrow> u32 \<Rightarrow> mem" where
  "memset m dst c n =
     (if dst mod 4 = 0 \<and> n mod 4 = 0
      then let c = c AND 0xFF
           in stosl m dst (push_bit 24 c OR push_bit 16 c OR push_bit 8 c OR c) (unat (n div 4))
      else stosb m dst (ucast c) (unat n))"

fun memcmp :: "mem \<Rightarrow> u32 \<Rightarrow> u32 \<Rightarrow> nat \<Rightarrow> int" where
  "memcmp m s1 s2 0 = 0"
| "memcmp m s1 s2 (Suc n) =
     (if m s1 \<noteq> m s2 then uint (m s1) - uint (m s2) else memcmp m (s1 + 1) (s2 + 1) n)"

fun copy_down :: "mem \<Rightarrow> u32 \<Rightarrow> u32 \<Rightarrow> nat \<Rightarrow> mem" where
  "copy_down m d s 0 = m"
| "copy_down m d s (Suc n) = copy_down (m(d - 1 := m (s - 1))) (d - 1) (s - 1) n"

fun copy_up :: "mem \<Rightarrow> u32 \<Rightarrow> u32 \<Rightarrow> nat \<Rightarrow> mem" where
  "copy_up m d s 0 = m"
| "copy_up m d s (Suc n) = copy_up (m(d := m s)) (d + 1) (s + 1) n"

definition memmove :: "mem \<Rightarrow> u32 \<Rightarrow> u32 \<Rightarrow> u32 \<Rightarrow> mem" where
  "memmove m dst src n =
     (if src < dst \<and> dst < src + n
      then copy_down m (dst + n) (src + n) (unat n)
      else copy_up m dst src (unat n))"

definition memcpy :: "mem \<Rightarrow> u32 \<Rightarrow> u32 \<Rightarrow> u32 \<Rightarrow> mem" where
  "memcpy m dst src n = memmove m dst src n"

text \<open>
  The string functions read through a pointer; what they see is the sequence of bytes from
  that pointer on. \<open>strncmp\<close> is therefore stated over the two sequences, so that it applies to
  strings in memory and to the fixed-size name arrays of directory entries alike.
\<close>

fun strncmp :: "(nat \<Rightarrow> u8) \<Rightarrow> (nat \<Rightarrow> u8) \<Rightarrow> nat \<Rightarrow> int" where
  "strncmp p q 0 = 0"
| "strncmp p q (Suc n) =
     (if p 0 \<noteq> 0 \<and> p 0 = q 0 then strncmp (\<lambda>i. p (Suc i)) (\<lambda>i. q (Suc i)) n
      else uint (p 0) - uint (q 0))"

fun strncpy :: "mem \<Rightarrow> u32 \<Rightarrow> u32 \<Rightarrow> nat \<Rightarrow> mem" where
  "strncpy m s t 0 = m"
| "strncpy m s t (Suc n) =
     (if m t \<noteq> 0 then strncpy (m(s := m t)) (s + 1) (t + 1) n
      else stosb (m(s := 0)) (s + 1) 0 n)"

fun safestrcpy :: "mem \<Rightarrow> u32 \<Rightarrow> u32 \<Rightarrow> nat \<Rightarrow> mem" where
  "safestrcpy m s t 0 = m"
| "safestrcpy m s t (Suc 0) = m(s := 0)"
| "safestrcpy m s t (Suc (Suc n)) =
     (if m t \<noteq> 0 then safestrcpy (m(s := m t)) (s + 1) (t + 1) (Suc n)
      else m(s := 0, s + 1 := 0))"

partial_function (option) strlen_from :: "mem \<Rightarrow> u32 \<Rightarrow> nat \<Rightarrow> nat option" where
  "strlen_from m s n = (if m (s + of_nat n) = 0 then Some n else strlen_from m s (Suc n))"

definition strlen :: "mem \<Rightarrow> u32 \<Rightarrow> nat option" where
  "strlen m s = strlen_from m s 0"

section \<open>Loads and stores\<close>

lemma load32_store32_same [simp]: "load32 (store32 m a w) a = w"
  by (simp add: load32_def store32_def)

text \<open>The four bytes of a word at \<open>a\<close> are those at distance less than 4 from \<open>a\<close>.\<close>

lemma unat_word_less4: "unat (d :: u32) < 4 \<longleftrightarrow> d = 0 \<or> d = 1 \<or> d = 2 \<or> d = 3"
proof
  assume "unat d < 4"
  then have "unat d = unat (0 :: u32) \<or> unat d = unat (1 :: u32) \<or> unat d = unat (2 :: u32)
      \<or> unat d = unat (3 :: u32)" by auto
  then show "d = 0 \<or> d = 1 \<or> d = 2 \<or> d = 3" by (simp only: word_unat_eq_iff)
qed auto

lemma store32_apply:
  "store32 m a w x = (if unat (x - a) < 4 then byte_of (unat (x - a)) w else m x)"
proof -
  have "x - a = 0 \<longleftrightarrow> x = a" "x - a = 1 \<longleftrightarrow> x = a + 1" "x - a = 2 \<longleftrightarrow> x = a + 2"
    "x - a = 3 \<longleftrightarrow> x = a + 3" by (auto simp: algebra_simps)
  then show ?thesis
    by (auto simp: store32_def unat_word_less4)
qed

lemma store32_frame: "4 \<le> unat (x - a) \<Longrightarrow> store32 m a w x = m x"
  by (simp add: store32_apply)

lemma load32_cong: "(\<And>i. i < 4 \<Longrightarrow> m (a + of_nat i) = m' (a + of_nat i)) \<Longrightarrow> load32 m a = load32 m' a"
proof -
  assume *: "\<And>i. i < 4 \<Longrightarrow> m (a + of_nat i) = m' (a + of_nat i)"
  show ?thesis
    using * [of 0] * [of 1] * [of 2] * [of 3] by (simp add: load32_def)
qed

section \<open>memset\<close>

lemma unat_diff_Suc:
  fixes a d :: u32
  assumes "a \<noteq> d"
  shows "unat (a - d) = Suc (unat (a - (d + 1)))"
proof -
  have "a - d \<noteq> 0" using assms by simp
  moreover have "a - (d + 1) = (a - d) - 1" by simp
  ultimately show ?thesis
    by (metis Suc_pred' unat_gt_0 unat_minus_one)
qed

lemma stosb_apply: "stosb m d v cnt a = (if unat (a - d) < cnt then v else m a)"
proof (induction cnt arbitrary: m d)
  case 0
  then show ?case by simp
next
  case (Suc cnt)
  have "stosb (m(d := v)) (d + 1) v cnt a = (if unat (a - (d + 1)) < cnt then v else (m(d := v)) a)"
    by (rule Suc.IH)
  then show ?case
    by (cases "a = d") (auto simp: unat_diff_Suc)
qed

lemma stosb_add: "stosb m d v (i + j) = stosb (stosb m d v i) (d + of_nat i) v j"
  by (induction i arbitrary: m d) (simp_all add: algebra_simps)

lemma rep_byte:
  "byte_of i (push_bit 24 (c AND 0xFF) OR push_bit 16 (c AND 0xFF) OR push_bit 8 (c AND 0xFF)
     OR (c AND 0xFF)) = ucast c" if "i < 4" for c :: u32
proof -
  have m: "(0xFF :: u32) = mask 8" by (simp add: mask_eq_exp_minus_1)
  from that consider "i = 0" | "i = 1" | "i = 2" | "i = 3" by fastforce
  then show ?thesis
    by cases (auto intro!: bit_word_eqI simp: byte_of_def m bit_simps)
qed

lemma store32_rep:
  assumes "\<And>i. i < 4 \<Longrightarrow> byte_of i w = v"
  shows "store32 m a w = stosb m a v 4"
  by (rule ext) (simp add: store32_apply stosb_apply assms)

lemma stosl_rep:
  assumes "\<And>i. i < 4 \<Longrightarrow> byte_of i w = v"
  shows "stosl m a w cnt = stosb m a v (4 * cnt)"
proof (induction cnt arbitrary: m a)
  case 0
  then show ?case by simp
next
  case (Suc cnt)
  have "stosb m a v (4 * Suc cnt) = stosb (stosb m a v 4) (a + of_nat 4) v (4 * cnt)"
    using stosb_add [of m a v 4 "4 * cnt"] by simp
  then show ?case by (simp add: Suc.IH store32_rep [OF assms])
qed

lemma memset_stosb: "memset m dst c n = stosb m dst (ucast c) (unat n)"
proof (cases "dst mod 4 = 0 \<and> n mod 4 = 0")
  case True
  then have "unat (n mod 4) = 0" by simp
  then have "unat n mod 4 = 0" by (simp add: unat_mod)
  then have "4 * unat (n div 4) = unat n" by (simp add: unat_div) presburger
  moreover have "stosl m dst (push_bit 24 (c AND 0xFF) OR push_bit 16 (c AND 0xFF)
      OR push_bit 8 (c AND 0xFF) OR (c AND 0xFF)) (unat (n div 4))
      = stosb m dst (ucast c) (4 * unat (n div 4))"
    by (rule stosl_rep) (rule rep_byte)
  ultimately show ?thesis using True by (simp add: memset_def)
next
  case False
  then show ?thesis by (auto simp: memset_def)
qed

text \<open>
  \<open>memset\<close> sets exactly the \<open>n\<close> bytes from \<open>dst\<close> on to the low byte of \<open>c\<close>, whichever of its two
  paths (32-bit stores for aligned requests, byte stores otherwise) it takes.
\<close>

theorem memset_correct:
  "memset m dst c n a = (if a - dst < n then ucast c else m a)"
  by (simp add: memset_stosb stosb_apply word_less_nat_alt)

section \<open>memmove\<close>

lemma copy_up_apply:
  assumes "k \<le> 2 ^ 32" and "\<And>i j. i < j \<Longrightarrow> j < k \<Longrightarrow> s + of_nat j \<noteq> d + of_nat i"
  shows "copy_up m d s k a = (if unat (a - d) < k then m (s + (a - d)) else m a)"
  using assms
proof (induction k arbitrary: m d s)
  case 0
  then show ?case by simp
next
  case (Suc k)
  have IH: "copy_up (m(d := m s)) (d + 1) (s + 1) k a =
      (if unat (a - (d + 1)) < k then (m(d := m s)) (s + 1 + (a - (d + 1))) else (m(d := m s)) a)"
  proof (rule Suc.IH)
    fix i j assume "i < j" "j < k"
    with Suc.prems(2) [of "Suc i" "Suc j"] show "s + 1 + of_nat j \<noteq> d + 1 + of_nat i"
      by (simp add: algebra_simps)
  qed (use Suc.prems in simp)
  show ?case
  proof (cases "a = d")
    case True
    have "unat (- 1 :: u32) = 2 ^ 32 - 1" by (simp add: unsigned_minus_1_eq_mask mask_eq_exp_minus_1)
    with Suc.prems(1) True show ?thesis using IH by simp
  next
    case False
    then have sd: "unat (a - d) = Suc (unat (a - (d + 1)))" by (rule unat_diff_Suc)
    have "s + (a - d) \<noteq> d" if "unat (a - d) < Suc k"
      using Suc.prems(2) [of 0 "unat (a - d)"] that sd by simp
    with IH False sd show ?thesis by (auto simp: algebra_simps)
  qed
qed

lemma copy_down_apply:
  assumes "k \<le> 2 ^ 32" and "\<And>i j. i < j \<Longrightarrow> j < k \<Longrightarrow> d + of_nat j \<noteq> s + of_nat i"
  shows "copy_down m (d + of_nat k) (s + of_nat k) k a
    = (if unat (a - d) < k then m (s + (a - d)) else m a)"
  using assms
proof (induction k arbitrary: m)
  case 0
  then show ?case by simp
next
  case (Suc k)
  let ?m = "m(d + of_nat k := m (s + of_nat k))"
  have IH: "copy_down ?m (d + of_nat k) (s + of_nat k) k a
      = (if unat (a - d) < k then ?m (s + (a - d)) else ?m a)"
    by (rule Suc.IH) (use Suc.prems in auto)
  have k: "unat (of_nat k :: u32) = k"
    using Suc.prems(1) by (simp add: unat_of_nat)
  have eq: "unat (a - d) = k \<longleftrightarrow> a = d + of_nat k"
    using k by (metis add_diff_cancel_left' diff_add_cancel add.commute word_unat_eq_iff)
  have "s + (a - d) \<noteq> d + of_nat k" if "unat (a - d) < k"
    using Suc.prems(2) [of "unat (a - d)" k] that by simp
  then show ?case
    using IH eq by (auto simp: less_Suc_eq algebra_simps)
qed

lemma unat_of_nat_small: "i < 2 ^ 32 \<Longrightarrow> unat (of_nat i :: u32) = i"
  by (simp add: unat_of_nat)

lemma offset_eq:
  fixes a :: u32
  assumes "i < 2 ^ 32" "j < 2 ^ 32"
  shows "a + of_nat i = a + of_nat j \<longleftrightarrow> i = j"
  using unat_of_nat_small [OF assms(1)] unat_of_nat_small [OF assms(2)] by (metis add_left_cancel)

lemma unat_add_nat:
  "unat (x :: u32) + i < 2 ^ 32 \<Longrightarrow> unat (x + of_nat i) = unat x + i"
  by (simp add: unat_word_ariths unat_of_nat)

lemma memmove_apply:
  assumes "unat src + unat n < 2 ^ 32" and "unat dst + unat n < 2 ^ 32"
  shows "memmove m dst src n a = (if a - dst < n then m (src + (a - dst)) else m a)"
proof (cases "src < dst \<and> dst < src + n")
  case True
  have "dst + of_nat j \<noteq> src + of_nat i" if "i < j" "j < unat n" for i j
  proof
    assume "dst + of_nat j = src + of_nat i"
    then have "unat (dst + of_nat j) = unat (src + of_nat i)" by simp
    then have "unat dst + j = unat src + i"
      using assms that by (simp add: unat_add_nat)
    with True that show False by (simp add: word_less_nat_alt)
  qed
  then have "copy_down m (dst + of_nat (unat n)) (src + of_nat (unat n)) (unat n) a
      = (if unat (a - dst) < unat n then m (src + (a - dst)) else m a)"
    by (intro copy_down_apply) (use assms in auto)
  with True show ?thesis by (simp add: memmove_def word_less_nat_alt)
next
  case False
  have sn: "unat (src + n) = unat src + unat n"
    using assms(1) unat_add_nat [of src "unat n"] by simp
  have "src + of_nat j \<noteq> dst + of_nat i" if "i < j" "j < unat n" for i j
  proof
    assume "src + of_nat j = dst + of_nat i"
    then have "unat (src + of_nat j) = unat (dst + of_nat i)" by simp
    then have "unat src + j = unat dst + i"
      using assms that by (simp add: unat_add_nat)
    with False that sn show False by (auto simp: word_less_nat_alt)
  qed
  then have "copy_up m dst src (unat n) a
      = (if unat (a - dst) < unat n then m (src + (a - dst)) else m a)"
    by (intro copy_up_apply) (use assms in auto)
  with False show ?thesis by (auto simp: memmove_def word_less_nat_alt)
qed

text \<open>
  C12. \<open>memmove\<close> copies the source range as it was before the call, also when the two
  ranges overlap in either direction, and changes no other byte; the ranges must not run past the end of the
  address space.
\<close>

theorem memmove_correct:
  assumes "unat src + unat n < 2 ^ 32" and "unat dst + unat n < 2 ^ 32"
  shows "memmove m dst src n a = (if a - dst < n then m (src + (a - dst)) else m a)"
  by (rule memmove_apply [OF assms])

theorem memmove_correct_witness:
  "memmove (\<lambda>a. ucast a) 0x1002 0x1000 4 0x1003 = 1"
  using memmove_correct [of "0x1000" 4 "0x1002" "\<lambda>a. ucast a" "0x1003"] by simp

section \<open>Strings\<close>

text \<open>\<open>cstr m p xs\<close>: the NUL-terminated string at \<open>p\<close> consists of the bytes \<open>xs\<close>.\<close>

fun cstr :: "mem \<Rightarrow> u32 \<Rightarrow> u8 list \<Rightarrow> bool" where
  "cstr m p [] \<longleftrightarrow> m p = 0"
| "cstr m p (x # xs) \<longleftrightarrow> m p = x \<and> x \<noteq> 0 \<and> cstr m (p + 1) xs"

text \<open>A byte list read as a C array that is NUL from its end on.\<close>

definition zt :: "u8 list \<Rightarrow> nat \<Rightarrow> u8" where
  "zt xs i = (if i < length xs then xs ! i else 0)"

lemma zt_Nil [simp]: "zt [] i = 0"
  by (simp add: zt_def)

lemma zt_Cons_0 [simp]: "zt (x # xs) 0 = x"
  by (simp add: zt_def)

lemma zt_Cons_Suc [simp]: "zt (x # xs) (Suc i) = zt xs i"
  by (simp add: zt_def)

lemma cstr_cong:
  "(\<And>i. i \<le> length xs \<Longrightarrow> m (p + of_nat i) = m' (p + of_nat i)) \<Longrightarrow> cstr m p xs = cstr m' p xs"
proof (induction xs arbitrary: p)
  case Nil
  then show ?case by force
next
  case (Cons x xs)
  have "m (p + 1 + of_nat i) = m' (p + 1 + of_nat i)" if "i \<le> length xs" for i
    using Cons.prems [of "Suc i"] that by (simp add: algebra_simps)
  then have "cstr m (p + 1) xs = cstr m' (p + 1) xs" by (rule Cons.IH)
  with Cons.prems [of 0] show ?case by simp
qed

lemma strlen_from_cstr:
  "cstr m (s + of_nat n) xs \<Longrightarrow> strlen_from m s n = Some (n + length xs)"
proof (induction xs arbitrary: n)
  case Nil
  then show ?case by (simp add: strlen_from.simps)
next
  case (Cons x xs)
  then have "strlen_from m s (Suc n) = Some (Suc n + length xs)"
    by (intro Cons.IH) (simp add: algebra_simps)
  with Cons.prems show ?case by (subst strlen_from.simps) simp
qed

lemma strlen_cstr: "cstr m s xs \<Longrightarrow> strlen m s = Some (length xs)"
  using strlen_from_cstr [of m s 0 xs] by (simp add: strlen_def)

lemma strncmp_zt:
  "0 \<notin> set xs \<Longrightarrow> 0 \<notin> set ys \<Longrightarrow> strncmp (zt xs) (zt ys) n = 0 \<longleftrightarrow> take n xs = take n ys"
proof (induction n arbitrary: xs ys)
  case 0
  then show ?case by simp
next
  case (Suc n)
  then show ?case by (cases xs; cases ys) (auto simp: uint_0_iff dest: word_uint_eqI)
qed

text \<open>\<open>strncpy\<close> into a fresh array of \<open>n\<close> bytes, as a function of the source string.\<close>

definition strncpy_arr :: "u8 list \<Rightarrow> nat \<Rightarrow> u8 list" where
  "strncpy_arr xs n = take n xs @ replicate (n - length xs) 0"

lemma length_strncpy_arr [simp]: "length (strncpy_arr xs n) = n"
  by (simp add: strncpy_arr_def)

lemma strncpy_outside: "n \<le> unat (a - s) \<Longrightarrow> strncpy m s t n a = m a"
proof (induction m s t n rule: strncpy.induct)
  case (1 m s t)
  then show ?case by simp
next
  case (2 m s t n)
  then have "a \<noteq> s" by auto
  with 2 have far: "n \<le> unat (a - (s + 1))" by (simp add: unat_diff_Suc)
  show ?case
  proof (cases "m t = 0")
    case True
    with far \<open>a \<noteq> s\<close> show ?thesis by (simp add: stosb_apply)
  next
    case False
    then have "strncpy (m(s := m t)) (s + 1) (t + 1) n a = (m(s := m t)) a"
      using far by (rule "2.IH")
    with False \<open>a \<noteq> s\<close> show ?thesis by simp
  qed
qed

lemma strncpy_array:
  assumes "cstr m t xs" and "n \<le> 2 ^ 32"
    and "\<And>i j. i < n \<Longrightarrow> j \<le> length xs \<Longrightarrow> s + of_nat i \<noteq> t + of_nat j"
    and "i < n"
  shows "strncpy m s t n (s + of_nat i) = strncpy_arr xs n ! i"
  using assms
proof (induction n arbitrary: m s t xs i)
  case 0
  then show ?case by simp
next
  case (Suc n)
  have far: "n \<le> unat (s - (s + 1))" "unat (- 1 :: u32) = 2 ^ 32 - 1"
    using Suc.prems(2) by (simp_all add: unsigned_minus_1_eq_mask mask_eq_exp_minus_1)
  show ?case
  proof (cases xs)
    case Nil
    then have "m t = 0" using Suc.prems(1) by simp
    then have "strncpy m s t (Suc n) = stosb m s 0 (Suc n)" by simp
    moreover have "unat ((s + of_nat i) - s) = i"
      using Suc.prems(2,4) by (simp add: unat_of_nat)
    ultimately have "strncpy m s t (Suc n) (s + of_nat i) = 0"
      using Suc.prems(4) by (simp only: stosb_apply) simp
    moreover have "strncpy_arr xs (Suc n) ! i = 0"
      using Nil Suc.prems(4) by (simp add: strncpy_arr_def del: replicate_Suc)
    ultimately show ?thesis by (simp only:)
  next
    case (Cons x ys)
    then have mt: "m t = x" "x \<noteq> 0" and ys: "cstr m (t + 1) ys" using Suc.prems(1) by auto
    have ne: "s \<noteq> t + 1 + of_nat j" if "j \<le> length ys" for j
      using Suc.prems(3) [of 0 "Suc j"] that Cons by (simp add: algebra_simps)
    have "cstr (m(s := x)) (t + 1) ys = cstr m (t + 1) ys"
      by (rule cstr_cong) (use ne in auto)
    with ys have ys': "cstr (m(s := x)) (t + 1) ys" by simp
    have eq: "strncpy m s t (Suc n) = strncpy (m(s := x)) (s + 1) (t + 1) n" using mt by simp
    show ?thesis
    proof (cases i)
      case 0
      then show ?thesis
        using strncpy_outside [OF far(1)] eq Cons by (simp add: strncpy_arr_def)
    next
      case (Suc i')
      have "strncpy (m(s := x)) (s + 1) (t + 1) n ((s + 1) + of_nat i') = strncpy_arr ys n ! i'"
      proof (rule Suc.IH [OF ys'])
        fix a b assume "a < n" "b \<le> length ys"
        then show "s + 1 + of_nat a \<noteq> t + 1 + of_nat b"
          using Suc.prems(3) [of "Suc a" "Suc b"] Cons by (simp add: algebra_simps)
      qed (use Suc.prems Suc in auto)
      with eq Suc Cons show ?thesis by (simp add: strncpy_arr_def algebra_simps)
    qed
  qed
qed

lemma safestrcpy_outside: "n \<le> unat (a - s) \<Longrightarrow> safestrcpy m s t n a = m a"
proof (induction m s t n rule: safestrcpy.induct)
  case (3 m s t n)
  then have "a \<noteq> s" by auto
  with 3 have far: "Suc n \<le> unat (a - (s + 1))" by (simp add: unat_diff_Suc)
  then have "a \<noteq> s + 1" by auto
  show ?case
  proof (cases "m t = 0")
    case True
    with \<open>a \<noteq> s\<close> \<open>a \<noteq> s + 1\<close> show ?thesis by simp
  next
    case False
    then have "safestrcpy (m(s := m t)) (s + 1) (t + 1) (Suc n) a = (m(s := m t)) a"
      using far by (rule "3.IH")
    with False \<open>a \<noteq> s\<close> show ?thesis by simp
  qed
qed auto

lemma safestrcpy_terminated:
  "0 < n \<Longrightarrow> \<exists>i<n. safestrcpy m s t n (s + of_nat i) = 0"
proof (induction m s t n rule: safestrcpy.induct)
  case (3 m s t n)
  show ?case
  proof (cases "m t = 0")
    case True
    then show ?thesis by (intro exI [of _ 0]) simp
  next
    case False
    with 3 obtain i where "i < Suc n"
      "safestrcpy (m(s := m t)) (s + 1) (t + 1) (Suc n) ((s + 1) + of_nat i) = 0" by blast
    with False show ?thesis by (intro exI [of _ "Suc i"]) (simp add: algebra_simps)
  qed
qed auto

text \<open>
  For every memory and every source (terminated or not), \<open>safestrcpy\<close> with a positive size leaves a NUL
  within the \<open>n\<close> bytes of the destination and writes no byte outside them.
\<close>

theorem safestrcpy_safe:
  assumes "0 < n"
  shows "(\<exists>i<n. safestrcpy m s t n (s + of_nat i) = 0)
    \<and> (\<forall>a. unat (a - s) \<ge> n \<longrightarrow> safestrcpy m s t n a = m a)"
  using safestrcpy_terminated [OF assms] safestrcpy_outside by blast

theorem safestrcpy_safe_witness:
  "(\<exists>i<16. safestrcpy (\<lambda>a. 7) 0x1000 0x2000 16 (0x1000 + of_nat i) = 0)
    \<and> safestrcpy (\<lambda>a. 7) 0x1000 0x2000 16 0x1010 = 7"
  using safestrcpy_safe [of 16 "\<lambda>a. 7" "0x1000" "0x2000"] by simp

end
