(* ===== verification/Kalloc.thy ===== *)
theory Kalloc
  imports Kstring Kstate "HOL-Library.Multiset"
begin

text \<open>
  The physical page allocator of \<open>kalloc.c\<close>: a free list threaded through the free pages
  themselves, so the list lives in the memory it allocates. The abstraction relation
  \<open>free_list\<close> reads the list of free pages off the memory; \<open>kalloc\<close> and \<open>kfree\<close> are shown to take its head and
  to extend it, and the locale \<open>page_allocator\<close> is the contract the rest of the kernel relies on.
\<close>

section \<open>State and operations\<close>

record kmem = kbase +
  mem :: mem
  use_lock :: bool
  freelist :: u32
  kend :: u32   \<comment> \<open>\<open>end[]\<close>, the first address after the kernel image\<close>

definition kfree :: "u32 \<Rightarrow> (unit, 'z kmem_scheme) km" where
  "kfree v = (\<lambda>s.
     if v mod PGSIZE \<noteq> 0 \<or> v < kend s \<or> V2P v \<ge> PHYSTOP then Panic ''kfree''
     else
       seq (modify (\<lambda>s. s\<lparr>mem := memset (mem s) v 1 PGSIZE\<rparr>)) (\<lambda>_.
       seq (gets use_lock) (\<lambda>u. seq (if u then acquire LKmem else ret ()) (\<lambda>_.
       seq (modify (\<lambda>s. s\<lparr>mem := store32 (mem s) v (freelist s)\<rparr>)) (\<lambda>_.
       seq (modify (\<lambda>s. s\<lparr>freelist := v\<rparr>)) (\<lambda>_.
       seq (gets use_lock) (\<lambda>u. if u then release LKmem else ret ())))))) s)"

definition kalloc :: "(u32, 'z kmem_scheme) km" where
  "kalloc =
     seq (gets use_lock) (\<lambda>u. seq (if u then acquire LKmem else ret ()) (\<lambda>_.
     seq (gets freelist) (\<lambda>r.
     seq (if r \<noteq> 0 then modify (\<lambda>s. s\<lparr>freelist := load32 (mem s) r\<rparr>) else ret ()) (\<lambda>_.
     seq (gets use_lock) (\<lambda>u. seq (if u then release LKmem else ret ()) (\<lambda>_.
     ret r))))))"

function freerange_loop :: "u32 \<Rightarrow> u32 \<Rightarrow> (unit, 'z kmem_scheme) km" where
  "freerange_loop p vend =
     (if unat p + unat PGSIZE \<le> unat vend
      then seq (kfree p) (\<lambda>_. freerange_loop (p + PGSIZE) vend)
      else ret ())"
  by auto
termination
proof (relation "measure (\<lambda>(p, vend). unat vend - unat p)")
  fix p vend :: u32
  assume a: "unat p + unat PGSIZE \<le> unat vend"
  have "unat vend < 2 ^ 32" using unsigned_less [of vend] by simp
  with a have "unat (p + PGSIZE) = unat p + 4096" by (simp add: PGSIZE_def unat_word_ariths)
  with a show "((p + PGSIZE, vend), (p, vend)) \<in> measure (\<lambda>(p, vend). unat vend - unat p)"
    by (simp add: PGSIZE_def)
qed simp

definition freerange :: "u32 \<Rightarrow> u32 \<Rightarrow> (unit, 'z kmem_scheme) km" where
  "freerange vstart vend = freerange_loop (PGROUNDUP vstart) vend"

definition kinit1 :: "u32 \<Rightarrow> u32 \<Rightarrow> (unit, 'z kmem_scheme) km" where
  "kinit1 vstart vend =
     seq (initlock LKmem) (\<lambda>_.
     seq (modify (\<lambda>s. s\<lparr>use_lock := False\<rparr>)) (\<lambda>_.
     freerange vstart vend))"

definition kinit2 :: "u32 \<Rightarrow> u32 \<Rightarrow> (unit, 'z kmem_scheme) km" where
  "kinit2 vstart vend =
     seq (freerange vstart vend) (\<lambda>_.
     modify (\<lambda>s. s\<lparr>use_lock := True\<rparr>))"

section \<open>Abstraction\<close>

text \<open>A page \<open>kfree\<close> accepts.\<close>

definition usable_page :: "u32 \<Rightarrow> u32 \<Rightarrow> bool" where
  "usable_page e v \<longleftrightarrow> v mod PGSIZE = 0 \<and> e \<le> v \<and> V2P v < PHYSTOP"

text \<open>The pages on the list that starts at \<open>p\<close>, each page holding the address of the next.\<close>

fun list_at :: "mem \<Rightarrow> u32 \<Rightarrow> u32 list \<Rightarrow> bool" where
  "list_at m p [] \<longleftrightarrow> p = 0"
| "list_at m p (x # xs) \<longleftrightarrow> p = x \<and> p \<noteq> 0 \<and> list_at m (load32 m p) xs"

definition free_list :: "'z kmem_scheme \<Rightarrow> u32 list \<Rightarrow> bool" where
  "free_list s xs \<longleftrightarrow> LKmem \<notin> held s \<and> list_at (mem s) (freelist s) xs \<and> distinct xs
     \<and> (\<forall>x\<in>set xs. usable_page (kend s) x)"

text \<open>The whole pages between \<open>p\<close> and \<open>vend\<close>.\<close>

definition pages_between :: "u32 \<Rightarrow> u32 \<Rightarrow> u32 list" where
  "pages_between p vend =
     map (\<lambda>i. p + of_nat (4096 * i)) [0 ..< (unat vend - unat p) div 4096]"

text \<open>Repeated allocation and release.\<close>

fun alloc_many :: "(u32, 's) km \<Rightarrow> nat \<Rightarrow> (u32 list, 's) km" where
  "alloc_many al 0 = ret []"
| "alloc_many al (Suc n) = seq al (\<lambda>p. seq (alloc_many al n) (\<lambda>ps. ret (p # ps)))"

fun free_many :: "(u32 \<Rightarrow> (unit, 's) km) \<Rightarrow> u32 list \<Rightarrow> (unit, 's) km" where
  "free_many fr [] = ret ()"
| "free_many fr (p # ps) = seq (fr p) (\<lambda>_. free_many fr ps)"

section \<open>Pages\<close>

lemma aligned_unat: "v mod PGSIZE = 0 \<longleftrightarrow> unat v mod 4096 = 0"
proof -
  have "v mod PGSIZE = 0 \<longleftrightarrow> unat (v mod PGSIZE) = 0" by (simp add: word_unat_eq_iff)
  also have "\<dots> \<longleftrightarrow> unat v mod 4096 = 0" by (simp only: unat_mod PGSIZE_def) simp
  finally show ?thesis .
qed

lemma aligned_room: "unat (v :: u32) mod 4096 = 0 \<Longrightarrow> i < 4096 \<Longrightarrow> unat v + i < 2 ^ 32"
proof -
  assume *: "unat v mod 4096 = 0" "i < 4096"
  have b: "unat v < 2 ^ 32" using unsigned_less [of v] by simp
  obtain k where k: "unat v = 4096 * k" using *(1) by (auto simp: mod_eq_0_iff_dvd elim: dvdE)
  with b have "k < 2 ^ 20" by simp
  with k *(2) show ?thesis by simp
qed

lemma page_disjoint:
  fixes v x :: u32
  assumes "unat v mod 4096 = 0" "unat x mod 4096 = 0" "x \<noteq> v" "i < 4096"
  shows "4096 \<le> unat (x + of_nat i - v)"
proof (rule ccontr)
  assume near: "\<not> ?thesis"
  define j where "j = unat (x + of_nat i - v)"
  have j: "j < 4096" using near by (simp add: j_def)
  have "x + of_nat i = v + of_nat j" by (simp add: j_def)
  then have "unat (x + of_nat i) = unat (v + of_nat j)" by simp
  then have "unat x + i = unat v + j"
    using assms(1,2,4) j aligned_room by (simp add: unat_add_nat)
  moreover obtain k l where kl: "unat x = 4096 * k" "unat v = 4096 * l"
    using assms(1,2) by (auto simp: mod_eq_0_iff_dvd elim!: dvdE)
  ultimately have "(4096 * k + i) div 4096 = (4096 * l + j) div 4096" by simp
  with kl assms(4) j have "unat x = unat v" by simp
  with assms(3) show False by (simp add: word_unat_eq_iff)
qed

lemma usable_nonzero: "usable_page e v \<Longrightarrow> v \<noteq> 0"
  by (auto simp: usable_page_def V2P_def KERNBASE_def PHYSTOP_def)

lemma usable_aligned: "usable_page e v \<Longrightarrow> unat v mod 4096 = 0"
  by (simp add: usable_page_def aligned_unat)

lemma load32_other_page:
  assumes "unat v mod 4096 = 0" "unat x mod 4096 = 0" "x \<noteq> v"
    and "\<And>a. 4096 \<le> unat (a - v) \<Longrightarrow> m' a = m a"
  shows "load32 m' x = load32 m x"
  by (rule load32_cong) (rule assms(4), rule page_disjoint, use assms in auto)

lemma list_at_frame:
  assumes "list_at m p xs" "v \<notin> set xs" "unat v mod 4096 = 0" "\<forall>x\<in>set xs. unat x mod 4096 = 0"
    and "\<And>a. 4096 \<le> unat (a - v) \<Longrightarrow> m' a = m a"
  shows "list_at m' p xs"
  using assms
proof (induction xs arbitrary: p)
  case (Cons x xs)
  then have "load32 m' x = load32 m x" by (intro load32_other_page) auto
  with Cons show ?case by auto
qed simp

section \<open>kfree and kalloc\<close>

lemma kfree_mem_frame:
  "4096 \<le> unat (a - v) \<Longrightarrow> store32 (memset m v 1 PGSIZE) v w a = m a"
  by (simp add: store32_frame memset_stosb stosb_apply PGSIZE_def)

lemma kfree_apply:
  assumes "LKmem \<notin> held s" "usable_page (kend s) v"
  shows "kfree v s =
    Ret () (s\<lparr>mem := store32 (memset (mem s) v 1 PGSIZE) v (freelist s), freelist := v\<rparr>)"
  using assms by (simp add: kfree_def usable_page_def not_le not_less)

lemma kfree_panic: "\<not> usable_page (kend s) v \<Longrightarrow> kfree v s = Panic ''kfree''"
  by (auto simp: kfree_def usable_page_def not_le not_less)

lemma kfree_free_list:
  assumes "free_list s xs" "usable_page (kend s) v" "v \<notin> set xs"
  shows "returns (kfree v s) (\<lambda>_ t. free_list t (v # xs) \<and> held t = held s \<and> kend t = kend s
    \<and> use_lock t = use_lock s \<and> (\<forall>a. 4096 \<le> unat (a - v) \<longrightarrow> mem t a = mem s a))"
proof -
  let ?m = "store32 (memset (mem s) v 1 PGSIZE) v (freelist s)"
  have "list_at ?m (freelist s) xs"
    by (rule list_at_frame [where m = "mem s" and v = v])
      (use assms kfree_mem_frame in \<open>auto simp: free_list_def usable_aligned\<close>)
  then show ?thesis
    using assms by (simp add: kfree_apply free_list_def usable_nonzero kfree_mem_frame)
qed

lemma kalloc_apply:
  assumes "free_list s xs"
  shows "kalloc s = (case xs of [] \<Rightarrow> Ret 0 s
    | x # ys \<Rightarrow> Ret x (s\<lparr>freelist := load32 (mem s) x\<rparr>))"
  using assms by (cases xs) (auto simp: kalloc_def free_list_def kmonad_simps)

lemma kalloc_free_list:
  assumes "free_list s (x # xs)"
  shows "returns (kalloc s) (\<lambda>r t. r = x \<and> free_list t xs \<and> held t = held s \<and> kend t = kend s
    \<and> mem t = mem s \<and> use_lock t = use_lock s)"
  using assms by (simp add: kalloc_apply [OF assms]) (auto simp: free_list_def)

section \<open>The contract of a page allocator\<close>

locale page_allocator =
  fixes alloc :: "(u32, 's) km"
    and release_page :: "u32 \<Rightarrow> (unit, 's) km"
    and free_pages :: "'s \<Rightarrow> u32 list \<Rightarrow> bool"
    and acceptable :: "'s \<Rightarrow> u32 \<Rightarrow> bool"
  assumes alloc_empty: "free_pages s [] \<Longrightarrow> returns (alloc s) (\<lambda>r t. r = 0 \<and> free_pages t [])"
    and alloc_page: "free_pages s (x # xs) \<Longrightarrow> returns (alloc s)
          (\<lambda>r t. r = x \<and> free_pages t xs \<and> (\<forall>v. acceptable t v = acceptable s v))"
    and release_page: "free_pages s xs \<Longrightarrow> acceptable s v \<Longrightarrow> v \<notin> set xs \<Longrightarrow>
          returns (release_page v s)
            (\<lambda>_ t. free_pages t (v # xs) \<and> (\<forall>w. acceptable t w = acceptable s w))"
    and free_distinct: "free_pages s xs \<Longrightarrow> distinct xs"
    and free_acceptable: "free_pages s xs \<Longrightarrow> x \<in> set xs \<Longrightarrow> acceptable s x"
    and acceptable_nonzero: "acceptable s x \<Longrightarrow> x \<noteq> 0"
begin

lemma alloc_many_prefix:
  "free_pages s xs \<Longrightarrow> n \<le> length xs \<Longrightarrow>
   returns (alloc_many alloc n s) (\<lambda>ps t. ps = take n xs \<and> free_pages t (drop n xs)
     \<and> (\<forall>v. acceptable t v = acceptable s v))"
proof (induction n arbitrary: s xs)
  case 0
  then show ?case by simp
next
  case (Suc n)
  then obtain x ys where xs: "xs = x # ys" by (cases xs) auto
  obtain t where t: "alloc s = Ret x t" "free_pages t ys" "\<forall>v. acceptable t v = acceptable s v"
    using alloc_page [of s x ys] Suc.prems xs by (auto elim!: returnsE)
  have "returns (alloc_many alloc n t) (\<lambda>ps u. ps = take n ys \<and> free_pages u (drop n ys)
     \<and> (\<forall>v. acceptable u v = acceptable t v))"
    using Suc.IH [OF t(2)] Suc.prems xs by simp
  then show ?case using t xs by (auto elim!: returnsE)
qed

lemma free_many_all:
  "free_pages s xs \<Longrightarrow> distinct (ps @ xs) \<Longrightarrow> (\<forall>p\<in>set ps. acceptable s p) \<Longrightarrow>
   returns (free_many release_page ps s) (\<lambda>_ t. free_pages t (rev ps @ xs)
     \<and> (\<forall>v. acceptable t v = acceptable s v))"
proof (induction ps arbitrary: s xs)
  case Nil
  then show ?case by simp
next
  case (Cons p ps)
  obtain t where t: "release_page p s = Ret () t" "free_pages t (p # xs)"
    "\<forall>v. acceptable t v = acceptable s v"
    using release_page [of s xs p] Cons.prems by (auto elim!: returnsE)
  have "returns (free_many release_page ps t) (\<lambda>_ u. free_pages u (rev ps @ (p # xs))
     \<and> (\<forall>v. acceptable u v = acceptable t v))"
    using Cons.IH [OF t(2)] Cons.prems t(3) by auto
  then show ?case using t by (auto elim!: returnsE)
qed

text \<open>A batch of allocations never hands out a page twice, and releasing the batch gives every page back.\<close>

lemma alloc_then_free:
  assumes "free_pages s xs" "n \<le> length xs"
  shows "returns (alloc_many alloc n s) (\<lambda>ps t.
      length ps = n \<and> distinct ps \<and> 0 \<notin> set ps \<and> set ps \<inter> set (drop n xs) = {}
      \<and> free_pages t (drop n xs)
      \<and> returns (free_many release_page ps t) (\<lambda>_ u. \<exists>ys. free_pages u ys \<and> mset ys = mset xs))"
proof -
  obtain t where t: "alloc_many alloc n s = Ret (take n xs) t" "free_pages t (drop n xs)"
    "\<forall>v. acceptable t v = acceptable s v"
    using alloc_many_prefix [OF assms] by (auto elim!: returnsE)
  have d: "distinct (take n xs @ drop n xs)" using free_distinct [OF assms(1)] by simp
  then have disj: "set (take n xs) \<inter> set (drop n xs) = {}" by (simp only: distinct_append)
  have a: "\<forall>p\<in>set (take n xs). acceptable t p"
    using t(3) free_acceptable [OF assms(1)] by (auto dest: in_set_takeD)
  have nz: "0 \<notin> set (take n xs)" using a acceptable_nonzero by blast
  have f: "returns (free_many release_page (take n xs) t)
      (\<lambda>_ u. free_pages u (rev (take n xs) @ drop n xs) \<and> (\<forall>v. acceptable u v = acceptable t v))"
    by (rule free_many_all [OF t(2) d a])
  have "mset (rev (take n xs) @ drop n xs) = mset xs"
    by (metis append_take_drop_id mset_append mset_rev)
  with f have "returns (free_many release_page (take n xs) t)
      (\<lambda>_ u. \<exists>ys. free_pages u ys \<and> mset ys = mset xs)"
    by (elim returns_mono) blast
  then show ?thesis
    using t d nz disj assms(2) by simp
qed

end

interpretation ka: page_allocator kalloc kfree free_list "\<lambda>s. usable_page (kend s)"
proof unfold_locales
  fix s :: "'a kmem_scheme"
  assume "free_list s []"
  then show "returns (kalloc s) (\<lambda>r t. r = 0 \<and> free_list t [])" by (simp add: kalloc_apply)
next
  fix s :: "'a kmem_scheme" and x xs
  assume "free_list s (x # xs)"
  from kalloc_free_list [OF this]
  show "returns (kalloc s) (\<lambda>r t. r = x \<and> free_list t xs
      \<and> (\<forall>v. usable_page (kend t) v = usable_page (kend s) v))"
    by (rule returns_mono) simp
next
  fix s :: "'a kmem_scheme" and v xs
  assume "free_list s xs" "usable_page (kend s) v" "v \<notin> set xs"
  from kfree_free_list [OF this]
  show "returns (kfree v s) (\<lambda>_ t. free_list t (v # xs)
      \<and> (\<forall>w. usable_page (kend t) w = usable_page (kend s) w))"
    by (rule returns_mono) simp
next
  fix s :: "'a kmem_scheme" and x
  assume "usable_page (kend s) x"
  then show "x \<noteq> 0" by (rule usable_nonzero)
qed (simp_all add: free_list_def)

section \<open>Initialisation\<close>

declare freerange_loop.simps [simp del]

lemma pages_between_rec:
  "pages_between p vend =
     (if unat p + 4096 \<le> unat vend then p # pages_between (p + PGSIZE) vend else [])"
proof (cases "unat p + 4096 \<le> unat vend")
  case True
  have "unat vend < 2 ^ 32" using unsigned_less [of vend] by simp
  with True have "unat (p + PGSIZE) = unat p + 4096" by (simp add: PGSIZE_def unat_word_ariths)
  moreover have "(unat vend - unat p) div 4096 = Suc ((unat vend - (unat p + 4096)) div 4096)"
    using True by (simp add: le_div_geq)
  ultimately show ?thesis
    using True by (simp add: pages_between_def upt_conv_Cons map_Suc_upt [symmetric] PGSIZE_def
        algebra_simps del: upt_Suc)
next
  case False
  then have "(unat vend - unat p) div 4096 = 0" by simp
  with False show ?thesis by (simp add: pages_between_def)
qed

lemma pages_between_bounds:
  "x \<in> set (pages_between p vend) \<Longrightarrow> unat p \<le> unat x \<and> unat x + 4096 \<le> unat vend
     \<and> unat x mod 4096 = unat p mod 4096"
proof -
  assume "x \<in> set (pages_between p vend)"
  then obtain i where i: "i < (unat vend - unat p) div 4096" "x = p + of_nat (4096 * i)"
    by (auto simp: pages_between_def)
  have "unat vend < 2 ^ 32" using unsigned_less [of vend] by simp
  moreover have "Suc i * 4096 \<le> unat vend - unat p"
    using i(1) by (meson Suc_leI div_times_less_eq_dividend le_trans mult_le_mono1)
  ultimately have "unat x = unat p + 4096 * i" "unat p + 4096 * i + 4096 \<le> unat vend"
    using i(2) unat_add_nat [of p "4096 * i"] by auto
  then show ?thesis by auto
qed

lemma freerange_loop_free_list:
  assumes "free_list s xs" "\<forall>v\<in>set (pages_between p vend). usable_page (kend s) v \<and> v \<notin> set xs"
  shows "returns (freerange_loop p vend s) (\<lambda>_ t. free_list t (rev (pages_between p vend) @ xs)
     \<and> held t = held s \<and> kend t = kend s \<and> use_lock t = use_lock s)"
  using assms
proof (induction p vend arbitrary: s xs rule: freerange_loop.induct)
  case (1 p vend)
  show ?case
  proof (cases "unat p + unat PGSIZE \<le> unat vend")
    case True
    then have pb: "pages_between p vend = p # pages_between (p + PGSIZE) vend"
      by (subst pages_between_rec) (simp add: PGSIZE_def)
    have "p \<notin> set (pages_between (p + PGSIZE) vend)"
    proof
      assume "p \<in> set (pages_between (p + PGSIZE) vend)"
      then have "unat (p + PGSIZE) \<le> unat p" using pages_between_bounds by blast
      moreover have "unat (p + PGSIZE) = unat p + 4096"
        using True u32_bound [of vend] by (simp add: PGSIZE_def unat_word_ariths)
      ultimately show False by simp
    qed
    then have fresh: "\<forall>v\<in>set (pages_between (p + PGSIZE) vend). v \<notin> set (p # xs)"
      using "1.prems"(2) pb by auto
    obtain t where t: "kfree p s = Ret () t" "free_list t (p # xs)" "held t = held s"
      "kend t = kend s" "use_lock t = use_lock s"
      using kfree_free_list [of s xs p] "1.prems" pb by (auto elim!: returnsE)
    have "returns (freerange_loop (p + PGSIZE) vend t)
        (\<lambda>_ u. free_list u (rev (pages_between (p + PGSIZE) vend) @ (p # xs))
          \<and> held u = held t \<and> kend u = kend t \<and> use_lock u = use_lock t)"
      using "1.IH" [OF True t(2)] fresh "1.prems"(2) pb t(4) by simp
    then show ?thesis
      using t pb True by (subst freerange_loop.simps) simp
  next
    case False
    then have "pages_between p vend = []"
      by (subst pages_between_rec) (simp add: PGSIZE_def)
    then show ?thesis using False "1.prems" by (subst freerange_loop.simps) simp
  qed
qed

lemma usable_between:
  assumes "unat p mod 4096 = 0" "unat e \<le> unat p" "unat KERNBASE \<le> unat p"
    "unat vend \<le> unat (P2V PHYSTOP)" "x \<in> set (pages_between p vend)"
  shows "usable_page e x"
proof -
  have x: "unat p \<le> unat x" "unat x + 4096 \<le> unat vend" "unat x mod 4096 = 0"
    using pages_between_bounds [OF assms(5)] assms(1) by auto
  have "KERNBASE \<le> x" using x(1) assms(3) by (simp add: word_le_nat_alt)
  then have "unat (V2P x) = unat x - unat KERNBASE"
    by (simp add: V2P_def unat_sub)
  then have "unat (V2P x) < unat PHYSTOP"
    using x(2) assms(4) by (simp add: P2V_def KERNBASE_def PHYSTOP_def)
  then show ?thesis
    using x assms(2) by (simp add: usable_page_def aligned_unat word_le_nat_alt word_less_nat_alt)
qed

text \<open>
  C21. Initialisation of the allocator as \<open>main.c\<close> does it (\<open>kalloc.c\<close>): \<open>kinit1(v, m)\<close> and then \<open>kinit2(m, vend)\<close>, from the end
  of the kernel image to a page-aligned \<open>m\<close> and from there to an end within physical memory,
  never panics, puts exactly the whole pages of the two ranges on the free list, each once, the
  last one first, and leaves the allocator using its lock.
\<close>

theorem kinit_free_list:
  assumes "freelist s = 0" "kend s \<le> v" "KERNBASE \<le> v" "v \<le> m" "m \<le> vend" "vend \<le> P2V PHYSTOP"
    and "m mod PGSIZE = 0"
  shows "returns (seq (kinit1 v m) (\<lambda>_. kinit2 m vend) s) (\<lambda>_ t.
     free_list t (rev (pages_between (PGROUNDUP v) m @ pages_between m vend))
     \<and> use_lock t \<and> held t = held s - {LKmem})"
proof -
  let ?s = "s\<lparr>held := held s - {LKmem}, use_lock := False\<rparr>"
  have bounds: "unat (kend s) \<le> unat v" "unat KERNBASE \<le> unat v" "unat v \<le> unat m"
      "unat m \<le> unat vend" "unat vend \<le> unat (P2V PHYSTOP)"
    using assms by (simp_all add: word_le_nat_alt)
  have m0: "unat m mod 4096 = 0" using assms(7) by (simp add: aligned_unat)
  have vm: "unat v + 4095 < 2 ^ 32"
    using bounds by (simp add: P2V_def KERNBASE_def PHYSTOP_def)
  have up: "unat (PGROUNDUP v) mod 4096 = 0" "unat v \<le> unat (PGROUNDUP v)"
    using unat_PGROUNDUP [OF vm] by auto
  have fl: "free_list ?s []" using assms(1) by (simp add: free_list_def)
  have "returns (freerange_loop (PGROUNDUP v) m ?s) (\<lambda>_ t.
      free_list t (rev (pages_between (PGROUNDUP v) m) @ [])
      \<and> held t = held ?s \<and> kend t = kend ?s \<and> use_lock t = use_lock ?s)"
    by (rule freerange_loop_free_list [OF fl])
      (use usable_between [OF up(1), of "kend s" m] up(2) bounds in auto)
  then obtain t where t: "freerange_loop (PGROUNDUP v) m ?s = Ret () t"
      "free_list t (rev (pages_between (PGROUNDUP v) m))"
      "held t = held s - {LKmem}" "kend t = kend s"
    by (auto elim!: returnsE)
  have mm: "PGROUNDUP m = m"
  proof -
    have "unat m + 4095 < 2 ^ 32" using bounds by (simp add: P2V_def KERNBASE_def PHYSTOP_def)
    moreover obtain k where "unat m = 4096 * k" using m0 by (auto simp: mod_eq_0_iff_dvd elim!: dvdE)
    ultimately have "unat (PGROUNDUP m) = unat m" by (simp add: unat_PGROUNDUP)
    then show ?thesis by (simp add: word_unat_eq_iff)
  qed
  have "returns (freerange_loop m vend t) (\<lambda>_ u.
      free_list u (rev (pages_between m vend) @ rev (pages_between (PGROUNDUP v) m))
      \<and> held u = held t \<and> kend u = kend t \<and> use_lock u = use_lock t)"
  proof (rule freerange_loop_free_list [OF t(2)], intro ballI conjI)
    fix x assume x: "x \<in> set (pages_between m vend)"
    show "usable_page (kend t) x"
      by (rule usable_between [OF m0 _ _ _ x]) (use bounds t(4) in auto)
    show "x \<notin> set (rev (pages_between (PGROUNDUP v) m))"
      using pages_between_bounds [OF x] pages_between_bounds [of x "PGROUNDUP v" m] by auto
  qed
  then show ?thesis
    using t mm by (auto simp: kinit1_def kinit2_def freerange_def free_list_def elim!: returnsE)
qed

theorem kinit_free_list_witness:
  "returns (seq (kinit1 0x803FD123 0x80400000) (\<lambda>_. kinit2 0x80400000 0x80401000)
      \<lparr>held = {}, ptable = (\<lambda>_. zero_proc), curproc = None, mem = (\<lambda>_. 0), use_lock = False, freelist = 0,
       kend = 0x803FD123\<rparr>)
    (\<lambda>_ t. free_list t [0x80400000, 0x803FF000, 0x803FE000])"
proof -
  let ?s = "\<lparr>held = {}, ptable = (\<lambda>_. zero_proc), curproc = None, mem = (\<lambda>_. 0), use_lock = False,
    freelist = 0, kend = 0x803FD123\<rparr>"
  have "returns (seq (kinit1 0x803FD123 0x80400000) (\<lambda>_. kinit2 0x80400000 0x80401000) ?s) (\<lambda>_ t.
     free_list t (rev (pages_between (PGROUNDUP 0x803FD123) 0x80400000
       @ pages_between 0x80400000 0x80401000)) \<and> use_lock t \<and> held t = held ?s - {LKmem})"
    by (rule kinit_free_list) (simp_all add: const_defs P2V_def)
  moreover have "PGROUNDUP 0x803FD123 = 0x803FE000" by (simp add: PGROUNDUP_def PGSIZE_def)
  ultimately show ?thesis
    by (auto simp: pages_between_def upt_rec elim!: returns_mono)
qed

text \<open>
  C20. The contract of the page allocator (\<open>kalloc.c\<close>): as long as pages are free, \<open>n\<close> calls of \<open>kalloc\<close> return \<open>n\<close> different
  non-null pages that are no longer on the free list, and freeing them all with \<open>kfree\<close> never
  panics and restores the same set of free pages.
\<close>

theorem kalloc_kfree_contract:
  assumes "free_list s xs" "n \<le> length xs"
  shows "returns (alloc_many kalloc n s) (\<lambda>ps t.
      length ps = n \<and> distinct ps \<and> 0 \<notin> set ps \<and> set ps \<inter> set (drop n xs) = {}
      \<and> free_list t (drop n xs)
      \<and> returns (free_many kfree ps t) (\<lambda>_ u. \<exists>ys. free_list u ys \<and> mset ys = mset xs))"
  by (rule ka.alloc_then_free [OF assms])

theorem kalloc_kfree_contract_witness:
  "returns (alloc_many kalloc 1
      \<lparr>held = {}, ptable = (\<lambda>_. zero_proc), curproc = None, mem = (\<lambda>_. 0), use_lock = True,
       freelist = 0x80400000, kend = 0x80300000\<rparr>)
    (\<lambda>ps t. length ps = 1 \<and> free_list t []
       \<and> returns (free_many kfree ps t) (\<lambda>_ u. \<exists>ys. free_list u ys \<and> mset ys = {#0x80400000#}))"
proof -
  let ?s = "\<lparr>held = {}, ptable = (\<lambda>_. zero_proc), curproc = None, mem = (\<lambda>_. 0 :: u8), use_lock = True,
       freelist = 0x80400000, kend = 0x80300000\<rparr>"
  have "free_list ?s [0x80400000]"
    by (simp add: free_list_def usable_page_def load32_def le32_of_def const_defs V2P_def)
  from kalloc_kfree_contract [OF this, of 1] show ?thesis
    by (auto elim!: returns_mono)
qed

end
