(* ===== verification/Memide.thy ===== *)
theory Memide
  imports Sleeplock Kalloc
begin

text \<open>
  Buffers (\<open>buf.h\<close>) and the disk driver of the kernel that keeps the file system image in
  memory (\<open>memide.c\<close>, the driver of the \<open>kernelmemfs\<close> build). The disk is a function from block
  numbers to blocks of \<open>BSIZE\<close> bytes. The writes it receives are also recorded in order, so that a crash between any
  two of them can be described.
\<close>

section \<open>Buffers and the disk\<close>

text \<open>\<open>B_VALID\<close> and \<open>B_DIRTY\<close> of \<open>flags\<close> are the fields \<open>b_valid\<close> and \<open>b_dirty\<close>.\<close>

record buf =
  b_valid :: bool
  b_dirty :: bool
  b_dev :: nat
  b_blockno :: nat
  b_lock :: sleeplock
  b_refcnt :: u32
  b_data :: "u8 list"

record kdisk = kmem +
  bufs :: "nat \<Rightarrow> buf"
  lru :: "nat list"    \<comment> \<open>the buffers from \<open>bcache.head.next\<close> on\<close>
  disk :: "nat \<Rightarrow> u8 list"
  disksize :: nat
  dtrace :: "(nat \<times> u8 list) list"   \<comment> \<open>ghost: the blocks written to the disk so far, oldest first\<close>

definition upd_buf :: "nat \<Rightarrow> (buf \<Rightarrow> buf) \<Rightarrow> (unit, 'z kdisk_scheme) km" where
  "upd_buf i f = modify (\<lambda>s. s\<lparr>bufs := (bufs s)(i := f (bufs s i))\<rparr>)"

text \<open>The sleep lock of buffer \<open>i\<close>.\<close>

definition buf_lock :: "nat \<Rightarrow> 'z kdisk_scheme \<Rightarrow> sleeplock" where
  "buf_lock i s = b_lock (bufs s i)"

definition upd_buf_lock ::
  "nat \<Rightarrow> (sleeplock \<Rightarrow> sleeplock) \<Rightarrow> 'z kdisk_scheme \<Rightarrow> 'z kdisk_scheme" where
  "upd_buf_lock i f s = s\<lparr>bufs := (bufs s)(i := (bufs s i)\<lparr>b_lock := f (b_lock (bufs s i))\<rparr>)\<rparr>"

section \<open>The driver\<close>

definition ideinit_mem :: "(nat \<Rightarrow> u8 list) \<Rightarrow> nat \<Rightarrow> (unit, 'z kdisk_scheme) km" where
  "ideinit_mem img img_size = modify (\<lambda>s. s\<lparr>disk := img, disksize := img_size div BSIZE\<rparr>)"

definition iderw :: "nat \<Rightarrow> (unit, 'z kdisk_scheme) km" where
  "iderw i =
     seq (holdingsleep (buf_lock i) (ChBufLock i)) (\<lambda>h.
     seq (gets (\<lambda>s. bufs s i)) (\<lambda>b.
     seq (gets disksize) (\<lambda>size.
     if \<not> h then panic ''iderw: buf not locked''
     else if b_valid b \<and> \<not> b_dirty b then panic ''iderw: nothing to do''
     else if b_dev b \<noteq> 1 then panic ''iderw: request not for disk 1''
     else if b_blockno b \<ge> size then panic ''iderw: block out of range''
     else
       seq (if b_dirty b
            then seq (upd_buf i (b_dirty_update (\<lambda>_. False))) (\<lambda>_.
                 modify (\<lambda>s. s\<lparr>disk := (disk s)(b_blockno b := b_data b),
                                 dtrace := dtrace s @ [(b_blockno b, b_data b)]\<rparr>))
            else seq (gets (\<lambda>s. disk s (b_blockno b))) (\<lambda>d.
                 upd_buf i (b_data_update (\<lambda>_. d)))) (\<lambda>_.
       upd_buf i (b_valid_update (\<lambda>_. True))))))"

section \<open>Evaluation\<close>

lemma upd_buf_apply [simp]:
  "upd_buf i f s = Ret () (s\<lparr>bufs := (bufs s)(i := f (bufs s i))\<rparr>)"
  by (simp add: upd_buf_def)

interpretation bl: sleeplock_cell "buf_lock i" "upd_buf_lock i" "ChBufLock i" for i
  by unfold_locales (simp_all add: buf_lock_def upd_buf_lock_def)

lemma iderw_read:
  assumes "LSleep (ChBufLock i) \<notin> held s" "sl_locked (b_lock (bufs s i))"
    "\<not> b_valid (bufs s i)" "\<not> b_dirty (bufs s i)" "b_dev (bufs s i) = 1"
    "b_blockno (bufs s i) < disksize s"
  shows "iderw i s = Ret () (s\<lparr>bufs := (bufs s)(i :=
    (bufs s i)\<lparr>b_data := disk s (b_blockno (bufs s i)), b_valid := True\<rparr>)\<rparr>)"
  using assms by (simp add: iderw_def bl.holdingsleep_apply buf_lock_def)

lemma iderw_write:
  assumes "LSleep (ChBufLock i) \<notin> held s" "sl_locked (b_lock (bufs s i))"
    "b_dirty (bufs s i)" "b_dev (bufs s i) = 1" "b_blockno (bufs s i) < disksize s"
  shows "iderw i s = Ret () (s\<lparr>disk := (disk s)(b_blockno (bufs s i) := b_data (bufs s i)),
    dtrace := dtrace s @ [(b_blockno (bufs s i), b_data (bufs s i))],
    bufs := (bufs s)(i := (bufs s i)\<lparr>b_dirty := False, b_valid := True\<rparr>)\<rparr>)"
  using assms by (simp add: iderw_def bl.holdingsleep_apply buf_lock_def)

end
