(* ===== verification/Bio.thy ===== *)
theory Bio
  imports Memide
begin

text \<open>
  The buffer cache of \<open>bio.c\<close>. The doubly linked list of buffers is the list \<open>lru\<close> of buffer
  numbers, most recently used first; the theory of the links relates it to the \<open>prev\<close> and \<open>next\<close>
  pointers of the code.

  What the file system sees of the cache is the content of every disk block, \<open>block_view\<close>: the
  data of the buffer that caches the block if there is one, the disk otherwise. \<open>cache_inv\<close> is the
  invariant of the cache while the running process has the buffers in \<open>L\<close> locked.
  Under it \<open>bread\<close> returns the view, \<open>brelse\<close> and recycling of buffers never
  change it, and only a buffer neither referenced nor dirty is ever recycled.
\<close>

section \<open>Operations\<close>

text \<open>\<open>binit\<close> pushes the buffers one after the other at the front of the list.\<close>

fun binit_loop :: "nat list \<Rightarrow> (unit, 'z kdisk_scheme) km" where
  "binit_loop [] = ret ()"
| "binit_loop (b # bs) =
     seq (modify (\<lambda>s. s\<lparr>lru := b # lru s\<rparr>)) (\<lambda>_.
     seq (upd_buf b (b_lock_update (\<lambda>_. initsleeplock))) (\<lambda>_.
     binit_loop bs))"

definition binit :: "(unit, 'z kdisk_scheme) km" where
  "binit =
     seq (initlock LBcache) (\<lambda>_.
     seq (modify (\<lambda>s. s\<lparr>lru := []\<rparr>)) (\<lambda>_.
     binit_loop [0 ..< NBUF]))"

definition bget :: "nat \<Rightarrow> nat \<Rightarrow> (nat, 'z kdisk_scheme) km" where
  "bget dev blockno =
     seq (acquire LBcache) (\<lambda>_.
     seq (gets (\<lambda>s. find (\<lambda>b. b_dev (bufs s b) = dev \<and> b_blockno (bufs s b) = blockno) (lru s))) (\<lambda>r.
     case r of
       Some b \<Rightarrow>
         seq (upd_buf b (b_refcnt_update (\<lambda>n. n + 1))) (\<lambda>_.
         seq (release LBcache) (\<lambda>_.
         seq (acquiresleep (buf_lock b) (upd_buf_lock b) (ChBufLock b)) (\<lambda>_.
         ret b)))
     | None \<Rightarrow>
         seq (gets (\<lambda>s. find (\<lambda>b. b_refcnt (bufs s b) = 0 \<and> \<not> b_dirty (bufs s b)) (rev (lru s)))) (\<lambda>r.
         case r of
           Some b \<Rightarrow>
             seq (upd_buf b (\<lambda>x. x\<lparr>b_dev := dev, b_blockno := blockno, b_valid := False,
                                      b_dirty := False, b_refcnt := 1\<rparr>)) (\<lambda>_.
             seq (release LBcache) (\<lambda>_.
             seq (acquiresleep (buf_lock b) (upd_buf_lock b) (ChBufLock b)) (\<lambda>_.
             ret b)))
         | None \<Rightarrow> panic ''bget: no buffers'')))"

definition bread :: "nat \<Rightarrow> nat \<Rightarrow> (nat, 'z kdisk_scheme) km" where
  "bread dev blockno =
     seq (bget dev blockno) (\<lambda>b.
     seq (gets (\<lambda>s. b_valid (bufs s b))) (\<lambda>v.
     seq (if \<not> v then iderw b else ret ()) (\<lambda>_.
     ret b)))"

definition bwrite :: "nat \<Rightarrow> (unit, 'z kdisk_scheme) km" where
  "bwrite b =
     seq (holdingsleep (buf_lock b) (ChBufLock b)) (\<lambda>h.
     if \<not> h then panic ''bwrite''
     else
       seq (upd_buf b (b_dirty_update (\<lambda>_. True))) (\<lambda>_.
       iderw b))"

definition brelse :: "nat \<Rightarrow> (unit, 'z kdisk_scheme) km" where
  "brelse b =
     seq (holdingsleep (buf_lock b) (ChBufLock b)) (\<lambda>h.
     if \<not> h then panic ''brelse''
     else
       seq (releasesleep (upd_buf_lock b) (ChBufLock b)) (\<lambda>_.
       seq (acquire LBcache) (\<lambda>_.
       seq (upd_buf b (b_refcnt_update (\<lambda>n. n - 1))) (\<lambda>_.
       seq (gets (\<lambda>s. b_refcnt (bufs s b))) (\<lambda>n.
       seq (if n = 0 then modify (\<lambda>s. s\<lparr>lru := b # remove1 b (lru s)\<rparr>) else ret ()) (\<lambda>_.
       release LBcache))))))"

text \<open>Reading and changing the data of a buffer the caller has locked.\<close>

definition bdata :: "nat \<Rightarrow> (u8 list, 'z kdisk_scheme) km" where
  "bdata b = gets (\<lambda>s. b_data (bufs s b))"

definition set_bdata :: "nat \<Rightarrow> u8 list \<Rightarrow> (unit, 'z kdisk_scheme) km" where
  "set_bdata b d = upd_buf b (b_data_update (\<lambda>_. d))"

section \<open>The view of the disk through the cache\<close>

text \<open>Buffer \<open>i\<close> caches block \<open>b\<close> of the disk.\<close>

definition caches :: "'z kdisk_scheme \<Rightarrow> nat \<Rightarrow> nat \<Rightarrow> bool" where
  "caches s i b \<longleftrightarrow> b_dev (bufs s i) = ROOTDEV \<and> b_blockno (bufs s i) = b"

definition block_view :: "'z kdisk_scheme \<Rightarrow> nat \<Rightarrow> u8 list" where
  "block_view s b = (case find (\<lambda>i. caches s i b \<and> b_valid (bufs s i)) [0 ..< NBUF] of
     Some i \<Rightarrow> b_data (bufs s i) | None \<Rightarrow> disk s b)"

text \<open>The blocks whose buffer is pinned by the log.\<close>

definition pinned :: "'z kdisk_scheme \<Rightarrow> nat set" where
  "pinned s = {b. \<exists>i<NBUF. caches s i b \<and> b_dirty (bufs s i)}"

text \<open>The state between two calls of the cache, \<open>L\<close> being the blocks the running process has
  locked, with their buffers.\<close>

definition cache_inv :: "'z kdisk_scheme \<Rightarrow> (nat \<rightharpoonup> nat) \<Rightarrow> bool" where
  "cache_inv s L \<longleftrightarrow>
     held s = {} \<and> curproc s \<noteq> None
   \<and> distinct (lru s) \<and> set (lru s) = {..<NBUF}
   \<and> (\<forall>i j b. i < NBUF \<longrightarrow> j < NBUF \<longrightarrow> caches s i b \<longrightarrow> caches s j b \<longrightarrow> i = j)
   \<and> (\<forall>b i. L b = Some i \<longrightarrow> i < NBUF \<and> caches s i b \<and> b_valid (bufs s i) \<and> b < disksize s)
   \<and> (\<forall>i<NBUF. b_refcnt (bufs s i) = (if i \<in> ran L then 1 else 0)
        \<and> (sl_locked (b_lock (bufs s i)) \<longleftrightarrow> i \<in> ran L)
        \<and> (b_valid (bufs s i) \<and> \<not> b_dirty (bufs s i) \<and> i \<notin> ran L \<and> b_dev (bufs s i) = ROOTDEV \<longrightarrow>
             b_data (bufs s i) = disk s (b_blockno (bufs s i)))
        \<and> (b_dirty (bufs s i) \<longrightarrow> b_valid (bufs s i) \<and> b_dev (bufs s i) = ROOTDEV))"

text \<open>The part of the state the cache may change.\<close>

definition cache_step :: "'z kdisk_scheme \<Rightarrow> 'z kdisk_scheme \<Rightarrow> bool" where
  "cache_step s t \<longleftrightarrow> (\<exists>pt bf l d tr. t = s\<lparr>ptable := pt, bufs := bf, lru := l, disk := d, dtrace := tr\<rparr>)"

lemma cache_step_refl [simp]: "cache_step s s"
  unfolding cache_step_def
  by (intro exI [of _ "ptable s"] exI [of _ "bufs s"] exI [of _ "lru s"] exI [of _ "disk s"]
      exI [of _ "dtrace s"]) simp

lemma cache_step_trans [trans]: "cache_step s t \<Longrightarrow> cache_step t u \<Longrightarrow> cache_step s u"
  by (clarsimp simp: cache_step_def) (intro exI, rule refl)

lemma cache_step_frame:
  "cache_step s t \<Longrightarrow> mem t = mem s \<and> held t = held s \<and> curproc t = curproc s \<and> disksize t = disksize s
     \<and> use_lock t = use_lock s \<and> freelist t = freelist s \<and> kend t = kend s \<and> kdisk.more t = kdisk.more s"
  by (auto simp: cache_step_def)

lemma cache_stepI:
  "t = s\<lparr>ptable := pt, bufs := bf, lru := l, disk := d, dtrace := tr\<rparr> \<Longrightarrow> cache_step s t"
  unfolding cache_step_def by blast

lemma cache_invD:
  assumes "cache_inv s L"
  shows "held s = {}" "curproc s \<noteq> None" "distinct (lru s)" "set (lru s) = {..<NBUF}"
    "i < NBUF \<Longrightarrow> j < NBUF \<Longrightarrow> caches s i b \<Longrightarrow> caches s j b \<Longrightarrow> i = j"
    "L b = Some i \<Longrightarrow> i < NBUF \<and> caches s i b \<and> b_valid (bufs s i) \<and> b < disksize s"
    "i < NBUF \<Longrightarrow> b_refcnt (bufs s i) = (if i \<in> ran L then 1 else 0)"
    "i < NBUF \<Longrightarrow> sl_locked (b_lock (bufs s i)) \<longleftrightarrow> i \<in> ran L"
    "i < NBUF \<Longrightarrow> b_valid (bufs s i) \<Longrightarrow> \<not> b_dirty (bufs s i) \<Longrightarrow> i \<notin> ran L \<Longrightarrow> b_dev (bufs s i) = ROOTDEV
       \<Longrightarrow> b_data (bufs s i) = disk s (b_blockno (bufs s i))"
    "i < NBUF \<Longrightarrow> b_dirty (bufs s i) \<Longrightarrow> b_valid (bufs s i) \<and> b_dev (bufs s i) = ROOTDEV"
  using assms unfolding cache_inv_def by blast+

lemma disk_bufs_commute: "s\<lparr>disk := d, dtrace := tr, bufs := f\<rparr> = s\<lparr>bufs := f, disk := d, dtrace := tr\<rparr>"
  by (cases s) simp

lemma block_view_cases:
  assumes "\<And>i. i < NBUF \<Longrightarrow> caches s i b \<Longrightarrow> b_valid (bufs s i) \<Longrightarrow> b_data (bufs s i) = v"
    and "\<forall>i<NBUF. caches s i b \<longrightarrow> \<not> b_valid (bufs s i) \<Longrightarrow> disk s b = v"
  shows "block_view s b = v"
proof (cases "find (\<lambda>i. caches s i b \<and> b_valid (bufs s i)) [0 ..< NBUF]")
  case None
  then have "\<forall>i<NBUF. caches s i b \<longrightarrow> \<not> b_valid (bufs s i)" by (auto simp: find_None_iff)
  then show ?thesis using None assms(2) by (simp add: block_view_def)
next
  case (Some i)
  then have "i < NBUF" "caches s i b" "b_valid (bufs s i)" by (auto simp: find_Some_iff)
  then show ?thesis using Some assms(1) by (simp add: block_view_def)
qed

lemma block_view_cached:
  assumes "cache_inv s L" "i < NBUF" "caches s i b" "b_valid (bufs s i)"
  shows "block_view s b = b_data (bufs s i)"
proof (rule block_view_cases)
  fix j assume "j < NBUF" "caches s j b"
  then have "j = i" using assms by (auto simp: cache_inv_def)
  then show "b_data (bufs s j) = b_data (bufs s i)" by simp
qed (use assms in auto)

lemma block_view_uncached:
  assumes "\<forall>i<NBUF. caches s i b \<longrightarrow> \<not> b_valid (bufs s i)"
  shows "block_view s b = disk s b"
  by (rule block_view_cases) (use assms in auto)

lemma block_view_locked:
  assumes "cache_inv s L" "L b = Some i"
  shows "block_view s b = b_data (bufs s i)"
  by (rule block_view_cached [OF assms(1)]) (use assms in \<open>auto simp: cache_inv_def\<close>)

section \<open>Getting a buffer\<close>

text \<open>The buffer \<open>bget\<close> hands out, before it is locked.\<close>

definition granted :: "nat \<Rightarrow> nat \<Rightarrow> buf \<Rightarrow> buf" where
  "granted dev b x = (if b_dev x = dev \<and> b_blockno x = b then b_refcnt_update (\<lambda>n. n + 1) x
     else x\<lparr>b_dev := dev, b_blockno := b, b_valid := False, b_dirty := False, b_refcnt := 1\<rparr>)"

lemma free_buffer_exists:
  assumes "cache_inv s L" "card (dom L \<union> pinned s) < NBUF"
  obtains i where "i < NBUF" "b_refcnt (bufs s i) = 0" "\<not> b_dirty (bufs s i)"
proof -
  let ?U = "{i. i < NBUF \<and> (b_refcnt (bufs s i) \<noteq> 0 \<or> b_dirty (bufs s i))}"
  have blk: "b_blockno (bufs s i) \<in> dom L \<union> pinned s" if "i \<in> ?U" for i
  proof (cases "i \<in> ran L")
    case True
    then show ?thesis using assms(1) by (auto simp: cache_inv_def ran_def caches_def)
  next
    case False
    then have "b_dirty (bufs s i)" "i < NBUF" "b_dev (bufs s i) = ROOTDEV"
      using that assms(1) by (auto simp: cache_inv_def)
    then show ?thesis by (auto simp: pinned_def caches_def)
  qed
  have "inj_on (\<lambda>i. b_blockno (bufs s i)) ?U"
  proof (rule inj_onI)
    fix i j assume ij: "i \<in> ?U" "j \<in> ?U" "b_blockno (bufs s i) = b_blockno (bufs s j)"
    have "b_dev (bufs s k) = ROOTDEV" if "k \<in> ?U" for k
      using that assms(1) by (cases "k \<in> ran L") (auto simp: cache_inv_def ran_def caches_def)
    then show "i = j" using ij assms(1) by (auto simp: cache_inv_def caches_def)
  qed
  moreover have fin: "finite (dom L \<union> pinned s)"
  proof -
    have "pinned s \<subseteq> (\<lambda>i. b_blockno (bufs s i)) ` {..<NBUF}"
      by (auto simp: pinned_def caches_def)
    moreover have "dom L \<subseteq> (\<lambda>i. b_blockno (bufs s i)) ` {..<NBUF}"
      using assms(1) by (fastforce simp: cache_inv_def caches_def)
    ultimately show ?thesis by (meson finite_UnI finite_imageI finite_lessThan finite_subset)
  qed
  ultimately have "card ?U \<le> card (dom L \<union> pinned s)"
    using blk by (intro card_inj_on_le) auto
  then have "card ?U < card {..<NBUF}" using assms(2) by simp
  moreover have "finite ?U" by simp
  ultimately have "\<not> {..<NBUF} \<subseteq> ?U" using card_mono leD by blast
  then show ?thesis using that by auto
qed

lemma bget_apply:
  assumes "cache_inv s L" "b \<notin> dom L" "b \<in> pinned s \<or> card (dom L \<union> pinned s) < NBUF"
  obtains i where "i < NBUF" "i \<notin> ran L" "b_refcnt (bufs s i) = 0"
    "caches s i b \<or> (\<forall>j<NBUF. \<not> caches s j b) \<and> \<not> b_dirty (bufs s i)"
    "bget ROOTDEV b s = Ret i (s\<lparr>bufs := (bufs s)(i := (granted ROOTDEV b (bufs s i))\<lparr>
       b_lock := \<lparr>sl_locked = True, sl_pid = p_pid (ptable s (the (curproc s)))\<rparr>\<rparr>)\<rparr>)"
proof -
  obtain p where p: "curproc s = Some p" using assms(1) by (auto simp: cache_inv_def)
  have h: "held s = {}" using assms(1) by (simp add: cache_inv_def)
  have lru: "set (lru s) = {..<NBUF}" using assms(1) by (simp add: cache_inv_def)
  have free: "i \<notin> ran L" if "caches s i b" for i
    using that assms by (auto simp: cache_inv_def ran_def caches_def)
  have fresh: "b_refcnt (bufs s i) = 0 \<and> \<not> sl_locked (b_lock (bufs s i))"
    if "i < NBUF" "i \<notin> ran L" for i
    using that assms(1) by (auto simp: cache_inv_def)
  show thesis
  proof (cases "find (\<lambda>i. b_dev (bufs s i) = ROOTDEV \<and> b_blockno (bufs s i) = b) (lru s)")
    case (Some i)
    then have i: "i \<in> set (lru s)" "caches s i b"
      by (auto simp: find_Some_iff caches_def)
    then have "i < NBUF" "i \<notin> ran L" using lru free by auto
    moreover have "bget ROOTDEV b s = Ret i (s\<lparr>bufs := (bufs s)(i := (granted ROOTDEV b (bufs s i))\<lparr>
       b_lock := \<lparr>sl_locked = True, sl_pid = p_pid (ptable s (the (curproc s)))\<rparr>\<rparr>)\<rparr>)"
      using Some i h p fresh calculation
      by (simp add: bget_def bl.acquiresleep_free [where p = p] buf_lock_def upd_buf_lock_def
          granted_def caches_def)
    ultimately show thesis using that i fresh by blast
  next
    case None
    then have nc: "\<forall>j<NBUF. \<not> caches s j b" using lru by (auto simp: find_None_iff caches_def)
    have "card (dom L \<union> pinned s) < NBUF" using assms(3) nc by (auto simp: pinned_def)
    then obtain k where k: "k < NBUF" "b_refcnt (bufs s k) = 0" "\<not> b_dirty (bufs s k)"
      using free_buffer_exists [OF assms(1)] by blast
    then obtain i where i: "find (\<lambda>b. b_refcnt (bufs s b) = 0 \<and> \<not> b_dirty (bufs s b)) (rev (lru s)) = Some i"
      using find_ex [of "rev (lru s)" "\<lambda>b. b_refcnt (bufs s b) = 0 \<and> \<not> b_dirty (bufs s b)"] lru by auto
    then have fi: "i \<in> set (lru s)" "b_refcnt (bufs s i) = 0" "\<not> b_dirty (bufs s i)"
      by (auto dest: find_SomeD)
    then have inb: "i < NBUF" using lru by auto
    have "i \<notin> ran L" using fi inb assms(1) by (auto simp: cache_inv_def)
    moreover have "\<not> (b_dev (bufs s i) = ROOTDEV \<and> b_blockno (bufs s i) = b)"
      using nc inb by (simp add: caches_def)
    moreover have "bget ROOTDEV b s = Ret i (s\<lparr>bufs := (bufs s)(i := (granted ROOTDEV b (bufs s i))\<lparr>
       b_lock := \<lparr>sl_locked = True, sl_pid = p_pid (ptable s (the (curproc s)))\<rparr>\<rparr>)\<rparr>)"
      using None i h p fresh inb calculation
      by (auto simp: bget_def bl.acquiresleep_free [where p = p] buf_lock_def upd_buf_lock_def
          granted_def)
    ultimately show thesis using that inb fi nc by blast
  qed
qed

section \<open>Reading a block\<close>

lemma granted_simps [simp]:
  "b_dev (granted dev b x) = dev" "b_blockno (granted dev b x) = b"
  "b_data (granted dev b x) = b_data x" "b_lock (granted dev b x) = b_lock x"
  by (simp_all add: granted_def)

text \<open>The buffer \<open>bread\<close> returns.\<close>

definition loaded :: "sleeplock \<Rightarrow> (nat \<Rightarrow> u8 list) \<Rightarrow> nat \<Rightarrow> buf \<Rightarrow> buf" where
  "loaded lk d b x = (let y = (granted ROOTDEV b x)\<lparr>b_lock := lk\<rparr>
     in if b_valid y then y else y\<lparr>b_data := d b, b_valid := True\<rparr>)"

lemma bread_apply:
  assumes "cache_inv s L" "b \<notin> dom L" "b \<in> pinned s \<or> card (dom L \<union> pinned s) < NBUF" "b < disksize s"
  obtains i lk where "i < NBUF" "i \<notin> ran L" "b_refcnt (bufs s i) = 0"
    "caches s i b \<or> (\<forall>j<NBUF. \<not> caches s j b) \<and> \<not> b_dirty (bufs s i)"
    "sl_locked lk"
    "bread ROOTDEV b s = Ret i (s\<lparr>bufs := (bufs s)(i := loaded lk (disk s) b (bufs s i))\<rparr>)"
proof -
  obtain i where i: "i < NBUF" "i \<notin> ran L" "b_refcnt (bufs s i) = 0"
    "caches s i b \<or> (\<forall>j<NBUF. \<not> caches s j b) \<and> \<not> b_dirty (bufs s i)"
    "bget ROOTDEV b s = Ret i (s\<lparr>bufs := (bufs s)(i := (granted ROOTDEV b (bufs s i))\<lparr>
       b_lock := \<lparr>sl_locked = True, sl_pid = p_pid (ptable s (the (curproc s)))\<rparr>\<rparr>)\<rparr>)"
    using bget_apply [OF assms(1-3)] by blast
  have h: "held s = {}" using assms(1) by (simp add: cache_inv_def)
  have d: "b_dirty (granted ROOTDEV b (bufs s i)) \<longrightarrow> b_valid (granted ROOTDEV b (bufs s i))"
    using i(1) assms(1) by (auto simp: granted_def cache_inv_def)
  let ?lk = "\<lparr>sl_locked = True, sl_pid = p_pid (ptable s (the (curproc s)))\<rparr>"
  have "bread ROOTDEV b s = Ret i (s\<lparr>bufs := (bufs s)(i := loaded ?lk (disk s) b (bufs s i))\<rparr>)"
    using i(5) h d assms(4)
    by (auto simp: bread_def iderw_read loaded_def Let_def ROOTDEV_def [simplified])
  then show thesis using that [of i ?lk] i by simp
qed

lemma cache_inv_load:
  assumes inv: "cache_inv s L" and b: "b \<notin> dom L" "b < disksize s"
    and i: "i < NBUF" "i \<notin> ran L" "b_refcnt (bufs s i) = 0"
      "caches s i b \<or> (\<forall>j<NBUF. \<not> caches s j b) \<and> \<not> b_dirty (bufs s i)" "sl_locked lk"
    and t: "t = s\<lparr>bufs := (bufs s)(i := loaded lk (disk s) b (bufs s i))\<rparr>"
  shows "cache_inv t (L(b \<mapsto> i))" "block_view t = block_view s" "pinned t = pinned s"
proof -
  have x: "b_dev (bufs t i) = ROOTDEV" "b_blockno (bufs t i) = b" "b_valid (bufs t i)"
    "b_refcnt (bufs t i) = 1" "b_lock (bufs t i) = lk"
    using t i(3) by (auto simp: loaded_def Let_def granted_def)
  have y: "j \<noteq> i \<Longrightarrow> bufs t j = bufs s j" for j using t by simp
  have rn: "ran (L(b \<mapsto> i)) = insert i (ran L)" using b(1) by (simp add: domIff)
  have ca: "caches t j c \<longleftrightarrow> (if j = i then c = b else caches s j c)" for j c
    using x(1,2) y by (auto simp: caches_def)
  have dirty: "b_dirty (bufs t i) \<longleftrightarrow> caches s i b \<and> b_dirty (bufs s i)"
    using t by (auto simp: loaded_def Let_def granted_def caches_def)
  show inv': "cache_inv t (L(b \<mapsto> i))"
    unfolding cache_inv_def rn
  proof (intro conjI allI impI)
    fix j k c assume "j < NBUF" "k < NBUF" "caches t j c" "caches t k c"
    then show "j = k" using cache_invD(5) [OF inv, of j k c] i(4) unfolding ca
      by (cases "j = i"; cases "k = i"; auto intro: cache_invD(5) [OF inv])
  next
    fix c j assume "(L(b \<mapsto> i)) c = Some j"
    then have "c = b \<and> j = i \<or> L c = Some j" by (auto split: if_splits)
    moreover have "L c = Some j \<Longrightarrow> j \<noteq> i" using i(2) by (auto simp: ran_def)
    moreover have "L c = Some j \<Longrightarrow> j < NBUF \<and> caches s j c \<and> b_valid (bufs s j) \<and> c < disksize s"
      using inv by (auto simp: cache_inv_def)
    ultimately show "j < NBUF" "caches t j c" "b_valid (bufs t j)" "c < disksize t"
      using x i(1) b(2) t y ca by auto
  next
    fix j assume j: "j < NBUF"
    show "b_refcnt (bufs t j) = (if j \<in> insert i (ran L) then 1 else 0)"
      using cache_invD(7) [OF inv j] x y by (cases "j = i") auto
    show "sl_locked (b_lock (bufs t j)) = (j \<in> insert i (ran L))"
      using cache_invD(8) [OF inv j] x y i(5) by (cases "j = i") auto
    show "b_data (bufs t j) = disk t (b_blockno (bufs t j))"
      if "b_valid (bufs t j) \<and> \<not> b_dirty (bufs t j) \<and> j \<notin> insert i (ran L) \<and> b_dev (bufs t j) = ROOTDEV"
      using cache_invD(9) [OF inv j] y that t by auto
    show "b_valid (bufs t j)" "b_dev (bufs t j) = ROOTDEV" if "b_dirty (bufs t j)"
      using cache_invD(10) [OF inv j] x y that by (cases "j = i"; auto)+
  qed (use cache_invD(1-4) [OF inv] t in auto)
  show "block_view t = block_view s"
  proof
    fix c
    have bs: "block_view s b = b_data (bufs t i)"
    proof (cases "caches s i b \<and> b_valid (bufs s i)")
      case True
      then have "block_view s b = b_data (bufs s i)" using block_view_cached [OF inv i(1)] by simp
      moreover have "b_data (bufs t i) = b_data (bufs s i)"
        using True t by (auto simp: loaded_def Let_def granted_def caches_def)
      ultimately show ?thesis by simp
    next
      case False
      have "\<forall>j<NBUF. caches s j b \<longrightarrow> \<not> b_valid (bufs s j)"
        using False i cache_invD(5) [OF inv] by blast
      then have "block_view s b = disk s b" by (rule block_view_uncached)
      moreover have "b_data (bufs t i) = disk s b"
        using False t by (auto simp: loaded_def Let_def granted_def caches_def)
      ultimately show ?thesis by simp
    qed
    show "block_view t c = block_view s c"
    proof (rule block_view_cases)
      fix j assume j: "j < NBUF" "caches t j c" "b_valid (bufs t j)"
      then show "b_data (bufs t j) = block_view s c"
        using bs block_view_cached [OF inv, of j c] y ca by (cases "j = i") auto
    next
      assume none: "\<forall>j<NBUF. caches t j c \<longrightarrow> \<not> b_valid (bufs t j)"
      then have "c \<noteq> b" using x(3) i(1) ca by auto
      have "block_view s c = disk s c"
      proof (rule block_view_cases)
        fix j assume j: "j < NBUF" "caches s j c" "b_valid (bufs s j)"
        have "j = i"
        proof (rule ccontr)
          assume "j \<noteq> i"
          then have "caches t j c" "b_valid (bufs t j)" using j y ca by auto
          with none j show False by blast
        qed
        moreover have "\<not> b_dirty (bufs s i)"
          using j \<open>j = i\<close> \<open>c \<noteq> b\<close> i(4) by (auto simp: caches_def)
        ultimately show "b_data (bufs s j) = disk s c"
          using j i inv by (auto simp: cache_inv_def caches_def)
      qed simp
      then show "disk t c = block_view s c" using t by simp
    qed
  qed
  show "pinned t = pinned s"
  proof -
    have "(\<exists>j<NBUF. caches t j c \<and> b_dirty (bufs t j)) \<longleftrightarrow> (\<exists>j<NBUF. caches s j c \<and> b_dirty (bufs s j))" for c
    proof
      assume "\<exists>j<NBUF. caches t j c \<and> b_dirty (bufs t j)"
      then obtain j where j: "j < NBUF" "caches t j c" "b_dirty (bufs t j)" by blast
      then have "caches s j c \<and> b_dirty (bufs s j)"
        using dirty y ca by (cases "j = i") auto
      then show "\<exists>j<NBUF. caches s j c \<and> b_dirty (bufs s j)" using j by blast
    next
      assume "\<exists>j<NBUF. caches s j c \<and> b_dirty (bufs s j)"
      then obtain j where j: "j < NBUF" "caches s j c" "b_dirty (bufs s j)" by blast
      then have "caches t j c \<and> b_dirty (bufs t j)"
        using i(4) dirty y ca by (cases "j = i") (auto simp: caches_def)
      then show "\<exists>j<NBUF. caches t j c \<and> b_dirty (bufs t j)" using j by blast
    qed
    then show ?thesis by (simp add: pinned_def)
  qed
qed

lemma bread_ok:
  assumes "cache_inv s L" "b \<notin> dom L" "b \<in> pinned s \<or> card (dom L \<union> pinned s) < NBUF" "b < disksize s"
  shows "returns (bread ROOTDEV b s) (\<lambda>i t. cache_inv t (L(b \<mapsto> i)) \<and> cache_step s t
    \<and> block_view t = block_view s \<and> pinned t = pinned s \<and> disk t = disk s \<and> dtrace t = dtrace s
    \<and> b_data (bufs t i) = block_view s b)"
proof -
  obtain i lk where i: "i < NBUF" "i \<notin> ran L" "b_refcnt (bufs s i) = 0"
    "caches s i b \<or> (\<forall>j<NBUF. \<not> caches s j b) \<and> \<not> b_dirty (bufs s i)" "sl_locked lk"
    and r: "bread ROOTDEV b s = Ret i (s\<lparr>bufs := (bufs s)(i := loaded lk (disk s) b (bufs s i))\<rparr>)"
    using bread_apply [OF assms] by blast
  define t where t: "t = s\<lparr>bufs := (bufs s)(i := loaded lk (disk s) b (bufs s i))\<rparr>"
  note load = cache_inv_load [OF assms(1,2,4) i t]
  have "b_data (bufs t i) = block_view t b"
    using block_view_locked [OF load(1), of b i] by simp
  moreover have "cache_step s t"
    by (rule cache_stepI [where pt = "ptable s" and l = "lru s" and d = "disk s" and tr = "dtrace s"]) (simp add: t)
  ultimately show ?thesis using load r t by simp
qed

section \<open>Changing, writing and releasing a locked buffer\<close>

text \<open>A change of the data of one locked buffer, with its dirty flag, and of its block on the disk.\<close>

lemma cache_inv_upd:
  assumes inv: "cache_inv s L" and l: "L b = Some i"
    and t: "t = s\<lparr>disk := (disk s)(b := d), dtrace := tr, bufs := (bufs s)(i := (bufs s i)\<lparr>b_data := x, b_dirty := q\<rparr>)\<rparr>"
  shows "cache_inv t L" "block_view t = (block_view s)(b := x)"
    "pinned t = (if q then insert b (pinned s) else pinned s - {b})" "cache_step s t"
proof -
  note iv = cache_invD [OF inv]
  have i: "i < NBUF" "caches s i b" "b_valid (bufs s i)" "i \<in> ran L" using iv(6) [OF l] l by (auto simp: ran_def)
  have y: "j \<noteq> i \<Longrightarrow> bufs t j = bufs s j" for j using t by simp
  have z: "bufs t i = (bufs s i)\<lparr>b_data := x, b_dirty := q\<rparr>" using t by simp
  have ca: "caches t j c = caches s j c" for j c
    using y z by (cases "j = i") (auto simp: caches_def)
  have blk: "j < NBUF \<Longrightarrow> j \<noteq> i \<Longrightarrow> b_dev (bufs s j) = ROOTDEV \<Longrightarrow> b_blockno (bufs s j) \<noteq> b" for j
    using iv(5) [of i j b] i(1,2) by (auto simp: caches_def)
  show "cache_inv t L"
    unfolding cache_inv_def
  proof (intro conjI allI impI)
    fix j k c assume "j < NBUF" "k < NBUF" "caches t j c" "caches t k c"
    then show "j = k" using iv(5) ca by blast
  next
    fix c j assume "L c = Some j"
    then show "j < NBUF" "caches t j c" "b_valid (bufs t j)" "c < disksize t"
      using iv(6) y z ca t by (cases "j = i"; auto)+
  next
    fix j assume j: "j < NBUF"
    show "b_refcnt (bufs t j) = (if j \<in> ran L then 1 else 0)"
      using iv(7) [OF j] y z by (cases "j = i") auto
    show "sl_locked (b_lock (bufs t j)) = (j \<in> ran L)"
      using iv(8) [OF j] y z by (cases "j = i") auto
    show "b_data (bufs t j) = disk t (b_blockno (bufs t j))"
      if "b_valid (bufs t j) \<and> \<not> b_dirty (bufs t j) \<and> j \<notin> ran L \<and> b_dev (bufs t j) = ROOTDEV"
    proof -
      have "j \<noteq> i" using that i(4) by auto
      then show ?thesis using iv(9) [OF j] blk [OF j] y that t by auto
    qed
    show "b_valid (bufs t j)" "b_dev (bufs t j) = ROOTDEV" if "b_dirty (bufs t j)"
      using iv(10) [OF j] y z that i by (cases "j = i"; auto simp: caches_def)+
  qed (use iv(1-4) t in auto)
  show "block_view t = (block_view s)(b := x)"
  proof
    fix c show "block_view t c = ((block_view s)(b := x)) c"
    proof (rule block_view_cases)
      fix j assume j: "j < NBUF" "caches t j c" "b_valid (bufs t j)"
      show "b_data (bufs t j) = ((block_view s)(b := x)) c"
      proof (cases "j = i")
        case True
        then show ?thesis using j i(2) z ca by (auto simp: caches_def)
      next
        case False
        then have "c \<noteq> b" using blk [OF j(1)] j(2) unfolding ca by (auto simp: caches_def)
        then show ?thesis using False j y ca block_view_cached [OF inv, of j c] by auto
      qed
    next
      assume n: "\<forall>j<NBUF. caches t j c \<longrightarrow> \<not> b_valid (bufs t j)"
      then have "c \<noteq> b" using i ca z by auto
      moreover have "\<forall>j<NBUF. caches s j c \<longrightarrow> \<not> b_valid (bufs s j)"
      proof (intro allI impI)
        fix j assume j: "j < NBUF" "caches s j c"
        then have "j \<noteq> i" using i(2) \<open>c \<noteq> b\<close> by (auto simp: caches_def)
        then show "\<not> b_valid (bufs s j)" using n j ca y by fastforce
      qed
      ultimately show "disk t c = ((block_view s)(b := x)) c"
        using block_view_uncached [of s c] t by simp
    qed
  qed
  have dz: "b_dirty (bufs t j) \<longleftrightarrow> (if j = i then q else b_dirty (bufs s j))" for j
    using y z by simp
  show "pinned t = (if q then insert b (pinned s) else pinned s - {b})"
  proof (rule set_eqI)
    fix c
    have "c \<in> pinned t \<longleftrightarrow> (\<exists>j<NBUF. caches s j c \<and> (if j = i then q else b_dirty (bufs s j)))"
      using dz ca by (simp add: pinned_def)
    also have "\<dots> \<longleftrightarrow> (if c = b then q else c \<in> pinned s)"
    proof (cases "c = b")
      case True
      then show ?thesis using i blk by (auto simp: caches_def)
    next
      case False
      then have "caches s j c \<Longrightarrow> j \<noteq> i" for j using i(2) by (auto simp: caches_def)
      then show ?thesis using False by (auto simp: pinned_def)
    qed
    finally show "c \<in> pinned t \<longleftrightarrow> c \<in> (if q then insert b (pinned s) else pinned s - {b})"
      by auto
  qed
  show "cache_step s t"
    by (rule cache_stepI [where pt = "ptable s" and l = "lru s"]) (simp add: t disk_bufs_commute)
qed

lemma set_bdata_ok:
  assumes "cache_inv s L" "L b = Some i"
  shows "returns (set_bdata i d s) (\<lambda>_ t. cache_inv t L \<and> cache_step s t
    \<and> block_view t = (block_view s)(b := d) \<and> pinned t = pinned s \<and> disk t = disk s
    \<and> dtrace t = dtrace s)"
proof -
  let ?t = "s\<lparr>disk := (disk s)(b := disk s b), dtrace := dtrace s,
    bufs := (bufs s)(i := (bufs s i)\<lparr>b_data := d, b_dirty := b_dirty (bufs s i)\<rparr>)\<rparr>"
  note u = cache_inv_upd [OF assms refl, where d = "disk s b" and x = d and q = "b_dirty (bufs s i)" and tr = "dtrace s"]
  have "set_bdata i d s = Ret () ?t" by (simp add: set_bdata_def)
  moreover have "b \<in> pinned s \<longleftrightarrow> b_dirty (bufs s i)"
    using cache_invD(5) [OF assms(1), of i _ b] cache_invD(6) [OF assms] by (auto simp: pinned_def)
  ultimately show ?thesis using u by auto
qed

lemma bdata_ok:
  assumes "cache_inv s L" "L b = Some i"
  shows "bdata i s = Ret (block_view s b) s"
  using block_view_locked [OF assms] by (simp add: bdata_def)

lemma bwrite_ok:
  assumes "cache_inv s L" "L b = Some i"
  shows "returns (bwrite i s) (\<lambda>_ t. cache_inv t L \<and> cache_step s t
    \<and> block_view t = block_view s \<and> pinned t = pinned s - {b} \<and> disk t = (disk s)(b := block_view s b)
    \<and> dtrace t = dtrace s @ [(b, block_view s b)])"
proof -
  note iv = cache_invD [OF assms(1)]
  have i: "i < NBUF" "caches s i b" "b_valid (bufs s i)" "b < disksize s" "sl_locked (b_lock (bufs s i))"
    using iv(6) [OF assms(2)] iv(8) [of i] assms(2) by (auto simp: ran_def)
  have v: "block_view s b = b_data (bufs s i)" by (rule block_view_locked [OF assms])
  let ?t = "s\<lparr>disk := (disk s)(b := block_view s b), dtrace := dtrace s @ [(b, block_view s b)],
    bufs := (bufs s)(i := (bufs s i)\<lparr>b_data := block_view s b, b_dirty := False\<rparr>)\<rparr>"
  have "bwrite i s = Ret () ?t"
    using i iv(1) v
    by (simp add: bwrite_def bl.holdingsleep_apply buf_lock_def iderw_write caches_def ROOTDEV_def
        buf.equality fun_eq_iff)
  moreover note cache_inv_upd [OF assms refl, where d = "block_view s b" and x = "block_view s b" and q = False
    and tr = "dtrace s @ [(b, block_view s b)]"]
  ultimately show ?thesis by simp
qed

lemma brelse_apply:
  assumes "cache_inv s L" "L b = Some i"
  shows "brelse i s = Ret () (s\<lparr>ptable := woken (ChBufLock i) (ptable s),
    bufs := (bufs s)(i := (bufs s i)\<lparr>b_lock := initsleeplock, b_refcnt := 0\<rparr>),
    lru := i # remove1 i (lru s)\<rparr>)"
proof -
  note iv = cache_invD [OF assms(1)]
  have i: "i < NBUF" "i \<in> ran L" using iv(6) [OF assms(2)] assms(2) by (auto simp: ran_def)
  then have lk: "sl_locked (b_lock (bufs s i))" and r: "b_refcnt (bufs s i) = 1" using iv(7,8) by auto
  have upd: "b_refcnt_update (\<lambda>n. n - 1) (x\<lparr>b_lock := k\<rparr>) = x\<lparr>b_lock := k, b_refcnt := 0\<rparr>"
    if "b_refcnt x = 1" for x :: buf and k
    using that by (cases x) simp
  show ?thesis
    using iv(1) lk r
    by (simp add: upd [OF r] brelse_def bl.holdingsleep_apply bl.releasesleep_apply buf_lock_def upd_buf_lock_def)
qed

lemma brelse_ok:
  assumes inv: "cache_inv s L" and l: "L b = Some i" and clean: "b \<in> pinned s \<or> block_view s b = disk s b"
  shows "returns (brelse i s) (\<lambda>_ t. cache_inv t (L(b := None)) \<and> cache_step s t
    \<and> block_view t = block_view s \<and> pinned t = pinned s \<and> disk t = disk s \<and> dtrace t = dtrace s)"
proof -
  note iv = cache_invD [OF inv]
  have i: "i < NBUF" "caches s i b" "b_valid (bufs s i)" "i \<in> ran L"
    using iv(6) [OF l] l by (auto simp: ran_def)
  define t where t: "t = s\<lparr>ptable := woken (ChBufLock i) (ptable s),
    bufs := (bufs s)(i := (bufs s i)\<lparr>b_lock := initsleeplock, b_refcnt := 0\<rparr>),
    lru := i # remove1 i (lru s)\<rparr>"
  have y: "j \<noteq> i \<Longrightarrow> bufs t j = bufs s j" for j using t by simp
  have z: "bufs t i = (bufs s i)\<lparr>b_lock := initsleeplock, b_refcnt := 0\<rparr>" using t by simp
  have same: "caches t j c = caches s j c" "b_dirty (bufs t j) = b_dirty (bufs s j)"
      "b_valid (bufs t j) = b_valid (bufs s j)" "b_data (bufs t j) = b_data (bufs s j)"
      "b_dev (bufs t j) = b_dev (bufs s j)" "b_blockno (bufs t j) = b_blockno (bufs s j)" for j c
    using y z by (cases "j = i"; auto simp: caches_def)+
  have own: "L c = Some i \<longleftrightarrow> c = b" for c
    using iv(6) [of c i] i(2) l by (auto simp: caches_def)
  have "(\<exists>c. (L(b := None)) c = Some x) \<longleftrightarrow> (\<exists>c. L c = Some x) \<and> x \<noteq> i" for x
  proof
    assume "\<exists>c. (L(b := None)) c = Some x"
    then obtain c where "c \<noteq> b" "L c = Some x" by (auto split: if_splits)
    then show "(\<exists>c. L c = Some x) \<and> x \<noteq> i" using own by auto
  next
    assume "(\<exists>c. L c = Some x) \<and> x \<noteq> i"
    then obtain c where "L c = Some x" "x \<noteq> i" by blast
    then have "(L(b := None)) c = Some x" using l by auto
    then show "\<exists>c. (L(b := None)) c = Some x" by blast
  qed
  then have rn: "ran (L(b := None)) = ran L - {i}"
    unfolding ran_def by blast
  have pin: "b \<in> pinned s \<longleftrightarrow> b_dirty (bufs s i)"
    using iv(5) i(1,2) unfolding pinned_def by blast
  have coh: "\<not> b_dirty (bufs s i) \<Longrightarrow> b_data (bufs s i) = disk s b"
    using clean pin block_view_locked [OF inv l] by simp
  have "cache_inv t (L(b := None))"
    unfolding cache_inv_def rn
  proof (intro conjI allI impI)
    show "held t = {}" "curproc t \<noteq> None" "distinct (lru t)" "set (lru t) = {..<NBUF}"
      using iv(1-4) i(1) t by auto
  next
    fix j k c assume "j < NBUF" "k < NBUF" "caches t j c" "caches t k c"
    then show "j = k" using iv(5) same(1) by blast
  next
    fix c j assume "(L(b := None)) c = Some j"
    then have "L c = Some j" by (auto split: if_splits)
    then show "j < NBUF" "caches t j c" "b_valid (bufs t j)" "c < disksize t"
      using iv(6) [of c j] same t by auto
  next
    fix j assume j: "j < NBUF"
    show "b_refcnt (bufs t j) = (if j \<in> ran L - {i} then 1 else 0)"
      using iv(7) [OF j] y z by (cases "j = i") auto
    show "sl_locked (b_lock (bufs t j)) = (j \<in> ran L - {i})"
      using iv(8) [OF j] y z by (cases "j = i") (auto simp: initsleeplock_def)
    show "b_data (bufs t j) = disk t (b_blockno (bufs t j))"
      if "b_valid (bufs t j) \<and> \<not> b_dirty (bufs t j) \<and> j \<notin> ran L - {i} \<and> b_dev (bufs t j) = ROOTDEV"
      using iv(9) [OF j] that coh i(2) t unfolding same by (cases "j = i") (auto simp: caches_def)
    show "b_valid (bufs t j)" "b_dev (bufs t j) = ROOTDEV" if "b_dirty (bufs t j)"
      using iv(10) [OF j] that unfolding same by auto
  qed
  moreover have "disk t = disk s" using t by simp
  then have "block_view t = block_view s" "pinned t = pinned s"
    by (simp_all add: fun_eq_iff block_view_def pinned_def same split: option.split)
  moreover have "cache_step s t"
    by (rule cache_stepI [where d = "disk s" and tr = "dtrace s"]) (simp add: t)
  moreover have "brelse i s = Ret () t" using brelse_apply [OF inv l] t by simp
  ultimately show ?thesis using t by simp
qed

section \<open>The contract of the buffer cache\<close>

text \<open>
  What the log and the file system rely on. \<open>inv s L\<close>: the calling process has exactly
  the blocks in \<open>dom L\<close> locked; \<open>room\<close>: another buffer can be had.
\<close>

locale block_cache =
  fixes read :: "nat \<Rightarrow> (nat, 's) km"
    and data :: "nat \<Rightarrow> (u8 list, 's) km"
    and set_data :: "nat \<Rightarrow> u8 list \<Rightarrow> (unit, 's) km"
    and "write" :: "nat \<Rightarrow> (unit, 's) km"
    and rel :: "nat \<Rightarrow> (unit, 's) km"
    and inv :: "'s \<Rightarrow> (nat \<rightharpoonup> nat) \<Rightarrow> bool"
    and view :: "'s \<Rightarrow> nat \<Rightarrow> u8 list"
    and pins :: "'s \<Rightarrow> nat set"
    and dsk :: "'s \<Rightarrow> nat \<Rightarrow> u8 list"
    and trc :: "'s \<Rightarrow> (nat \<times> u8 list) list"
    and size :: "'s \<Rightarrow> nat"
    and step :: "'s \<Rightarrow> 's \<Rightarrow> bool"
  assumes read_ok: "inv s L \<Longrightarrow> b \<notin> dom L \<Longrightarrow> b \<in> pins s \<or> card (dom L \<union> pins s) < NBUF \<Longrightarrow>
      b < size s \<Longrightarrow>
      returns (read b s) (\<lambda>i t. inv t (L(b \<mapsto> i)) \<and> step s t \<and> view t = view s \<and> pins t = pins s
        \<and> dsk t = dsk s \<and> trc t = trc s)"
    and data_ok: "inv s L \<Longrightarrow> L b = Some i \<Longrightarrow> data i s = Ret (view s b) s"
    and set_data_ok: "inv s L \<Longrightarrow> L b = Some i \<Longrightarrow>
      returns (set_data i d s) (\<lambda>_ t. inv t L \<and> step s t \<and> view t = (view s)(b := d)
        \<and> pins t = pins s \<and> dsk t = dsk s \<and> trc t = trc s)"
    and write_ok: "inv s L \<Longrightarrow> L b = Some i \<Longrightarrow>
      returns (write i s) (\<lambda>_ t. inv t L \<and> step s t \<and> view t = view s
        \<and> pins t = pins s - {b} \<and> dsk t = (dsk s)(b := view s b)
        \<and> trc t = trc s @ [(b, view s b)])"
    and rel_ok: "inv s L \<Longrightarrow> L b = Some i \<Longrightarrow> b \<in> pins s \<or> view s b = dsk s b \<Longrightarrow>
      returns (rel i s) (\<lambda>_ t. inv t (L(b := None)) \<and> step s t \<and> view t = view s
        \<and> pins t = pins s \<and> dsk t = dsk s \<and> trc t = trc s)"
    and step_refl: "step s s"
    and step_trans: "step s t \<Longrightarrow> step t u \<Longrightarrow> step s u"
    and step_size: "step s t \<Longrightarrow> size t = size s"
    and inv_finite: "inv s L \<Longrightarrow> finite (dom L) \<and> finite (pins s)"
    and view_clean: "inv s L \<Longrightarrow> b \<notin> pins s \<Longrightarrow> b \<notin> dom L \<Longrightarrow> view s b = dsk s b"
begin

text \<open>Reading a block: lock it, take its content, release it.\<close>

lemma read_block:
  assumes "inv s L" "b \<notin> dom L" "b \<in> pins s \<or> card (dom L \<union> pins s) < NBUF" "b < size s"
  shows "returns (seq (read b) (\<lambda>i. seq (data i) (\<lambda>d. seq (rel i) (\<lambda>_. ret d))) s)
    (\<lambda>d t. d = view s b \<and> inv t L \<and> step s t \<and> view t = view s \<and> pins t = pins s \<and> dsk t = dsk s \<and> trc t = trc s)"
proof -
  obtain i t where t: "read b s = Ret i t" "inv t (L(b \<mapsto> i))" "step s t" "view t = view s"
    "pins t = pins s" "dsk t = dsk s" "trc t = trc s"
    using read_ok [OF assms] by (auto elim!: returnsE)
  have "b \<in> pins t \<or> view t b = dsk t b"
    using view_clean [OF assms(1)] assms(2) t by auto
  then obtain u where u: "rel i t = Ret () u" "inv u ((L(b \<mapsto> i))(b := None))" "step t u"
    "view u = view t" "pins u = pins t" "dsk u = dsk t" "trc u = trc t"
    using rel_ok [OF t(2), of b i] by (auto elim!: returnsE)
  have "(L(b \<mapsto> i))(b := None) = L" using assms(2) by (auto simp: fun_eq_iff domIff)
  moreover have "data i t = Ret (view s b) t" using data_ok [OF t(2), of b i] t(4) by simp
  moreover have "step s u" using step_trans [OF t(3) u(3)] .
  ultimately show ?thesis using t u by simp
qed

text \<open>Writing a block through: lock it, change its content, write it to the disk, release it.\<close>

lemma write_block:
  assumes "inv s L" "b \<notin> dom L" "b \<in> pins s \<or> card (dom L \<union> pins s) < NBUF" "b < size s"
  shows "returns (seq (read b) (\<lambda>i. seq (data i) (\<lambda>d. seq (set_data i (f d)) (\<lambda>_.
      seq (write i) (\<lambda>_. rel i)))) s)
    (\<lambda>_ t. inv t L \<and> step s t \<and> view t = (view s)(b := f (view s b)) \<and> pins t = pins s - {b}
      \<and> dsk t = (dsk s)(b := f (view s b)) \<and> trc t = trc s @ [(b, f (view s b))])"
proof -
  obtain i t where t: "read b s = Ret i t" "inv t (L(b \<mapsto> i))" "step s t" "view t = view s"
    "pins t = pins s" "dsk t = dsk s" "trc t = trc s"
    using read_ok [OF assms] by (auto elim!: returnsE)
  have Lb: "(L(b \<mapsto> i)) b = Some i" by simp
  have dat: "data i t = Ret (view s b) t" using data_ok [OF t(2) Lb] t(4) by simp
  obtain u where u: "set_data i (f (view s b)) t = Ret () u" "inv u (L(b \<mapsto> i))" "step t u"
    "view u = (view t)(b := f (view s b))" "pins u = pins t" "dsk u = dsk t" "trc u = trc t"
    using set_data_ok [OF t(2) Lb, of "f (view s b)"] by (elim returns_unitE conjE) (rule that)
  obtain v where v: "write i u = Ret () v" "inv v (L(b \<mapsto> i))" "step u v" "view v = view u"
    "pins v = pins u - {b}" "dsk v = (dsk u)(b := view u b)"
    "trc v = trc u @ [(b, view u b)]"
    using write_ok [OF u(2) Lb] by (elim returns_unitE conjE) (rule that)
  obtain w where w: "rel i v = Ret () w" "inv w ((L(b \<mapsto> i))(b := None))" "step v w"
    "view w = view v" "pins w = pins v" "dsk w = dsk v" "trc w = trc v"
    using rel_ok [OF v(2), of b i] u v by (auto elim!: returnsE)
  have "(L(b \<mapsto> i))(b := None) = L" using assms(2) by (auto simp: fun_eq_iff domIff)
  moreover have "step s w"
    using step_trans [OF step_trans [OF t(3) u(3)] step_trans [OF v(3) w(3)]] .
  ultimately show ?thesis using t u v w dat by simp
qed

text \<open>Copying one block to another and writing the copy to the disk.\<close>

lemma copy_block:
  assumes "inv s L" "a \<notin> dom L" "b \<notin> dom L" "a \<noteq> b" "a < size s" "b < size s"
    "card (insert a (dom L \<union> pins s)) < NBUF \<or> b \<in> pins s \<and> card (dom L \<union> pins s) < NBUF"
  shows "returns (seq (read a) (\<lambda>i. seq (read b) (\<lambda>j. seq (data i) (\<lambda>d. seq (set_data j d) (\<lambda>_.
      seq (write j) (\<lambda>_. seq (rel i) (\<lambda>_. rel j)))))) s)
    (\<lambda>_ t. inv t L \<and> step s t \<and> view t = (view s)(b := view s a) \<and> pins t = pins s - {b}
      \<and> dsk t = (dsk s)(b := view s a) \<and> trc t = trc s @ [(b, view s a)])"
proof -
  have fin: "finite (dom L)" "finite (pins s)" using inv_finite [OF assms(1)] by auto
  have "card (dom L \<union> pins s) \<le> card (insert a (dom L \<union> pins s))"
    using fin by (intro card_mono) auto
  then have "card (dom L \<union> pins s) < NBUF" using assms(7) by linarith
  then obtain i t where t: "read a s = Ret i t" "inv t (L(a \<mapsto> i))" "step s t" "view t = view s"
    "pins t = pins s" "dsk t = dsk s" "trc t = trc s"
    using read_ok [OF assms(1,2) disjI2 assms(5)] by (auto elim!: returnsE)
  have "b \<notin> dom (L(a \<mapsto> i))" "b \<in> pins t \<or> card (dom (L(a \<mapsto> i)) \<union> pins t) < NBUF" "b < size t"
    using assms(3,4,6,7) t(5) step_size [OF t(3)] by auto
  from read_ok [OF t(2) this] obtain j u where u: "read b t = Ret j u" "inv u (L(a \<mapsto> i, b \<mapsto> j))"
    "step t u" "view u = view t" "pins u = pins t" "dsk u = dsk t" "trc u = trc t"
    by (elim returnsE conjE) (rule that)
  have La: "(L(a \<mapsto> i, b \<mapsto> j)) a = Some i" "(L(a \<mapsto> i, b \<mapsto> j)) b = Some j" using assms(4) by auto
  have dat: "data i u = Ret (view s a) u" using data_ok [OF u(2) La(1)] t(4) u(4) by simp
  obtain v where v: "set_data j (view s a) u = Ret () v" "inv v (L(a \<mapsto> i, b \<mapsto> j))" "step u v"
    "view v = (view u)(b := view s a)" "pins v = pins u" "dsk v = dsk u" "trc v = trc u"
    using set_data_ok [OF u(2) La(2), of "view s a"] by (elim returns_unitE conjE) (rule that)
  obtain w where w: "write j v = Ret () w" "inv w (L(a \<mapsto> i, b \<mapsto> j))" "step v w" "view w = view v"
    "pins w = pins v - {b}" "dsk w = (dsk v)(b := view v b)"
    "trc w = trc v @ [(b, view v b)]"
    using write_ok [OF v(2) La(2)] by (elim returns_unitE conjE) (rule that)
  have "a \<in> pins w \<or> view w a = dsk w a"
    using view_clean [OF assms(1), of a] assms(2,4) t u v w by auto
  from rel_ok [OF w(2) La(1) this] obtain x where x: "rel i w = Ret () x" "inv x ((L(a \<mapsto> i, b \<mapsto> j))(a := None))" "step w x"
    "view x = view w" "pins x = pins w" "dsk x = dsk w" "trc x = trc w"
    by (elim returns_unitE conjE) (rule that)
  have "((L(a \<mapsto> i, b \<mapsto> j))(a := None)) b = Some j" using assms(4) by simp
  then obtain y where y: "rel j x = Ret () y" "inv y ((L(a \<mapsto> i, b \<mapsto> j))(a := None, b := None))"
    "step x y" "view y = view x" "pins y = pins x" "dsk y = dsk x" "trc y = trc x"
    using rel_ok [OF x(2), of b j] v w x by (auto elim!: returnsE)
  have "(L(a \<mapsto> i, b \<mapsto> j))(a := None, b := None) = L"
    using assms(2,3) by (auto simp: fun_eq_iff domIff)
  moreover have "step s y"
    using step_trans [OF step_trans [OF t(3) u(3)]
        step_trans [OF step_trans [OF v(3) w(3)] step_trans [OF x(3) y(3)]]] .
  ultimately show ?thesis using t u v w x y dat by simp
qed

text \<open>The same with the destination locked first.\<close>

lemma copy_block_dst_first:
  assumes "inv s L" "a \<notin> dom L" "b \<notin> dom L" "a \<noteq> b" "a < size s" "b < size s"
    "card (insert b (dom L \<union> pins s)) < NBUF \<or> a \<in> pins s \<and> card (dom L \<union> pins s) < NBUF"
  shows "returns (seq (read b) (\<lambda>j. seq (read a) (\<lambda>i. seq (data i) (\<lambda>d. seq (set_data j d) (\<lambda>_.
      seq (write j) (\<lambda>_. seq (rel i) (\<lambda>_. rel j)))))) s)
    (\<lambda>_ t. inv t L \<and> step s t \<and> view t = (view s)(b := view s a) \<and> pins t = pins s - {b}
      \<and> dsk t = (dsk s)(b := view s a) \<and> trc t = trc s @ [(b, view s a)])"
proof -
  have fin: "finite (dom L)" "finite (pins s)" using inv_finite [OF assms(1)] by auto
  have "card (dom L \<union> pins s) \<le> card (insert b (dom L \<union> pins s))"
    using fin by (intro card_mono) auto
  then have "card (dom L \<union> pins s) < NBUF" using assms(7) by linarith
  then obtain j t where t: "read b s = Ret j t" "inv t (L(b \<mapsto> j))" "step s t" "view t = view s"
    "pins t = pins s" "dsk t = dsk s" "trc t = trc s"
    using read_ok [OF assms(1,3) disjI2 assms(6)] by (auto elim!: returnsE)
  have "a \<notin> dom (L(b \<mapsto> j))" "a \<in> pins t \<or> card (dom (L(b \<mapsto> j)) \<union> pins t) < NBUF" "a < size t"
    using assms(2,4,5,7) t(5) step_size [OF t(3)] by auto
  from read_ok [OF t(2) this] obtain i u where u: "read a t = Ret i u" "inv u (L(b \<mapsto> j, a \<mapsto> i))"
    "step t u" "view u = view t" "pins u = pins t" "dsk u = dsk t" "trc u = trc t"
    by (elim returnsE conjE) (rule that)
  have La: "(L(b \<mapsto> j, a \<mapsto> i)) a = Some i" "(L(b \<mapsto> j, a \<mapsto> i)) b = Some j" using assms(4) by auto
  have dat: "data i u = Ret (view s a) u" using data_ok [OF u(2) La(1)] t(4) u(4) by simp
  obtain v where v: "set_data j (view s a) u = Ret () v" "inv v (L(b \<mapsto> j, a \<mapsto> i))" "step u v"
    "view v = (view u)(b := view s a)" "pins v = pins u" "dsk v = dsk u" "trc v = trc u"
    using set_data_ok [OF u(2) La(2), of "view s a"] by (elim returns_unitE conjE) (rule that)
  obtain w where w: "write j v = Ret () w" "inv w (L(b \<mapsto> j, a \<mapsto> i))" "step v w" "view w = view v"
    "pins w = pins v - {b}" "dsk w = (dsk v)(b := view v b)" "trc w = trc v @ [(b, view v b)]"
    using write_ok [OF v(2) La(2)] by (elim returns_unitE conjE) (rule that)
  have "a \<in> pins w \<or> view w a = dsk w a"
    using view_clean [OF assms(1), of a] assms(2,4) t u v w by auto
  from rel_ok [OF w(2) La(1) this] obtain x where x: "rel i w = Ret () x"
    "inv x ((L(b \<mapsto> j, a \<mapsto> i))(a := None))" "step w x" "view x = view w" "pins x = pins w"
    "dsk x = dsk w" "trc x = trc w"
    by (elim returns_unitE conjE) (rule that)
  have "((L(b \<mapsto> j, a \<mapsto> i))(a := None)) b = Some j" "b \<in> pins x \<or> view x b = dsk x b"
    using assms(4) v w x by auto
  from rel_ok [OF x(2) this] obtain y where y: "rel j x = Ret () y"
    "inv y ((L(b \<mapsto> j, a \<mapsto> i))(a := None, b := None))" "step x y" "view y = view x" "pins y = pins x"
    "dsk y = dsk x" "trc y = trc x"
    by (elim returns_unitE conjE) (rule that)
  have "(L(b \<mapsto> j, a \<mapsto> i))(a := None, b := None) = L"
    using assms(2,3) by (auto simp: fun_eq_iff domIff)
  moreover have "step s y"
    using step_trans [OF step_trans [OF t(3) u(3)]
        step_trans [OF step_trans [OF v(3) w(3)] step_trans [OF x(3) y(3)]]] .
  ultimately show ?thesis using t u v w x y dat by simp
qed

end

interpretation bc: block_cache "bread ROOTDEV" bdata set_bdata bwrite brelse cache_inv block_view
  pinned disk dtrace disksize cache_step
proof unfold_locales
  fix s :: "'a kdisk_scheme" and L b
  assume "cache_inv s L" "b \<notin> dom L" "b \<in> pinned s \<or> card (dom L \<union> pinned s) < NBUF" "b < disksize s"
  from bread_ok [OF this] show "returns (bread ROOTDEV b s) (\<lambda>i t. cache_inv t (L(b \<mapsto> i))
      \<and> cache_step s t \<and> block_view t = block_view s \<and> pinned t = pinned s \<and> disk t = disk s
      \<and> dtrace t = dtrace s)"
    by (rule returns_mono) simp
next
  fix s t :: "'a kdisk_scheme"
  assume "cache_step s t"
  then show "disksize t = disksize s" by (simp add: cache_step_frame)
next
  fix s :: "'a kdisk_scheme" and L
  assume inv: "cache_inv s L"
  have "dom L \<subseteq> (\<lambda>i. b_blockno (bufs s i)) ` {..<NBUF}"
    using cache_invD(6) [OF inv] by (fastforce simp: caches_def)
  moreover have "pinned s \<subseteq> (\<lambda>i. b_blockno (bufs s i)) ` {..<NBUF}"
    by (auto simp: pinned_def caches_def)
  ultimately show "finite (dom L) \<and> finite (pinned s)"
    by (meson finite_imageI finite_lessThan finite_subset)
next
  fix s :: "'a kdisk_scheme" and L b
  assume inv: "cache_inv s L" and b: "b \<notin> pinned s" "b \<notin> dom L"
  show "block_view s b = disk s b"
  proof (rule block_view_cases)
    fix i assume i: "i < NBUF" "caches s i b" "b_valid (bufs s i)"
    have "i \<notin> ran L" using i(2) b(2) cache_invD(6) [OF inv] by (fastforce simp: ran_def caches_def)
    moreover have "\<not> b_dirty (bufs s i)" using b(1) i by (auto simp: pinned_def)
    ultimately show "b_data (bufs s i) = disk s b"
      using cache_invD(9) [OF inv i(1)] i by (simp add: caches_def)
  qed simp
qed (auto intro: bdata_ok set_bdata_ok bwrite_ok brelse_ok cache_step_trans)

section \<open>Properties\<close>

lemma binit_loop_apply:
  "binit_loop bs s = Ret () (s\<lparr>lru := rev bs @ lru s,
     bufs := (\<lambda>i. if i \<in> set bs then (bufs s i)\<lparr>b_lock := initsleeplock\<rparr> else bufs s i)\<rparr>)"
proof (induction bs arbitrary: s)
  case Nil
  then show ?case by simp
next
  case (Cons b bs)
  then show ?case
    by (simp add: Cons.IH) (auto intro!: arg_cong [where f = "\<lambda>f. s\<lparr>bufs := f, lru := _\<rparr>"] simp: fun_eq_iff)
qed

text \<open>
  Initialisation of the buffer cache (\<open>bio.c\<close>): \<open>binit\<close> on the zero-filled buffers of a booting kernel
  establishes the cache invariant with no block locked or pinned, so that every block reads as on the disk.
\<close>

theorem binit_establishes_cache:
  assumes "\<forall>i. \<not> b_valid (bufs s i) \<and> \<not> b_dirty (bufs s i) \<and> b_dev (bufs s i) = 0 \<and> b_refcnt (bufs s i) = 0"
    and "held s = {}"
  shows "returns (binit s) (\<lambda>_ t. cache_inv (t\<lparr>curproc := Some p\<rparr>) Map.empty
    \<and> pinned t = {} \<and> block_view t = disk t)"
proof -
  let ?t = "s\<lparr>lru := rev [0..<NBUF],
     bufs := (\<lambda>i. if i \<in> set [0..<NBUF] then (bufs s i)\<lparr>b_lock := initsleeplock\<rparr> else bufs s i)\<rparr>"
  have r: "binit s = Ret () ?t" using assms(2) by (simp add: binit_def binit_loop_apply cong: if_cong)
  have nc: "\<not> caches ?t i b" "\<not> caches (?t\<lparr>curproc := Some p\<rparr>) i b" for i b
    using assms(1) by (simp_all add: caches_def ROOTDEV_def)
  have "cache_inv (?t\<lparr>curproc := Some p\<rparr>) Map.empty"
    unfolding cache_inv_def using assms nc by (auto simp: initsleeplock_def)
  moreover have "pinned ?t = {}" unfolding pinned_def using nc(1) by blast
  moreover have "block_view ?t = disk ?t"
    by (intro ext block_view_uncached) (use nc(1) in blast)
  ultimately show ?thesis using r by simp
qed

text \<open>A kernel state with an empty cache over the disk \<open>d\<close>, for evaluation on concrete inputs.\<close>

definition empty_cache :: "(nat \<Rightarrow> u8 list) \<Rightarrow> nat \<Rightarrow> kdisk" where
  "empty_cache d n = \<lparr>held = {}, ptable = (\<lambda>_. zero_proc), curproc = Some 0, mem = (\<lambda>_. 0),
     use_lock = True, freelist = 0, kend = 0,
     bufs = (\<lambda>_. \<lparr>b_valid = False, b_dirty = False, b_dev = 0, b_blockno = 0, b_lock = initsleeplock,
                   b_refcnt = 0, b_data = []\<rparr>),
     lru = [0 ..< NBUF], disk = d, disksize = n, dtrace = []\<rparr>"

lemma empty_cache_inv:
  "cache_inv (empty_cache d n) Map.empty" "pinned (empty_cache d n) = {}"
  "block_view (empty_cache d n) = d" "disksize (empty_cache d n) = n" "disk (empty_cache d n) = d"
proof -
  have nc: "\<not> caches (empty_cache d n) i b" for i b
    by (simp add: caches_def empty_cache_def ROOTDEV_def)
  show "cache_inv (empty_cache d n) Map.empty"
    unfolding cache_inv_def using nc by (auto simp: empty_cache_def initsleeplock_def)
  show dd: "disk (empty_cache d n) = d" by (simp add: empty_cache_def)
  show "pinned (empty_cache d n) = {}" using nc by (simp add: pinned_def)
  show "block_view (empty_cache d n) = d"
    using nc by (intro ext) (simp add: block_view_uncached dd)
qed (simp add: empty_cache_def)

theorem binit_establishes_cache_witness:
  "returns (binit (empty_cache (\<lambda>b. replicate 512 (of_nat b)) 1000)) (\<lambda>_ t. pinned t = {}
     \<and> block_view t = disk t)"
  using binit_establishes_cache [of "empty_cache (\<lambda>b. replicate 512 (of_nat b)) 1000" 0]
  by (auto simp: empty_cache_def elim!: returns_mono)

text \<open>
  C19. The contract of the buffer cache (\<open>bio.c\<close>, \<open>memide.c\<close>): with room for one more buffer, locking block \<open>b\<close> with
  \<open>bread\<close>, changing its data, \<open>bwrite\<close>, \<open>brelse\<close> and then \<open>bread\<close> of any block \<open>c\<close> never panics or
  blocks; the second \<open>bread\<close> finds the new data for \<open>c = b\<close> and the unchanged content of \<open>c\<close> otherwise,
  the disk has changed in block \<open>b\<close> only, no other cached block has changed, and the invariant holds with \<open>c\<close> locked.
\<close>

theorem bcache_read_back:
  assumes "cache_inv s L" "b \<notin> dom L" "c \<notin> dom L" "b < disksize s" "c < disksize s"
    "card (dom L \<union> pinned s) < NBUF"
  shows "returns (seq (bread ROOTDEV b) (\<lambda>i. seq (bdata i) (\<lambda>d. seq (set_bdata i (f d)) (\<lambda>_.
      seq (bwrite i) (\<lambda>_. seq (brelse i) (\<lambda>_. seq (bread ROOTDEV c) (\<lambda>j.
      seq (bdata j) (\<lambda>x. ret (j, x)))))))) s)
    (\<lambda>(j, x) t. x = ((block_view s)(b := f (block_view s b))) c
      \<and> disk t = (disk s)(b := f (block_view s b))
      \<and> block_view t = (block_view s)(b := f (block_view s b))
      \<and> pinned t = pinned s - {b} \<and> cache_inv t (L(c \<mapsto> j)))"
proof -
  obtain t where t: "seq (bread ROOTDEV b) (\<lambda>i. seq (bdata i) (\<lambda>d. seq (set_bdata i (f d)) (\<lambda>_.
      seq (bwrite i) (\<lambda>_. brelse i)))) s = Ret () t" "cache_inv t L" "cache_step s t"
    "block_view t = (block_view s)(b := f (block_view s b))" "pinned t = pinned s - {b}"
    "disk t = (disk s)(b := f (block_view s b))" "dtrace t = dtrace s @ [(b, f (block_view s b))]"
    using bc.write_block [OF assms(1,2) disjI2 [OF assms(6)] assms(4), of f] by (elim returns_unitE conjE) (rule that)
  have "finite (dom L \<union> pinned s)" using bc.inv_finite [OF assms(1)] by simp
  then have "card (dom L \<union> pinned t) \<le> card (dom L \<union> pinned s)"
    unfolding t(5) by (intro card_mono) auto
  then have "returns (bread ROOTDEV c t) (\<lambda>j u. cache_inv u (L(c \<mapsto> j)) \<and> cache_step t u
      \<and> block_view u = block_view t \<and> pinned u = pinned t \<and> disk u = disk t \<and> dtrace u = dtrace t
      \<and> b_data (bufs u j) = block_view t c)"
    using bread_ok [OF t(2) assms(3)] assms(5,6) cache_step_frame [OF t(3)] by simp
  then obtain j u where u: "bread ROOTDEV c t = Ret j u" "cache_inv u (L(c \<mapsto> j))"
    "block_view u = block_view t" "pinned u = pinned t" "disk u = disk t"
    by (auto elim!: returnsE)
  have Lc: "(L(c \<mapsto> j)) c = Some j" by simp
  have x: "bdata j u = Ret (block_view t c) u" using bdata_ok [OF u(2) Lc] u(3) by simp
  have "seq (seq (bread ROOTDEV b) (\<lambda>i. seq (bdata i) (\<lambda>d. seq (set_bdata i (f d)) (\<lambda>_.
      seq (bwrite i) (\<lambda>_. brelse i))))) (\<lambda>_. seq (bread ROOTDEV c) (\<lambda>j.
      seq (bdata j) (\<lambda>x. ret (j, x)))) s = Ret (j, block_view t c) u"
    using t(1) u(1) x by simp
  then show ?thesis using t u by (simp add: seq_assoc)
qed

theorem bcache_read_back_witness:
  "returns (seq (bread ROOTDEV 5) (\<lambda>i. seq (bdata i) (\<lambda>d. seq (set_bdata i ((\<lambda>_. replicate 512 9) d)) (\<lambda>_.
      seq (bwrite i) (\<lambda>_. seq (brelse i) (\<lambda>_. seq (bread ROOTDEV 5) (\<lambda>j.
      seq (bdata j) (\<lambda>x. ret (j, x)))))))) (empty_cache (\<lambda>b. replicate 512 0) 1000))
    (\<lambda>(j, x) t. x = replicate 512 9 \<and> disk t 5 = replicate 512 9 \<and> disk t 6 = replicate 512 0)"
proof -
  let ?s = "empty_cache (\<lambda>b. replicate 512 0) 1000"
  have "returns (seq (bread ROOTDEV 5) (\<lambda>i. seq (bdata i) (\<lambda>d. seq (set_bdata i ((\<lambda>_. replicate 512 9) d)) (\<lambda>_.
      seq (bwrite i) (\<lambda>_. seq (brelse i) (\<lambda>_. seq (bread ROOTDEV 5) (\<lambda>j.
      seq (bdata j) (\<lambda>x. ret (j, x)))))))) ?s)
    (\<lambda>(j, x) t. x = ((block_view ?s)(5 := (\<lambda>_. replicate 512 9) (block_view ?s 5))) 5
      \<and> disk t = (disk ?s)(5 := (\<lambda>_. replicate 512 9) (block_view ?s 5))
      \<and> block_view t = (block_view ?s)(5 := (\<lambda>_. replicate 512 9) (block_view ?s 5))
      \<and> pinned t = pinned ?s - {5} \<and> cache_inv t (Map.empty(5 \<mapsto> j)))"
    by (rule bcache_read_back [OF empty_cache_inv(1)])
      (simp_all add: empty_cache_inv const_defs)
  then show ?thesis by (rule returns_mono) (auto simp: empty_cache_inv)
qed

text \<open>
  Exclusive buffers (\<open>sleeplock.c\<close>): a process that finds the sleep lock of a buffer taken sleeps, and goes back to
  sleep every time it is resumed while the lock is taken; it obtains the lock, with its pid recorded, only when it is
  resumed with the lock free.
\<close>

theorem acquiresleep_buffer_exclusive:
  assumes "held s = {}" "curproc s = Some p"
    and "\<forall>u\<in>set us. held u = {LPtable} \<and> curproc u = Some p"
    and "\<forall>i<length us. sl_locked (buf_lock b ((s # us) ! i))"
  shows "if sl_locked (buf_lock b (last (s # us)))
     then \<exists>t k. resume (acquiresleep (buf_lock b) (upd_buf_lock b) (ChBufLock b) s) us = Switch t k
     else returns (resume (acquiresleep (buf_lock b) (upd_buf_lock b) (ChBufLock b) s) us)
            (\<lambda>_ t. sl_locked (buf_lock b t) \<and> sl_pid (buf_lock b t) = p_pid (ptable (last (s # us)) p)
               \<and> held t = {})"
  by (rule bl.acquiresleep_resume [OF assms])

theorem acquiresleep_buffer_exclusive_witness:
  "returns (resume (acquiresleep (buf_lock 3) (upd_buf_lock 3) (ChBufLock 3)
      (upd_buf_lock 3 (sl_locked_update (\<lambda>_. True)) (empty_cache (\<lambda>_. []) 1000)))
      [upd_buf_lock 3 (sl_locked_update (\<lambda>_. True)) ((empty_cache (\<lambda>_. []) 1000)\<lparr>held := {LPtable}\<rparr>),
       (empty_cache (\<lambda>_. []) 1000)\<lparr>held := {LPtable}\<rparr>])
    (\<lambda>_ t. sl_locked (buf_lock 3 t) \<and> held t = {})"
proof -
  let ?e = "empty_cache (\<lambda>_. []) 1000"
  let ?s = "upd_buf_lock 3 (sl_locked_update (\<lambda>_. True)) ?e"
  let ?us = "[upd_buf_lock 3 (sl_locked_update (\<lambda>_. True)) (?e\<lparr>held := {LPtable}\<rparr>), ?e\<lparr>held := {LPtable}\<rparr>]"
  have l: "\<forall>i<length ?us. sl_locked (buf_lock 3 ((?s # ?us) ! i))"
    by (auto simp: less_Suc_eq buf_lock_def upd_buf_lock_def)
  have "\<not> sl_locked (buf_lock 3 (last (?s # ?us)))"
    by (simp add: buf_lock_def empty_cache_def initsleeplock_def)
  then show ?thesis
    using acquiresleep_buffer_exclusive [OF _ _ _ l, of 0]
    by (auto simp: empty_cache_def upd_buf_lock_def elim!: returns_mono)
qed

end
