(* ===== verification/Blist.thy ===== *)
theory Blist
  imports Bio
begin

text \<open>
  The links of the buffer cache. \<open>bio.c\<close> keeps the buffers in a circular doubly linked list
  through \<open>prev\<close> and \<open>next\<close> with \<open>bcache.head\<close> as sentinel. Here the pointer surgery of \<open>binit\<close>
  and \<open>brelse\<close> and the two traversals of \<open>bget\<close> are modelled on the pointers and shown to implement
  the list of buffer numbers used in the theory of the cache.
\<close>

section \<open>Pointers\<close>

datatype node = Head | B nat

record links =
  nxt :: "node \<Rightarrow> node"
  prv :: "node \<Rightarrow> node"

definition set_next :: "node \<Rightarrow> node \<Rightarrow> links \<Rightarrow> links" where
  "set_next a b h = h\<lparr>nxt := (nxt h)(a := b)\<rparr>"

definition set_prev :: "node \<Rightarrow> node \<Rightarrow> links \<Rightarrow> links" where
  "set_prev a b h = h\<lparr>prv := (prv h)(a := b)\<rparr>"

text \<open>\<open>b->next = head.next; b->prev = &head; head.next->prev = b; head.next = b;\<close>\<close>

definition push_front :: "node \<Rightarrow> links \<Rightarrow> links" where
  "push_front b h0 =
     (let h1 = set_next b (nxt h0 Head) h0;
          h2 = set_prev b Head h1;
          h3 = set_prev (nxt h2 Head) b h2
      in set_next Head b h3)"

text \<open>\<open>b->next->prev = b->prev; b->prev->next = b->next;\<close>\<close>

definition unlink :: "node \<Rightarrow> links \<Rightarrow> links" where
  "unlink b h0 =
     (let h1 = set_prev (nxt h0 b) (prv h0 b) h0
      in set_next (prv h1 b) (nxt h1 b) h1)"

definition binit_links :: "links \<Rightarrow> links" where
  "binit_links h = fold (\<lambda>b. push_front (B b)) [0 ..< NBUF] (set_next Head Head (set_prev Head Head h))"

definition brelse_links :: "nat \<Rightarrow> links \<Rightarrow> links" where
  "brelse_links b h = push_front (B b) (unlink (B b) h)"

text \<open>The loops of \<open>bget\<close>: from a node along \<open>next\<close> (or \<open>prev\<close>) until a buffer satisfies the
  test or the sentinel is reached.\<close>

partial_function (option) walk :: "(node \<Rightarrow> node) \<Rightarrow> (nat \<Rightarrow> bool) \<Rightarrow> node \<Rightarrow> nat option option" where
  "walk nx P n = (case n of
      Head \<Rightarrow> Some None
    | B i \<Rightarrow> if P i then Some (Some i) else walk nx P (nx n))"

section \<open>Abstraction\<close>

fun linked :: "links \<Rightarrow> node list \<Rightarrow> bool" where
  "linked h (a # b # l) \<longleftrightarrow> nxt h a = b \<and> prv h b = a \<and> linked h (b # l)"
| "linked h l \<longleftrightarrow> True"

definition dlist :: "links \<Rightarrow> nat list \<Rightarrow> bool" where
  "dlist h xs \<longleftrightarrow> distinct xs \<and> linked h (Head # map B xs @ [Head])"

lemma linked_append:
  "linked h (xs @ a # ys) \<longleftrightarrow> linked h (xs @ [a]) \<and> linked h (a # ys)"
proof (induction xs)
  case Nil
  then show ?case by (cases ys) auto
next
  case (Cons x xs)
  then show ?case by (cases xs) auto
qed

lemma linked_frame:
  assumes "\<forall>a\<in>set (butlast l). nxt h' a = nxt h a" "\<forall>a\<in>set (tl l). prv h' a = prv h a"
  shows "linked h' l = linked h l"
  using assms
proof (induction l)
  case (Cons a l)
  show ?case
  proof (cases l)
    case (Cons b m)
    then have "\<forall>a\<in>set (tl l). prv h' a = prv h a" using Cons.prems(2) by auto
    then have "linked h' l = linked h l" using Cons.IH Cons.prems(1) Cons by auto
    then show ?thesis using Cons Cons.prems by auto
  qed simp
qed simp

lemma push_front_dlist:
  assumes "dlist h xs" "b \<notin> set xs"
  shows "dlist (push_front (B b) h) (b # xs)"
proof -
  let ?h = "push_front (B b) h"
  let ?l = "map B xs @ [Head]"
  obtain q l where l: "?l = q # l" by (cases ?l) auto
  have old: "nxt h Head = q" "linked h (q # l)" using assms(1) l by (auto simp: dlist_def)
  have nb: "B b \<notin> set ?l" using assms(2) by auto
  have q: "q \<notin> set l"
    using l assms(1) by (cases xs) (auto simp: dlist_def)
  have h: "nxt ?h = (nxt h)(B b := q, Head := B b)" "prv ?h = (prv h)(B b := Head, q := B b)"
    using old(1) by (auto simp: push_front_def Let_def set_next_def set_prev_def)
  have bl: "butlast (q # l) = map B xs" using l by (metis butlast_snoc)
  have "linked ?h (q # l) = linked h (q # l)"
  proof (rule linked_frame)
    show "\<forall>a\<in>set (butlast (q # l)). nxt ?h a = nxt h a"
      unfolding bl h using assms(2) by auto
    show "\<forall>a\<in>set (tl (q # l)). prv ?h a = prv h a"
      unfolding h using nb l q by auto
  qed
  moreover have "q \<noteq> B b" using nb l by auto
  ultimately show ?thesis
    using assms old h l by (simp add: dlist_def)
qed

lemma unlink_dlist:
  assumes "dlist h (ys @ b # zs)"
  shows "dlist (unlink (B b) h) (ys @ zs)"
proof -
  let ?h = "unlink (B b) h"
  define l1 l2 where "l1 = Head # map B ys" and "l2 = map B zs @ [Head]"
  obtain l p where p: "l1 = l @ [p]" using l1_def by (metis append_butlast_last_id list.distinct(1))
  have "l2 \<noteq> []" by (simp add: l2_def)
  then obtain q r where q: "l2 = q # r" by (cases l2) auto
  have "l @ p # B b # q # r = (l @ [p]) @ B b # (q # r)" by simp
  also have "\<dots> = Head # map B (ys @ b # zs) @ [Head]"
    unfolding p [symmetric] q [symmetric] by (simp add: l1_def l2_def)
  finally have d: "distinct (ys @ b # zs)" and lk: "linked h (l @ p # B b # q # r)"
    using assms by (simp_all only: dlist_def)
  have lks: "linked h (l @ [p])" "nxt h p = B b" "prv h (B b) = p" "nxt h (B b) = q" "prv h q = B b"
      "linked h (q # r)"
    using lk linked_append [of h l p "B b # q # r"] by auto
  have sets: "set (l @ [p]) = insert Head (B ` set ys)" "set (q # r) = insert Head (B ` set zs)"
    unfolding p [symmetric] q [symmetric] by (auto simp: l1_def l2_def)
  have tl1: "set (tl (l @ [p])) = B ` set ys" unfolding p [symmetric] by (simp add: l1_def)
  have bl2: "butlast (q # r) = map B zs" unfolding q [symmetric] by (simp add: l2_def)
  have dl: "distinct (l @ [p])" "distinct (q # r)"
    unfolding p [symmetric] q [symmetric] using d by (auto simp: l1_def l2_def distinct_map inj_on_def)
  have pb: "p \<noteq> B b" and qb: "q \<noteq> B b" using sets d by auto
  have h: "nxt ?h = (nxt h)(p := q)" "prv ?h = (prv h)(q := p)"
    using lks pb qb by (auto simp: unlink_def Let_def set_next_def set_prev_def)
  have "linked ?h (l @ [p]) = linked h (l @ [p])"
  proof (rule linked_frame)
    show "\<forall>a\<in>set (butlast (l @ [p])). nxt ?h a = nxt h a"
      unfolding h using dl(1) by auto
    have "q \<notin> B ` set ys" using sets(2) d by auto
    then show "\<forall>a\<in>set (tl (l @ [p])). prv ?h a = prv h a"
      unfolding h tl1 by auto
  qed
  moreover have "linked ?h (q # r) = linked h (q # r)"
  proof (rule linked_frame)
    have "p \<notin> B ` set zs" using sets(1) d by auto
    then show "\<forall>a\<in>set (butlast (q # r)). nxt ?h a = nxt h a"
      unfolding h bl2 by auto
    show "\<forall>a\<in>set (tl (q # r)). prv ?h a = prv h a"
      unfolding h using dl(2) by auto
  qed
  ultimately have "linked ?h (l @ p # q # r)"
    using lks h linked_append [of ?h l p "q # r"] by simp
  moreover have "l @ p # q # r = l1 @ l2" by (simp add: p q)
  ultimately show ?thesis
    using d by (simp add: dlist_def l1_def l2_def)
qed

lemma walk_next:
  "linked h (map B xs @ [Head]) \<Longrightarrow> walk (nxt h) P (hd (map B xs @ [Head])) = Some (find P xs)"
proof (induction xs)
  case Nil
  then show ?case by (simp add: walk.simps)
next
  case (Cons x xs)
  then have "nxt h (B x) = hd (map B xs @ [Head])" by (cases xs) auto
  moreover have "linked h (map B xs @ [Head])" using Cons.prems by (cases xs) auto
  ultimately show ?case using Cons.IH by (simp add: walk.simps [of _ _ "B x"])
qed

lemma walk_prev:
  "linked h (Head # map B xs) \<Longrightarrow> walk (prv h) P (last (Head # map B xs)) = Some (find P (rev xs))"
proof (induction xs rule: rev_induct)
  case Nil
  then show ?case by (simp add: walk.simps)
next
  case (snoc x xs)
  define l p where "l = butlast (Head # map B xs)" and "p = last (Head # map B xs)"
  have lp: "Head # map B xs = l @ [p]" by (simp add: l_def p_def del: last.simps butlast.simps)
  then have "Head # map B (xs @ [x]) = l @ p # [B x]" by simp
  then have "linked h (l @ p # [B x])" using snoc.prems by (simp only:)
  then have "linked h (l @ [p])" "prv h (B x) = p"
    using linked_append [of h l p "[B x]"] by auto
  then have "walk (prv h) P (prv h (B x)) = Some (find P (rev xs))"
    using snoc.IH [unfolded lp] by simp
  then show ?case by (simp add: walk.simps [of _ _ "B x"])
qed

lemma dlist_init: "dlist (set_next Head Head (set_prev Head Head h)) []"
  by (simp add: dlist_def set_next_def set_prev_def)

lemma binit_fold:
  "dlist h xs \<Longrightarrow> distinct (ys @ xs) \<Longrightarrow> dlist (fold (\<lambda>b. push_front (B b)) ys h) (rev ys @ xs)"
proof (induction ys arbitrary: h xs)
  case (Cons y ys)
  have "dlist (push_front (B y) h) (y # xs)" using push_front_dlist Cons.prems by simp
  then have "dlist (fold (\<lambda>b. push_front (B b)) ys (push_front (B y) h)) (rev ys @ y # xs)"
    using Cons.IH [of _ "y # xs"] Cons.prems(2) by auto
  then show ?case by simp
qed simp

section \<open>Refinement\<close>

text \<open>
  C18. Refinement of the buffer list (\<open>bio.c\<close>): the pointer code implements the list of buffers of the cache. \<open>binit\<close> builds the list of all
  buffers; on a list \<open>xs\<close> of different buffers, the relinking in \<open>brelse\<close> moves the buffer to the front and keeps the
  order of the others; and the two loops of \<open>bget\<close> terminate and return the first buffer of the list, from the
  front and from the back, that passes their test.
\<close>

theorem bio_links_refine:
  "dlist (binit_links h) (rev [0 ..< NBUF])
   \<and> (dlist h xs \<and> b \<in> set xs \<longrightarrow> dlist (brelse_links b h) (b # remove1 b xs))
   \<and> (dlist h xs \<longrightarrow> walk (nxt h) P (nxt h Head) = Some (find P xs)
        \<and> walk (prv h) P (prv h Head) = Some (find P (rev xs)))"
proof (intro conjI impI)
  show "dlist (binit_links h) (rev [0 ..< NBUF])"
    using binit_fold [OF dlist_init, of "[0 ..< NBUF]" h] by (simp add: binit_links_def)
next
  assume a: "dlist h xs \<and> b \<in> set xs"
  then obtain ys zs where xs: "xs = ys @ b # zs" by (auto simp: in_set_conv_decomp)
  have d: "distinct xs" using a by (simp add: dlist_def)
  have "remove1 b xs = ys @ zs" using d xs by (simp add: remove1_append)
  moreover have "dlist (unlink (B b) h) (ys @ zs)" using unlink_dlist a xs by blast
  moreover have "b \<notin> set (ys @ zs)" using d xs by auto
  ultimately show "dlist (brelse_links b h) (b # remove1 b xs)"
    using push_front_dlist by (simp add: brelse_links_def)
next
  assume d: "dlist h xs"
  have f: "nxt h Head = hd (map B xs @ [Head])" "linked h (map B xs @ [Head])"
    using d by (cases xs; auto simp: dlist_def)+
  then show "walk (nxt h) P (nxt h Head) = Some (find P xs)" using walk_next by simp
  define l p where "l = butlast (Head # map B xs)" and "p = last (Head # map B xs)"
  have lp: "Head # map B xs = l @ [p]" by (simp add: l_def p_def del: last.simps butlast.simps)
  then have "Head # map B xs @ [Head] = l @ p # [Head]" by simp
  then have "linked h (l @ p # [Head])" using d by (simp only: dlist_def)
  then have "linked h (l @ [p])" "prv h Head = p"
    using linked_append [of h l p "[Head]"] by auto
  then show "walk (prv h) P (prv h Head) = Some (find P (rev xs))"
    using walk_prev [of h xs P, unfolded lp] by simp
qed

theorem bio_links_refine_witness:
  "dlist (brelse_links 2 (push_front (B 1) (push_front (B 2) (set_next Head Head (set_prev Head Head
      \<lparr>nxt = (\<lambda>_. Head), prv = (\<lambda>_. Head)\<rparr>))))) [2, 1]"
proof -
  let ?h = "push_front (B 1) (push_front (B 2) (set_next Head Head (set_prev Head Head
      \<lparr>nxt = (\<lambda>_. Head), prv = (\<lambda>_. Head)\<rparr>)))"
  have "dlist ?h [1, 2]"
    by (simp add: dlist_def push_front_def Let_def set_next_def set_prev_def)
  then show ?thesis using bio_links_refine [of ?h "[1, 2]" 2] by simp
qed

end
