(* ===== verification/Fsformat.thy ===== *)
theory Fsformat
  imports Kstring
begin

text \<open>
  The on-disk data structures of \<open>fs.h\<close> and \<open>log.c\<close> as sequences of bytes. The code casts a block
  to a structure and reads or assigns its fields; here a field is read and written at its offset,
  in little-endian order, as on the machine. Every writer has its round-trip lemma and leaves the
  rest of the block alone.
\<close>

section \<open>Fields of a block\<close>

definition get32 :: "u8 list \<Rightarrow> nat \<Rightarrow> u32" where
  "get32 d off = le32_of (d ! off) (d ! (off + 1)) (d ! (off + 2)) (d ! (off + 3))"

definition put32 :: "u8 list \<Rightarrow> nat \<Rightarrow> u32 \<Rightarrow> u8 list" where
  "put32 d off w =
     d[off := byte_of 0 w, off + 1 := byte_of (Suc 0) w, off + 2 := byte_of 2 w, off + 3 := byte_of 3 w]"

definition get16 :: "u8 list \<Rightarrow> nat \<Rightarrow> u16" where
  "get16 d off = le16_of (d ! off) (d ! (off + 1))"

definition put16 :: "u8 list \<Rightarrow> nat \<Rightarrow> u16 \<Rightarrow> u8 list" where
  "put16 d off w = d[off := lo8 w, off + 1 := hi8 w]"

text \<open>\<open>memmove\<close> of \<open>src\<close> to offset \<open>off\<close> of a block.\<close>

definition splice :: "u8 list \<Rightarrow> nat \<Rightarrow> u8 list \<Rightarrow> u8 list" where
  "splice d off src = take off d @ src @ drop (off + length src) d"

definition slice :: "u8 list \<Rightarrow> nat \<Rightarrow> nat \<Rightarrow> u8 list" where
  "slice d off n = take n (drop off d)"

section \<open>The structures\<close>

definition sb_of :: "u8 list \<Rightarrow> superblock" where
  "sb_of d = \<lparr>sb_size = unat (get32 d 0), sb_nblocks = unat (get32 d 4), sb_ninodes = unat (get32 d 8),
     sb_nlog = unat (get32 d 12), sb_logstart = unat (get32 d 16), sb_inodestart = unat (get32 d 20),
     sb_bmapstart = unat (get32 d 24)\<rparr>"

record dinode =
  d_type :: u16
  d_major :: u16
  d_minor :: u16
  d_nlink :: u16
  d_size :: u32
  d_addrs :: "nat \<Rightarrow> u32"

definition get_dinode :: "u8 list \<Rightarrow> nat \<Rightarrow> dinode" where
  "get_dinode d k = (let off = 64 * k in
     \<lparr>d_type = get16 d off, d_major = get16 d (off + 2), d_minor = get16 d (off + 4), d_nlink = get16 d (off + 6),
      d_size = get32 d (off + 8),
      d_addrs = (\<lambda>i. if i \<le> NDIRECT then get32 d (off + 12 + 4 * i) else 0)\<rparr>)"

definition put_addrs :: "u8 list \<Rightarrow> nat \<Rightarrow> (nat \<Rightarrow> u32) \<Rightarrow> u8 list" where
  "put_addrs d off a = fold (\<lambda>i d. put32 d (off + 4 * i) (a i)) [0 ..< NDIRECT + 1] d"

definition put_dinode :: "u8 list \<Rightarrow> nat \<Rightarrow> dinode \<Rightarrow> u8 list" where
  "put_dinode d k x = (let off = 64 * k;
     d1 = put16 d off (d_type x);
     d2 = put16 d1 (off + 2) (d_major x);
     d3 = put16 d2 (off + 4) (d_minor x);
     d4 = put16 d3 (off + 6) (d_nlink x);
     d5 = put32 d4 (off + 8) (d_size x)
     in put_addrs d5 (off + 12) (d_addrs x))"

text \<open>
  The log header: the number of logged blocks, an \<open>int\<close> whose negative values mean no block to
  the loops that use it, and their block numbers.
\<close>

definition lh_n :: "u8 list \<Rightarrow> nat" where
  "lh_n d = (if get32 d 0 \<ge> 0x80000000 then 0 else unat (get32 d 0))"

definition lh_block :: "u8 list \<Rightarrow> nat \<Rightarrow> nat" where
  "lh_block d i = unat (get32 d (4 + 4 * i))"

definition put_lh :: "u8 list \<Rightarrow> nat \<Rightarrow> (nat \<Rightarrow> nat) \<Rightarrow> u8 list" where
  "put_lh d n blk = fold (\<lambda>i d. put32 d (4 + 4 * i) (of_nat (blk i))) [0 ..< n] (put32 d 0 (of_nat n))"

section \<open>Round trips\<close>

lemma length_put32 [simp]: "length (put32 d off w) = length d"
  by (simp add: put32_def)

lemma length_put16 [simp]: "length (put16 d off w) = length d"
  by (simp add: put16_def)

lemma put32_nth_other: "i < off \<or> off + 4 \<le> i \<Longrightarrow> put32 d off w ! i = d ! i"
  by (auto simp: put32_def)

lemma put16_nth_other: "i < off \<or> off + 2 \<le> i \<Longrightarrow> put16 d off w ! i = d ! i"
  by (auto simp: put16_def)

lemma get32_put32_same [simp]: "off + 4 \<le> length d \<Longrightarrow> get32 (put32 d off w) off = w"
  by (simp add: get32_def put32_def)

lemma get16_put16_same [simp]: "off + 2 \<le> length d \<Longrightarrow> get16 (put16 d off w) off = w"
  by (simp add: get16_def put16_def)

lemma get32_put32_other: "off' + 4 \<le> off \<or> off + 4 \<le> off' \<Longrightarrow> get32 (put32 d off w) off' = get32 d off'"
  by (auto simp: get32_def put32_nth_other)

lemma get16_put32_other: "off' + 2 \<le> off \<or> off + 4 \<le> off' \<Longrightarrow> get16 (put32 d off w) off' = get16 d off'"
  by (auto simp: get16_def put32_nth_other)

lemma get32_put16_other: "off' + 4 \<le> off \<or> off + 2 \<le> off' \<Longrightarrow> get32 (put16 d off w) off' = get32 d off'"
  by (auto simp: get32_def put16_nth_other)

lemma get16_put16_other: "off' + 2 \<le> off \<or> off + 2 \<le> off' \<Longrightarrow> get16 (put16 d off w) off' = get16 d off'"
  by (auto simp: get16_def put16_nth_other)

text \<open>An array of words written by a loop.\<close>

lemma length_fold_put32 [simp]:
  "length (fold (\<lambda>i d. put32 d (base + 4 * i) (a i)) xs d) = length d"
  by (induction xs arbitrary: d) auto

lemma fold_put32_nth_other:
  "\<forall>i\<in>set xs. k < base + 4 * i \<or> base + 4 * i + 4 \<le> k \<Longrightarrow>
   fold (\<lambda>i d. put32 d (base + 4 * i) (a i)) xs d ! k = d ! k"
  by (induction xs arbitrary: d) (auto simp: put32_nth_other)

lemma get32_fold_other:
  assumes "j \<notin> set xs"
  shows "get32 (fold (\<lambda>i d. put32 d (base + 4 * i) (a i)) xs d) (base + 4 * j) = get32 d (base + 4 * j)"
proof -
  have "base + 4 * j + m < base + 4 * i \<or> base + 4 * i + 4 \<le> base + 4 * j + m" if "i \<in> set xs" "m < 4" for i m
    using assms that by (cases "i < j") (auto simp: not_less le_less)
  then have "fold (\<lambda>i d. put32 d (base + 4 * i) (a i)) xs d ! (base + 4 * j + m) = d ! (base + 4 * j + m)"
    if "m < 4" for m
    using that by (intro fold_put32_nth_other) blast
  from this [of 0] this [of 1] this [of 2] this [of 3] show ?thesis
    by (simp add: get32_def add.assoc)
qed

lemma get32_fold_same:
  assumes "distinct xs" "j \<in> set xs" "base + 4 * j + 4 \<le> length d"
  shows "get32 (fold (\<lambda>i d. put32 d (base + 4 * i) (a i)) xs d) (base + 4 * j) = a j"
  using assms
proof (induction xs arbitrary: d)
  case (Cons x xs)
  show ?case
  proof (cases "j = x")
    case True
    then show ?thesis using Cons.prems by (simp add: get32_fold_other)
  next
    case False
    then show ?thesis using Cons by simp
  qed
qed simp

lemma get32_fold_before:
  "off + 4 \<le> base \<Longrightarrow> get32 (fold (\<lambda>i d. put32 d (base + 4 * i) (a i)) xs d) off = get32 d off"
  by (simp add: get32_def fold_put32_nth_other)

lemma get16_fold_before:
  "off + 2 \<le> base \<Longrightarrow> get16 (fold (\<lambda>i d. put32 d (base + 4 * i) (a i)) xs d) off = get16 d off"
  by (simp add: get16_def fold_put32_nth_other)

text \<open>The log header.\<close>

lemma length_put_lh [simp]: "length (put_lh d n blk) = length d"
  by (simp add: put_lh_def)

lemma lh_n_put_lh:
  assumes "n \<le> LOGSIZE" "length d = BSIZE"
  shows "lh_n (put_lh d n blk) = n"
proof -
  have "get32 (put_lh d n blk) 0 = of_nat n"
    using assms by (simp add: put_lh_def get32_fold_before BSIZE_def)
  moreover have "n < 2 ^ 31" using assms(1) by (simp add: const_defs)
  then have "unat (of_nat n :: u32) = n" "\<not> (0x80000000 :: u32) \<le> of_nat n"
    by (simp_all add: word_le_nat_alt unat_of_nat)
  ultimately show ?thesis by (simp add: lh_n_def)
qed

lemma lh_block_put_lh:
  assumes "i < n" "n \<le> LOGSIZE" "length d = BSIZE" "blk i < 2 ^ 32"
  shows "lh_block (put_lh d n blk) i = blk i"
proof -
  have "get32 (put_lh d n blk) (4 + 4 * i) = of_nat (blk i)"
    unfolding put_lh_def
    by (rule get32_fold_same) (use assms in \<open>auto simp: const_defs\<close>)
  then show ?thesis using assms(4) by (simp add: lh_block_def unat_of_nat_small)
qed

text \<open>Inodes: a block holds \<open>IPB\<close> of them.\<close>

lemma length_put_dinode [simp]: "length (put_dinode d k x) = length d"
  by (simp add: put_dinode_def put_addrs_def Let_def)

lemma put_dinode_nth_other:
  "j < 64 * k \<or> 64 * k + 64 \<le> j \<Longrightarrow> put_dinode d k x ! j = d ! j"
  by (auto simp: put_dinode_def put_addrs_def Let_def put16_nth_other put32_nth_other
      fold_put32_nth_other NDIRECT_def)

lemma get_dinode_other:
  assumes "j \<noteq> k"
  shows "get_dinode (put_dinode d k x) j = get_dinode d j"
proof -
  have "put_dinode d k x ! i = d ! i" if "64 * j \<le> i" "i < 64 * j + 64" for i
    using that assms by (intro put_dinode_nth_other) linarith
  then show ?thesis
    by (auto simp: get_dinode_def Let_def get16_def get32_def NDIRECT_def fun_eq_iff)
qed

lemma get_dinode_same:
  assumes "64 * k + 64 \<le> length d" "\<forall>i. NDIRECT < i \<longrightarrow> d_addrs x i = 0"
  shows "get_dinode (put_dinode d k x) k = x"
proof -
  let ?d5 = "put32 (put16 (put16 (put16 (put16 d (64 * k) (d_type x)) (64 * k + 2) (d_major x))
    (64 * k + 4) (d_minor x)) (64 * k + 6) (d_nlink x)) (64 * k + 8) (d_size x)"
  have e: "put_dinode d k x = fold (\<lambda>i d. put32 d (64 * k + 12 + 4 * i) (d_addrs x i)) [0 ..< NDIRECT + 1] ?d5"
    by (simp add: put_dinode_def put_addrs_def Let_def)
  have a: "get32 (put_dinode d k x) (64 * k + 12 + 4 * i) = d_addrs x i" if "i \<le> NDIRECT" for i
    unfolding e by (rule get32_fold_same) (use assms(1) that in \<open>auto simp: NDIRECT_def\<close>)
  have h: "get16 (put_dinode d k x) (64 * k) = d_type x"
    "get16 (put_dinode d k x) (64 * k + 2) = d_major x"
    "get16 (put_dinode d k x) (64 * k + 4) = d_minor x"
    "get16 (put_dinode d k x) (64 * k + 6) = d_nlink x"
    "get32 (put_dinode d k x) (64 * k + 8) = d_size x"
    unfolding e using assms(1)
    by (simp_all add: get16_fold_before get32_fold_before get16_put32_other get16_put16_other
        del: upt_Suc)
  have "d_addrs (get_dinode (put_dinode d k x) k) = d_addrs x"
    using a assms(2) by (auto simp: get_dinode_def Let_def fun_eq_iff)
  then show ?thesis
    using h by (simp add: get_dinode_def Let_def)
qed

text \<open>
  Inode encoding (\<open>fs.h\<close>): writing an inode into its slot of an inode block and reading the slot
  gives the inode back, and every other slot of the block reads as before.
\<close>

theorem dinode_roundtrip:
  assumes "length d = BSIZE" "k < IPB" "\<forall>i. NDIRECT < i \<longrightarrow> d_addrs x i = 0"
  shows "get_dinode (put_dinode d k x) j = (if j = k then x else get_dinode d j)"
proof (cases "j = k")
  case True
  have "64 * k + 64 \<le> length d" using assms(1,2) by (simp add: const_defs)
  then show ?thesis using True get_dinode_same assms(3) by simp
qed (simp add: get_dinode_other)

theorem dinode_roundtrip_witness:
  "d_size (get_dinode (put_dinode (replicate 512 7) 3
      \<lparr>d_type = 2, d_major = 0, d_minor = 0, d_nlink = 1, d_size = 70000, d_addrs = (\<lambda>i. if i \<le> 12 then 29 else 0)\<rparr>) 3)
    = 70000"
  using dinode_roundtrip [of "replicate 512 7" 3
      "\<lparr>d_type = 2, d_major = 0, d_minor = 0, d_nlink = 1, d_size = 70000, d_addrs = (\<lambda>i. if i \<le> 12 then 29 else 0)\<rparr>" 3]
  by (simp add: const_defs)

end
