(* ===== verification/Log.thy ===== *)
theory Log
  imports Bio Fsformat
begin

text \<open>
  The write-ahead log of \<open>log.c\<close>. A system call brackets its file system updates with
  \<open>begin_op\<close> and \<open>end_op\<close>; \<open>log_write\<close> pins the buffers it changed, and the last \<open>end_op\<close> commits: it copies the
  pinned blocks to the log, writes the header (the commit point), installs the blocks and clears the header.

  Shown: the exact sequence of disk writes of a commit and of a recovery; that a crash after any
  number of these writes, followed by \<open>recover_from_log\<close>, leaves the file system with all of the
  transaction or none of it; that recovery interrupted at any point and run again gives the same result; the
  reservation of log space by \<open>begin_op\<close>; and log absorption.
\<close>

section \<open>State and operations\<close>

record klog = kdisk +
  lg_start :: nat
  lg_size :: nat
  lg_outstanding :: int
  lg_committing :: bool
  lg_dev :: nat
  lg_n :: nat
  lg_block :: "nat \<Rightarrow> nat"

text \<open>\<open>fs.c\<close>: read the super block.\<close>

definition readsb :: "nat \<Rightarrow> (superblock, 'z klog_scheme) km" where
  "readsb dev =
     seq (bread dev 1) (\<lambda>bp.
     seq (bdata bp) (\<lambda>d.
     seq (brelse bp) (\<lambda>_.
     ret (sb_of d))))"

definition install_one :: "nat \<Rightarrow> (unit, 'z klog_scheme) km" where
  "install_one tail =
     seq (gets lg_dev) (\<lambda>dev.
     seq (gets (\<lambda>s. lg_start s + tail + 1)) (\<lambda>lb.
     seq (bread dev lb) (\<lambda>lbuf.
     seq (gets (\<lambda>s. lg_block s tail)) (\<lambda>hb.
     seq (bread dev hb) (\<lambda>dbuf.
     seq (bdata lbuf) (\<lambda>d.
     seq (set_bdata dbuf d) (\<lambda>_.
     seq (bwrite dbuf) (\<lambda>_.
     seq (brelse lbuf) (\<lambda>_.
     brelse dbuf)))))))))"

definition install_trans :: "(unit, 'z klog_scheme) km" where
  "install_trans = seq (gets lg_n) (\<lambda>n. for_each install_one [0 ..< n])"

definition read_head :: "(unit, 'z klog_scheme) km" where
  "read_head =
     seq (gets lg_dev) (\<lambda>dev.
     seq (gets lg_start) (\<lambda>start.
     seq (bread dev start) (\<lambda>buf.
     seq (bdata buf) (\<lambda>d.
     seq (modify (\<lambda>s. s\<lparr>lg_n := lh_n d\<rparr>)) (\<lambda>_.
     seq (modify (\<lambda>s. s\<lparr>lg_block := (\<lambda>i. if i < lg_n s then lh_block d i else lg_block s i)\<rparr>)) (\<lambda>_.
     brelse buf))))))"

definition write_head :: "(unit, 'z klog_scheme) km" where
  "write_head =
     seq (gets lg_dev) (\<lambda>dev.
     seq (gets lg_start) (\<lambda>start.
     seq (bread dev start) (\<lambda>buf.
     seq (gets lg_n) (\<lambda>n.
     seq (gets lg_block) (\<lambda>blk.
     seq (bdata buf) (\<lambda>d.
     seq (set_bdata buf (put_lh d n blk)) (\<lambda>_.
     seq (bwrite buf) (\<lambda>_.
     brelse buf))))))))"

definition recover_from_log :: "(unit, 'z klog_scheme) km" where
  "recover_from_log =
     seq read_head (\<lambda>_.
     seq install_trans (\<lambda>_.
     seq (modify (\<lambda>s. s\<lparr>lg_n := 0\<rparr>)) (\<lambda>_.
     write_head)))"

definition initlog :: "nat \<Rightarrow> (unit, 'z klog_scheme) km" where
  "initlog dev =
     (if 4 + 4 * LOGSIZE \<ge> BSIZE then panic ''initlog: too big logheader''
      else
        seq (initlock LLog) (\<lambda>_.
        seq (readsb dev) (\<lambda>sb.
        seq (modify (\<lambda>s. s\<lparr>lg_start := sb_logstart sb\<rparr>)) (\<lambda>_.
        seq (modify (\<lambda>s. s\<lparr>lg_size := sb_nlog sb\<rparr>)) (\<lambda>_.
        seq (modify (\<lambda>s. s\<lparr>lg_dev := dev\<rparr>)) (\<lambda>_.
        recover_from_log))))))"

definition begin_op :: "(unit, 'z klog_scheme) km" where
  "begin_op =
     seq (acquire LLog) (\<lambda>_.
     iterate (\<lambda>_.
       seq (gets lg_committing) (\<lambda>c.
       seq (gets (\<lambda>s. int (lg_n s) + (lg_outstanding s + 1) * int MAXOPBLOCKS > int LOGSIZE)) (\<lambda>full.
       if c then seq (sleep ChLog LLog) (\<lambda>_. ret (Inr ()))
       else if full then seq (sleep ChLog LLog) (\<lambda>_. ret (Inr ()))
       else
         seq (modify (\<lambda>s. s\<lparr>lg_outstanding := lg_outstanding s + 1\<rparr>)) (\<lambda>_.
         seq (release LLog) (\<lambda>_.
         ret (Inl ())))))) ())"

definition write_log_one :: "nat \<Rightarrow> (unit, 'z klog_scheme) km" where
  "write_log_one tail =
     seq (gets lg_dev) (\<lambda>dev.
     seq (gets (\<lambda>s. lg_start s + tail + 1)) (\<lambda>lb.
     seq (bread dev lb) (\<lambda>to.
     seq (gets (\<lambda>s. lg_block s tail)) (\<lambda>hb.
     seq (bread dev hb) (\<lambda>from.
     seq (bdata from) (\<lambda>d.
     seq (set_bdata to d) (\<lambda>_.
     seq (bwrite to) (\<lambda>_.
     seq (brelse from) (\<lambda>_.
     brelse to)))))))))"

definition write_log :: "(unit, 'z klog_scheme) km" where
  "write_log = seq (gets lg_n) (\<lambda>n. for_each write_log_one [0 ..< n])"

definition commit :: "(unit, 'z klog_scheme) km" where
  "commit =
     seq (gets lg_n) (\<lambda>n.
     if n > 0 then
       seq write_log (\<lambda>_.
       seq write_head (\<lambda>_.
       seq install_trans (\<lambda>_.
       seq (modify (\<lambda>s. s\<lparr>lg_n := 0\<rparr>)) (\<lambda>_.
       write_head))))
     else ret ())"

definition end_op :: "(unit, 'z klog_scheme) km" where
  "end_op =
     seq (acquire LLog) (\<lambda>_.
     seq (modify (\<lambda>s. s\<lparr>lg_outstanding := lg_outstanding s - 1\<rparr>)) (\<lambda>_.
     seq (gets lg_committing) (\<lambda>c.
     seq (gets lg_outstanding) (\<lambda>out.
     if c then panic ''log.committing''
     else
       seq (if out = 0 then modify (\<lambda>s. s\<lparr>lg_committing := True\<rparr>) else wakeup ChLog) (\<lambda>_.
       seq (release LLog) (\<lambda>_.
       if out = 0 then
         seq commit (\<lambda>_.
         seq (acquire LLog) (\<lambda>_.
         seq (modify (\<lambda>s. s\<lparr>lg_committing := False\<rparr>)) (\<lambda>_.
         seq (wakeup ChLog) (\<lambda>_.
         release LLog))))
       else ret ()))))))"

text \<open>The index at which \<open>log_write\<close> records a block: where it is already, or at the end.\<close>

definition log_index :: "(nat \<Rightarrow> nat) \<Rightarrow> nat \<Rightarrow> nat \<Rightarrow> nat" where
  "log_index blk n b = (case find (\<lambda>i. blk i = b) [0 ..< n] of Some i \<Rightarrow> i | None \<Rightarrow> n)"

definition log_write :: "nat \<Rightarrow> (unit, 'z klog_scheme) km" where
  "log_write i =
     seq (gets (\<lambda>s. lg_n s \<ge> LOGSIZE \<or> int (lg_n s) \<ge> int (lg_size s) - 1)) (\<lambda>big.
     seq (gets (\<lambda>s. lg_outstanding s < 1)) (\<lambda>outside.
     if big then panic ''too big a transaction''
     else if outside then panic ''log_write outside of trans''
     else
       seq (acquire LLog) (\<lambda>_.
       seq (gets (\<lambda>s. b_blockno (bufs s i))) (\<lambda>b.
       seq (gets (\<lambda>s. log_index (lg_block s) (lg_n s) b)) (\<lambda>k.
       seq (modify (\<lambda>s. s\<lparr>lg_block := (lg_block s)(k := b)\<rparr>)) (\<lambda>_.
       seq (modify (\<lambda>s. if k = lg_n s then s\<lparr>lg_n := lg_n s + 1\<rparr> else s)) (\<lambda>_.
       seq (upd_buf i (b_dirty_update (\<lambda>_. True))) (\<lambda>_.
       release LLog))))))))"

section \<open>Sequences of disk writes\<close>

definition apply_writes :: "(nat \<times> u8 list) list \<Rightarrow> (nat \<Rightarrow> u8 list) \<Rightarrow> nat \<Rightarrow> u8 list" where
  "apply_writes W f = fold (\<lambda>(b, d) f. f(b := d)) W f"

text \<open>From \<open>s\<close> to \<open>t\<close> the computation has written the blocks \<open>W\<close> to the disk, in this order, and done nothing else.\<close>

definition wrote :: "'z klog_scheme \<Rightarrow> 'z klog_scheme \<Rightarrow> (nat \<times> u8 list) list \<Rightarrow> bool" where
  "wrote s t W \<longleftrightarrow> cache_inv t Map.empty \<and> cache_step s t \<and> dtrace t = dtrace s @ W
     \<and> disk t = apply_writes W (disk s) \<and> block_view t = apply_writes W (block_view s)
     \<and> pinned t = pinned s - fst ` set W"

lemma apply_writes_simps [simp]:
  "apply_writes [] f = f"
  "apply_writes ((b, d) # W) f = apply_writes W (f(b := d))"
  "apply_writes (W @ V) f = apply_writes V (apply_writes W f)"
  by (simp_all add: apply_writes_def)

lemma apply_writes_other: "b \<notin> fst ` set W \<Longrightarrow> apply_writes W f b = f b"
  by (induction W arbitrary: f) auto

lemma apply_writes_map:
  assumes "inj_on k (set xs)" "distinct xs"
  shows "apply_writes (map (\<lambda>i. (k i, c i)) xs) f b =
    (if \<exists>i\<in>set xs. k i = b then c (the_inv_into (set xs) k b) else f b)"
  using assms
proof (induction xs arbitrary: f)
  case (Cons x xs)
  have inj: "inj_on k (set xs)" using Cons.prems(1) by (rule inj_on_subset) auto
  have IH: "apply_writes (map (\<lambda>i. (k i, c i)) xs) (f(k x := c x)) b =
    (if \<exists>i\<in>set xs. k i = b then c (the_inv_into (set xs) k b) else (f(k x := c x)) b)"
    using Cons.IH [OF inj] Cons.prems(2) by simp
  have t: "the_inv_into (set (x # xs)) k (k i) = i" if "i \<in> set (x # xs)" for i
    using Cons.prems(1) that by (simp add: the_inv_into_f_f)
  have u: "the_inv_into (set xs) k (k i) = i" if "i \<in> set xs" for i
    using inj that by (simp add: the_inv_into_f_f)
  have x: "k i \<noteq> k x" if "i \<in> set xs" for i
    using Cons.prems that by (auto simp: inj_on_def)
  show ?case
  proof (cases "\<exists>i\<in>set xs. k i = b")
    case True
    then obtain i where i: "i \<in> set xs" "k i = b" by blast
    then show ?thesis using IH t [of i] u [of i] by auto
  next
    case False
    then show ?thesis using IH t [of x] by auto
  qed
qed simp

text \<open>The blocks \<open>k 0, ..., k (n - 1)\<close> written with contents \<open>c 0, ..., c (n - 1)\<close>.\<close>

lemma apply_writes_upt:
  assumes "inj_on k {..<n}"
  shows "i < n \<Longrightarrow> apply_writes (map (\<lambda>i. (k i, c i)) [0 ..< n]) f (k i) = c i"
    and "(\<And>i. i < n \<Longrightarrow> b \<noteq> k i) \<Longrightarrow> apply_writes (map (\<lambda>i. (k i, c i)) [0 ..< n]) f b = f b"
proof -
  have inj: "inj_on k (set [0 ..< n])" using assms by (simp add: lessThan_atLeast0)
  show "i < n \<Longrightarrow> apply_writes (map (\<lambda>i. (k i, c i)) [0 ..< n]) f (k i) = c i"
    using apply_writes_map [OF inj, of c f "k i"] the_inv_into_f_f [OF inj, of i] by auto
  show "(\<And>i. i < n \<Longrightarrow> b \<noteq> k i) \<Longrightarrow> apply_writes (map (\<lambda>i. (k i, c i)) [0 ..< n]) f b = f b"
    by (rule apply_writes_other) force
qed

lemma wrote_refl: "cache_inv s Map.empty \<Longrightarrow> wrote s s []"
  by (simp add: wrote_def)

lemma wrote_trans: "wrote s t W \<Longrightarrow> wrote t u V \<Longrightarrow> wrote s u (W @ V)"
  by (auto simp: wrote_def intro: cache_step_trans)

lemma cache_step_log:
  fixes s t :: "'z klog_scheme"
  assumes "cache_step s t"
  shows "lg_start t = lg_start s" "lg_size t = lg_size s" "lg_outstanding t = lg_outstanding s"
    "lg_committing t = lg_committing s" "lg_dev t = lg_dev s" "lg_n t = lg_n s" "lg_block t = lg_block s"
  using assms by (auto simp: cache_step_def)

lemma cache_log_update [simp]:
  "caches (lg_n_update f s) i b = caches s i b" "caches (lg_block_update g s) i b = caches s i b"
  "block_view (lg_n_update f s) = block_view s" "block_view (lg_block_update g s) = block_view s"
  "pinned (lg_n_update f s) = pinned s" "pinned (lg_block_update g s) = pinned s"
  "cache_inv (lg_n_update f s) L = cache_inv s L" "cache_inv (lg_block_update g s) L = cache_inv s L"
  by (simp_all add: caches_def block_view_def pinned_def cache_inv_def fun_eq_iff
      split: option.split)

lemma cache_log_update' [simp]:
  "block_view (lg_outstanding_update f' s) = block_view s"
  "block_view (lg_committing_update g' s) = block_view s"
  "pinned (lg_outstanding_update f' s) = pinned s" "pinned (lg_committing_update g' s) = pinned s"
  "cache_inv (lg_outstanding_update f' s) L = cache_inv s L"
  "cache_inv (lg_committing_update g' s) L = cache_inv s L"
  by (simp_all add: caches_def block_view_def pinned_def cache_inv_def fun_eq_iff split: option.split)

section \<open>The steps of a commit\<close>

lemma bread_step:
  assumes "cache_inv s Map.empty" "card (pinned s) < NBUF" "a < disksize s"
  shows "returns (bread ROOTDEV a s) (\<lambda>i t. cache_step s t)"
proof -
  have "returns (bread ROOTDEV a s) (\<lambda>i t. cache_inv t (Map.empty(a \<mapsto> i)) \<and> cache_step s t
      \<and> block_view t = block_view s \<and> pinned t = pinned s \<and> disk t = disk s \<and> dtrace t = dtrace s
      \<and> b_data (bufs t i) = block_view s a)"
    using assms by (intro bread_ok) auto
  then show ?thesis by (rule returns_mono) simp
qed

lemma install_one_ok:
  fixes s :: "'z klog_scheme"
  assumes "cache_inv s Map.empty" "lg_dev s = ROOTDEV" "lg_start s + k + 1 \<noteq> lg_block s k"
    "lg_start s + k + 1 < disksize s" "lg_block s k < disksize s"
    "card (insert (lg_start s + k + 1) (pinned s)) < NBUF \<or> lg_block s k \<in> pinned s \<and> card (pinned s) < NBUF"
  shows "returns (install_one k s) (\<lambda>_ t. wrote s t [(lg_block s k, block_view s (lg_start s + k + 1))])"
proof -
  let ?a = "lg_start s + k + 1" and ?b = "lg_block s k"
  have "card (pinned s) \<le> card (insert ?a (pinned s))"
    using bc.inv_finite [OF assms(1)] by (intro card_mono) auto
  then have room: "card (dom Map.empty \<union> pinned s) < NBUF" using assms(6) by auto
  have "returns (bread ROOTDEV ?a s) (\<lambda>i t. lg_block t k = ?b)"
    using bread_step [OF assms(1) _ assms(4)] room
    by (auto simp: cache_step_log elim: returns_mono)
  note st = seq_gets_stable [where m = "bread ROOTDEV ?a" and s = s and g = "\<lambda>t. lg_block t k", OF this]
  have "install_one k s = seq (bread ROOTDEV ?a) (\<lambda>i. seq (bread ROOTDEV ?b) (\<lambda>j. seq (bdata i) (\<lambda>d.
      seq (set_bdata j d) (\<lambda>_. seq (bwrite j) (\<lambda>_. seq (brelse i) (\<lambda>_. brelse j)))))) s"
    using assms(2) by (simp add: install_one_def st del: One_nat_def)
  moreover have "returns (seq (bread ROOTDEV ?a) (\<lambda>i. seq (bread ROOTDEV ?b) (\<lambda>j. seq (bdata i) (\<lambda>d.
      seq (set_bdata j d) (\<lambda>_. seq (bwrite j) (\<lambda>_. seq (brelse i) (\<lambda>_. brelse j)))))) s)
    (\<lambda>_ t. cache_inv t Map.empty \<and> cache_step s t \<and> block_view t = (block_view s)(?b := block_view s ?a)
      \<and> pinned t = pinned s - {?b} \<and> disk t = (disk s)(?b := block_view s ?a)
      \<and> dtrace t = dtrace s @ [(?b, block_view s ?a)])"
    by (rule bc.copy_block) (use assms in auto)
  ultimately show ?thesis by (simp only:) (erule returns_mono, simp add: wrote_def)
qed

lemma write_log_one_ok:
  fixes s :: "'z klog_scheme"
  assumes "cache_inv s Map.empty" "lg_dev s = ROOTDEV" "lg_start s + k + 1 \<noteq> lg_block s k"
    "lg_start s + k + 1 < disksize s" "lg_block s k < disksize s"
    "lg_block s k \<in> pinned s" "card (pinned s) < NBUF"
  shows "returns (write_log_one k s) (\<lambda>_ t. wrote s t [(lg_start s + k + 1, block_view s (lg_block s k))])"
proof -
  let ?a = "lg_start s + k + 1" and ?b = "lg_block s k"
  have room: "card (dom Map.empty \<union> pinned s) < NBUF" using assms(7) by simp
  have "returns (bread ROOTDEV ?a s) (\<lambda>i t. lg_block t k = ?b)"
    using bread_step [OF assms(1) _ assms(4)] room
    by (auto simp: cache_step_log elim: returns_mono)
  note st = seq_gets_stable [where m = "bread ROOTDEV ?a" and s = s and g = "\<lambda>t. lg_block t k", OF this]
  have "write_log_one k s = seq (bread ROOTDEV ?a) (\<lambda>j. seq (bread ROOTDEV ?b) (\<lambda>i. seq (bdata i) (\<lambda>d.
      seq (set_bdata j d) (\<lambda>_. seq (bwrite j) (\<lambda>_. seq (brelse i) (\<lambda>_. brelse j)))))) s"
    using assms(2) by (simp add: write_log_one_def st del: One_nat_def)
  moreover have "returns (seq (bread ROOTDEV ?a) (\<lambda>j. seq (bread ROOTDEV ?b) (\<lambda>i. seq (bdata i) (\<lambda>d.
      seq (set_bdata j d) (\<lambda>_. seq (bwrite j) (\<lambda>_. seq (brelse i) (\<lambda>_. brelse j)))))) s)
    (\<lambda>_ t. cache_inv t Map.empty \<and> cache_step s t \<and> block_view t = (block_view s)(?a := block_view s ?b)
      \<and> pinned t = pinned s - {?a} \<and> disk t = (disk s)(?a := block_view s ?b)
      \<and> dtrace t = dtrace s @ [(?a, block_view s ?b)])"
    by (rule bc.copy_block_dst_first) (use assms in auto)
  ultimately show ?thesis by (simp only:) (erule returns_mono, simp add: wrote_def)
qed

lemma write_head_ok:
  fixes s :: "'z klog_scheme"
  assumes "cache_inv s Map.empty" "lg_dev s = ROOTDEV" "lg_start s < disksize s" "card (pinned s) < NBUF"
  shows "returns (write_head s) (\<lambda>_ t. wrote s t
    [(lg_start s, put_lh (block_view s (lg_start s)) (lg_n s) (lg_block s))])"
proof -
  let ?a = "lg_start s"
  have room: "card (dom Map.empty \<union> pinned s) < NBUF" using assms(4) by simp
  have b: "returns (bread ROOTDEV ?a s) (\<lambda>i t. lg_n t = lg_n s)"
    "returns (bread ROOTDEV ?a s) (\<lambda>i t. lg_block t = lg_block s)"
    using bread_step [OF assms(1,4,3)] by (auto simp: cache_step_log elim: returns_mono)
  have "write_head s = seq (bread ROOTDEV ?a) (\<lambda>i. seq (bdata i) (\<lambda>d.
      seq (set_bdata i (put_lh d (lg_n s) (lg_block s))) (\<lambda>_. seq (bwrite i) (\<lambda>_. brelse i)))) s"
    using assms(2) by (simp add: write_head_def seq_gets_stable [where m = "bread ROOTDEV ?a" and s = s and g = lg_n, OF b(1)]
        seq_gets_stable [where m = "bread ROOTDEV ?a" and s = s and g = lg_block, OF b(2)])
  moreover have "returns (seq (bread ROOTDEV ?a) (\<lambda>i. seq (bdata i) (\<lambda>d.
      seq (set_bdata i (put_lh d (lg_n s) (lg_block s))) (\<lambda>_. seq (bwrite i) (\<lambda>_. brelse i)))) s)
    (\<lambda>_ t. cache_inv t Map.empty \<and> cache_step s t
      \<and> block_view t = (block_view s)(?a := put_lh (block_view s ?a) (lg_n s) (lg_block s))
      \<and> pinned t = pinned s - {?a} \<and> disk t = (disk s)(?a := put_lh (block_view s ?a) (lg_n s) (lg_block s))
      \<and> dtrace t = dtrace s @ [(?a, put_lh (block_view s ?a) (lg_n s) (lg_block s))])"
    by (rule bc.write_block [OF assms(1) _ disjI2 [OF room] assms(3), where f = "\<lambda>d. put_lh d (lg_n s) (lg_block s)"]) simp
  ultimately show ?thesis by (simp only:) (erule returns_mono, simp add: wrote_def)
qed

lemma cache_step_lg_n:
  "cache_step s t \<Longrightarrow> cache_step (s\<lparr>lg_n := x\<rparr>) (t\<lparr>lg_n := x\<rparr>)"
proof -
  assume "cache_step s t"
  then obtain pt bf l d tr where "t = s\<lparr>ptable := pt, bufs := bf, lru := l, disk := d, dtrace := tr\<rparr>"
    by (auto simp: cache_step_def)
  then have "t\<lparr>lg_n := x\<rparr> = s\<lparr>lg_n := x, ptable := pt, bufs := bf, lru := l, disk := d, dtrace := tr\<rparr>"
    by (cases s) simp
  then show ?thesis unfolding cache_step_def by blast
qed

lemma cache_step_lg:
  "cache_step s t \<Longrightarrow> cache_step (s\<lparr>lg_n := x, lg_block := g\<rparr>) (t\<lparr>lg_n := x, lg_block := g\<rparr>)"
proof -
  assume "cache_step s t"
  then obtain pt bf l d tr where "t = s\<lparr>ptable := pt, bufs := bf, lru := l, disk := d, dtrace := tr\<rparr>"
    by (auto simp: cache_step_def)
  then have "t\<lparr>lg_n := x, lg_block := g\<rparr>
      = s\<lparr>lg_n := x, lg_block := g, ptable := pt, bufs := bf, lru := l, disk := d, dtrace := tr\<rparr>"
    by (cases s) simp
  then show ?thesis unfolding cache_step_def by blast
qed

lemma wrote_lg_n: "wrote s t W \<Longrightarrow> wrote (s\<lparr>lg_n := x\<rparr>) (t\<lparr>lg_n := x\<rparr>) W"
  by (simp add: wrote_def cache_step_lg_n)

lemma wrote_log:
  fixes s t :: "'z klog_scheme"
  assumes "wrote s t W"
  shows "cache_inv t Map.empty" "lg_start t = lg_start s" "lg_dev t = lg_dev s" "lg_n t = lg_n s"
    "lg_block t = lg_block s" "disksize t = disksize s" "lg_size t = lg_size s"
    "pinned t = pinned s - fst ` set W" "block_view t = apply_writes W (block_view s)"
    "card (pinned s) < NBUF \<Longrightarrow> card (pinned t) < NBUF"
proof -
  have st: "cache_step s t" and inv: "cache_inv t Map.empty" and p: "pinned t = pinned s - fst ` set W"
    using assms by (auto simp: wrote_def)
  show "cache_inv t Map.empty" "pinned t = pinned s - fst ` set W" using inv p .
  show "lg_start t = lg_start s" "lg_dev t = lg_dev s" "lg_n t = lg_n s" "lg_block t = lg_block s"
    "lg_size t = lg_size s"
    using cache_step_log [OF st] by auto
  show "disksize t = disksize s" using cache_step_frame [OF st] by simp
  show "block_view t = apply_writes W (block_view s)" using assms by (simp add: wrote_def)
  have "finite (pinned s)"
  proof -
    have "pinned s \<subseteq> (\<lambda>i. b_blockno (bufs s i)) ` {..<NBUF}" by (auto simp: pinned_def caches_def)
    then show ?thesis by (meson finite_imageI finite_lessThan finite_subset)
  qed
  then have "card (pinned t) \<le> card (pinned s)" unfolding p by (intro card_mono) auto
  then show "card (pinned s) < NBUF \<Longrightarrow> card (pinned t) < NBUF" by simp
qed

text \<open>A transaction ready to commit: the logged blocks are those pinned in the cache.\<close>

definition in_log :: "'z klog_scheme \<Rightarrow> nat \<Rightarrow> bool" where
  "in_log s b \<longleftrightarrow> lg_start s \<le> b \<and> b < lg_start s + lg_size s"

definition log_ok :: "'z klog_scheme \<Rightarrow> bool" where
  "log_ok s \<longleftrightarrow> lg_dev s = ROOTDEV \<and> lg_n s \<le> LOGSIZE \<and> lg_n s < NBUF \<and> lg_n s < lg_size s
     \<and> lg_start s + lg_size s \<le> disksize s \<and> disksize s \<le> 2 ^ 32
     \<and> inj_on (lg_block s) {..<lg_n s}
     \<and> (\<forall>i<lg_n s. lg_block s i < disksize s \<and> \<not> in_log s (lg_block s i))"

definition logged :: "'z klog_scheme \<Rightarrow> nat set" where
  "logged s = lg_block s ` {..<lg_n s}"

lemma log_okD:
  assumes "log_ok s"
  shows "lg_dev s = ROOTDEV" "lg_n s \<le> LOGSIZE" "lg_n s < NBUF" "lg_n s < lg_size s"
    "inj_on (lg_block s) {..<lg_n s}" "lg_start s < disksize s"
    "i < lg_n s \<Longrightarrow> lg_block s i < disksize s"
    "i < lg_n s \<Longrightarrow> j < lg_size s \<Longrightarrow> lg_block s i \<noteq> lg_start s + j"
    "i < lg_n s \<Longrightarrow> lg_start s + i + 1 < disksize s"
    "i < lg_n s \<Longrightarrow> lg_block s i < 2 ^ 32"
  using assms by (auto simp: log_ok_def in_log_def)

lemma card_logged: "log_ok s \<Longrightarrow> card (logged s) < NBUF"
  using card_image_le [of "{..<lg_n s}" "lg_block s"] by (simp add: logged_def log_ok_def)

lemma write_log_ok:
  fixes s :: "'z klog_scheme"
  assumes inv: "cache_inv s Map.empty" and ok: "log_ok s" and pin: "pinned s = logged s"
  shows "returns (write_log s) (\<lambda>_ t. wrote s t
    (map (\<lambda>i. (lg_start s + i + 1, block_view s (lg_block s i))) [0 ..< lg_n s]))"
proof -
  define I where "I = (\<lambda>k t. wrote s t
    (map (\<lambda>i. (lg_start s + i + 1, block_view s (lg_block s i))) [0 ..< k]))"
  note o = log_okD [OF ok]
  have "returns (for_each write_log_one [0 ..< lg_n s] s) (\<lambda>_ t. I (length [0 ..< lg_n s]) t)"
  proof (rule for_each_returns)
    show "I 0 s" using wrote_refl [OF inv] by (simp add: I_def)
  next
    fix k t assume k: "k < length [0 ..< lg_n s]" and it: "I k t"
    then have w: "wrote s t (map (\<lambda>i. (lg_start s + i + 1, block_view s (lg_block s i))) [0 ..< k])"
      by (simp add: I_def)
    note wl = wrote_log [OF w]
    have kn: "k < lg_n s" using k by simp
    have home: "lg_block s k \<notin> fst ` set (map (\<lambda>i. (lg_start s + i + 1, block_view s (lg_block s i))) [0 ..< k])"
    proof -
      have "lg_block s k \<noteq> lg_start s + i + 1" if "i < k" for i
        using o(8) [OF kn, of "i + 1"] that kn o(4) by auto
      then show ?thesis by force
    qed
    have v: "block_view t (lg_block s k) = block_view s (lg_block s k)"
      unfolding wl(9) by (rule apply_writes_other [OF home])
    have "returns (write_log_one k t) (\<lambda>_ u. wrote t u [(lg_start t + k + 1, block_view t (lg_block t k))])"
    proof (rule write_log_one_ok)
      show "lg_block t k \<in> pinned t" unfolding wl(5,8) using home kn pin by (auto simp: logged_def)
      show "card (pinned t) < NBUF" using wl(10) pin card_logged [OF ok] by simp
      show "lg_start t + k + 1 \<noteq> lg_block t k"
        unfolding wl using o(8) [OF kn, of "k + 1"] kn o(4) by auto
    qed (use wl o kn in auto)
    then have "returns (write_log_one k t) (\<lambda>_ u. wrote s u
        (map (\<lambda>i. (lg_start s + i + 1, block_view s (lg_block s i))) [0 ..< k]
          @ [(lg_start s + k + 1, block_view s (lg_block s k))]))"
      unfolding wl(2,5) v using wrote_trans [OF w] by (rule returns_mono)
    then show "returns (write_log_one ([0 ..< lg_n s] ! k) t) (\<lambda>_ u. I (Suc k) u)"
      using kn by (simp add: I_def)
  qed
  then show ?thesis by (simp add: write_log_def I_def)
qed

lemma install_trans_ok:
  fixes s :: "'z klog_scheme"
  assumes inv: "cache_inv s Map.empty" and ok: "log_ok s" and pin: "pinned s = logged s \<or> pinned s = {}"
  shows "returns (install_trans s) (\<lambda>_ t. wrote s t
    (map (\<lambda>i. (lg_block s i, block_view s (lg_start s + i + 1))) [0 ..< lg_n s]))"
proof -
  define I where "I = (\<lambda>k t. wrote s t
    (map (\<lambda>i. (lg_block s i, block_view s (lg_start s + i + 1))) [0 ..< k]))"
  note o = log_okD [OF ok]
  have "returns (for_each install_one [0 ..< lg_n s] s) (\<lambda>_ t. I (length [0 ..< lg_n s]) t)"
  proof (rule for_each_returns)
    show "I 0 s" using wrote_refl [OF inv] by (simp add: I_def)
  next
    fix k t assume k: "k < length [0 ..< lg_n s]" and it: "I k t"
    then have w: "wrote s t (map (\<lambda>i. (lg_block s i, block_view s (lg_start s + i + 1))) [0 ..< k])"
      by (simp add: I_def)
    note wl = wrote_log [OF w]
    have kn: "k < lg_n s" using k by simp
    have lb: "lg_start s + k + 1 \<notin> fst ` set (map (\<lambda>i. (lg_block s i, block_view s (lg_start s + i + 1))) [0 ..< k])"
    proof -
      have "lg_block s i \<noteq> lg_start s + k + 1" if "i < k" for i
        using o(8) [of i "k + 1"] that kn o(4) by auto
      then show ?thesis by force
    qed
    have v: "block_view t (lg_start s + k + 1) = block_view s (lg_start s + k + 1)"
      unfolding wl(9) by (rule apply_writes_other [OF lb])
    have "lg_block s k \<notin> lg_block s ` {..<k}"
      using inj_onD [OF o(5), of k] kn by fastforce
    then have later: "lg_block s k \<notin> fst ` set (map (\<lambda>i. (lg_block s i, block_view s (lg_start s + i + 1))) [0 ..< k])"
      by (force simp: image_iff)
    have "returns (install_one k t) (\<lambda>_ u. wrote t u [(lg_block t k, block_view t (lg_start t + k + 1))])"
    proof (rule install_one_ok)
      show "card (insert (lg_start t + k + 1) (pinned t)) < NBUF \<or> lg_block t k \<in> pinned t \<and> card (pinned t) < NBUF"
        using pin
      proof
        assume p: "pinned s = logged s"
        then have "card (pinned t) < NBUF" using wl(10) card_logged [OF ok] by simp
        moreover have "lg_block t k \<in> pinned t"
          unfolding wl(5,8) using later p kn by (auto simp: logged_def)
        ultimately show ?thesis by blast
      next
        assume "pinned s = {}"
        then have "pinned t = {}" unfolding wl(8) by simp
        then show ?thesis by (simp add: const_defs)
      qed
      show "lg_start t + k + 1 \<noteq> lg_block t k"
        unfolding wl using o(8) [OF kn, of "k + 1"] kn o(4) by auto
    qed (use wl o kn in auto)
    then have "returns (install_one k t) (\<lambda>_ u. wrote s u
        (map (\<lambda>i. (lg_block s i, block_view s (lg_start s + i + 1))) [0 ..< k]
          @ [(lg_block s k, block_view s (lg_start s + k + 1))]))"
      unfolding wl(2,5) v using wrote_trans [OF w] by (rule returns_mono)
    then show "returns (install_one ([0 ..< lg_n s] ! k) t) (\<lambda>_ u. I (Suc k) u)"
      using kn by (simp add: I_def)
  qed
  then show ?thesis by (simp add: install_trans_def I_def)
qed

section \<open>Commit\<close>

lemma put_lh_0 [simp]: "put_lh d 0 blk = put32 d 0 0"
  by (simp add: put_lh_def)

text \<open>The disk writes of a commit, in order.\<close>

definition commit_writes :: "'z klog_scheme \<Rightarrow> (nat \<times> u8 list) list" where
  "commit_writes s =
     (let n = lg_n s; st = lg_start s; blk = lg_block s; v = block_view s; h = put_lh (v st) n blk
      in map (\<lambda>i. (st + i + 1, v (blk i))) [0 ..< n] @ [(st, h)]
       @ map (\<lambda>i. (blk i, v (blk i))) [0 ..< n] @ [(st, put32 h 0 0)])"

lemma commit_ok:
  fixes s :: "'z klog_scheme"
  assumes inv: "cache_inv s Map.empty" and ok: "log_ok s" and pin: "pinned s = logged s" and n: "0 < lg_n s"
  shows "returns (commit s) (\<lambda>_ t. wrote (s\<lparr>lg_n := 0\<rparr>) t (commit_writes s))"
proof -
  let ?st = "lg_start s" and ?n = "lg_n s" and ?blk = "lg_block s" and ?v = "block_view s"
  let ?h = "put_lh (?v ?st) ?n ?blk"
  note o = log_okD [OF ok]
  define W1 where "W1 = map (\<lambda>i. (?st + i + 1, ?v (?blk i))) [0 ..< ?n]"
  define W3 where "W3 = map (\<lambda>i. (?blk i, ?v (?blk i))) [0 ..< ?n]"
  have st1: "?st \<notin> fst ` set W1" by (auto simp: W1_def)
  have blk1: "?blk i \<notin> fst ` set W1" if "i < ?n" for i
  proof -
    have "?blk i \<noteq> ?st + j + 1" if "j < ?n" for j
      using o(8) [OF \<open>i < ?n\<close>, of "j + 1"] that o(4) by auto
    then show ?thesis by (force simp: W1_def)
  qed
  have log1: "apply_writes W1 ?v (?st + i + 1) = ?v (?blk i)" if "i < ?n" for i
    using apply_writes_upt(1) [of "\<lambda>i. ?st + i + 1" ?n i "\<lambda>i. ?v (?blk i)" ?v] that
    by (simp add: W1_def inj_on_def)
  obtain t where t: "write_log s = Ret () t" "wrote s t W1"
    using write_log_ok [OF inv ok pin] unfolding W1_def [symmetric] by (elim returns_unitE) (rule that)
  note tl = wrote_log [OF t(2)]
  have vt: "block_view t ?st = ?v ?st" unfolding tl(9) by (rule apply_writes_other [OF st1])
  have "returns (write_head t) (\<lambda>_ u. wrote t u [(lg_start t, put_lh (block_view t (lg_start t)) (lg_n t) (lg_block t))])"
    by (rule write_head_ok) (use tl o pin card_logged [OF ok] in auto)
  then obtain u where u: "write_head t = Ret () u" "wrote t u [(?st, ?h)]"
    unfolding tl(2,4,5) vt by (elim returns_unitE) (rule that)
  have su: "wrote s u (W1 @ [(?st, ?h)])" by (rule wrote_trans [OF t(2) u(2)])
  note ul = wrote_log [OF su]
  have pu: "pinned u = logged u"
  proof -
    have "?blk i \<noteq> ?st" if "i < ?n" for i using o(8) [OF that, of 0] o(4) that by auto
    then have "logged s - fst ` set (W1 @ [(?st, ?h)]) = logged s"
      using blk1 by (auto simp: logged_def)
    then show ?thesis using ul(4,5,8) pin by (simp add: logged_def)
  qed
  have oku: "log_ok u" using ok ul by (simp add: log_ok_def in_log_def)
  have vu: "block_view u (?st + i + 1) = ?v (?blk i)" if "i < ?n" for i
    unfolding ul(9) using log1 [OF that] by simp
  obtain x where x: "install_trans u = Ret () x"
    "wrote u x (map (\<lambda>i. (?blk i, block_view u (?st + i + 1))) [0 ..< ?n])"
    using install_trans_ok [OF ul(1) oku disjI1 [OF pu]] unfolding ul(2,4,5)
    by (elim returns_unitE) (rule that)
  have "map (\<lambda>i. (?blk i, block_view u (?st + i + 1))) [0 ..< ?n] = W3"
    using vu by (auto simp: W3_def)
  then have sx: "wrote s x ((W1 @ [(?st, ?h)]) @ W3)" using wrote_trans [OF su] x(2) by simp
  note xl = wrote_log [OF sx]
  have vx: "block_view x ?st = ?h"
  proof -
    have "?st \<notin> fst ` set W3"
    proof -
      have "?blk i \<noteq> ?st" if "i < ?n" for i using o(8) [OF that, of 0] o(4) that by auto
      then show ?thesis by (force simp: W3_def)
    qed
    then show ?thesis unfolding xl(9) by (simp add: apply_writes_other)
  qed
  let ?x = "x\<lparr>lg_n := 0\<rparr>"
  have "returns (write_head ?x) (\<lambda>_ y. wrote ?x y
      [(lg_start ?x, put_lh (block_view ?x (lg_start ?x)) (lg_n ?x) (lg_block ?x))])"
    by (rule write_head_ok) (use xl o pin card_logged [OF ok] in auto)
  then obtain y where y: "write_head ?x = Ret () y" "wrote ?x y [(?st, put32 ?h 0 0)]"
    using xl(2) vx by (auto elim!: returns_unitE)
  have "wrote (s\<lparr>lg_n := 0\<rparr>) y (((W1 @ [(?st, ?h)]) @ W3) @ [(?st, put32 ?h 0 0)])"
    by (rule wrote_trans [OF wrote_lg_n [OF sx] y(2)])
  moreover have "commit s = Ret () y"
    using n t u x y by (simp add: commit_def)
  ultimately show ?thesis by (simp add: commit_writes_def Let_def W1_def W3_def)
qed

section \<open>Recovery\<close>

text \<open>The disk writes of a recovery of the log at \<open>st\<close> from the disk \<open>d\<close>.\<close>

definition recover_writes :: "nat \<Rightarrow> (nat \<Rightarrow> u8 list) \<Rightarrow> (nat \<times> u8 list) list" where
  "recover_writes st d =
     map (\<lambda>i. (lh_block (d st) i, d (st + i + 1))) [0 ..< lh_n (d st)] @ [(st, put32 (d st) 0 0)]"

text \<open>The header found on the disk describes a log that fits.\<close>

definition header_ok :: "nat \<Rightarrow> nat \<Rightarrow> nat \<Rightarrow> (nat \<Rightarrow> u8 list) \<Rightarrow> bool" where
  "header_ok st sz dsize d \<longleftrightarrow>
     lh_n (d st) < sz \<and> lh_n (d st) \<le> LOGSIZE \<and> lh_n (d st) < NBUF
   \<and> inj_on (lh_block (d st)) {..<lh_n (d st)}
   \<and> (\<forall>i<lh_n (d st). lh_block (d st) i < dsize
        \<and> \<not> (st \<le> lh_block (d st) i \<and> lh_block (d st) i < st + sz))"

lemma read_head_ok:
  fixes s :: "'z klog_scheme"
  assumes "cache_inv s Map.empty" "lg_dev s = ROOTDEV" "lg_start s < disksize s" "card (pinned s) < NBUF"
  shows "returns (read_head s) (\<lambda>_ t. wrote (s\<lparr>lg_n := lh_n (block_view s (lg_start s)),
      lg_block := (\<lambda>i. if i < lh_n (block_view s (lg_start s)) then lh_block (block_view s (lg_start s)) i
                       else lg_block s i)\<rparr>) t [])"
proof -
  let ?a = "lg_start s"
  define d where "d = block_view s (lg_start s)"
  let ?g = "\<lambda>s :: 'z klog_scheme. s\<lparr>lg_n := lh_n d, lg_block := (\<lambda>i. if i < lh_n d then lh_block d i
                       else lg_block s i)\<rparr>"
  have "returns (bread ROOTDEV ?a s) (\<lambda>i t. cache_inv t (Map.empty(?a \<mapsto> i)) \<and> cache_step s t
      \<and> block_view t = block_view s \<and> pinned t = pinned s \<and> disk t = disk s \<and> dtrace t = dtrace s
      \<and> b_data (bufs t i) = block_view s ?a)"
    using assms by (intro bread_ok) auto
  then obtain i t where t: "bread ROOTDEV ?a s = Ret i t" "cache_inv t (Map.empty(?a \<mapsto> i))" "cache_step s t"
    "block_view t = block_view s" "pinned t = pinned s" "disk t = disk s" "dtrace t = dtrace s"
    by (elim returnsE conjE) (rule that)
  have La: "(Map.empty(?a \<mapsto> i)) ?a = Some i" by simp
  have dat: "bdata i t = Ret d t" using bdata_ok [OF t(2) La] t(4) by (simp add: d_def)
  have inv: "cache_inv (?g t) (Map.empty(?a \<mapsto> i))" using t(2) by simp
  have "?a \<in> pinned (?g t) \<or> block_view (?g t) ?a = disk (?g t) ?a"
    using t(4,5,6) bc.view_clean [OF assms(1), of ?a] by auto
  from brelse_ok [OF inv La this] obtain u where u: "brelse i (?g t) = Ret () u"
    "cache_inv u ((Map.empty(?a \<mapsto> i))(?a := None))" "cache_step (?g t) u"
    "block_view u = block_view (?g t)" "pinned u = pinned (?g t)" "disk u = disk (?g t)"
    "dtrace u = dtrace (?g t)"
    by (elim returns_unitE conjE) (rule that)
  have "read_head s = Ret () u"
    using t(1) dat u(1) assms(2) cache_step_log [OF t(3)] by (simp add: read_head_def cong: if_cong)
  moreover have "cache_step (?g s) (?g t)"
    unfolding cache_step_log(7) [OF t(3)] by (rule cache_step_lg [OF t(3)])
  ultimately show ?thesis
    using u t cache_step_trans unfolding d_def [symmetric] by (auto simp: wrote_def)
qed

lemma recover_ok:
  fixes s :: "'z klog_scheme"
  assumes inv: "cache_inv s Map.empty" and p: "pinned s = {}" and dev: "lg_dev s = ROOTDEV"
    and sz: "lg_start s + lg_size s \<le> disksize s" "disksize s \<le> 2 ^ 32"
    and h: "header_ok (lg_start s) (lg_size s) (disksize s) (disk s)"
  shows "returns (recover_from_log s) (\<lambda>_ t. cache_inv t Map.empty \<and> pinned t = {} \<and> block_view t = disk t
    \<and> lg_n t = 0 \<and> dtrace t = dtrace s @ recover_writes (lg_start s) (disk s)
    \<and> disk t = apply_writes (recover_writes (lg_start s) (disk s)) (disk s))"
proof -
  let ?a = "lg_start s" and ?d = "disk s (lg_start s)"
  have v: "block_view s = disk s"
    using bc.view_clean [OF inv] p by (intro ext) auto
  have a: "?a < disksize s" using h sz by (auto simp: header_ok_def)
  define s1 where "s1 = s\<lparr>lg_n := lh_n ?d, lg_block := (\<lambda>i. if i < lh_n ?d then lh_block ?d i else lg_block s i)\<rparr>"
  obtain t where t: "read_head s = Ret () t" "wrote s1 t []"
    using read_head_ok [OF inv dev a] p unfolding v s1_def
    by (auto simp: const_defs elim!: returns_unitE)
  note tl = wrote_log [OF t(2)]
  have s1: "lg_start s1 = ?a" "lg_n s1 = lh_n ?d" "lg_dev s1 = ROOTDEV" "pinned s1 = {}"
    "disksize s1 = disksize s" "lg_size s1 = lg_size s" "block_view s1 = disk s" "dtrace s1 = dtrace s"
    "disk s1 = disk s"
    using dev p v by (simp_all add: s1_def)
  have blk: "lg_block t i = lh_block ?d i" if "i < lh_n ?d" for i
    unfolding tl(5) using that by (simp add: s1_def)
  have ok: "log_ok t"
  proof -
    have "inj_on (lg_block t) {..<lh_n ?d} = inj_on (lh_block ?d) {..<lh_n ?d}"
      by (rule inj_on_cong) (simp add: blk)
    then show ?thesis
      using h sz blk unfolding log_ok_def in_log_def tl s1 header_ok_def by auto
  qed
  have pt: "pinned t = {}" using tl(8) s1(4) by simp
  have vt: "block_view t = disk s" using tl(9) s1(7) by simp
  obtain u where u: "install_trans t = Ret () u"
    "wrote t u (map (\<lambda>i. (lg_block t i, block_view t (lg_start t + i + 1))) [0 ..< lg_n t])"
    using install_trans_ok [OF tl(1) ok disjI2 [OF pt]] by (elim returns_unitE) (rule that)
  have "map (\<lambda>i. (lg_block t i, block_view t (lg_start t + i + 1))) [0 ..< lg_n t]
      = map (\<lambda>i. (lh_block ?d i, disk s (?a + i + 1))) [0 ..< lh_n ?d]"
    unfolding tl(2,4) s1 vt using blk by simp
  then have w1: "wrote s1 u (map (\<lambda>i. (lh_block ?d i, disk s (?a + i + 1))) [0 ..< lh_n ?d])"
    using wrote_trans [OF t(2) u(2)] by simp
  note ul = wrote_log [OF w1]
  have vu: "block_view u ?a = ?d"
  proof -
    have "lh_block ?d i \<noteq> ?a" if "i < lh_n ?d" for i using h that by (fastforce simp: header_ok_def)
    then have "?a \<notin> fst ` set (map (\<lambda>i. (lh_block ?d i, disk s (?a + i + 1))) [0 ..< lh_n ?d])" by force
    then show ?thesis unfolding ul(9) s1 by (simp add: apply_writes_other)
  qed
  let ?u = "u\<lparr>lg_n := 0\<rparr>"
  have "returns (write_head ?u) (\<lambda>_ y. wrote ?u y
      [(lg_start ?u, put_lh (block_view ?u (lg_start ?u)) (lg_n ?u) (lg_block ?u))])"
    by (rule write_head_ok) (use ul s1 a in \<open>auto simp: const_defs\<close>)
  then obtain y where y: "write_head ?u = Ret () y" "wrote ?u y [(?a, put32 ?d 0 0)]"
    using ul(2) s1 vu by (auto elim!: returns_unitE)
  have w: "wrote (s1\<lparr>lg_n := 0\<rparr>) y (recover_writes ?a (disk s))"
    using wrote_trans [OF wrote_lg_n [OF w1] y(2)] by (simp add: recover_writes_def)
  have "recover_from_log s = Ret () y"
    using t(1) u(1) y(1) by (simp add: recover_from_log_def)
  moreover have "pinned y = {}" "lg_n y = 0" "cache_inv y Map.empty"
    using wrote_log [OF w] s1 by auto
  moreover have "block_view y = disk y"
    using w s1 by (simp add: wrote_def)
  ultimately show ?thesis using w s1 by (simp add: wrote_def)
qed

section \<open>Crashes\<close>

text \<open>
  A log at \<open>st\<close> of \<open>sz\<close> blocks, on a disk whose header is clear; the writes of a commit of contents
  \<open>c\<close> for the blocks \<open>blk\<close>, with header blocks \<open>H\<close> and then \<open>Z\<close>.
\<close>

definition txn_writes ::
  "nat \<Rightarrow> nat \<Rightarrow> (nat \<Rightarrow> nat) \<Rightarrow> (nat \<Rightarrow> u8 list) \<Rightarrow> u8 list \<Rightarrow> u8 list \<Rightarrow> (nat \<times> u8 list) list" where
  "txn_writes st n blk c H Z =
     map (\<lambda>i. (st + i + 1, c i)) [0 ..< n] @ [(st, H)] @ map (\<lambda>i. (blk i, c i)) [0 ..< n] @ [(st, Z)]"

definition txn_ok :: "nat \<Rightarrow> nat \<Rightarrow> nat \<Rightarrow> (nat \<Rightarrow> nat) \<Rightarrow> u8 list \<Rightarrow> u8 list \<Rightarrow> bool" where
  "txn_ok st sz n blk H Z \<longleftrightarrow> n < sz \<and> lh_n H = n \<and> (\<forall>i<n. lh_block H i = blk i) \<and> lh_n Z = 0
     \<and> inj_on blk {..<n} \<and> (\<forall>i<n. \<not> (st \<le> blk i \<and> blk i < st + sz))"

lemma txn_writes_take:
  "take k (txn_writes st n blk c H Z) =
     map (\<lambda>i. (st + i + 1, c i)) [0 ..< min k n]
   @ (if k \<le> n then [] else (st, H) # map (\<lambda>i. (blk i, c i)) [0 ..< min (k - n - 1) n]
        @ (if k \<le> 2 * n + 1 then [] else [(st, Z)]))"
proof (cases "k \<le> n")
  case True
  then show ?thesis by (simp add: txn_writes_def take_map)
next
  case False
  then obtain j where k: "k = n + Suc j" by (metis add_Suc_right less_imp_Suc_add not_le)
  show ?thesis
  proof (cases "j \<le> n")
    case True
    then show ?thesis using k by (simp add: txn_writes_def take_map min_def)
  next
    case False
    then show ?thesis using k by (simp add: txn_writes_def take_map min_def)
  qed
qed

lemma txn_crash_header:
  assumes "txn_ok st sz n blk H Z" "d = apply_writes (take k (txn_writes st n blk c H Z)) d0"
  shows "d st = (if k \<le> n then d0 st else if k \<le> 2 * n + 1 then H else Z)"
    and "n < k \<Longrightarrow> i < n \<Longrightarrow> d (st + i + 1) = c i"
    and "b < st \<or> st + sz \<le> b \<Longrightarrow> k \<le> n \<Longrightarrow> d b = d0 b"
    and "b < st \<or> st + sz \<le> b \<Longrightarrow> n < k \<Longrightarrow>
      d b = apply_writes (map (\<lambda>i. (blk i, c i)) [0 ..< min (k - n - 1) n]) d0 b"
proof -
  have l: "inj_on (\<lambda>i. st + i + 1) {..<m}" for m by (simp add: inj_on_def)
  have n: "n < sz" and blk: "\<And>i. i < n \<Longrightarrow> blk i < st \<or> st + sz \<le> blk i"
    using assms(1) by (auto simp: txn_ok_def not_le not_less)
  let ?W1 = "map (\<lambda>i. (st + i + 1, c i)) [0 ..< min k n]"
  let ?W3 = "map (\<lambda>i. (blk i, c i)) [0 ..< min (k - n - 1) n]"
  have st1: "apply_writes ?W1 f st = f st" for f by (rule apply_writes_upt(2) [OF l]) simp
  have st3: "apply_writes ?W3 f (st + j) = f (st + j)" if "j < sz" for f j
    by (rule apply_writes_other) (use blk that in fastforce)
  have d: "d = apply_writes (?W1 @ (if k \<le> n then [] else (st, H) # ?W3 @ (if k \<le> 2 * n + 1 then [] else [(st, Z)]))) d0"
    unfolding assms(2) txn_writes_take ..
  show "d st = (if k \<le> n then d0 st else if k \<le> 2 * n + 1 then H else Z)"
    unfolding d using st1 st3 [of 0] n by auto
  show "n < k \<Longrightarrow> i < n \<Longrightarrow> d (st + i + 1) = c i"
  proof -
    assume k: "n < k" "i < n"
    have "apply_writes ?W1 d0 (st + i + 1) = c i"
      using apply_writes_upt(1) [OF l, of i "min k n" c d0] k by simp
    then show ?thesis unfolding d using k st3 [of "Suc i"] n by auto
  qed
  assume b: "b < st \<or> st + sz \<le> b"
  have b1: "apply_writes ?W1 f b = f b" for f by (rule apply_writes_upt(2) [OF l]) (use b n in auto)
  show "k \<le> n \<Longrightarrow> d b = d0 b" unfolding d using b1 by simp
  show "n < k \<Longrightarrow> d b = apply_writes ?W3 d0 b"
  proof -
    assume k: "n < k"
    have f: "apply_writes ?W3 ((apply_writes ?W1 d0)(st := H)) b = apply_writes ?W3 d0 b"
    proof (cases "\<exists>i<min (k - n - 1) n. blk i = b")
      case True
      then obtain i where i: "i < min (k - n - 1) n" "blk i = b" by blast
      have "inj_on blk {..<min (k - n - 1) n}"
        using assms(1) by (auto simp: txn_ok_def inj_on_def)
      from apply_writes_upt(1) [OF this i(1)] show ?thesis using i(2) by auto
    next
      case False
      then have "b \<notin> fst ` set ?W3" by force
      then show ?thesis using b1 b n by (simp add: apply_writes_other) auto
    qed
    show ?thesis unfolding d using k f b n by auto
  qed
qed

lemma txn_crash_recovers:
  assumes ok: "txn_ok st sz n blk H Z" and h0: "lh_n (d0 st) = 0" and k: "k \<le> 2 * n + 2"
    and d: "d = apply_writes (take k (txn_writes st n blk c H Z)) d0" and b: "b < st \<or> st + sz \<le> b"
  shows "apply_writes (recover_writes st d) d b =
    (if k \<le> n then d0 b else apply_writes (map (\<lambda>i. (blk i, c i)) [0 ..< n]) d0 b)"
proof -
  note hd = txn_crash_header [OF ok d]
  have bst: "b \<noteq> st" using b ok by (auto simp: txn_ok_def)
  consider "k \<le> n" | "n < k" "k \<le> 2 * n + 1" | "k = 2 * n + 2" using k by linarith
  then show ?thesis
  proof cases
    case 1
    then have "recover_writes st d = [(st, put32 (d st) 0 0)]"
      using hd(1) h0 by (simp add: recover_writes_def)
    then show ?thesis using 1 hd(3) [OF b] bst by simp
  next
    case 2
    have "recover_writes st d = map (\<lambda>i. (blk i, c i)) [0 ..< n] @ [(st, put32 (d st) 0 0)]"
      using hd(1,2) 2 ok by (auto simp: recover_writes_def txn_ok_def)
    moreover have "apply_writes (map (\<lambda>i. (blk i, c i)) [0 ..< n]) d b
        = apply_writes (map (\<lambda>i. (blk i, c i)) [0 ..< n]) d0 b"
    proof (cases "\<exists>i<n. blk i = b")
      case True
      then obtain i where i: "i < n" "blk i = b" by blast
      have "inj_on blk {..<n}" using ok by (simp add: txn_ok_def)
      from apply_writes_upt(1) [OF this i(1)] show ?thesis using i(2) by auto
    next
      case False
      have o: "b \<notin> fst ` set (map (\<lambda>i. (blk i, c i)) [0 ..< m])" if "m \<le> n" for m
      proof
        assume "b \<in> fst ` set (map (\<lambda>i. (blk i, c i)) [0 ..< m])"
        then obtain i where "i < m" "blk i = b" by auto
        with False that show False by auto
      qed
      have "d b = d0 b"
        unfolding hd(4) [OF b 2(1)] by (rule apply_writes_other [OF o]) simp
      then show ?thesis using o [of n] by (simp add: apply_writes_other)
    qed
    ultimately show ?thesis using 2 bst by simp
  next
    case 3
    then have "recover_writes st d = [(st, put32 (d st) 0 0)]"
      using hd(1) ok by (simp add: recover_writes_def txn_ok_def)
    moreover have "min (k - n - 1) n = n" using 3 by simp
    ultimately show ?thesis using 3 hd(4) [OF b] bst by simp
  qed
qed

lemma txn_crash_header_ok:
  assumes ok: "txn_ok st sz n blk H Z" and h0: "lh_n (d0 st) = 0"
    and d: "d = apply_writes (take k (txn_writes st n blk c H Z)) d0"
    and n: "n \<le> LOGSIZE" "n < NBUF" "\<forall>i<n. blk i < dsize"
  shows "header_ok st sz dsize d"
proof -
  have ih: "inj_on (lh_block H) {..<n} = inj_on blk {..<n}"
    using ok by (intro inj_on_cong) (simp add: txn_ok_def)
  have "d st = d0 st \<or> d st = H \<or> d st = Z" using txn_crash_header(1) [OF ok d] by auto
  then show ?thesis
    using h0 n ok ih by (auto simp: header_ok_def txn_ok_def)
qed

text \<open>The machine after a reboot with disk \<open>d\<close>: an empty cache, and the log found where it was.\<close>

definition rebooted :: "'z klog_scheme \<Rightarrow> (nat \<Rightarrow> u8 list) \<Rightarrow> 'y klog_scheme \<Rightarrow> bool" where
  "rebooted s d u \<longleftrightarrow> cache_inv u Map.empty \<and> pinned u = {} \<and> disk u = d \<and> disksize u = disksize s
     \<and> lg_dev u = ROOTDEV \<and> lg_start u = lg_start s \<and> lg_size u = lg_size s"

lemma commit_writes_txn:
  "commit_writes s = txn_writes (lg_start s) (lg_n s) (lg_block s) (\<lambda>i. block_view s (lg_block s i))
     (put_lh (block_view s (lg_start s)) (lg_n s) (lg_block s))
     (put32 (put_lh (block_view s (lg_start s)) (lg_n s) (lg_block s)) 0 0)"
  by (simp add: commit_writes_def txn_writes_def Let_def)

lemma lh_n_cleared: "4 \<le> length d \<Longrightarrow> lh_n (put32 d 0 0) = 0"
  by (simp add: lh_n_def)

lemma commit_txn_ok:
  assumes "log_ok s" "length (block_view s (lg_start s)) = BSIZE"
  shows "txn_ok (lg_start s) (lg_size s) (lg_n s) (lg_block s)
     (put_lh (block_view s (lg_start s)) (lg_n s) (lg_block s))
     (put32 (put_lh (block_view s (lg_start s)) (lg_n s) (lg_block s)) 0 0)"
  using assms
  by (auto simp: txn_ok_def log_ok_def in_log_def lh_n_put_lh lh_block_put_lh lh_n_cleared BSIZE_def)

lemma commit_home:
  assumes inv: "cache_inv s Map.empty" and ok: "log_ok s" and pin: "pinned s = logged s"
  shows "apply_writes (map (\<lambda>i. (lg_block s i, block_view s (lg_block s i))) [0 ..< lg_n s]) (disk s) b
    = block_view s b"
proof (cases "b \<in> logged s")
  case True
  then obtain i where i: "i < lg_n s" "b = lg_block s i" by (auto simp: logged_def)
  show ?thesis
    using apply_writes_upt(1) [OF log_okD(5) [OF ok] i(1), of "\<lambda>i. block_view s (lg_block s i)"] i(2) by simp
next
  case False
  then have "b \<notin> fst ` set (map (\<lambda>i. (lg_block s i, block_view s (lg_block s i))) [0 ..< lg_n s])"
    by (auto simp: logged_def)
  then show ?thesis
    using bc.view_clean [OF inv, of b] False pin by (simp add: apply_writes_other)
qed

lemma commit_final:
  assumes inv: "cache_inv s Map.empty" and ok: "log_ok s" and pin: "pinned s = logged s"
    and len: "length (block_view s (lg_start s)) = BSIZE" and b: "\<not> in_log s b"
  shows "apply_writes (commit_writes s) (disk s) b = block_view s b"
proof -
  have "length (commit_writes s) = 2 * lg_n s + 2" by (simp add: commit_writes_txn txn_writes_def)
  moreover have "apply_writes (take (2 * lg_n s + 2) (commit_writes s)) (disk s) b
      = apply_writes (map (\<lambda>i. (lg_block s i, block_view s (lg_block s i)))
          [0 ..< min (2 * lg_n s + 2 - lg_n s - 1) (lg_n s)]) (disk s) b"
    unfolding commit_writes_txn
    by (rule txn_crash_header(4) [OF commit_txn_ok [OF ok len] refl]) (use b in \<open>auto simp: in_log_def\<close>)
  ultimately show ?thesis using commit_home [OF inv ok pin] by (simp add: min_def)
qed

text \<open>
  C1. Crash safety of the log (\<open>log.c\<close>): a commit of the pinned blocks returns without panic, having written to the disk exactly
  \<open>commit_writes s\<close>, in that order; afterwards every block outside the log is on the disk as the
  cache had it and nothing is pinned. If the machine stops after any \<open>k\<close> of these writes, recovery on the
  rebooted machine returns without panic, and every block outside the log is as it was before the
  transaction if the header had not been written (\<open>k \<le> n\<close>), and as the transaction left it otherwise: all of it or nothing.
\<close>

theorem commit_crash_atomic:
  fixes s :: "'z klog_scheme"
  assumes inv: "cache_inv s Map.empty" and ok: "log_ok s" and pin: "pinned s = logged s" and n: "0 < lg_n s"
    and len: "length (block_view s (lg_start s)) = BSIZE" and clear: "lh_n (disk s (lg_start s)) = 0"
  shows "returns (commit s) (\<lambda>_ t. dtrace t = dtrace s @ commit_writes s \<and> lg_n t = 0 \<and> pinned t = {}
      \<and> (\<forall>b. \<not> in_log s b \<longrightarrow> disk t b = block_view s b))
    \<and> (\<forall>k u. k \<le> length (commit_writes s) \<and> rebooted s (apply_writes (take k (commit_writes s)) (disk s)) u \<longrightarrow>
        returns (recover_from_log u) (\<lambda>_ v. cache_inv v Map.empty \<and>
          (\<forall>b. \<not> in_log s b \<longrightarrow> block_view v b = (if k \<le> lg_n s then disk s b else block_view s b))))"
proof -
  note tx = commit_txn_ok [OF ok len]
  note home = commit_home [OF inv ok pin]
  have len2: "length (commit_writes s) = 2 * lg_n s + 2" by (simp add: commit_writes_txn txn_writes_def)
  have outside: "\<not> in_log s b \<longleftrightarrow> b < lg_start s \<or> lg_start s + lg_size s \<le> b" for b
    by (auto simp: in_log_def)
  note full = commit_final [OF inv ok pin len]
  have "returns (commit s) (\<lambda>_ t. dtrace t = dtrace s @ commit_writes s \<and> lg_n t = 0 \<and> pinned t = {}
      \<and> (\<forall>b. \<not> in_log s b \<longrightarrow> disk t b = block_view s b))"
    using commit_ok [OF inv ok pin n]
  proof (rule returns_mono)
    fix r t assume w: "wrote (s\<lparr>lg_n := 0\<rparr>) t (commit_writes s)"
    have "fst ` set (commit_writes s) \<supseteq> logged s"
      by (force simp: commit_writes_txn txn_writes_def logged_def)
    then have "pinned t = {}" using wrote_log(8) [OF w] pin by auto
    then show "dtrace t = dtrace s @ commit_writes s \<and> lg_n t = 0 \<and> pinned t = {}
        \<and> (\<forall>b. \<not> in_log s b \<longrightarrow> disk t b = block_view s b)"
      using w wrote_log(4) [OF w] full by (simp add: wrote_def)
  qed
  moreover have "returns (recover_from_log u) (\<lambda>_ v. cache_inv v Map.empty \<and>
      (\<forall>b. \<not> in_log s b \<longrightarrow> block_view v b = (if k \<le> lg_n s then disk s b else block_view s b)))"
    if k: "k \<le> length (commit_writes s)"
      and u: "rebooted s (apply_writes (take k (commit_writes s)) (disk s)) u" for k and u :: "'y klog_scheme"
  proof -
    let ?d = "apply_writes (take k (commit_writes s)) (disk s)"
    have hok: "header_ok (lg_start s) (lg_size s) (disksize s) ?d"
      unfolding commit_writes_txn
      by (rule txn_crash_header_ok [where ?d0.0 = "disk s", OF tx clear refl]) (use log_okD [OF ok] in auto)
    have "returns (recover_from_log u) (\<lambda>_ t. cache_inv t Map.empty \<and> pinned t = {} \<and> block_view t = disk t
      \<and> lg_n t = 0 \<and> dtrace t = dtrace u @ recover_writes (lg_start u) (disk u)
      \<and> disk t = apply_writes (recover_writes (lg_start u) (disk u)) (disk u))"
      by (rule recover_ok) (use u ok hok in \<open>auto simp: rebooted_def log_ok_def\<close>)
    then show ?thesis
    proof (rule returns_mono)
      fix r v
      assume v: "cache_inv v Map.empty \<and> pinned v = {} \<and> block_view v = disk v
        \<and> lg_n v = 0 \<and> dtrace v = dtrace u @ recover_writes (lg_start u) (disk u)
        \<and> disk v = apply_writes (recover_writes (lg_start u) (disk u)) (disk u)"
      have "block_view v b = (if k \<le> lg_n s then disk s b else block_view s b)" if "\<not> in_log s b" for b
        using txn_crash_recovers [where ?d0.0 = "disk s", OF tx clear _ refl,
            of k b "\<lambda>i. block_view s (lg_block s i)"]
          that v u k len2 home outside by (simp add: rebooted_def commit_writes_txn)
      then show "cache_inv v Map.empty \<and> (\<forall>b. \<not> in_log s b \<longrightarrow>
          block_view v b = (if k \<le> lg_n s then disk s b else block_view s b))" using v by blast
    qed
  qed
  ultimately show ?thesis by blast
qed

text \<open>A machine with a log of 30 blocks at block 2, an empty cache and disk \<open>d\<close>; and the same with one
  logged block.\<close>

definition empty_log :: "(nat \<Rightarrow> u8 list) \<Rightarrow> klog" where
  "empty_log d = kdisk.extend (empty_cache d 1000) (klog.fields 2 30 0 False ROOTDEV 0 (\<lambda>_. 0))"

definition one_block_log :: klog where
  "one_block_log = (empty_log (\<lambda>_. replicate 512 0))
     \<lparr>bufs := (\<lambda>_. \<lparr>b_valid = False, b_dirty = False, b_dev = 0, b_blockno = 0, b_lock = initsleeplock,
          b_refcnt = 0, b_data = []\<rparr>)
        (0 := \<lparr>b_valid = True, b_dirty = True, b_dev = ROOTDEV, b_blockno = 50, b_lock = initsleeplock,
               b_refcnt = 0, b_data = replicate 512 1\<rparr>),
      lg_n := 1, lg_block := (\<lambda>_. 50)\<rparr>"

lemma empty_log_sel:
  "held (empty_log d) = {}" "curproc (empty_log d) = Some 0" "disk (empty_log d) = d"
  "disksize (empty_log d) = 1000" "lg_start (empty_log d) = 2" "lg_size (empty_log d) = 30"
  "lg_outstanding (empty_log d) = 0" "lg_committing (empty_log d) = False" "lg_dev (empty_log d) = ROOTDEV"
  "lg_n (empty_log d) = 0" "lru (empty_log d) = [0 ..< NBUF]" "dtrace (empty_log d) = []"
  "bufs (empty_log d) = (\<lambda>_. \<lparr>b_valid = False, b_dirty = False, b_dev = 0, b_blockno = 0,
      b_lock = initsleeplock, b_refcnt = 0, b_data = []\<rparr>)"
  by (simp_all add: empty_log_def empty_cache_def kdisk.defs klog.defs)

lemma empty_log_rebooted:
  "cache_inv (empty_log d) Map.empty" "pinned (empty_log d) = {}" "block_view (empty_log d) = d"
proof -
  have nc: "\<not> caches (empty_log d) i b" for i b
    by (simp add: caches_def empty_log_sel ROOTDEV_def)
  show "cache_inv (empty_log d) Map.empty"
    unfolding cache_inv_def using nc by (auto simp: empty_log_sel initsleeplock_def)
  show "pinned (empty_log d) = {}" using nc by (simp add: pinned_def)
  show "block_view (empty_log d) = d"
    using nc by (intro ext) (simp add: block_view_uncached empty_log_sel)
qed

lemma one_block_log_facts:
  "cache_inv one_block_log Map.empty" "log_ok one_block_log" "pinned one_block_log = logged one_block_log"
  "lg_n one_block_log = 1" "block_view one_block_log 2 = replicate 512 0"
  "block_view one_block_log 50 = replicate 512 1" "disk one_block_log = (\<lambda>_. replicate 512 0)"
  "lg_start one_block_log = 2" "lg_size one_block_log = 30" "disksize one_block_log = 1000"
proof -
  have ca: "caches one_block_log i b \<longleftrightarrow> i = 0 \<and> b = 50" for i b
    by (auto simp: caches_def one_block_log_def ROOTDEV_def)
  show inv: "cache_inv one_block_log Map.empty"
    unfolding cache_inv_def using ca by (auto simp: one_block_log_def empty_log_sel initsleeplock_def)
  show "log_ok one_block_log"
    by (auto simp: log_ok_def one_block_log_def empty_log_sel in_log_def const_defs inj_on_def)
  show "pinned one_block_log = logged one_block_log"
    using ca by (auto simp: pinned_def logged_def one_block_log_def const_defs)
  show "block_view one_block_log 50 = replicate 512 1"
    using block_view_cached [OF inv, of 0 50] ca by (simp add: one_block_log_def const_defs)
  show d: "disk one_block_log = (\<lambda>_. replicate 512 0)" by (simp add: one_block_log_def empty_log_sel)
  show "block_view one_block_log 2 = replicate 512 0"
    using block_view_uncached [of one_block_log 2] ca d by simp
qed (simp_all add: one_block_log_def empty_log_sel)

theorem commit_crash_atomic_witness:
  "returns (commit one_block_log) (\<lambda>_ t. lg_n t = 0 \<and> disk t 50 = replicate 512 1)
   \<and> returns (recover_from_log (empty_log (apply_writes (take 2 (commit_writes one_block_log))
        (\<lambda>_. replicate 512 0)))) (\<lambda>_ v. block_view v 50 = replicate 512 1)"
proof -
  let ?s = one_block_log
  let ?d = "apply_writes (take 2 (commit_writes ?s)) (\<lambda>_. replicate 512 0)"
  note f = one_block_log_facts
  have "returns (commit ?s) (\<lambda>_ t. dtrace t = dtrace ?s @ commit_writes ?s \<and> lg_n t = 0 \<and> pinned t = {}
      \<and> (\<forall>b. \<not> in_log ?s b \<longrightarrow> disk t b = block_view ?s b))
    \<and> (\<forall>k (u :: klog). k \<le> length (commit_writes ?s) \<and> rebooted ?s (apply_writes (take k (commit_writes ?s)) (disk ?s)) u \<longrightarrow>
        returns (recover_from_log u) (\<lambda>_ v. cache_inv v Map.empty \<and>
          (\<forall>b. \<not> in_log ?s b \<longrightarrow> block_view v b = (if k \<le> lg_n ?s then disk ?s b else block_view ?s b))))"
    by (rule commit_crash_atomic) (simp_all add: f BSIZE_def lh_n_def get32_def le32_of_def)
  note c = conjunct1 [OF this] and r = conjunct2 [OF this, rule_format, of 2 "empty_log ?d"]
  have out: "\<not> in_log ?s 50" by (simp add: in_log_def f)
  have "2 \<le> length (commit_writes ?s)" by (simp add: commit_writes_def f Let_def)
  moreover have "rebooted ?s (apply_writes (take 2 (commit_writes ?s)) (disk ?s)) (empty_log ?d)"
    by (simp add: rebooted_def f empty_log_sel empty_log_rebooted)
  ultimately have "returns (recover_from_log (empty_log ?d)) (\<lambda>_ v. block_view v 50 = replicate 512 1)"
    using r out by (auto simp: f elim!: returns_mono)
  moreover have "returns (commit ?s) (\<lambda>_ t. lg_n t = 0 \<and> disk t 50 = replicate 512 1)"
    using c out by (auto simp: f elim!: returns_mono)
  ultimately show ?thesis by blast
qed



section \<open>Transactions\<close>

lemma log_index_absorb:
  "i < n \<Longrightarrow> blk i = b \<Longrightarrow> \<exists>k<n. log_index blk n b = k \<and> blk k = b"
  by (auto simp: log_index_def find_Some_iff find_None_iff split: option.split)

lemma log_index_append: "(\<forall>i<n. blk i \<noteq> b) \<Longrightarrow> log_index blk n b = n"
  by (auto simp: log_index_def find_Some_iff find_None_iff split: option.split)

lemma log_write_ok:
  fixes s :: "'z klog_scheme"
  assumes inv: "cache_inv s L" and l: "L b = Some i" and inj: "inj_on (lg_block s) {..<lg_n s}"
    and space: "lg_n s < LOGSIZE" "int (lg_n s) < int (lg_size s) - 1" and out: "1 \<le> lg_outstanding s"
  shows "returns (log_write i s) (\<lambda>_ t. cache_inv t L \<and> logged t = insert b (logged s)
    \<and> lg_n t = (if b \<in> logged s then lg_n s else lg_n s + 1) \<and> inj_on (lg_block t) {..<lg_n t}
    \<and> pinned t = insert b (pinned s) \<and> block_view t = block_view s \<and> disk t = disk s \<and> dtrace t = dtrace s
    \<and> (\<exists>x g. cache_step (s\<lparr>lg_n := x, lg_block := g\<rparr>) t))"
proof -
  let ?k = "log_index (lg_block s) (lg_n s) b"
  define x where "x = (if ?k = lg_n s then lg_n s + 1 else lg_n s)"
  define g where "g = (lg_block s)(?k := b)"
  define s1 where "s1 = s\<lparr>lg_n := x, lg_block := g\<rparr>"
  have h: "held s = {}" using inv by (rule cache_invD)
  have bi: "b_blockno (bufs s i) = b" using cache_invD(6) [OF inv l] by (simp add: caches_def)
  have s1: "cache_inv s1 L" "block_view s1 = block_view s" "pinned s1 = pinned s" "disk s1 = disk s"
    "dtrace s1 = dtrace s" "bufs s1 = bufs s" "lg_n s1 = x" "lg_block s1 = g"
    using inv by (simp_all add: s1_def)
  define t where "t = s1\<lparr>disk := (disk s1)(b := disk s1 b), dtrace := dtrace s1,
    bufs := (bufs s1)(i := (bufs s1 i)\<lparr>b_data := block_view s b, b_dirty := True\<rparr>)\<rparr>"
  have dat: "b_data (bufs s i) = block_view s b" using block_view_locked [OF inv l] by simp
  have "log_write i s = Ret () (s\<lparr>lg_block := g, lg_n := x, bufs := (bufs s)(i := (bufs s i)\<lparr>b_dirty := True\<rparr>)\<rparr>)"
    using space out h bi
    by (auto simp: log_write_def not_le x_def g_def kmonad_simps)
  also have "s\<lparr>lg_block := g, lg_n := x, bufs := (bufs s)(i := (bufs s i)\<lparr>b_dirty := True\<rparr>)\<rparr> = t"
    using dat by (cases s; cases "bufs s i") (simp add: s1_def t_def)
  finally have r: "log_write i s = Ret () t" .
  note u = cache_inv_upd [OF s1(1) l t_def]
  have lg: "lg_n t = x" "lg_block t = g" by (simp_all add: s1_def t_def)
  have main: "logged t = insert b (logged s) \<and> x = (if b \<in> logged s then lg_n s else lg_n s + 1)
      \<and> inj_on g {..<x}"
  proof (cases "b \<in> logged s")
    case True
    then obtain j where "j < lg_n s" "lg_block s j = b" by (auto simp: logged_def)
    then obtain k where k: "k < lg_n s" "?k = k" "lg_block s k = b" using log_index_absorb by blast
    then have "x = lg_n s" "g = lg_block s" by (auto simp: x_def g_def fun_eq_iff)
    then show ?thesis using True inj lg by (auto simp: logged_def)
  next
    case False
    then have k: "?k = lg_n s" by (intro log_index_append) (auto simp: logged_def)
    then have x: "x = lg_n s + 1" and g: "g = (lg_block s)(lg_n s := b)" by (auto simp: x_def g_def)
    have same: "g i = lg_block s i" if "i < lg_n s" for i using that g by simp
    have "g ` {..<lg_n s} = logged s" using same by (auto simp: logged_def)
    moreover have "{..<x} = insert (lg_n s) {..<lg_n s}" using x by auto
    moreover have "inj_on g {..<lg_n s}" using inj same by (simp add: inj_on_def)
    ultimately show ?thesis using False x g lg by (auto simp: logged_def)
  qed
  have "\<exists>x g. cache_step (s\<lparr>lg_n := x, lg_block := g\<rparr>) t" using u(4) unfolding s1_def by blast
  moreover have "disk t = disk s" "dtrace t = dtrace s" by (simp_all add: t_def s1)
  moreover have "block_view t = block_view s" "pinned t = insert b (pinned s)"
    using u(2,3) s1 by auto
  ultimately show ?thesis
    unfolding r returns_simps lg using u(1) main by blast
qed

text \<open>
  Recording a block (\<open>log_write\<close> in \<open>log.c\<close>): inside a transaction with log space left, \<open>log_write\<close> of a locked buffer adds its block to
  the logged blocks and pins it in the cache, without changing any block. A block that is already logged is absorbed: the
  log does not grow. No block is recorded twice.
\<close>

theorem log_write_records:
  fixes s :: "'z klog_scheme"
  assumes inv: "cache_inv s L" and l: "L b = Some i" and inj: "inj_on (lg_block s) {..<lg_n s}"
    and space: "lg_n s < LOGSIZE" "int (lg_n s) < int (lg_size s) - 1" and out: "1 \<le> lg_outstanding s"
  shows "returns (log_write i s) (\<lambda>_ t. cache_inv t L \<and> logged t = insert b (logged s)
    \<and> lg_n t = (if b \<in> logged s then lg_n s else lg_n s + 1) \<and> inj_on (lg_block t) {..<lg_n t}
    \<and> pinned t = insert b (pinned s) \<and> block_view t = block_view s \<and> disk t = disk s \<and> dtrace t = dtrace s)"
  using log_write_ok [OF assms] by (rule returns_mono) blast

theorem log_write_records_witness:
  "\<exists>L i. returns (log_write i ((empty_log (\<lambda>_. replicate 512 0))
      \<lparr>bufs := (\<lambda>_. \<lparr>b_valid = False, b_dirty = False, b_dev = 0, b_blockno = 0, b_lock = initsleeplock,
          b_refcnt = 0, b_data = []\<rparr>)
        (0 := \<lparr>b_valid = True, b_dirty = False, b_dev = ROOTDEV, b_blockno = 50,
               b_lock = \<lparr>sl_locked = True, sl_pid = 1\<rparr>, b_refcnt = 1, b_data = replicate 512 1\<rparr>),
       lg_outstanding := 1\<rparr>)) (\<lambda>_ t. cache_inv t L \<and> pinned t = {50} \<and> lg_n t = 1)"
proof -
  let ?s = "(empty_log (\<lambda>_. replicate 512 0))
      \<lparr>bufs := (\<lambda>_. \<lparr>b_valid = False, b_dirty = False, b_dev = 0, b_blockno = 0, b_lock = initsleeplock,
          b_refcnt = 0, b_data = []\<rparr>)
        (0 := \<lparr>b_valid = True, b_dirty = False, b_dev = ROOTDEV, b_blockno = 50,
               b_lock = \<lparr>sl_locked = True, sl_pid = 1\<rparr>, b_refcnt = 1, b_data = replicate 512 1\<rparr>),
       lg_outstanding := 1\<rparr>"
  let ?L = "Map.empty(50 \<mapsto> 0)"
  have ca: "caches ?s i b \<longleftrightarrow> i = 0 \<and> b = 50" for i b
    by (auto simp: caches_def ROOTDEV_def)
  have inv: "cache_inv ?s ?L"
    unfolding cache_inv_def using ca by (auto simp: empty_log_sel initsleeplock_def const_defs)
  have p: "pinned ?s = {}" using ca by (auto simp: pinned_def)
  have "returns (log_write 0 ?s) (\<lambda>_ t. cache_inv t ?L \<and> logged t = insert 50 (logged ?s)
    \<and> lg_n t = (if 50 \<in> logged ?s then lg_n ?s else lg_n ?s + 1) \<and> inj_on (lg_block t) {..<lg_n t}
    \<and> pinned t = insert 50 (pinned ?s) \<and> block_view t = block_view ?s \<and> disk t = disk ?s \<and> dtrace t = dtrace ?s)"
    by (rule log_write_records [OF inv]) (simp_all add: empty_log_sel const_defs)
  then have "returns (log_write 0 ?s) (\<lambda>_ t. cache_inv t ?L \<and> pinned t = {50} \<and> lg_n t = 1)"
    by (rule returns_mono) (use p in \<open>simp add: logged_def empty_log_sel\<close>)
  then show ?thesis by blast
qed

text \<open>
  Reservation of log space (\<open>begin_op\<close> in \<open>log.c\<close>): the call counts the new operation exactly when no commit is under way and
  the log has room for \<open>MAXOPBLOCKS\<close> blocks for every operation in progress and for the new one; otherwise it sleeps on the
  log, releasing the lock, without counting the operation.
\<close>

theorem begin_op_reserves:
  assumes "held s = {}" "curproc s = Some p"
  shows "if \<not> lg_committing s \<and> int (lg_n s) + (lg_outstanding s + 1) * int MAXOPBLOCKS \<le> int LOGSIZE
     then begin_op s = Ret () (s\<lparr>lg_outstanding := lg_outstanding s + 1\<rparr>)
     else \<exists>t k. begin_op s = Switch t k \<and> held t = {LPtable} \<and> p_state (ptable t p) = SLEEPING
            \<and> p_chan (ptable t p) = Some ChLog \<and> lg_outstanding t = lg_outstanding s"
proof -
  let ?s = "s\<lparr>held := {LLog}\<rparr>"
  have sl: "sleep ChLog LLog ?s = Switch (asleep p ChLog ?s) (\<lambda>s'.
      obind (release LPtable (awake p s')) (\<lambda>_. acquire LLog))"
    using assms by (subst sleep_apply [where p = p]) simp_all
  have "s\<lparr>held := {LLog}, lg_outstanding := x, held := {}\<rparr> = s\<lparr>lg_outstanding := x\<rparr>" for x
    using assms(1) by (cases s) simp
  then show ?thesis
    using assms sl by (auto simp: begin_op_def iterate_def kmonad_simps asleep_def not_less)
qed

theorem begin_op_reserves_witness:
  "begin_op (empty_log (\<lambda>_. replicate 512 0))
     = Ret () ((empty_log (\<lambda>_. replicate 512 0))\<lparr>lg_outstanding := 1\<rparr>)"
  using begin_op_reserves [of "empty_log (\<lambda>_. replicate 512 0)" 0]
  by (simp add: empty_log_sel const_defs)

text \<open>
  C23. Group commit (\<open>end_op\<close> in \<open>log.c\<close>): an operation that ends while others are in progress writes nothing to the disk and wakes up the
  processes waiting for log space; the last one commits, and afterwards the log is empty, nothing is pinned, the disk has
  every block outside the log as the cache had it and new operations may begin. It panics only if a commit was under way.
\<close>

theorem end_op_group_commit:
  fixes s :: "'z klog_scheme"
  assumes inv: "cache_inv s Map.empty" and ok: "log_ok s" and pin: "pinned s = logged s"
    and len: "length (block_view s (lg_start s)) = BSIZE"
  shows "if lg_committing s then end_op s = Panic ''log.committing''
     else if lg_outstanding s \<noteq> 1
     then end_op s = Ret () (s\<lparr>lg_outstanding := lg_outstanding s - 1, ptable := woken ChLog (ptable s)\<rparr>)
     else returns (end_op s) (\<lambda>_ t. dtrace t = dtrace s @ (if lg_n s > 0 then commit_writes s else [])
       \<and> lg_outstanding t = 0 \<and> \<not> lg_committing t \<and> lg_n t = 0 \<and> pinned t = {}
       \<and> (\<forall>b. \<not> in_log s b \<longrightarrow> disk t b = block_view s b))"
proof -
  have h: "held s = {}" using inv by (rule cache_invD)
  consider "lg_committing s" | "\<not> lg_committing s" "lg_outstanding s \<noteq> 1"
    | "\<not> lg_committing s" "lg_outstanding s = 1" by blast
  then show ?thesis
  proof cases
    case 1
    then show ?thesis using h by (simp add: end_op_def kmonad_simps)
  next
    case 2
    have "s\<lparr>held := {LLog}, lg_outstanding := x, ptable := pt, held := {}\<rparr> = s\<lparr>lg_outstanding := x, ptable := pt\<rparr>"
      for x pt using h by (cases s) simp
    then show ?thesis using 2 h by (simp add: end_op_def kmonad_simps wakeup_apply)
  next
    case 3
    define s2 where "s2 = s\<lparr>lg_outstanding := 0, lg_committing := True\<rparr>"
    have s2: "cache_inv s2 Map.empty" "log_ok s2" "pinned s2 = logged s2" "lg_n s2 = lg_n s"
      "commit_writes s2 = commit_writes s" "dtrace s2 = dtrace s" "\<And>b. in_log s2 b = in_log s b"
      "block_view s2 = block_view s" "lg_start s2 = lg_start s"
      using inv ok pin
      by (simp_all add: s2_def log_ok_def in_log_def logged_def commit_writes_def)
    have "returns (commit s2) (\<lambda>_ t. held t = {} \<and> lg_outstanding t = 0
      \<and> dtrace t = dtrace s @ (if lg_n s > 0 then commit_writes s else []) \<and> lg_n t = 0 \<and> pinned t = {}
      \<and> (\<forall>b. \<not> in_log s b \<longrightarrow> disk t b = block_view s b))"
    proof (cases "lg_n s = 0")
      case True
      then have "pinned s2 = {}" using s2(3,4) by (simp add: logged_def)
      then show ?thesis
        using True s2 h bc.view_clean [OF s2(1)] by (simp add: commit_def kmonad_simps) (simp add: s2_def)
    next
      case False
      from commit_ok [OF s2(1,2,3)] False s2(4)
      have "returns (commit s2) (\<lambda>_ t. wrote (s2\<lparr>lg_n := 0\<rparr>) t (commit_writes s))" using s2(5) by simp
      then show ?thesis
      proof (rule returns_mono)
        fix r t assume w: "wrote (s2\<lparr>lg_n := 0\<rparr>) t (commit_writes s)"
        have st: "cache_step (s2\<lparr>lg_n := 0\<rparr>) t" using w by (simp add: wrote_def)
        have "fst ` set (commit_writes s) \<supseteq> logged s"
          by (force simp: commit_writes_txn txn_writes_def logged_def)
        then have pt: "pinned t = {}" using wrote_log(8) [OF w] pin by (auto simp: s2_def)
        have "disk t b = block_view s b" if b: "\<not> in_log s b" for b
        proof -
          have "disk t = apply_writes (commit_writes s) (disk s)" using w by (simp add: wrote_def s2_def)
          moreover have "block_view t b = disk t b" using bc.view_clean [of t Map.empty b] w pt by (simp add: wrote_def)
          ultimately show ?thesis
            using commit_final [OF inv ok pin len b] by simp
        qed
        then show "held t = {} \<and> lg_outstanding t = 0
          \<and> dtrace t = dtrace s @ (if lg_n s > 0 then commit_writes s else []) \<and> lg_n t = 0 \<and> pinned t = {}
          \<and> (\<forall>b. \<not> in_log s b \<longrightarrow> disk t b = block_view s b)"
          using w pt False cache_step_log [OF st] cache_step_frame [OF st] h
          by (simp add: wrote_def s2_def)
      qed
    qed
    then obtain t where t: "commit s2 = Ret () t" "held t = {}" "lg_outstanding t = 0"
      "dtrace t = dtrace s @ (if lg_n s > 0 then commit_writes s else [])" "lg_n t = 0" "pinned t = {}"
      "\<And>b. \<not> in_log s b \<Longrightarrow> disk t b = block_view s b"
      by (auto elim!: returns_unitE)
    have e: "s\<lparr>held := {LLog}, lg_outstanding := 0, lg_committing := True, held := {}\<rparr> = s2"
      using h by (cases s) (simp add: s2_def)
    have "end_op s = Ret () (t\<lparr>lg_committing := False, ptable := woken ChLog (ptable t)\<rparr>)"
    proof -
      have "t\<lparr>held := {LLog}, lg_committing := False, ptable := pt, held := {}\<rparr> = t\<lparr>lg_committing := False, ptable := pt\<rparr>"
        for pt using t(2) by (cases t) simp
      moreover have "held s2 = {}" using h by (simp add: s2_def)
      ultimately show ?thesis using 3 h t(1,2) e by (simp add: end_op_def kmonad_simps wakeup_apply)
    qed
    moreover have "pinned (t\<lparr>lg_committing := False, ptable := pt\<rparr>) = pinned t" for pt
      by (simp add: pinned_def caches_def)
    ultimately show ?thesis using 3 t by simp
  qed
qed

theorem end_op_group_commit_witness:
  "returns (end_op (one_block_log\<lparr>lg_outstanding := 1\<rparr>)) (\<lambda>_ t. lg_n t = 0 \<and> disk t 50 = replicate 512 1)"
proof -
  let ?s = "one_block_log\<lparr>lg_outstanding := 1\<rparr>"
  note f = one_block_log_facts
  have c: "lg_committing one_block_log = False" by (simp add: one_block_log_def empty_log_sel)
  have "if lg_committing ?s then end_op ?s = Panic ''log.committing''
     else if lg_outstanding ?s \<noteq> 1
     then end_op ?s = Ret () (?s\<lparr>lg_outstanding := lg_outstanding ?s - 1, ptable := woken ChLog (ptable ?s)\<rparr>)
     else returns (end_op ?s) (\<lambda>_ t. dtrace t = dtrace ?s @ (if lg_n ?s > 0 then commit_writes ?s else [])
       \<and> lg_outstanding t = 0 \<and> \<not> lg_committing t \<and> lg_n t = 0 \<and> pinned t = {}
       \<and> (\<forall>b. \<not> in_log ?s b \<longrightarrow> disk t b = block_view ?s b))"
    by (rule end_op_group_commit)
      (use f in \<open>simp_all add: log_ok_def logged_def in_log_def BSIZE_def\<close>)
  then show ?thesis
    using f c by (auto simp: in_log_def elim!: returns_mono)
qed

end
