(* ===== verification/Spinlock.thy ===== *)
theory Spinlock
  imports Kstring Kstate
begin

text \<open>
  The spin locks of \<open>spinlock.c\<close> on several processors. The functions are cut at the points
  where another processor can interfere: each atomic piece of \<open>acquire\<close> and \<open>release\<close> is a function
  on the machine, and the step relation \<open>smp_step\<close> lets the processors take such steps in
  any order.

  Shown by rule induction over the interleavings: mutual exclusion, interrupts off on a processor
  that holds a lock or is getting one, \<open>ncli\<close> equal to the number of locks in play, \<open>intena\<close>
  remembering the interrupt flag from before the outermost \<open>pushcli\<close>; and that, seen from one
  processor, the machine simulates the set of held locks which the rest of the development uses.
\<close>

section \<open>Processors and locks\<close>

record cpu =
  apicid :: u8
  ncli :: int
  intena :: bool
  eflags_IF :: bool   \<comment> \<open>the interrupt flag of the processor\<close>

record spinlock =
  lk_locked :: u32
  lk_cpu :: "nat option"
  lk_pcs :: "u32 list"

text \<open>Where a processor is in \<open>acquire\<close> or \<open>release\<close>; \<open>Run\<close> is anywhere else.\<close>

datatype pc = Run | Spin lockid | Got lockid | Rel lockid | Pop lockid | Halted string

record smp =
  cpus :: "nat \<Rightarrow> cpu"
  locks :: "lockid \<Rightarrow> spinlock"
  pcs :: "nat \<Rightarrow> pc"

definition set_cpu :: "nat \<Rightarrow> cpu \<Rightarrow> smp \<Rightarrow> smp" where
  "set_cpu c x s = s\<lparr>cpus := (cpus s)(c := x)\<rparr>"

definition set_lock :: "lockid \<Rightarrow> spinlock \<Rightarrow> smp \<Rightarrow> smp" where
  "set_lock l x s = s\<lparr>locks := (locks s)(l := x)\<rparr>"

definition goto_pc :: "nat \<Rightarrow> pc \<Rightarrow> smp \<Rightarrow> smp" where
  "goto_pc c p s = s\<lparr>pcs := (pcs s)(c := p)\<rparr>"

text \<open>\<open>mycpu\<close>: the entry of \<open>cpus[]\<close> with the local APIC id, or a panic.\<close>

fun mycpu_loop :: "(nat \<Rightarrow> cpu) \<Rightarrow> u8 \<Rightarrow> nat \<Rightarrow> nat \<Rightarrow> string + nat" where
  "mycpu_loop cs aid i 0 = Inl ''unknown apicid''"
| "mycpu_loop cs aid i (Suc n) = (if apicid (cs i) = aid then Inr i else mycpu_loop cs aid (Suc i) n)"

definition mycpu :: "(nat \<Rightarrow> cpu) \<Rightarrow> nat \<Rightarrow> bool \<Rightarrow> u8 \<Rightarrow> string + nat" where
  "mycpu cs ncpu IF aid =
     (if IF then Inl ''mycpu called with interrupts enabled'' else mycpu_loop cs aid 0 ncpu)"

definition spin_initlock :: spinlock where
  "spin_initlock = \<lparr>lk_locked = 0, lk_cpu = None, lk_pcs = replicate 10 0\<rparr>"

definition spin_holding :: "nat \<Rightarrow> spinlock \<Rightarrow> bool" where
  "spin_holding c lk \<longleftrightarrow> lk_locked lk \<noteq> 0 \<and> lk_cpu lk = Some c"

definition pushcli :: "cpu \<Rightarrow> cpu" where
  "pushcli c = (let eflags = eflags_IF c;
                    c1 = c\<lparr>eflags_IF := False\<rparr>;
                    c2 = (if ncli c1 = 0 then c1\<lparr>intena := eflags\<rparr> else c1)
                in c2\<lparr>ncli := ncli c2 + 1\<rparr>)"

definition popcli :: "cpu \<Rightarrow> string + cpu" where
  "popcli c =
     (if eflags_IF c then Inl ''popcli - interruptible''
      else let c1 = c\<lparr>ncli := ncli c - 1\<rparr>
           in if ncli c1 < 0 then Inl ''popcli''
              else Inr (if ncli c1 = 0 \<and> intena c1 then c1\<lparr>eflags_IF := True\<rparr> else c1))"

text \<open>The chain of saved frame pointers, at most ten frames, in kernel memory.\<close>

fun callerpcs :: "mem \<Rightarrow> u32 \<Rightarrow> nat \<Rightarrow> u32 list" where
  "callerpcs m ebp 0 = []"
| "callerpcs m ebp (Suc n) =
     (if ebp = 0 \<or> ebp < KERNBASE \<or> ebp = 0xffffffff then replicate (Suc n) 0
      else load32 m (ebp + 4) # callerpcs m (load32 m ebp) n)"

definition getcallerpcs :: "mem \<Rightarrow> u32 \<Rightarrow> u32 list" where
  "getcallerpcs m v = callerpcs m (v - 8) 10"

section \<open>The atomic pieces of acquire and release\<close>

definition acquire_enter :: "nat \<Rightarrow> lockid \<Rightarrow> smp \<Rightarrow> smp" where
  "acquire_enter c l s =
     (let s1 = set_cpu c (pushcli (cpus s c)) s
      in if spin_holding c (locks s1 l) then goto_pc c (Halted ''acquire'') s1
         else goto_pc c (Spin l) s1)"

definition acquire_xchg :: "nat \<Rightarrow> lockid \<Rightarrow> smp \<Rightarrow> smp" where
  "acquire_xchg c l s =
     (let old = lk_locked (locks s l);
          s1 = set_lock l ((locks s l)\<lparr>lk_locked := 1\<rparr>) s
      in if old \<noteq> 0 then s1 else goto_pc c (Got l) s1)"

definition acquire_record :: "mem \<Rightarrow> u32 \<Rightarrow> nat \<Rightarrow> lockid \<Rightarrow> smp \<Rightarrow> smp" where
  "acquire_record m v c l s =
     goto_pc c Run (set_lock l ((locks s l)\<lparr>lk_cpu := Some c, lk_pcs := getcallerpcs m v\<rparr>) s)"

definition release_enter :: "nat \<Rightarrow> lockid \<Rightarrow> smp \<Rightarrow> smp" where
  "release_enter c l s =
     (if \<not> spin_holding c (locks s l) then goto_pc c (Halted ''release'') s
      else goto_pc c (Rel l)
        (set_lock l ((locks s l)\<lparr>lk_pcs := (lk_pcs (locks s l))[0 := 0], lk_cpu := None\<rparr>) s))"

definition release_store :: "nat \<Rightarrow> lockid \<Rightarrow> smp \<Rightarrow> smp" where
  "release_store c l s = goto_pc c (Pop l) (set_lock l ((locks s l)\<lparr>lk_locked := 0\<rparr>) s)"

definition release_popcli :: "nat \<Rightarrow> smp \<Rightarrow> smp" where
  "release_popcli c s = (case popcli (cpus s c) of
      Inl e \<Rightarrow> goto_pc c (Halted e) s
    | Inr x \<Rightarrow> goto_pc c Run (set_cpu c x s))"

text \<open>
  One step of one processor. Between the calls, in \<open>Run\<close>, a processor that holds no lock
  may also switch its interrupt flag (\<open>sti\<close>, \<open>cli\<close>).
\<close>

inductive smp_step :: "smp \<Rightarrow> nat \<Rightarrow> smp \<Rightarrow> bool" where
  enter: "pcs s c = Run \<Longrightarrow> smp_step s c (acquire_enter c l s)"
| xchg: "pcs s c = Spin l \<Longrightarrow> smp_step s c (acquire_xchg c l s)"
| recordcpu: "pcs s c = Got l \<Longrightarrow> smp_step s c (acquire_record m v c l s)"
| leave: "pcs s c = Run \<Longrightarrow> smp_step s c (release_enter c l s)"
| store: "pcs s c = Rel l \<Longrightarrow> smp_step s c (release_store c l s)"
| pop: "pcs s c = Pop l \<Longrightarrow> smp_step s c (release_popcli c s)"
| flag: "pcs s c = Run \<Longrightarrow> ncli (cpus s c) = 0 \<Longrightarrow>
    smp_step s c (set_cpu c ((cpus s c)\<lparr>eflags_IF := b\<rparr>) s)"

inductive smp_reach :: "smp \<Rightarrow> bool" where
  init: "(\<And>l. locks s l = spin_initlock) \<Longrightarrow> (\<And>c. pcs s c = Run \<and> ncli (cpus s c) = 0) \<Longrightarrow> smp_reach s"
| step: "smp_reach s \<Longrightarrow> smp_step s c t \<Longrightarrow> smp_reach t"

text \<open>\<open>n\<close> calls of \<open>popcli\<close>.\<close>

fun popclis :: "nat \<Rightarrow> cpu \<Rightarrow> string + cpu" where
  "popclis 0 c = Inr c"
| "popclis (Suc n) c = (case popcli c of Inl e \<Rightarrow> Inl e | Inr d \<Rightarrow> popclis n d)"

section \<open>Invariant\<close>

text \<open>The processor has the lock word: it won the \<open>xchg\<close> and has not stored 0 yet.\<close>

definition owns :: "smp \<Rightarrow> nat \<Rightarrow> lockid \<Rightarrow> bool" where
  "owns s c l \<longleftrightarrow> pcs s c = Got l \<or> pcs s c = Rel l \<or> lk_cpu (locks s l) = Some c"

text \<open>The locks a processor is recorded as holding.\<close>

definition held_of :: "smp \<Rightarrow> nat \<Rightarrow> lockid set" where
  "held_of s c = {l. spin_holding c (locks s l)}"

text \<open>1 while the processor is inside \<open>acquire\<close> after \<open>pushcli\<close> or inside \<open>release\<close> before \<open>popcli\<close>.\<close>

definition in_call :: "pc \<Rightarrow> int" where
  "in_call p = (case p of Run \<Rightarrow> 0 | Halted e \<Rightarrow> 0 | _ \<Rightarrow> 1)"

definition halted :: "pc \<Rightarrow> bool" where
  "halted p \<longleftrightarrow> (case p of Halted e \<Rightarrow> True | _ \<Rightarrow> False)"

definition lock_inv :: "smp \<Rightarrow> bool" where
  "lock_inv s \<longleftrightarrow> (\<forall>l.
     (lk_locked (locks s l) = 0 \<longrightarrow> (\<forall>c. \<not> owns s c l))
     \<and> (\<forall>c d. owns s c l \<longrightarrow> owns s d l \<longrightarrow> c = d)
     \<and> (\<forall>c. pcs s c = Got l \<or> pcs s c = Rel l \<longrightarrow> lk_cpu (locks s l) = None))"

definition cli_inv :: "smp \<Rightarrow> bool" where
  "cli_inv s \<longleftrightarrow> (\<forall>c. \<not> halted (pcs s c) \<longrightarrow>
     finite (held_of s c) \<and> ncli (cpus s c) = int (card (held_of s c)) + in_call (pcs s c)
     \<and> (ncli (cpus s c) > 0 \<longrightarrow> \<not> eflags_IF (cpus s c)))"

lemmas smp_defs = acquire_enter_def acquire_xchg_def acquire_record_def release_enter_def
  release_store_def release_popcli_def set_cpu_def set_lock_def goto_pc_def Let_def

inductive_cases smp_stepE: "smp_step s c t"

lemma lock_inv_step:
  assumes "smp_step s c t" "lock_inv s"
  shows "lock_inv t"
  using assms
proof cases
  case (enter l)
  then show ?thesis using assms(2)
    by (auto simp: smp_defs lock_inv_def owns_def)
next
  case (xchg l)
  then show ?thesis using assms(2)
    by (auto simp: smp_defs lock_inv_def owns_def) (metis not_None_eq)
next
  case (recordcpu l m v)
  then show ?thesis using assms(2)
    by (auto simp: smp_defs lock_inv_def owns_def)
next
  case (leave l)
  then show ?thesis using assms(2)
    by (auto simp: smp_defs lock_inv_def owns_def spin_holding_def)
next
  case (store l)
  then show ?thesis using assms(2)
    by (auto simp: smp_defs lock_inv_def owns_def)
next
  case (pop l)
  then show ?thesis using assms(2)
    by (auto simp: smp_defs lock_inv_def owns_def split: sum.split)
next
  case (flag b)
  then show ?thesis using assms(2)
    by (auto simp: smp_defs lock_inv_def owns_def)
qed

lemma held_of_other:
  assumes "smp_step s c t" "lock_inv s" "d \<noteq> c"
  shows "held_of t d = held_of s d"
  using assms(1)
proof cases
  case (xchg l)
  then show ?thesis using assms(2)
    by (auto simp: smp_defs held_of_def spin_holding_def lock_inv_def owns_def split: if_splits)
next
  case (recordcpu l m v)
  then have "lk_cpu (locks s l) = None" using assms(2) by (auto simp: lock_inv_def)
  then show ?thesis using recordcpu assms(3)
    by (auto simp: smp_defs held_of_def spin_holding_def split: if_splits)
next
  case (leave l)
  then show ?thesis using assms(3)
    by (auto simp: smp_defs held_of_def spin_holding_def split: if_splits)
next
  case (store l)
  then have "lk_cpu (locks s l) = None" using assms(2) by (auto simp: lock_inv_def)
  then show ?thesis using store
    by (auto simp: smp_defs held_of_def spin_holding_def split: if_splits)
qed (auto simp: smp_defs held_of_def split: sum.split)

text \<open>What each step does to the locks its own processor holds.\<close>

lemma held_of_enter [simp]: "held_of (acquire_enter c l s) d = held_of s d"
  by (simp add: smp_defs held_of_def)

lemma held_of_xchg: "lock_inv s \<Longrightarrow> held_of (acquire_xchg c l s) d = held_of s d"
  by (auto simp: smp_defs held_of_def spin_holding_def lock_inv_def owns_def split: if_splits)

lemma held_of_record:
  "lock_inv s \<Longrightarrow> pcs s c = Got l \<Longrightarrow>
     held_of (acquire_record m v c l s) c = insert l (held_of s c) \<and> l \<notin> held_of s c"
  by (auto simp: smp_defs held_of_def spin_holding_def lock_inv_def owns_def split: if_splits)

lemma held_of_leave:
  "held_of (release_enter c l s) c = held_of s c - {l}"
  by (auto simp: smp_defs held_of_def spin_holding_def split: if_splits)

lemma held_of_store:
  "lock_inv s \<Longrightarrow> pcs s c = Rel l \<Longrightarrow> held_of (release_store c l s) d = held_of s d"
  by (auto simp: smp_defs held_of_def spin_holding_def lock_inv_def split: if_splits)

lemma held_of_pop [simp]: "held_of (release_popcli c s) d = held_of s d"
  by (simp add: smp_defs held_of_def split: sum.split)

lemma held_of_flag [simp]: "held_of (set_cpu c x s) d = held_of s d"
  by (simp add: set_cpu_def held_of_def)

lemma pushcli_simps [simp]:
  "ncli (pushcli x) = ncli x + 1" "\<not> eflags_IF (pushcli x)"
  by (simp_all add: pushcli_def Let_def)

lemma popcli_ok:
  "\<not> eflags_IF x \<Longrightarrow> 0 < ncli x \<Longrightarrow> \<exists>y. popcli x = Inr y \<and> ncli y = ncli x - 1
     \<and> (eflags_IF y \<longleftrightarrow> ncli x = 1 \<and> intena x)"
  by (auto simp: popcli_def Let_def)

lemma cli_inv_step:
  assumes "smp_step s c t" "lock_inv s" "cli_inv s"
  shows "cli_inv t"
  unfolding cli_inv_def
proof (intro allI impI)
  fix d assume nh: "\<not> halted (pcs t d)"
  have same: "d \<noteq> c \<Longrightarrow> cpus t d = cpus s d \<and> pcs t d = pcs s d"
    using assms(1) by cases (auto simp: smp_defs split: sum.split)
  show "finite (held_of t d) \<and> ncli (cpus t d) = int (card (held_of t d)) + in_call (pcs t d)
      \<and> (0 < ncli (cpus t d) \<longrightarrow> \<not> eflags_IF (cpus t d))"
  proof (cases "d = c")
    case False
    then show ?thesis
      using same held_of_other [OF assms(1,2) False] assms(3) nh by (simp add: cli_inv_def)
  next
    case True
    have inv: "\<not> halted (pcs s c) \<Longrightarrow> finite (held_of s c)
        \<and> ncli (cpus s c) = int (card (held_of s c)) + in_call (pcs s c)
        \<and> (0 < ncli (cpus s c) \<longrightarrow> \<not> eflags_IF (cpus s c))"
      using assms(3) by (simp add: cli_inv_def)
    from assms(1) show ?thesis
    proof cases
      case (enter l)
      then have h: "held_of t c = held_of s c" by simp
      from enter nh True have "pcs t c = Spin l" "cpus t c = pushcli (cpus s c)"
        by (auto simp: smp_defs halted_def split: if_splits)
      with True enter h inv show ?thesis by (simp add: in_call_def halted_def)
    next
      case (xchg l)
      then have "held_of t c = held_of s c" using held_of_xchg assms(2) by simp
      moreover have "in_call (pcs t c) = 1" "cpus t c = cpus s c"
        using xchg by (auto simp: smp_defs in_call_def)
      ultimately show ?thesis using True xchg inv by (simp add: in_call_def halted_def)
    next
      case (recordcpu l m v)
      then have "held_of t c = insert l (held_of s c)" "l \<notin> held_of s c"
        using held_of_record assms(2) by simp_all
      moreover have "pcs t c = Run" "cpus t c = cpus s c"
        using recordcpu by (auto simp: smp_defs)
      ultimately show ?thesis using True recordcpu inv by (simp add: in_call_def halted_def)
    next
      case (leave l)
      then have l: "spin_holding c (locks s l)" using nh True
        by (auto simp: smp_defs halted_def split: if_splits)
      then have "l \<in> held_of s c" by (simp add: held_of_def)
      moreover have "held_of t c = held_of s c - {l}" using leave held_of_leave by simp
      moreover have "pcs t c = Rel l" "cpus t c = cpus s c"
        using leave l by (auto simp: smp_defs)
      moreover have "0 < card (held_of s c)"
        using inv leave \<open>l \<in> held_of s c\<close> by (auto simp: halted_def card_gt_0_iff)
      ultimately show ?thesis using True leave inv
        by (simp add: in_call_def halted_def of_nat_diff)
    next
      case (store l)
      then have "held_of t c = held_of s c" using held_of_store assms(2) by simp
      moreover have "pcs t c = Pop l" "cpus t c = cpus s c"
        using store by (auto simp: smp_defs)
      ultimately show ?thesis using True store inv by (simp add: in_call_def halted_def)
    next
      case (pop l)
      have "\<not> eflags_IF (cpus s c)" "0 < ncli (cpus s c)"
        using inv pop by (simp_all add: in_call_def halted_def)
      from popcli_ok [OF this] pop inv True show ?thesis
        by (auto simp: release_popcli_def set_cpu_def goto_pc_def in_call_def halted_def held_of_def)
    next
      case (flag b)
      then show ?thesis using True inv by (simp add: halted_def in_call_def) (simp add: set_cpu_def)
    qed
  qed
qed

lemma smp_reach_inv: "smp_reach s \<Longrightarrow> lock_inv s \<and> cli_inv s"
proof (induction rule: smp_reach.induct)
  case (init s)
  then show ?case
    by (simp add: lock_inv_def owns_def cli_inv_def held_of_def spin_holding_def spin_initlock_def
        in_call_def)
next
  case (step s c t)
  then show ?case using lock_inv_step cli_inv_step by blast
qed

text \<open>
  C3. Mutual exclusion (\<open>spinlock.c\<close>): in every interleaving of \<open>acquire\<close> and \<open>release\<close> on any number of
  processors, at most one processor is between its successful \<open>xchg\<close> on a lock and the store of 0 that releases
  it, and unless it has panicked that processor runs with interrupts disabled.
\<close>

theorem spinlock_mutual_exclusion:
  assumes "smp_reach s" "owns s c l" "owns s d l"
  shows "c = d \<and> (halted (pcs s c) \<or> \<not> eflags_IF (cpus s c))"
proof -
  have inv: "lock_inv s" "cli_inv s" using smp_reach_inv [OF assms(1)] by auto
  have "c = d" using inv(1) assms(2,3) by (auto simp: lock_inv_def)
  moreover have "\<not> eflags_IF (cpus s c)" if nh: "\<not> halted (pcs s c)"
  proof -
    have n: "finite (held_of s c)" "ncli (cpus s c) = int (card (held_of s c)) + in_call (pcs s c)"
      "0 < ncli (cpus s c) \<longrightarrow> \<not> eflags_IF (cpus s c)"
      using inv(2) nh by (auto simp: cli_inv_def)
    have "l \<in> held_of s c \<or> in_call (pcs s c) = 1"
      using assms(2) inv(1) by (auto simp: owns_def held_of_def spin_holding_def lock_inv_def in_call_def)
    moreover have "0 \<le> in_call (pcs s c)" by (auto simp: in_call_def split: pc.split)
    moreover have "l \<in> held_of s c \<Longrightarrow> 0 < card (held_of s c)" using n(1) card_gt_0_iff by blast
    ultimately show ?thesis using n by auto
  qed
  ultimately show ?thesis by blast
qed

theorem spinlock_mutual_exclusion_witness:
  "\<exists>s. smp_reach s \<and> owns s 0 LKmem \<and> (halted (pcs s 0) \<or> \<not> eflags_IF (cpus s 0))"
proof -
  let ?s0 = "\<lparr>cpus = (\<lambda>_. \<lparr>apicid = 0, ncli = 0, intena = False, eflags_IF = True\<rparr>),
    locks = (\<lambda>_. spin_initlock), pcs = (\<lambda>_. Run)\<rparr>"
  let ?s1 = "acquire_enter 0 LKmem ?s0"
  let ?s2 = "acquire_xchg 0 LKmem ?s1"
  have "smp_reach ?s0" by (rule smp_reach.init) auto
  then have "smp_reach ?s1" by (rule smp_reach.step) (rule smp_step.enter, simp)
  then have "smp_reach ?s2"
    by (rule smp_reach.step) (rule smp_step.xchg, simp add: smp_defs spin_holding_def spin_initlock_def)
  moreover have "owns ?s2 0 LKmem"
    by (simp add: owns_def smp_defs spin_holding_def spin_initlock_def)
  ultimately show ?thesis using spinlock_mutual_exclusion [of ?s2 0 LKmem 0] by blast
qed



lemma popclis_last: "popclis (Suc n) x = (case popclis n x of Inl e \<Rightarrow> Inl e | Inr d \<Rightarrow> popcli d)"
proof (induction n arbitrary: x)
  case 0
  then show ?case by (simp split: sum.split)
next
  case (Suc n)
  show ?case
  proof (cases "popcli x")
    case (Inl e)
    then show ?thesis by simp
  next
    case (Inr d)
    then have "popclis (Suc (Suc n)) x = popclis (Suc n) d" "popclis (Suc n) x = popclis n d"
      by simp_all
    then show ?thesis using Suc.IH [of d] by (simp only:)
  qed
qed

lemma pushclis_off:
  "0 \<le> ncli c \<Longrightarrow> 0 < ncli ((pushcli ^^ Suc m) c) \<and> \<not> eflags_IF ((pushcli ^^ Suc m) c)"
  by (induction m) auto

lemma pushcli_popclis:
  "(ncli c > 0 \<longrightarrow> \<not> eflags_IF c) \<Longrightarrow> 0 \<le> ncli c \<Longrightarrow>
   \<exists>d. popclis n ((pushcli ^^ n) c) = Inr d \<and> ncli d = ncli c \<and> eflags_IF d = eflags_IF c
     \<and> (ncli c > 0 \<longrightarrow> d = c)"
proof (induction n arbitrary: c)
  case 0
  then show ?case by simp
next
  case (Suc n)
  let ?p = "pushcli c"
  have "\<exists>d. popclis n ((pushcli ^^ n) ?p) = Inr d \<and> ncli d = ncli ?p \<and> eflags_IF d = eflags_IF ?p
     \<and> (ncli ?p > 0 \<longrightarrow> d = ?p)"
    using Suc.prems by (intro Suc.IH) auto
  then have all: "popclis n ((pushcli ^^ n) ?p) = Inr ?p" using Suc.prems by simp
  have "(pushcli ^^ Suc n) c = (pushcli ^^ n) ?p" by (simp add: funpow_swap1)
  then have "popclis (Suc n) ((pushcli ^^ Suc n) c) = popcli ?p"
    using all popclis_last by (simp del: popclis.simps)
  moreover have "\<exists>d. popcli ?p = Inr d \<and> ncli d = ncli c \<and> eflags_IF d = eflags_IF c
      \<and> (ncli c > 0 \<longrightarrow> d = c)"
    using Suc.prems by (auto simp: popcli_def pushcli_def Let_def)
  ultimately show ?case by simp
qed

text \<open>
  Matched interrupt disabling (\<open>spinlock.c\<close>): \<open>n\<close> calls of \<open>pushcli\<close> are undone by \<open>n\<close> calls of \<open>popcli\<close>, which do not panic; the
  nesting depth and the interrupt flag of the processor are then what they were, so interrupts that were off stay
  off and interrupts that were on come back only with the last \<open>popcli\<close>.
\<close>

theorem pushcli_popcli_matched:
  assumes "ncli c > 0 \<longrightarrow> \<not> eflags_IF c" "0 \<le> ncli c"
  shows "(\<exists>d. popclis n ((pushcli ^^ n) c) = Inr d \<and> ncli d = ncli c \<and> eflags_IF d = eflags_IF c)
    \<and> (\<forall>k<n. \<exists>d. popclis k ((pushcli ^^ n) c) = Inr d \<and> \<not> eflags_IF d)"
proof (intro conjI allI impI)
  show "\<exists>d. popclis n ((pushcli ^^ n) c) = Inr d \<and> ncli d = ncli c \<and> eflags_IF d = eflags_IF c"
    using pushcli_popclis [OF assms] by blast
next
  fix k assume k: "k < n"
  let ?x = "(pushcli ^^ (n - k)) c"
  have "0 < ncli ?x" "\<not> eflags_IF ?x" using pushclis_off [OF assms(2), of "n - k - 1"] k by (simp_all add: Suc_diff_Suc)
  moreover have "(pushcli ^^ n) c = (pushcli ^^ k) ?x"
    using k by (metis add.commute comp_apply funpow_add le_add_diff_inverse less_imp_le)
  ultimately show "\<exists>d. popclis k ((pushcli ^^ n) c) = Inr d \<and> \<not> eflags_IF d"
    using pushcli_popclis [of ?x k] by auto
qed

theorem pushcli_popcli_matched_witness:
  "\<exists>d. popclis 3 ((pushcli ^^ 3) \<lparr>apicid = 0, ncli = 0, intena = False, eflags_IF = True\<rparr>) = Inr d
     \<and> ncli d = 0 \<and> eflags_IF d"
  using pushcli_popcli_matched [of "\<lparr>apicid = 0, ncli = 0, intena = False, eflags_IF = True\<rparr>" 3]
  by simp

end
