(* ===== verification/Apic.thy ===== *)
theory Apic
  imports Log Spinlock
begin

text \<open>
  The interrupt controllers (\<open>lapic.c\<close>, \<open>ioapic.c\<close>, \<open>picirq.c\<close>), the clock chip, and the search for processors in the tables the
  firmware passes (\<open>mp_uefi.c\<close>). A device is its register file: what is written to a register is there when it is read. Writes to
  I/O ports are recorded in order; what a port reads is given by \<open>inport\<close>.

  That the scan of the processor table finds the processors, and when it ends, is shown in \<open>Madt\<close>.
\<close>

section \<open>State\<close>

record kapic = klog +
  lapic :: u32                  \<comment> \<open>0 until the table of the firmware has been read\<close>
  lapic_regs :: "nat \<Rightarrow> u32"
  ioapic_regs :: "nat \<Rightarrow> u32"
  ioapicid :: u8
  ncpu :: nat
  apicids :: "nat \<Rightarrow> u8"        \<comment> \<open>\<open>cpus[i].apicid\<close>\<close>
  cmos :: "u32 \<Rightarrow> u8"
  inport :: "u32 \<Rightarrow> u8"
  outs :: "(u32 \<times> u8) list"

unbundle bit_operations_syntax

definition T_IRQ0 :: u32 where [const_defs]: "T_IRQ0 = 32"
definition IRQ_TIMER :: u32 where [const_defs]: "IRQ_TIMER = 0"
definition IRQ_KBD :: u32 where [const_defs]: "IRQ_KBD = 1"
definition IRQ_COM1 :: u32 where [const_defs]: "IRQ_COM1 = 4"
definition IRQ_IDE :: u32 where [const_defs]: "IRQ_IDE = 14"
definition IRQ_ERROR :: u32 where [const_defs]: "IRQ_ERROR = 19"
definition IRQ_SPURIOUS :: u32 where [const_defs]: "IRQ_SPURIOUS = 31"

definition outb :: "u32 \<Rightarrow> u8 \<Rightarrow> (unit, 'z kapic_scheme) km" where
  "outb port v = modify (\<lambda>s. s\<lparr>outs := outs s @ [(port, v)]\<rparr>)"

definition inb :: "u32 \<Rightarrow> (u8, 'z kapic_scheme) km" where
  "inb port = gets (\<lambda>s. inport s port)"

section \<open>The local APIC\<close>

definition L_ID :: nat where "L_ID = 0x20 div 4"
definition L_VER :: nat where "L_VER = 0x30 div 4"
definition L_TPR :: nat where "L_TPR = 0x80 div 4"
definition L_EOI :: nat where "L_EOI = 0xB0 div 4"
definition L_SVR :: nat where "L_SVR = 0xF0 div 4"
definition L_ENABLE :: u32 where "L_ENABLE = 0x100"
definition L_ESR :: nat where "L_ESR = 0x280 div 4"
definition L_ICRLO :: nat where "L_ICRLO = 0x300 div 4"
definition L_INIT :: u32 where "L_INIT = 0x500"
definition L_STARTUP :: u32 where "L_STARTUP = 0x600"
definition L_DELIVS :: u32 where "L_DELIVS = 0x1000"
definition L_ASSERT :: u32 where "L_ASSERT = 0x4000"
definition L_LEVEL :: u32 where "L_LEVEL = 0x8000"
definition L_BCAST :: u32 where "L_BCAST = 0x80000"
definition L_ICRHI :: nat where "L_ICRHI = 0x310 div 4"
definition L_TIMER :: nat where "L_TIMER = 0x320 div 4"
definition L_X1 :: u32 where "L_X1 = 0xB"
definition L_PERIODIC :: u32 where "L_PERIODIC = 0x20000"
definition L_PCINT :: nat where "L_PCINT = 0x340 div 4"
definition L_LINT0 :: nat where "L_LINT0 = 0x350 div 4"
definition L_LINT1 :: nat where "L_LINT1 = 0x360 div 4"
definition L_ERROR :: nat where "L_ERROR = 0x370 div 4"
definition L_MASKED :: u32 where "L_MASKED = 0x10000"
definition L_TICR :: nat where "L_TICR = 0x380 div 4"
definition L_TDCR :: nat where "L_TDCR = 0x3E0 div 4"

definition lapicw :: "nat \<Rightarrow> u32 \<Rightarrow> (unit, 'z kapic_scheme) km" where
  "lapicw index val = modify (\<lambda>s. s\<lparr>lapic_regs := (lapic_regs s)(index := val)\<rparr>)"

definition lapicinit :: "(unit, 'z kapic_scheme) km" where
  "lapicinit =
     seq (gets lapic) (\<lambda>l.
     if l = 0 then ret ()
     else
       seq (lapicw L_SVR (L_ENABLE OR (T_IRQ0 + IRQ_SPURIOUS))) (\<lambda>_.
       seq (lapicw L_TDCR L_X1) (\<lambda>_.
       seq (lapicw L_TIMER (L_PERIODIC OR (T_IRQ0 + IRQ_TIMER))) (\<lambda>_.
       seq (lapicw L_TICR 10000000) (\<lambda>_.
       seq (lapicw L_LINT0 L_MASKED) (\<lambda>_.
       seq (lapicw L_LINT1 L_MASKED) (\<lambda>_.
       seq (gets (\<lambda>s. lapic_regs s L_VER)) (\<lambda>ver.
       seq (if drop_bit 16 ver AND 0xFF \<ge> 4 then lapicw L_PCINT L_MASKED else ret ()) (\<lambda>_.
       seq (lapicw L_ERROR (T_IRQ0 + IRQ_ERROR)) (\<lambda>_.
       seq (lapicw L_ESR 0) (\<lambda>_.
       seq (lapicw L_ESR 0) (\<lambda>_.
       seq (lapicw L_EOI 0) (\<lambda>_.
       seq (lapicw L_ICRHI 0) (\<lambda>_.
       seq (lapicw L_ICRLO (L_BCAST OR L_INIT OR L_LEVEL)) (\<lambda>_.
       seq (gets (\<lambda>s. lapic_regs s L_ICRLO)) (\<lambda>icr.
       seq (if icr AND L_DELIVS \<noteq> 0 then forever else ret ()) (\<lambda>_.
       lapicw L_TPR 0)))))))))))))))))"

definition lapicid :: "(u32, 'z kapic_scheme) km" where
  "lapicid = gets (\<lambda>s. if lapic s = 0 then 0 else drop_bit 24 (lapic_regs s L_ID))"

definition lapiceoi :: "(unit, 'z kapic_scheme) km" where
  "lapiceoi =
     seq (gets lapic) (\<lambda>l.
     if l \<noteq> 0 then lapicw L_EOI 0 else ret ())"

definition microdelay :: "int \<Rightarrow> (unit, 's) km" where
  "microdelay us = ret ()"

definition CMOS_PORT :: u32 where "CMOS_PORT = 0x70"

definition lapicstartap :: "u8 \<Rightarrow> u32 \<Rightarrow> (unit, 'z kapic_scheme) km" where
  "lapicstartap aid addr =
     (let wrv = P2V (push_bit 4 0x40 OR 0x67) in
      seq (outb CMOS_PORT 0xF) (\<lambda>_.
      seq (outb (CMOS_PORT + 1) 0x0A) (\<lambda>_.
      seq (modify (\<lambda>s. s\<lparr>mem := (mem s)(wrv := 0, wrv + 1 := 0)\<rparr>)) (\<lambda>_.
      seq (modify (\<lambda>s. s\<lparr>mem := (mem s)(wrv + 2 := byte_of 0 (drop_bit 4 addr), wrv + 3 := byte_of (Suc 0) (drop_bit 4 addr))\<rparr>)) (\<lambda>_.
      seq (lapicw L_ICRHI (push_bit 24 (ucast aid))) (\<lambda>_.
      seq (lapicw L_ICRLO (L_INIT OR L_LEVEL OR L_ASSERT)) (\<lambda>_.
      seq (microdelay 200) (\<lambda>_.
      seq (lapicw L_ICRLO (L_INIT OR L_LEVEL)) (\<lambda>_.
      seq (microdelay 100) (\<lambda>_.
      for_each (\<lambda>i.
        seq (lapicw L_ICRHI (push_bit 24 (ucast aid))) (\<lambda>_.
        seq (lapicw L_ICRLO (L_STARTUP OR drop_bit 12 addr)) (\<lambda>_.
        microdelay 200))) [0 ..< 2 :: nat]))))))))))"

section \<open>Which processor\<close>

text \<open>
  \<open>mycpu\<close>, as the index in \<open>cpus\<close>. It is called with interrupts off, so its first check passes.
\<close>

definition mycpu_index :: "(nat, 'z kapic_scheme) km" where
  "mycpu_index =
     seq lapicid (\<lambda>aid.
     seq (gets (\<lambda>s. find (\<lambda>i. ucast (apicids s i) = aid) [0 ..< ncpu s])) (\<lambda>r.
     case r of Some i \<Rightarrow> ret i | None \<Rightarrow> panic ''unknown apicid''))"

definition cpuid :: "(nat, 'z kapic_scheme) km" where
  "cpuid = mycpu_index"

section \<open>The clock chip\<close>

record rtcdate =
  rt_second :: u32
  rt_minute :: u32
  rt_hour :: u32
  rt_day :: u32
  rt_month :: u32
  rt_year :: u32

definition cmos_read :: "u32 \<Rightarrow> (u32, 'z kapic_scheme) km" where
  "cmos_read r =
     seq (outb CMOS_PORT (ucast r)) (\<lambda>_.
     seq (microdelay 200) (\<lambda>_.
     gets (\<lambda>s. ucast (cmos s r))))"

definition fill_rtcdate :: "(rtcdate, 'z kapic_scheme) km" where
  "fill_rtcdate =
     seq (cmos_read 0) (\<lambda>sec.
     seq (cmos_read 2) (\<lambda>mi.
     seq (cmos_read 4) (\<lambda>ho.
     seq (cmos_read 7) (\<lambda>da.
     seq (cmos_read 8) (\<lambda>mo.
     seq (cmos_read 9) (\<lambda>ye.
     ret \<lparr>rt_second = sec, rt_minute = mi, rt_hour = ho, rt_day = da, rt_month = mo, rt_year = ye\<rparr>))))))"

definition bcd_conv :: "u32 \<Rightarrow> u32" where
  "bcd_conv x = drop_bit 4 x * 10 + (x AND 0xF)"

definition cmostime :: "(rtcdate, 'z kapic_scheme) km" where
  "cmostime =
     seq (cmos_read 0x0B) (\<lambda>sb.
     let bcd = (sb AND push_bit 2 1 = 0) in
     seq (iterate (\<lambda>_.
       seq fill_rtcdate (\<lambda>t1.
       seq (cmos_read 0x0A) (\<lambda>sa.
       if sa AND push_bit 7 1 \<noteq> 0 then ret (Inr ())
       else
         seq fill_rtcdate (\<lambda>t2.
         ret (if t1 = t2 then Inl t1 else Inr ()))))) ()) (\<lambda>t1.
     let t1 = (if bcd then \<lparr>rt_second = bcd_conv (rt_second t1), rt_minute = bcd_conv (rt_minute t1), rt_hour = bcd_conv (rt_hour t1),
                 rt_day = bcd_conv (rt_day t1), rt_month = bcd_conv (rt_month t1), rt_year = bcd_conv (rt_year t1)\<rparr> else t1) in
     ret (t1\<lparr>rt_year := rt_year t1 + 2000\<rparr>)))"

section \<open>The I/O APIC and the old controllers\<close>

definition REG_ID :: nat where "REG_ID = 0"
definition REG_VER :: nat where "REG_VER = 1"
definition REG_TABLE :: nat where "REG_TABLE = 0x10"
definition INT_DISABLED :: u32 where "INT_DISABLED = 0x10000"

definition ioapicread :: "nat \<Rightarrow> (u32, 'z kapic_scheme) km" where
  "ioapicread r = gets (\<lambda>s. ioapic_regs s r)"

definition ioapicwrite :: "nat \<Rightarrow> u32 \<Rightarrow> (unit, 'z kapic_scheme) km" where
  "ioapicwrite r v = modify (\<lambda>s. s\<lparr>ioapic_regs := (ioapic_regs s)(r := v)\<rparr>)"

definition ioapicenable :: "u32 \<Rightarrow> u32 \<Rightarrow> (unit, 'z kapic_scheme) km" where
  "ioapicenable irq cpunum =
     seq (ioapicwrite (REG_TABLE + 2 * unat irq) (T_IRQ0 + irq)) (\<lambda>_.
     ioapicwrite (REG_TABLE + 2 * unat irq + 1) (push_bit 24 cpunum))"

definition picinit :: "(unit, 'z kapic_scheme) km" where
  "picinit =
     seq (outb (0x20 + 1) 0xFF) (\<lambda>_.
     outb (0xA0 + 1) 0xFF)"

section \<open>The table of processors\<close>

definition BOOTPARAM :: u32 where [const_defs]: "BOOTPARAM = 0x50000"

text \<open>What the scan of the table collects.\<close>

record madt_info =
  m_ncpu :: nat
  m_apicids :: "nat \<Rightarrow> u8"
  m_ioapicid :: u8

text \<open>
  The body of the loop of \<open>mpinit_uefi\<close> at the record at offset \<open>i\<close>, and the loop: a record of a
  type the switch does not have leaves \<open>i\<close> as it is.
\<close>

definition madt_record :: "mem \<Rightarrow> u32 \<Rightarrow> u32 \<Rightarrow> madt_info \<Rightarrow> u32 \<times> madt_info" where
  "madt_record m madt i x =
     (let e = madt + i; ty = m e; len = ucast (m (e + 1)) in
      if ty = 0 then
        (i + len, if m_ncpu x < NCPU then x\<lparr>m_apicids := (m_apicids x)(m_ncpu x := m (e + 3)), m_ncpu := m_ncpu x + 1\<rparr> else x)
      else if ty = 1 then (i + len, x\<lparr>m_ioapicid := m (e + 2)\<rparr>)
      else if ty = 2 then (i + len, x)
      else if ty = 4 then (i + len, x)
      else if ty = 5 then (i + 0xC, x)
      else (i, x))"

partial_function (option) madt_scan :: "mem \<Rightarrow> u32 \<Rightarrow> u32 \<Rightarrow> u32 \<Rightarrow> madt_info \<Rightarrow> madt_info option" where
  "madt_scan m madt len i x =
     (if i < len then madt_scan m madt len (fst (madt_record m madt i x)) (snd (madt_record m madt i x))
      else Some x)"

definition mpinit_uefi :: "(unit, 'z kapic_scheme) km" where
  "mpinit_uefi =
     (\<lambda>s.
      let madt = P2V (load32 (mem s) (P2V BOOTPARAM + 8)); t = s\<lparr>lapic := load32 (mem s) (madt + 36), ncpu := 0\<rparr> in
      case madt_scan (mem s) madt (load32 (mem s) (madt + 4)) 44
             \<lparr>m_ncpu = 0, m_apicids = apicids s, m_ioapicid = ioapicid s\<rparr> of
        Some x \<Rightarrow> Ret () (t\<lparr>ncpu := m_ncpu x, apicids := m_apicids x, ioapicid := m_ioapicid x\<rparr>)
      | None \<Rightarrow> forever t)"

end
