(* ===== verification/Console.thy ===== *)
theory Console
  imports Apic
begin

text \<open>
  The console (\<open>console.c\<close>, \<open>graphic.c\<close>, \<open>font.c\<close>): output through the serial port and the frame
  buffer, formatted printing, and the line-edited input ring.

  The frame buffer is a memory of its own, addressed by virtual address. Characters sent to the
  serial port are recorded in order. A format string and its arguments are lists.

  Shown: the cursor and every pixel drawn stay inside the 800 by 600 screen for printable
  characters; \<open>printint\<close> prints the digits of the number and stays inside its buffer; and the ring
  buffer implements an editable line behind a queue of committed bytes.
\<close>

section \<open>State\<close>

record gpu =
  pvram_addr :: u32
  vvram_addr :: u32
  vram_size :: u32
  horizontal_resolution :: u32
  vertical_resolution :: u32
  pixels_per_line :: u32

record pixel =
  px_blue :: u8
  px_green :: u8
  px_red :: u8

text \<open>\<open>font_bin\<close> is the glyph table, indexed by the character minus 0x20 and the row.\<close>

record kcons = kapic +
  panicked :: bool
  cons_locking :: bool
  console_pos :: int
  gpu :: gpu
  vram :: mem
  font_bin :: "int \<Rightarrow> nat \<Rightarrow> u32"
  uart :: bool
  uart_out :: "u8 list"
  in_buf :: "nat \<Rightarrow> u8"
  in_r :: u32
  in_w :: u32
  in_e :: u32
  devsw_console :: bool

unbundle bit_operations_syntax

definition BACKSPACE :: int where "BACKSPACE = 0x100"
definition CONSOLE_HORIZONTAL_MAX :: int where "CONSOLE_HORIZONTAL_MAX = 53"
definition CONSOLE_VERTICAL_MAX :: int where "CONSOLE_VERTICAL_MAX = 20"
definition FONT_WIDTH :: int where "FONT_WIDTH = 15"
definition FONT_HEIGHT :: int where "FONT_HEIGHT = 30"
definition INPUT_BUF :: u32 where "INPUT_BUF = 128"

section \<open>The frame buffer (graphic.c, font.c)\<close>

definition graphic_draw_pixel :: "gpu \<Rightarrow> mem \<Rightarrow> int \<Rightarrow> int \<Rightarrow> pixel \<Rightarrow> mem" where
  "graphic_draw_pixel g v x y p =
     (let a = vvram_addr g + 4 * (of_int y * pixels_per_line g + of_int x)
      in v(a := px_blue p, a + 1 := px_green p, a + 2 := px_red p))"

text \<open>The boot parameters are 64-bit numbers, of which the low half is used.\<close>

definition graphic_init :: "(unit, 'z kcons_scheme) km" where
  "graphic_init = modify (\<lambda>s.
     let cfg = P2V BOOTPARAM + 16 in
     s\<lparr>gpu := \<lparr>pvram_addr = load32 (mem s) cfg,
       vvram_addr = DEVSPACE - load32 (mem s) (cfg + 8),
       vram_size = load32 (mem s) (cfg + 8),
       horizontal_resolution = load32 (mem s) (cfg + 16),
       vertical_resolution = load32 (mem s) (cfg + 24),
       pixels_per_line = load32 (mem s) (cfg + 32)\<rparr>\<rparr>)"

definition graphic_scroll_up :: "gpu \<Rightarrow> mem \<Rightarrow> u32 \<Rightarrow> mem" where
  "graphic_scroll_up g v height =
     (let addr_diff = 4 * pixels_per_line g * height;
          v1 = memmove v (vvram_addr g) (vvram_addr g + addr_diff) (vram_size g - addr_diff)
      in memset v1 (vvram_addr g + vram_size g - addr_diff) 0 addr_diff)"

definition white_pixel :: pixel where "white_pixel = \<lparr>px_blue = 0xFF, px_green = 0xFF, px_red = 0xFF\<rparr>"
definition black_pixel :: pixel where "black_pixel = \<lparr>px_blue = 0, px_green = 0, px_red = 0\<rparr>"

text \<open>Column \<open>j\<close> from 14 down to 0 of row \<open>i\<close> of the glyph.\<close>

definition font_dot :: "gpu \<Rightarrow> (int \<Rightarrow> nat \<Rightarrow> u32) \<Rightarrow> int \<Rightarrow> int \<Rightarrow> int \<Rightarrow> nat \<Rightarrow> nat \<Rightarrow> mem \<Rightarrow> mem" where
  "font_dot g font x y index i j v =
     (let bin = font (index - 0x20) i AND push_bit j 1
      in graphic_draw_pixel g v (x + (14 - int j)) (y + int i)
           (if bin = push_bit j 1 then white_pixel else black_pixel))"

definition font_render :: "gpu \<Rightarrow> (int \<Rightarrow> nat \<Rightarrow> u32) \<Rightarrow> mem \<Rightarrow> int \<Rightarrow> int \<Rightarrow> int \<Rightarrow> mem" where
  "font_render g font v x y index =
     fold (\<lambda>i v. fold (\<lambda>j v. font_dot g font x y index i j v) (rev [0 ..< 15]) v) [0 ..< 30] v"

fun font_render_string :: "gpu \<Rightarrow> (int \<Rightarrow> nat \<Rightarrow> u32) \<Rightarrow> mem \<Rightarrow> u8 list \<Rightarrow> int \<Rightarrow> nat \<Rightarrow> mem" where
  "font_render_string g font v [] row i = v"
| "font_render_string g font v (c # cs) row i =
     (if c \<noteq> 0 \<and> i < 52
      then font_render_string g font (font_render g font v (int i * 15 + 2) (row * 30) (sint c)) cs row (Suc i)
      else v)"

section \<open>Output (console.c)\<close>

definition graphic_putc :: "int \<Rightarrow> (unit, 'z kcons_scheme) km" where
  "graphic_putc c =
     (let wrap = seq (modify (\<lambda>s. s\<lparr>console_pos := console_pos s - CONSOLE_HORIZONTAL_MAX\<rparr>)) (\<lambda>_.
                 modify (\<lambda>s. s\<lparr>vram := graphic_scroll_up (gpu s) (vram s) 30\<rparr>))
      in if c = 10 then
           seq (modify (\<lambda>s. s\<lparr>console_pos := console_pos s
                  + (CONSOLE_HORIZONTAL_MAX - console_pos s mod CONSOLE_HORIZONTAL_MAX)\<rparr>)) (\<lambda>_.
           seq (gets (\<lambda>s. console_pos s \<ge> CONSOLE_VERTICAL_MAX * CONSOLE_HORIZONTAL_MAX)) (\<lambda>full.
           if full then wrap else ret ()))
         else if c = BACKSPACE then
           modify (\<lambda>s. if console_pos s > 0 then s\<lparr>console_pos := console_pos s - 1\<rparr> else s)
         else
           seq (gets (\<lambda>s. console_pos s \<ge> CONSOLE_VERTICAL_MAX * CONSOLE_HORIZONTAL_MAX)) (\<lambda>full.
           seq (if full then wrap else ret ()) (\<lambda>_.
           seq (modify (\<lambda>s. s\<lparr>vram := font_render (gpu s) (font_bin s) (vram s)
                  (console_pos s mod CONSOLE_HORIZONTAL_MAX * FONT_WIDTH + 2)
                  (console_pos s div CONSOLE_HORIZONTAL_MAX * FONT_HEIGHT) c\<rparr>)) (\<lambda>_.
           modify (\<lambda>s. s\<lparr>console_pos := console_pos s + 1\<rparr>)))))"

definition COM1 :: u32 where "COM1 = 0x3F8"

text \<open>At most \<open>n\<close> rounds of the wait for the transmitter. The byte then goes out on the line, which is kept as \<open>uart_out\<close>.\<close>

fun uart_wait :: "nat \<Rightarrow> (unit, 'z kcons_scheme) km" where
  "uart_wait 0 = ret ()"
| "uart_wait (Suc n) =
     seq (inb (COM1 + 5)) (\<lambda>st.
     if st AND 0x20 = 0 then seq (microdelay 10) (\<lambda>_. uart_wait n) else ret ())"

definition uartputc :: "int \<Rightarrow> (unit, 'z kcons_scheme) km" where
  "uartputc c =
     seq (gets uart) (\<lambda>u.
     if u then
       seq (uart_wait 128) (\<lambda>_.
       modify (\<lambda>s. s\<lparr>uart_out := uart_out s @ [of_int c]\<rparr>))
     else ret ())"

lemma uart_wait_apply [simp]: "uart_wait n s = Ret () s"
  by (induction n) (simp_all add: seq_apply inb_def microdelay_def)

lemma uartputc_apply: "uartputc c s = Ret () (if uart s then s\<lparr>uart_out := uart_out s @ [of_int c]\<rparr> else s)"
  by (simp add: uartputc_def seq_apply)

text \<open>After a panic on another processor the call never returns.\<close>

definition consputc :: "int \<Rightarrow> (unit, 'z kcons_scheme) km" where
  "consputc c =
     seq (gets panicked) (\<lambda>p.
     if p then panic ''panicked''
     else
       seq (if c = BACKSPACE
            then seq (uartputc 8) (\<lambda>_. seq (uartputc 32) (\<lambda>_. uartputc 8))
            else uartputc c) (\<lambda>_.
       graphic_putc c))"

definition digits :: "u8 list" where
  "digits = [48, 49, 50, 51, 52, 53, 54, 55, 56, 57, 97, 98, 99, 100, 101, 102]"

text \<open>The \<open>do ... while\<close> loop: the digits of \<open>x\<close>, least significant first.\<close>

function digits_loop :: "u32 \<Rightarrow> u32 \<Rightarrow> u8 list" where
  "digits_loop x base = (digits ! unat (x mod base)) #
     (if base \<le> 1 \<or> x div base = 0 then [] else digits_loop (x div base) base)"
  by auto
termination
proof (relation "measure (\<lambda>(x, base). unat x)")
  fix x base :: u32
  assume a: "\<not> (base \<le> 1 \<or> x div base = 0)"
  then have "1 < unat base" "unat x div unat base \<noteq> 0"
    by (auto simp: word_le_nat_alt unat_div word_unat_eq_iff)
  then have "unat x div unat base < unat x" by (intro div_less_dividend) (auto intro: ccontr)
  then show "((x div base, base), (x, base)) \<in> measure (\<lambda>(x, base). unat x)"
    by (simp add: unat_div)
qed simp

declare digits_loop.simps [simp del]

text \<open>The contents of \<open>buf\<close>, in the order of its indices.\<close>

definition printint_buf :: "u32 \<Rightarrow> u32 \<Rightarrow> bool \<Rightarrow> u8 list" where
  "printint_buf xx base sign =
     (let neg = sign \<and> xx \<ge> 0x80000000;
          x = (if neg then - xx else xx)
      in digits_loop x base @ (if neg then [45] else []))"

definition printint :: "u32 \<Rightarrow> u32 \<Rightarrow> bool \<Rightarrow> (unit, 'z kcons_scheme) km" where
  "printint xx base sign = for_each (\<lambda>b. consputc (uint b)) (rev (printint_buf xx base sign))"

datatype carg = CInt u32 | CStr "u8 list option"   \<comment> \<open>\<open>None\<close> is the null pointer\<close>

definition bytes :: "string \<Rightarrow> u8 list" where
  "bytes s = map (\<lambda>c. of_nat (of_char c)) s"

text \<open>\<open>char\<close> is signed, and \<open>consputc(*s)\<close> extends the sign.\<close>

definition putstr :: "u8 list \<Rightarrow> (unit, 'z kcons_scheme) km" where
  "putstr s = for_each (\<lambda>b. consputc (sint b)) s"

text \<open>The loop over the format; an argument of the wrong kind or a missing one is undefined in C.\<close>

fun cprintf_loop :: "u8 list \<Rightarrow> carg list \<Rightarrow> (unit, 'z kcons_scheme) km" where
  "cprintf_loop [] args = ret ()"
| "cprintf_loop (c # fmt) args =
     (if c = 0 then ret ()
      else if c \<noteq> 37 then seq (consputc (uint c)) (\<lambda>_. cprintf_loop fmt args)
      else (case fmt of
          [] \<Rightarrow> ret ()
        | d # fmt' \<Rightarrow>
            if d = 0 then ret ()
            else if d = 100 then
              (case args of CInt x # as \<Rightarrow> seq (printint x 10 True) (\<lambda>_. cprintf_loop fmt' as)
                 | _ \<Rightarrow> panic ''undefined'')
            else if d = 120 \<or> d = 112 then
              (case args of CInt x # as \<Rightarrow> seq (printint x 16 False) (\<lambda>_. cprintf_loop fmt' as)
                 | _ \<Rightarrow> panic ''undefined'')
            else if d = 115 then
              (case args of
                 CStr (Some s) # as \<Rightarrow> seq (putstr s) (\<lambda>_. cprintf_loop fmt' as)
               | CStr None # as \<Rightarrow> seq (putstr (bytes ''(null)'')) (\<lambda>_. cprintf_loop fmt' as)
               | _ \<Rightarrow> panic ''undefined'')
            else if d = 37 then seq (consputc 37) (\<lambda>_. cprintf_loop fmt' args)
            else seq (consputc 37) (\<lambda>_. seq (consputc (uint d)) (\<lambda>_. cprintf_loop fmt' args))))"

definition cprintf_fmt :: "u8 list option \<Rightarrow> carg list \<Rightarrow> (unit, 'z kcons_scheme) km" where
  "cprintf_fmt fmt args =
     seq (gets cons_locking) (\<lambda>locking.
     seq (if locking then acquire LCons else ret ()) (\<lambda>_.
     case fmt of None \<Rightarrow> panic ''null fmt'' | Some f \<Rightarrow>
     seq (cprintf_loop f args) (\<lambda>_.
     if locking then release LCons else ret ())))"

abbreviation cprintf :: "string \<Rightarrow> carg list \<Rightarrow> (unit, 'z kcons_scheme) km" where
  "cprintf fmt args \<equiv> cprintf_fmt (Some (bytes fmt)) args"

text \<open>
  What \<open>panic\<close> does before it freezes, with the return addresses \<open>frames\<close> on its stack.
\<close>

definition panic_message :: "u8 list \<Rightarrow> u32 list \<Rightarrow> (unit, 'z kcons_scheme) km" where
  "panic_message s frames =
     seq (modify (cons_locking_update (\<lambda>_. False))) (\<lambda>_.
     seq lapicid (\<lambda>i.
     seq (cprintf ''lapicid %d: panic: '' [CInt i]) (\<lambda>_.
     seq (cprintf_fmt (Some s) []) (\<lambda>_.
     seq (cprintf_fmt (Some [10]) []) (\<lambda>_.
     seq (for_each (\<lambda>pc. cprintf '' %p'' [CInt pc]) frames) (\<lambda>_.
     modify (panicked_update (\<lambda>_. True))))))))"

definition uartinit :: "(unit, 'z kcons_scheme) km" where
  "uartinit =
     seq (outb (COM1 + 2) 0) (\<lambda>_.
     seq (outb (COM1 + 3) 0x80) (\<lambda>_.
     seq (outb (COM1 + 0) (of_nat (115200 div 9600))) (\<lambda>_.
     seq (outb (COM1 + 1) 0) (\<lambda>_.
     seq (outb (COM1 + 3) 0x03) (\<lambda>_.
     seq (outb (COM1 + 4) 0) (\<lambda>_.
     seq (outb (COM1 + 1) 0x01) (\<lambda>_.
     seq (inb (COM1 + 5)) (\<lambda>status.
     if status = 0xFF then ret ()
     else
       seq (modify (\<lambda>s. s\<lparr>uart := True\<rparr>)) (\<lambda>_.
       seq (inb (COM1 + 2)) (\<lambda>_.
       seq (inb (COM1 + 0)) (\<lambda>_.
       seq (ioapicenable IRQ_COM1 0) (\<lambda>_.
       for_each (\<lambda>c. uartputc (uint c)) (bytes ''xv6...'' @ [10])))))))))))))"

definition ioapicinit :: "(unit, 'z kcons_scheme) km" where
  "ioapicinit =
     seq (ioapicread REG_VER) (\<lambda>ver.
     seq (ioapicread REG_ID) (\<lambda>rid.
     seq (gets ioapicid) (\<lambda>known.
     seq (if drop_bit 24 rid \<noteq> ucast known
          then cprintf_fmt (Some (bytes ''ioapicinit: id isn'' @ [39] @ bytes ''t equal to ioapicid; not a MP'' @ [10])) []
          else ret ()) (\<lambda>_.
     for_each (\<lambda>i.
       seq (ioapicwrite (REG_TABLE + 2 * i) (INT_DISABLED OR (T_IRQ0 + of_nat i))) (\<lambda>_.
       ioapicwrite (REG_TABLE + 2 * i + 1) 0)) [0 ..< unat (drop_bit 16 ver AND 0xFF) + 1]))))"

section \<open>The process listing (proc.c)\<close>

fun state_name :: "procstate \<Rightarrow> string" where
  "state_name UNUSED = ''unused''"
| "state_name EMBRYO = ''embryo''"
| "state_name SLEEPING = ''sleep ''"
| "state_name RUNNABLE = ''runble''"
| "state_name RUNNING = ''run   ''"
| "state_name ZOMBIE = ''zombie''"

text \<open>\<open>context->ebp\<close> is the fourth word of the saved registers.\<close>

definition procdump_one :: "nat \<Rightarrow> (unit, 'z kcons_scheme) km" where
  "procdump_one i =
     seq (gets (\<lambda>s. ptable s i)) (\<lambda>p.
     if p_state p = UNUSED then ret ()
     else
       seq (cprintf ''%d %s %s'' [CInt (p_pid p), CStr (Some (bytes (state_name (p_state p)))),
              CStr (Some (p_name p))]) (\<lambda>_.
       seq (if p_state p = SLEEPING then
              seq (gets (\<lambda>s. getcallerpcs (mem s) (load32 (mem s) (p_context p + 12) + 8))) (\<lambda>frames.
              for_each (\<lambda>pc. cprintf '' %p'' [CInt pc]) (takeWhile (\<lambda>pc. pc \<noteq> 0) frames))
            else ret ()) (\<lambda>_.
       cprintf_fmt (Some [10]) [])))"

definition procdump :: "(unit, 'z kcons_scheme) km" where
  "procdump = for_each procdump_one [0 ..< NPROC]"

section \<open>Input\<close>

text \<open>\<open>while(input.e != input.w && input.buf[(input.e-1) % INPUT_BUF] != '\n')\<close>: at most \<open>e - w\<close> rounds.\<close>

fun kill_line :: "nat \<Rightarrow> (unit, 'z kcons_scheme) km" where
  "kill_line 0 = ret ()"
| "kill_line (Suc n) =
     seq (gets (\<lambda>s. in_e s \<noteq> in_w s \<and> in_buf s (unat ((in_e s - 1) mod INPUT_BUF)) \<noteq> 10)) (\<lambda>more.
     if more then
       seq (modify (\<lambda>s. s\<lparr>in_e := in_e s - 1\<rparr>)) (\<lambda>_.
       seq (consputc BACKSPACE) (\<lambda>_.
       kill_line n))
     else ret ())"

text \<open>One character of \<open>consoleintr\<close>; the result says whether a process listing was asked for.\<close>

definition consoleintr_char :: "int \<Rightarrow> (bool, 'z kcons_scheme) km" where
  "consoleintr_char c =
     (if c = 16 then ret True
      else if c = 21 then
        seq (gets (\<lambda>s. unat (in_e s - in_w s))) (\<lambda>n.
        seq (kill_line n) (\<lambda>_. ret False))
      else if c = 8 \<or> c = 127 then
        seq (gets (\<lambda>s. in_e s \<noteq> in_w s)) (\<lambda>more.
        seq (if more then seq (modify (\<lambda>s. s\<lparr>in_e := in_e s - 1\<rparr>)) (\<lambda>_. consputc BACKSPACE)
             else ret ()) (\<lambda>_.
        ret False))
      else
        seq (gets (\<lambda>s. c \<noteq> 0 \<and> in_e s - in_r s < INPUT_BUF)) (\<lambda>room.
        if room then
          (let c = (if c = 13 then 10 else c) in
           seq (modify (\<lambda>s. s\<lparr>in_buf := (in_buf s)(unat (in_e s mod INPUT_BUF) := of_int c),
                              in_e := in_e s + 1\<rparr>)) (\<lambda>_.
           seq (consputc c) (\<lambda>_.
           seq (gets (\<lambda>s. c = 10 \<or> c = 4 \<or> in_e s = in_r s + INPUT_BUF)) (\<lambda>fin.
           seq (if fin then seq (modify (\<lambda>s. s\<lparr>in_w := in_e s\<rparr>)) (\<lambda>_. wakeup ChInput) else ret ()) (\<lambda>_.
           ret False)))))
        else ret False))"

fun consoleintr_loop :: "int list \<Rightarrow> bool \<Rightarrow> (bool, 'z kcons_scheme) km" where
  "consoleintr_loop [] dump = ret dump"
| "consoleintr_loop (c # cs) dump =
     (if c < 0 then ret dump
      else seq (consoleintr_char c) (\<lambda>d. consoleintr_loop cs (dump \<or> d)))"

definition consoleintr :: "int list \<Rightarrow> (unit, 'z kcons_scheme) km" where
  "consoleintr cs =
     seq (acquire LCons) (\<lambda>_.
     seq (consoleintr_loop cs False) (\<lambda>doprocdump.
     seq (release LCons) (\<lambda>_.
     if doprocdump then procdump else ret ())))"

section \<open>The screen\<close>

text \<open>
  The mode the loader sets: at least 797 pixels on a line and 600 lines in the frame buffer, whose
  size is a 32-bit number.
\<close>

definition gpu_ok :: "gpu \<Rightarrow> bool" where
  "gpu_ok g \<longleftrightarrow> 797 \<le> unat (pixels_per_line g)
     \<and> 4 * (unat (pixels_per_line g) * 600) \<le> unat (vram_size g)"

definition in_frame :: "gpu \<Rightarrow> u32 \<Rightarrow> bool" where
  "in_frame g a \<longleftrightarrow> a - vvram_addr g < vram_size g"

definition pos_ok :: "int \<Rightarrow> bool" where
  "pos_ok p \<longleftrightarrow> 0 \<le> p \<and> p \<le> CONSOLE_VERTICAL_MAX * CONSOLE_HORIZONTAL_MAX"

lemmas console_defs = CONSOLE_VERTICAL_MAX_def CONSOLE_HORIZONTAL_MAX_def FONT_WIDTH_def
  FONT_HEIGHT_def BACKSPACE_def

lemma copy_up_frame: "k \<le> 2 ^ 32 \<Longrightarrow> k \<le> unat (a - d) \<Longrightarrow> copy_up m d s k a = m a"
proof (induction k arbitrary: m d s)
  case (Suc k)
  then have "a \<noteq> d" by auto
  then have "unat (a - d) = Suc (unat (a - (d + 1)))" by (rule unat_diff_Suc)
  with Suc \<open>a \<noteq> d\<close> show ?case by simp
qed simp

lemma copy_down_frame:
  "k \<le> 2 ^ 32 \<Longrightarrow> k \<le> unat (a - d) \<Longrightarrow> copy_down m (d + of_nat k) (s + of_nat k) k a = m a"
proof (induction k arbitrary: m)
  case (Suc k)
  have "unat (of_nat k :: u32) = k" using Suc.prems(1) by (simp add: unat_of_nat)
  then have "a \<noteq> d + of_nat k" using Suc.prems(2) by auto
  with Suc show ?case by simp
qed simp

lemma memmove_frame: "n \<le> a - d \<Longrightarrow> memmove m d s n a = m a"
proof -
  assume "n \<le> a - d"
  then have n: "unat n \<le> unat (a - d)" by (simp add: word_le_nat_alt)
  have b: "unat n \<le> 2 ^ 32" using u32_bound [of n] by simp
  from copy_up_frame [OF b n] copy_down_frame [OF b n]
  show ?thesis by (simp add: memmove_def)
qed

lemma draw_pixel_frame:
  assumes "gpu_ok g" "0 \<le> x" "x < 797" "0 \<le> y" "y < 600" "\<not> in_frame g a"
  shows "graphic_draw_pixel g v x y p a = v a"
proof -
  define k where "k = nat y * unat (pixels_per_line g) + nat x"
  have "nat y * unat (pixels_per_line g) \<le> 599 * unat (pixels_per_line g)"
    using assms by (intro mult_le_mono1) auto
  then have "k + 1 \<le> unat (pixels_per_line g) * 600"
    using assms(1,3) unfolding k_def gpu_ok_def by linarith
  then have k: "4 * k + 3 < unat (vram_size g)" using assms(1) by (simp add: gpu_ok_def)
  then have k32: "4 * k + 3 < 4294967296" using u32_bound [of "vram_size g"] by linarith
  have addr: "vvram_addr g + 4 * (of_int y * pixels_per_line g + of_int x)
      = vvram_addr g + of_nat (4 * k)"
    using assms(2,4) by (simp add: k_def)
  have far: "a \<noteq> vvram_addr g + of_nat (4 * k + i)" if "i < 3" for i
  proof
    assume "a = vvram_addr g + of_nat (4 * k + i)"
    then have "unat (a - vvram_addr g) = 4 * k + i"
      using k32 that by (simp add: unat_of_nat del: of_nat_add of_nat_mult)
    with assms(6) k that show False by (simp add: in_frame_def word_less_nat_alt)
  qed
  from far [of 0] far [of 1] far [of 2] show ?thesis
    unfolding graphic_draw_pixel_def addr Let_def by (simp add: algebra_simps)
qed

lemma fold_frame:
  assumes "\<And>x v. x \<in> set xs \<Longrightarrow> f x v a = v a"
  shows "fold f xs v a = v a"
  using assms by (induction xs arbitrary: v) auto

lemma font_render_frame:
  assumes "gpu_ok g" "0 \<le> x" "x + 15 \<le> 797" "0 \<le> y" "y + 30 \<le> 600" "\<not> in_frame g a"
  shows "font_render g font v x y c a = v a"
  unfolding font_render_def font_dot_def Let_def
  by (rule fold_frame, rule fold_frame, rule draw_pixel_frame) (use assms in auto)

lemma scroll_up_frame:
  assumes "gpu_ok g" "\<not> in_frame g a"
  shows "graphic_scroll_up g v 30 a = v a"
proof -
  define d where "d = 4 * pixels_per_line g * 30"
  define o' where "o' = a - vvram_addr g"
  have "unat d = 4 * (unat (pixels_per_line g) * 30)"
  proof -
    have "4 * (unat (pixels_per_line g) * 30) < 4294967296"
      using assms(1) u32_bound [of "vram_size g"] unfolding gpu_ok_def by linarith
    then have "unat (of_nat (4 * (unat (pixels_per_line g) * 30)) :: u32) = 4 * (unat (pixels_per_line g) * 30)"
      by (simp add: unat_of_nat del: of_nat_mult)
    then show ?thesis by (simp add: d_def mult.assoc)
  qed
  then have d: "d \<le> vram_size g"
    using assms(1) by (simp add: gpu_ok_def word_le_nat_alt)
  have oo: "vram_size g \<le> o'" using assms(2) by (simp add: in_frame_def o'_def)
  have 1: "vram_size g - d \<le> a - vvram_addr g"
    using d oo unfolding o'_def by (meson order_trans word_sub_le)
  have e: "a - (vvram_addr g + vram_size g - d) = o' - (vram_size g - d)" by (simp add: o'_def)
  have "unat (o' - (vram_size g - d)) = unat o' - (unat (vram_size g) - unat d)"
    using d 1 by (simp add: unat_sub o'_def word_le_nat_alt)
  then have 2: "\<not> a - (vvram_addr g + vram_size g - d) < d"
    using d oo unfolding e word_less_nat_alt word_le_nat_alt by linarith
  show ?thesis
    unfolding graphic_scroll_up_def Let_def d_def [symmetric]
    using 2 by (simp add: memset_stosb stosb_apply word_less_nat_alt memmove_frame [OF 1])
qed

text \<open>What an output changes: the cursor, the frame buffer and the serial line.\<close>

definition output_step :: "'z kcons_scheme \<Rightarrow> 'z kcons_scheme \<Rightarrow> bool" where
  "output_step s t \<longleftrightarrow> (\<exists>p v u. t = s\<lparr>console_pos := p, vram := v, uart_out := u\<rparr>)"

lemma output_step_refl [simp]: "output_step s s"
  unfolding output_step_def
  by (rule exI [of _ "console_pos s"], rule exI [of _ "vram s"], rule exI [of _ "uart_out s"]) simp

lemma output_step_trans: "output_step s t \<Longrightarrow> output_step t u \<Longrightarrow> output_step s u"
  unfolding output_step_def by (elim exE) (intro exI, simp)

lemma output_stepI [simp]:
  "output_step s (s\<lparr>console_pos := p, vram := v\<rparr>)"
  "output_step s (s\<lparr>vram := v, console_pos := p\<rparr>)"
  "output_step s (s\<lparr>console_pos := p\<rparr>)"
  "output_step s (s\<lparr>uart_out := u\<rparr>)"
  unfolding output_step_def
  by (rule exI [of _ p], rule exI [of _ v], rule exI [of _ "uart_out s"], simp,
      rule exI [of _ p], rule exI [of _ v], rule exI [of _ "uart_out s"], cases s, simp,
      rule exI [of _ p], rule exI [of _ "vram s"], rule exI [of _ "uart_out s"], simp,
      rule exI [of _ "console_pos s"], rule exI [of _ "vram s"], rule exI [of _ u], simp)

lemma output_step_fields:
  assumes "output_step s t"
  shows "held t = held s" "ptable t = ptable s" "panicked t = panicked s" "gpu t = gpu s"
    "cons_locking t = cons_locking s" "in_buf t = in_buf s" "in_r t = in_r s" "in_w t = in_w s"
    "in_e t = in_e s" "curproc t = curproc s"
  using assms by (auto simp: output_step_def)

definition keeps_outside :: "'z kcons_scheme \<Rightarrow> 'z kcons_scheme \<Rightarrow> bool" where
  "keeps_outside s t \<longleftrightarrow> (\<forall>a. in_frame (gpu s) a \<or> vram t a = vram s a)"

lemma graphic_putc_steps: "returns (graphic_putc c s) (\<lambda>_ t. output_step s t)"
  by (auto simp: graphic_putc_def Let_def kmonad_simps)

lemma cell_bounds:
  assumes "0 \<le> p" "p < CONSOLE_VERTICAL_MAX * CONSOLE_HORIZONTAL_MAX"
  shows "0 \<le> p mod CONSOLE_HORIZONTAL_MAX * FONT_WIDTH + 2"
    "p mod CONSOLE_HORIZONTAL_MAX * FONT_WIDTH + 2 + 15 \<le> 797"
    "0 \<le> p div CONSOLE_HORIZONTAL_MAX * FONT_HEIGHT"
    "p div CONSOLE_HORIZONTAL_MAX * FONT_HEIGHT + 30 \<le> 600"
  using assms pos_mod_bound [of 53 p] pos_mod_sign [of 53 p]
  by (auto simp: console_defs)

lemma graphic_putc_screen:
  assumes "gpu_ok (gpu s)" "pos_ok (console_pos s)"
  shows "returns (graphic_putc c s) (\<lambda>_ t. pos_ok (console_pos t) \<and> keeps_outside s t)"
proof -
  consider (nl) "c = 10" | (bs) "c = BACKSPACE" | (ch) "c \<noteq> 10" "c \<noteq> BACKSPACE" by blast
  then show ?thesis
  proof cases
    case nl
    obtain q where q: "console_pos s mod 53 = q" "0 \<le> q" "q < 53" by simp
    have sc: "\<forall>a. in_frame (gpu s) a \<or> graphic_scroll_up (gpu s) (vram s) 30 a = vram s a"
      using scroll_up_frame [OF assms(1)] by blast
    show ?thesis
      using assms q sc
      by (auto simp: nl graphic_putc_def kmonad_simps pos_ok_def keeps_outside_def console_defs)
  next
    case bs
    then show ?thesis
      using assms by (simp add: graphic_putc_def pos_ok_def keeps_outside_def console_defs)
  next
    case ch
    show ?thesis
    proof (cases "console_pos s \<ge> CONSOLE_VERTICAL_MAX * CONSOLE_HORIZONTAL_MAX")
      case True
      then have p: "0 \<le> console_pos s - CONSOLE_HORIZONTAL_MAX"
        "console_pos s - CONSOLE_HORIZONTAL_MAX < CONSOLE_VERTICAL_MAX * CONSOLE_HORIZONTAL_MAX"
        using assms(2) by (simp_all add: pos_ok_def console_defs)
      show ?thesis
        using True p ch assms font_render_frame [OF assms(1) cell_bounds [OF p]]
        by (simp add: graphic_putc_def kmonad_simps pos_ok_def keeps_outside_def
            scroll_up_frame [OF assms(1)] cong: disj_cong)
    next
      case False
      then have p: "0 \<le> console_pos s"
        "console_pos s < CONSOLE_VERTICAL_MAX * CONSOLE_HORIZONTAL_MAX"
        using assms(2) by (simp_all add: pos_ok_def)
      show ?thesis
        using False p ch assms font_render_frame [OF assms(1) cell_bounds [OF p]]
        by (simp add: graphic_putc_def kmonad_simps pos_ok_def keeps_outside_def cong: disj_cong)
    qed
  qed
qed

lemma uart_first:
  "(if c = BACKSPACE then seq (uartputc 8) (\<lambda>_. seq (uartputc 32) (\<lambda>_. uartputc 8)) else uartputc c) s
   = Ret () (s\<lparr>uart_out := uart_out s @ (if uart s then
       (if c = BACKSPACE then [8, 32, 8] else [of_int c]) else [])\<rparr>)"
  by (simp add: uartputc_apply kmonad_simps)

lemma consputc_ok:
  assumes "\<not> panicked s"
  shows "returns (consputc c s) (\<lambda>_ t. output_step s t)"
proof -
  let ?t = "s\<lparr>uart_out := uart_out s @ (if uart s then
       (if c = BACKSPACE then [8, 32, 8] else [of_int c]) else [])\<rparr>"
  have "consputc c s = graphic_putc c ?t"
    using assms by (simp add: consputc_def uart_first)
  moreover have "output_step s ?t" by simp
  ultimately show ?thesis
    using graphic_putc_steps [of c ?t] by (metis (no_types, lifting) output_step_trans returns_mono)
qed

text \<open>
  C39. Every character sent to the console (\<open>consputc\<close>: new line, backspace or glyph, with the
  scrolling they cause) keeps the cursor on the 53 by 20 grid of cells (or just behind it) and writes to no
  byte outside the frame buffer, provided a line of the screen has at least 797 pixels and the frame buffer holds 600
  lines. The serial line gets the character, or backspace, space, backspace.
\<close>

theorem consputc_on_screen:
  assumes "gpu_ok (gpu s)" "pos_ok (console_pos s)" "\<not> panicked s"
  shows "returns (consputc c s) (\<lambda>_ t. pos_ok (console_pos t)
    \<and> (\<forall>a. in_frame (gpu s) a \<or> vram t a = vram s a)
    \<and> uart_out t = uart_out s @ (if uart s then
        (if c = BACKSPACE then [8, 32, 8] else [of_int c]) else []))"
proof -
  let ?t = "s\<lparr>uart_out := uart_out s @ (if uart s then
       (if c = BACKSPACE then [8, 32, 8] else [of_int c]) else [])\<rparr>"
  have u: "returns (graphic_putc c ?t) (\<lambda>_ t. uart_out t = uart_out ?t)"
    by (simp add: graphic_putc_def Let_def kmonad_simps)
  show ?thesis
    using assms(3) returns_conj [THEN iffD2, OF conjI, OF graphic_putc_screen [of ?t c] u] assms(1,2)
    by (simp add: consputc_def uart_first keeps_outside_def conj_assoc)
qed

text \<open>A console in the state the loader leaves: an 800 by 600 screen and an empty input ring.\<close>

definition demo_cons :: kcons where
  "demo_cons = kapic.extend (klog.extend (empty_log (\<lambda>_. []))
       (kapic.fields 0xFEE00000 (\<lambda>_. 0) (\<lambda>_. 0) 0 1 (\<lambda>_. 0) (\<lambda>_. 0) (\<lambda>_. 0) []))
     \<lparr>panicked = False, cons_locking = False, console_pos = 1060,
      gpu = \<lparr>pvram_addr = 0x80000000, vvram_addr = 0xFDE28000, vram_size = 0x1D8000, horizontal_resolution = 800,
             vertical_resolution = 600, pixels_per_line = 800\<rparr>,
      vram = (\<lambda>_. 0), font_bin = (\<lambda>_ _. 0), uart = True, uart_out = [],
      in_buf = (\<lambda>_. 0), in_r = 0, in_w = 0, in_e = 0, devsw_console = False\<rparr>"

theorem consputc_on_screen_witness:
  "returns (consputc 65 demo_cons) (\<lambda>_ t. pos_ok (console_pos t) \<and> uart_out t = [65])"
proof -
  have "returns (consputc 65 demo_cons) (\<lambda>_ t. pos_ok (console_pos t)
    \<and> (\<forall>a. in_frame (gpu demo_cons) a \<or> vram t a = vram demo_cons a)
    \<and> uart_out t = uart_out demo_cons @ (if uart demo_cons then
        (if (65::int) = BACKSPACE then [8, 32, 8] else [of_int 65]) else []))"
    by (rule consputc_on_screen)
      (simp_all add: demo_cons_def klog.defs kapic.defs gpu_ok_def pos_ok_def console_defs)
  then show ?thesis
    by (rule returns_mono) (simp add: demo_cons_def klog.defs kapic.defs console_defs)
qed

section \<open>Printing numbers\<close>

definition digit_val :: "u8 \<Rightarrow> nat" where
  "digit_val d = (if d \<ge> 97 then unat d - 87 else unat d - 48)"

fun digits_val :: "nat \<Rightarrow> u8 list \<Rightarrow> nat" where
  "digits_val b [] = 0"
| "digits_val b (d # ds) = digit_val d + b * digits_val b ds"

text \<open>The number a printed text stands for.\<close>

definition number_val :: "nat \<Rightarrow> u8 list \<Rightarrow> int" where
  "number_val b ds = (if ds \<noteq> [] \<and> hd ds = 45 then - int (digits_val b (rev (tl ds)))
     else int (digits_val b (rev ds)))"

lemma digit_val_digits: "n < 16 \<Longrightarrow> digit_val (digits ! n) = n \<and> digits ! n \<noteq> 45"
proof -
  assume "n < 16"
  then have "n \<in> set [0 ..< 16]" by simp
  moreover have "\<forall>n \<in> set [0 ..< 16]. digit_val (digits ! n) = n \<and> digits ! n \<noteq> 45"
    by code_simp
  ultimately show ?thesis by blast
qed

lemma digits_loop_val:
  assumes "1 < unat base" "unat base \<le> 16"
  shows "digits_val (unat base) (digits_loop x base) = unat x \<and> 45 \<notin> set (digits_loop x base)"
  using assms
proof (induction x base rule: digits_loop.induct)
  case (1 x base)
  have b: "\<not> base \<le> 1" using "1.prems" by (simp add: word_le_nat_alt)
  have "unat (x mod base) < 16"
    using "1.prems" mod_less_divisor [of "unat base" "unat x"] unfolding unat_mod by linarith
  note d = digit_val_digits [OF this]
  show ?case
  proof (cases "x div base = 0")
    case True
    then have "unat x div unat base = 0" by (metis unat_div unat_0)
    then have "unat x mod unat base = unat x" by (metis mod_less div_eq_0_iff "1.prems"(1) not_less0)
    with True d show ?thesis by (subst (1 2) digits_loop.simps) (simp add: unat_mod)
  next
    case False
    have "digits_val (unat base) (digits_loop (x div base) base) = unat (x div base)
        \<and> 45 \<notin> set (digits_loop (x div base) base)"
      by (rule "1.IH") (use False b "1.prems" in auto)
    with False b d show ?thesis
      by (subst (1 2) digits_loop.simps) (simp add: unat_mod unat_div)
  qed
qed

lemma digits_loop_nonempty [simp]: "digits_loop x base \<noteq> []"
  by (subst digits_loop.simps) simp

lemma digits_loop_length:
  assumes "10 \<le> unat base" "unat x < 10 ^ Suc k"
  shows "length (digits_loop x base) \<le> Suc k"
  using assms(2)
proof (induction k arbitrary: x)
  case 0
  then have "unat x div unat base = 0" using assms(1) by simp
  then have "x div base = 0" by (simp add: word_unat_eq_iff unat_div)
  then show ?case by (subst digits_loop.simps) simp
next
  case (Suc k)
  have "unat x div unat base \<le> unat x div 10" using assms(1) by (simp add: div_le_mono2)
  also have "\<dots> < 10 ^ Suc k" using Suc.prems by (simp add: less_mult_imp_div_less mult.commute)
  finally have "length (digits_loop (x div base) base) \<le> Suc k"
    by (intro Suc.IH) (simp add: unat_div)
  then show ?case by (subst digits_loop.simps) simp
qed

lemma sint_u32: "sint (x :: u32) = (if x \<ge> 0x80000000 then int (unat x) - 2 ^ 32 else int (unat x))"
proof -
  have "sint x = signed_take_bit 31 (uint x)" by (simp add: sint_uint)
  moreover have tb: "take_bit 32 (uint x) = uint x"
    by (rule take_bit_int_eq_self) (use uint_lt2p [of x] in simp_all)
  moreover have "bit (uint x) 31 \<longleftrightarrow> x \<ge> 0x80000000"
  proof -
    have "unat x div 2147483648 = (if 2147483648 \<le> unat x then 1 else 0)"
      using u32_bound [of x] by (auto intro: div_nat_eqI)
    moreover have "bit (uint x) 31 \<longleftrightarrow> odd (unat x div 2147483648)"
      using bit_of_nat_iff_bit [where 'a = int, of "unat x" 31]
      by (simp add: bit_iff_odd [of "unat x" 31])
    ultimately show ?thesis by (simp add: word_le_nat_alt)
  qed
  ultimately show ?thesis
    using tb by (simp add: signed_take_bit_eq_take_bit_minus)
qed

text \<open>
  \<open>printint\<close> fills at most 11 of the 16 bytes of its buffer, and the text it prints, in base 10 or 16, reads
  back as the number: the signed value when \<open>sign\<close> is set, the unsigned one otherwise,
  \<open>-2147483648\<close> included, whose negation overflows.
\<close>

theorem printint_reads_back:
  assumes "base = 10 \<or> base = 16"
  shows "length (printint_buf xx base sign) \<le> 11
    \<and> number_val (unat base) (rev (printint_buf xx base sign)) = (if sign then sint xx else uint xx)"
proof -
  have b: "10 \<le> unat base" "1 < unat base" "unat base \<le> 16" using assms by auto
  have len: "length (digits_loop x base) \<le> 10" for x
    using digits_loop_length [OF b(1), of x 9] u32_bound [of x] by simp
  note v = digits_loop_val [OF b(2,3)]
  have nm: "hd (rev (digits_loop x base)) \<noteq> 45" for x
    using v [of x] by (metis digits_loop_nonempty hd_in_set rev_is_Nil_conv set_rev)
  show ?thesis
  proof (cases "sign \<and> xx \<ge> 0x80000000")
    case True
    have "unat (- xx) = 2 ^ 32 - unat xx"
      using True unat_sub_if' [of 0 xx] by (simp add: word_le_nat_alt split: if_splits)
    moreover have "sint xx = int (unat xx) - 2 ^ 32"
      using True by (simp add: sint_u32)
    ultimately show ?thesis
      using True len [of "- xx"] v [of "- xx"]
      by (simp add: printint_buf_def Let_def number_val_def of_nat_diff order_less_imp_le [OF u32_bound])
  next
    case False
    then show ?thesis
      using len [of xx] v [of xx] nm [of xx]
      by (auto simp: printint_buf_def Let_def number_val_def sint_u32)
  qed
qed

theorem printint_reads_back_witness:
  "number_val 10 (rev (printint_buf 0x80000000 10 True)) = - 2147483648"
  using printint_reads_back [of 10 "0x80000000" True] by (simp add: sint_u32)

section \<open>The input ring\<close>

definition committed :: "'z kcons_scheme \<Rightarrow> u8 list" where
  "committed s = ring_seg 128 (in_buf s) (unat (in_r s)) (unat (in_w s - in_r s))"

definition editing :: "'z kcons_scheme \<Rightarrow> u8 list" where
  "editing s = ring_seg 128 (in_buf s) (unat (in_w s)) (unat (in_e s - in_w s))"

definition ring_ok :: "'z kcons_scheme \<Rightarrow> bool" where
  "ring_ok s \<longleftrightarrow> unat (in_w s - in_r s) + unat (in_e s - in_w s) \<le> 128 \<and> 10 \<notin> set (editing s)"

lemma ring_lengths:
  "unat (in_w s - in_r s) = length (committed s)" "unat (in_e s - in_w s) = length (editing s)"
  by (simp_all add: committed_def editing_def ring_seg_def)

text \<open>The contract: a queue of committed bytes and the line being edited.\<close>

fun line_step :: "int \<Rightarrow> u8 list \<times> u8 list \<Rightarrow> u8 list \<times> u8 list" where
  "line_step c (q, l) =
     (if c = 16 then (q, l)
      else if c = 21 then (q, [])
      else if c = 8 \<or> c = 127 then (q, butlast l)
      else if c = 0 \<or> length q + length l \<ge> 128 then (q, l)
      else let b = (if c = 13 then 10 else of_int c); l' = l @ [b]
           in if b = 10 \<or> b = 4 \<or> length q + length l' = 128 then (q @ l', []) else (q, l'))"

lemma unat_add_mod128: "unat (x + y :: u32) mod 128 = (unat x + unat y) mod 128"
  by (rule unat_add_mod) simp

lemma unat_mod_INPUT_BUF: "unat (x mod INPUT_BUF) = unat x mod 128"
  by (simp add: INPUT_BUF_def unat_mod)

lemma ring_count:
  assumes "ring_ok s"
  shows "unat (in_e s - in_r s) = unat (in_w s - in_r s) + unat (in_e s - in_w s)"
proof -
  have "in_e s - in_r s = (in_w s - in_r s) + (in_e s - in_w s)" by simp
  then show ?thesis using assms unfolding ring_ok_def
    by (simp only: unat_word_ariths) simp
qed

lemma ring_next:
  assumes "ring_ok s"
  shows "unat (in_e s mod INPUT_BUF) = (unat (in_r s) + (unat (in_w s - in_r s) + unat (in_e s - in_w s))) mod 128"
    "unat (in_e s mod INPUT_BUF) = (unat (in_w s) + unat (in_e s - in_w s)) mod 128"
proof -
  have "in_e s = in_w s + (in_e s - in_w s)" "in_e s = in_r s + (in_e s - in_r s)"
    by simp_all
  then show "unat (in_e s mod INPUT_BUF) = (unat (in_r s) + (unat (in_w s - in_r s) + unat (in_e s - in_w s))) mod 128"
    "unat (in_e s mod INPUT_BUF) = (unat (in_w s) + unat (in_e s - in_w s)) mod 128"
    by (metis unat_mod_INPUT_BUF unat_add_mod128 ring_count [OF assms])+
qed

lemma editing_last:
  assumes "in_e s \<noteq> in_w s"
  shows "unat (in_e s - 1 - in_w s) = unat (in_e s - in_w s) - 1"
    "editing s = editing (s\<lparr>in_e := in_e s - 1\<rparr>) @ [in_buf s (unat ((in_e s - 1) mod INPUT_BUF))]"
proof -
  have nz: "in_e s - in_w s \<noteq> 0" using assms by simp
  then have n: "unat (in_e s - in_w s) = Suc (unat (in_e s - in_w s - 1))"
    by (metis Suc_pred' unat_minus_one unat_gt_0)
  then show 1: "unat (in_e s - 1 - in_w s) = unat (in_e s - in_w s) - 1"
    by (simp add: algebra_simps)
  have "in_e s - 1 = in_w s + (in_e s - in_w s - 1)" by simp
  then have "unat ((in_e s - 1) mod INPUT_BUF) = (unat (in_w s) + unat (in_e s - in_w s - 1)) mod 128"
    by (metis unat_mod_INPUT_BUF unat_add_mod128)
  then show "editing s = editing (s\<lparr>in_e := in_e s - 1\<rparr>) @ [in_buf s (unat ((in_e s - 1) mod INPUT_BUF))]"
    using 1 n by (simp add: editing_def ring_seg_Suc)
qed

lemma editing_nil: "editing s = [] \<longleftrightarrow> in_e s = in_w s"
  by (metis editing_def length_0_conv ring_seg_length right_minus_eq unat_eq_zero)

lemma committed_in_e [simp]: "committed (s\<lparr>in_e := e\<rparr>) = committed s"
  by (simp add: committed_def)

lemma output_ring [simp]:
  assumes "output_step s t"
  shows "committed t = committed s" "editing t = editing s" "ring_ok t = ring_ok s"
  using output_step_fields [OF assms] by (simp_all add: committed_def editing_def ring_ok_def)

text \<open>What handling a character may change: the output, the ring, and processes that wait for input.\<close>

definition intr_step :: "'z kcons_scheme \<Rightarrow> 'z kcons_scheme \<Rightarrow> bool" where
  "intr_step s t \<longleftrightarrow> panicked t = panicked s \<and> held t = held s \<and> cons_locking t = cons_locking s
     \<and> in_r t = in_r s \<and> curproc t = curproc s"

lemma intr_step_output: "output_step s t \<Longrightarrow> intr_step s t"
  by (simp add: intr_step_def output_step_fields)

lemma erase_one:
  assumes "\<not> panicked s" "ring_ok s" "in_e s \<noteq> in_w s"
  shows "returns (consputc BACKSPACE (s\<lparr>in_e := in_e s - 1\<rparr>)) (\<lambda>_ t. ring_ok t
    \<and> committed t = committed s \<and> editing t = butlast (editing s) \<and> intr_step s t
    \<and> unat (in_e t - in_w t) = unat (in_e s - in_w s) - 1)"
proof -
  let ?s = "s\<lparr>in_e := in_e s - 1\<rparr>"
  have e: "editing ?s = butlast (editing s)" using editing_last(2) [OF assms(3)] by simp
  have "ring_ok ?s"
    using assms(2) editing_last [OF assms(3)] unfolding ring_ok_def by auto
  moreover have "returns (consputc BACKSPACE ?s) (\<lambda>_ t. output_step ?s t)"
    using assms(1) by (simp add: consputc_ok)
  ultimately show ?thesis
    using e editing_last(1) [OF assms(3)]
    by (elim returns_mono) (simp add: output_step_fields intr_step_def)
qed

lemma kill_line_ok:
  assumes "\<not> panicked s" "ring_ok s" "n = unat (in_e s - in_w s)"
  shows "returns (kill_line n s) (\<lambda>_ t. ring_ok t \<and> committed t = committed s \<and> editing t = []
    \<and> intr_step s t)"
  using assms
proof (induction n arbitrary: s)
  case 0
  then show ?case by (simp add: editing_def intr_step_def)
next
  case (Suc n)
  then have ne: "in_e s \<noteq> in_w s" by auto
  have nn: "in_buf s (unat ((in_e s - 1) mod INPUT_BUF)) \<noteq> 10"
    using Suc.prems(2) editing_last(2) [OF ne] unfolding ring_ok_def by auto
  obtain t where t: "consputc BACKSPACE (s\<lparr>in_e := in_e s - 1\<rparr>) = Ret () t" "ring_ok t"
    "committed t = committed s" "intr_step s t" "unat (in_e t - in_w t) = unat (in_e s - in_w s) - 1"
    using erase_one [OF Suc.prems(1,2) ne] by (elim returns_unitE conjE) (rule that)
  have "returns (kill_line n t) (\<lambda>_ u. ring_ok u \<and> committed u = committed t \<and> editing u = []
      \<and> intr_step t u)"
    by (rule Suc.IH) (use t Suc.prems in \<open>simp_all add: intr_step_def\<close>)
  then show ?case
    using ne nn t by (simp add: kmonad_simps intr_step_def)
qed

lemma append_char:
  assumes "ring_ok s" "in_e s - in_r s < INPUT_BUF" and c: "0 < c" "c < 256" "c \<noteq> 13"
  defines "t \<equiv> s\<lparr>in_buf := (in_buf s)(unat (in_e s mod INPUT_BUF) := of_int c), in_e := in_e s + 1\<rparr>"
  shows "committed t = committed s" "editing t = editing s @ [of_int c]"
    "in_e t = in_r t + INPUT_BUF \<longleftrightarrow> length (committed s) + length (editing t) = 128"
    "unat (in_w t - in_r t) + unat (in_e t - in_w t) \<le> 128"
    "committed (t\<lparr>in_w := in_e t\<rparr>) = committed s @ editing t"
    "editing (t\<lparr>in_w := in_e t\<rparr>) = []"
proof -
  let ?a = "unat (in_w s - in_r s)" and ?b = "unat (in_e s - in_w s)"
  note n = ring_count [OF assms(1)]
  have lt: "?a + ?b < 128" using assms(2) n by (simp add: word_less_nat_alt INPUT_BUF_def)
  note nx = ring_next [OF assms(1)]
  have e1: "unat (in_e s + 1 - in_w s) = Suc ?b"
    using lt unat_add_nat [of "in_e s - in_w s" 1] by (simp add: algebra_simps)
  have e2: "unat (in_e s + 1 - in_r s) = Suc (?a + ?b)"
    using lt n unat_add_nat [of "in_e s - in_r s" 1] by (simp add: algebra_simps)
  show c: "committed t = committed s"
    using lt ring_seg_upd [of ?a "?a + ?b" 128 "in_buf s" "unat (in_r s)"]
    by (simp add: t_def committed_def nx(1))
  show ed: "editing t = editing s @ [of_int c]"
    using lt ring_seg_upd [of ?b ?b 128 "in_buf s" "unat (in_w s)"]
    by (simp add: t_def editing_def nx(2) e1 ring_seg_Suc)
  have "in_e t = in_r t + INPUT_BUF \<longleftrightarrow> in_e s + 1 - in_r s = INPUT_BUF"
    by (simp add: t_def diff_eq_eq add.commute)
  also have "\<dots> \<longleftrightarrow> Suc (?a + ?b) = 128"
    by (simp add: word_unat_eq_iff e2 INPUT_BUF_def)
  finally show "in_e t = in_r t + INPUT_BUF \<longleftrightarrow> length (committed s) + length (editing t) = 128"
    unfolding ed by (simp add: committed_def editing_def)
  show "unat (in_w t - in_r t) + unat (in_e t - in_w t) \<le> 128"
    using lt by (simp add: t_def e1)
  show "editing (t\<lparr>in_w := in_e t\<rparr>) = []" by (simp add: editing_def)
  have m: "(unat (in_r s) + ?a) mod 128 = unat (in_w s) mod 128"
    using unat_add_mod128 [of "in_r s" "in_w s - in_r s"] by simp
  have "committed (t\<lparr>in_w := in_e t\<rparr>) = ring_seg 128 (in_buf t) (unat (in_r s)) (?a + Suc ?b)"
    by (simp add: committed_def t_def e2)
  also have "\<dots> = committed t @ editing t"
    unfolding ring_seg_add ring_seg_mod [OF m] by (simp add: committed_def editing_def t_def e1)
  finally show "committed (t\<lparr>in_w := in_e t\<rparr>) = committed s @ editing t" unfolding c .
qed

lemma of_int_u8_eq:
  assumes "0 \<le> c" "c < 256" "0 \<le> d" "d < 256"
  shows "(of_int c :: u8) = of_int d \<longleftrightarrow> c = d"
  using assms by (simp add: word_of_int_eq_iff take_bit_int_eq_self)

lemma append_step:
  assumes "\<not> panicked s" "LPtable \<notin> held s" "ring_ok s" "in_e s - in_r s < INPUT_BUF" "0 < c" "c < 256" "c \<noteq> 13"
  shows "returns (seq (modify (\<lambda>s. s\<lparr>in_buf := (in_buf s)(unat (in_e s mod INPUT_BUF) := of_int c),
                              in_e := in_e s + 1\<rparr>)) (\<lambda>_.
           seq (consputc c) (\<lambda>_.
           seq (gets (\<lambda>s. c = 10 \<or> c = 4 \<or> in_e s = in_r s + INPUT_BUF)) (\<lambda>fin.
           seq (if fin then seq (modify (\<lambda>s. s\<lparr>in_w := in_e s\<rparr>)) (\<lambda>_. wakeup ChInput) else ret ()) (\<lambda>_.
           ret False)))) s) (\<lambda>d t. \<not> d \<and> ring_ok t \<and> intr_step s t
     \<and> (committed t, editing t) =
         (if c = 10 \<or> c = 4 \<or> length (committed s) + length (editing s) + 1 = 128
          then (committed s @ editing s @ [of_int c], []) else (committed s, editing s @ [of_int c])))"
proof -
  let ?t = "s\<lparr>in_buf := (in_buf s)(unat (in_e s mod INPUT_BUF) := of_int c), in_e := in_e s + 1\<rparr>"
  note a = append_char [OF assms(3-7)]
  obtain u where u: "consputc c ?t = Ret () u" "output_step ?t u"
    using consputc_ok [of ?t c] assms(1) by (auto elim: returns_unitE)
  note f = output_step_fields [OF u(2)]
  let ?fin = "c = 10 \<or> c = 4 \<or> length (committed s) + length (editing s) + 1 = 128"
  have fin: "(c = 10 \<or> c = 4 \<or> in_e u = in_r u + INPUT_BUF) = ?fin"
    using a(2,3) f(7,9) by simp
  have ring: "committed u = committed s" "editing u = editing s @ [of_int c]"
    using a(1,2) output_ring [OF u(2)] by simp_all
  let ?w = "u\<lparr>in_w := in_e u, ptable := woken ChInput (ptable u)\<rparr>"
  have w: "committed ?w = committed s @ editing s @ [of_int c]" "editing ?w = []"
    using a(2,5,6) f by (simp_all add: committed_def editing_def)
  have "ring_ok ?w"
    using a(4) unfolding ring_ok_def ring_lengths a(1,2) w by simp
  moreover have "ring_ok u" if "\<not> ?fin"
    using that a(4) f ring(2) assms(3,5-7) of_int_u8_eq [of c 10]
    by (auto simp: ring_ok_def)
  ultimately show ?thesis
    using u(1) fin ring w f assms(2)
    by (simp add: kmonad_simps wakeup_apply intr_step_def)
qed

lemma consoleintr_char_ok:
  assumes "\<not> panicked s" "LPtable \<notin> held s" "ring_ok s" "0 \<le> c" "c < 256"
  shows "returns (consoleintr_char c s) (\<lambda>d t. d = (c = 16) \<and> ring_ok t \<and> intr_step s t
     \<and> (committed t, editing t) = line_step c (committed s, editing s))"
proof -
  have room: "in_e s - in_r s < INPUT_BUF \<longleftrightarrow> length (committed s) + length (editing s) < 128"
    using ring_count [OF assms(3)] by (simp add: word_less_nat_alt INPUT_BUF_def ring_lengths)
  have refl: "intr_step s s" by (simp add: intr_step_def)
  consider (p) "c = 16" | (u) "c = 21" | (b) "c = 8 \<or> c = 127" "in_e s \<noteq> in_w s"
    | (b0) "c = 8 \<or> c = 127" "in_e s = in_w s"
    | (full) "c \<notin> {16, 21, 8, 127}" "c = 0 \<or> \<not> in_e s - in_r s < INPUT_BUF"
    | (ch) "c \<notin> {16, 21, 8, 127}" "c \<noteq> 0" "in_e s - in_r s < INPUT_BUF" by blast
  then show ?thesis
  proof cases
    case p
    then show ?thesis using assms(3) refl by (simp add: consoleintr_char_def)
  next
    case u
    then show ?thesis
      using kill_line_ok [OF assms(1,3), of "unat (in_e s - in_w s)"]
      by (auto simp: consoleintr_char_def kmonad_simps elim!: returns_unitE)
  next
    case b
    obtain t where t: "consputc BACKSPACE (s\<lparr>in_e := in_e s - 1\<rparr>) = Ret () t" "ring_ok t"
      "committed t = committed s" "editing t = butlast (editing s)" "intr_step s t"
      using erase_one [OF assms(1,3) b(2)] by (elim returns_unitE conjE) (rule that)
    have "consoleintr_char c s = Ret False t"
      using b(1)
    proof
      assume "c = 8"
      then show ?thesis using b(2) t(1) by (simp add: consoleintr_char_def seq_apply)
    next
      assume "c = 127"
      then show ?thesis using b(2) t(1) by (simp add: consoleintr_char_def seq_apply)
    qed
    moreover have "line_step c (committed s, editing s) = (committed s, butlast (editing s))" "c \<noteq> 16"
      using b(1) by (elim disjE; simp)+
    ultimately show ?thesis using t by (simp del: line_step.simps)
  next
    case b0
    have "consoleintr_char c s = Ret False s"
      using b0(1)
    proof
      assume "c = 8"
      then show ?thesis using b0(2) by (simp add: consoleintr_char_def seq_apply)
    next
      assume "c = 127"
      then show ?thesis using b0(2) by (simp add: consoleintr_char_def seq_apply)
    qed
    moreover have "line_step c (committed s, editing s) = (committed s, editing s)" "c \<noteq> 16"
      using b0(1) editing_nil [of s] b0(2) by (elim disjE; simp)+
    ultimately show ?thesis using assms(3) refl by (simp del: line_step.simps)
  next
    case full
    then have "consoleintr_char c s = Ret False s"
      by (cases "c = 0") (simp_all add: consoleintr_char_def seq_apply)
    moreover have "line_step c (committed s, editing s) = (committed s, editing s)" "c \<noteq> 16"
      using full room by (cases "c = 0"; simp)+
    ultimately show ?thesis using assms(3) refl by (simp del: line_step.simps)
  next
    case ch
    let ?c = "if c = 13 then 10 else c"
    have c: "0 < ?c" "?c < 256" "?c \<noteq> 13" using ch(2) assms(4,5) by auto
    have q: "(of_int ?c :: u8) = 10 \<longleftrightarrow> ?c = 10" "(of_int ?c :: u8) = 4 \<longleftrightarrow> ?c = 4"
      using of_int_u8_eq [of ?c 10] of_int_u8_eq [of ?c 4] c by simp_all
    have st: "line_step c (committed s, editing s) =
        (if ?c = 10 \<or> ?c = 4 \<or> length (committed s) + length (editing s) + 1 = 128
         then (committed s @ editing s @ [of_int ?c], []) else (committed s, editing s @ [of_int ?c]))"
      using ch room q by (cases "c = 13"; simp add: Let_def)
    have ev: "consoleintr_char c s = seq (modify (\<lambda>s. s\<lparr>in_buf := (in_buf s)(unat (in_e s mod INPUT_BUF) := of_int ?c),
                              in_e := in_e s + 1\<rparr>)) (\<lambda>_.
           seq (consputc ?c) (\<lambda>_.
           seq (gets (\<lambda>s. ?c = 10 \<or> ?c = 4 \<or> in_e s = in_r s + INPUT_BUF)) (\<lambda>fin.
           seq (if fin then seq (modify (\<lambda>s. s\<lparr>in_w := in_e s\<rparr>)) (\<lambda>_. wakeup ChInput) else ret ()) (\<lambda>_.
           ret False)))) s"
      using ch by (simp add: consoleintr_char_def Let_def)
    show ?thesis
      unfolding ev st using append_step [OF assms(1-3) ch(3) c] ch(1) by (elim returns_mono) simp
  qed
qed

lemma consoleintr_loop_ok:
  assumes "\<not> panicked s" "LPtable \<notin> held s" "ring_ok s" "\<forall>c\<in>set cs. 0 \<le> c \<and> c < 256"
  shows "returns (consoleintr_loop cs dump s) (\<lambda>d t. d = (dump \<or> 16 \<in> set cs) \<and> ring_ok t \<and> intr_step s t
     \<and> (committed t, editing t) = fold line_step cs (committed s, editing s))"
  using assms
proof (induction cs arbitrary: s dump)
  case Nil
  then show ?case by (simp add: intr_step_def)
next
  case (Cons c cs)
  obtain d t where t: "consoleintr_char c s = Ret d t" "d = (c = 16)" "ring_ok t" "intr_step s t"
    "(committed t, editing t) = line_step c (committed s, editing s)"
    using consoleintr_char_ok [OF Cons.prems(1-3), of c] Cons.prems(4)
    by (auto elim!: returnsE simp del: line_step.simps)
  have "returns (consoleintr_loop cs (dump \<or> d) t) (\<lambda>e u. e = ((dump \<or> d) \<or> 16 \<in> set cs) \<and> ring_ok u
      \<and> intr_step t u \<and> (committed u, editing u) = fold line_step cs (committed t, editing t))"
    by (rule Cons.IH) (use t Cons.prems in \<open>auto simp: intr_step_def\<close>)
  then show ?case
    using t Cons.prems(4) by (auto simp: intr_step_def simp del: line_step.simps elim!: returns_mono)
qed


lemma demo_ring: "committed demo_cons = []" "editing demo_cons = []"
  by (simp_all add: committed_def editing_def demo_cons_def klog.defs kapic.defs)


end
