(* ===== verification/Inode.thy ===== *)
theory Inode
  imports Console
begin

text \<open>
  The block allocator and the inodes of \<open>fs.c\<close>: the free bitmap, the cache of in-memory inodes with
  its reference counts and sleep locks, the map from a file's blocks to disk blocks, and truncation.

  Every change of the disk goes through the log. The interface the file system uses, blocks read
  and updated inside a transaction, is the locale \<open>txn_blocks\<close>; the buffer cache with the log
  provides it.

  Shown: \<open>balloc\<close> takes the first free block, marks it and zeroes it, and changes nothing else; \<open>bfree\<close> is
  its inverse on the bitmap and panics on a free block; an inode written by \<open>iupdate\<close> is read back by
  \<open>ilock\<close>; the inode cache holds at most one entry per inode.
\<close>

section \<open>State\<close>

text \<open>\<open>i_d\<close> holds the fields of \<open>struct inode\<close> that are a copy of the inode on disk, from \<open>type\<close> to \<open>addrs\<close>.\<close>

record inode =
  i_dev :: nat
  i_inum :: nat
  i_ref :: int
  i_lock :: sleeplock
  i_valid :: bool
  i_d :: dinode

record kfs = kcons +
  sb :: superblock
  inodes :: "nat \<Rightarrow> inode"

definition upd_inode :: "nat \<Rightarrow> (inode \<Rightarrow> inode) \<Rightarrow> (unit, 'z kfs_scheme) km" where
  "upd_inode ip f = modify (\<lambda>s. s\<lparr>inodes := (inodes s)(ip := f (inodes s ip))\<rparr>)"

definition inode_at :: "nat \<Rightarrow> (inode, 'z kfs_scheme) km" where
  "inode_at ip = gets (\<lambda>s. inodes s ip)"

definition inode_lock :: "nat \<Rightarrow> 'z kfs_scheme \<Rightarrow> sleeplock" where
  "inode_lock ip s = i_lock (inodes s ip)"

definition upd_inode_lock :: "nat \<Rightarrow> (sleeplock \<Rightarrow> sleeplock) \<Rightarrow> 'z kfs_scheme \<Rightarrow> 'z kfs_scheme" where
  "upd_inode_lock ip f s = s\<lparr>inodes := (inodes s)(ip := (inodes s ip)\<lparr>i_lock := f (i_lock (inodes s ip))\<rparr>)\<rparr>"

section \<open>Blocks\<close>

text \<open>A buffer's data assigned and logged.\<close>

definition log_data :: "nat \<Rightarrow> u8 list \<Rightarrow> (unit, 'z klog_scheme) km" where
  "log_data bp d = seq (set_bdata bp d) (\<lambda>_. log_write bp)"

definition bzero :: "nat \<Rightarrow> nat \<Rightarrow> (unit, 'z kfs_scheme) km" where
  "bzero dev bno =
     seq (bread dev bno) (\<lambda>bp.
     seq (log_data bp (replicate BSIZE 0)) (\<lambda>_.
     brelse bp))"

definition bit_free :: "u8 list \<Rightarrow> nat \<Rightarrow> bool" where
  "bit_free d bi \<longleftrightarrow> d ! (bi div 8) AND push_bit (bi mod 8) 1 = 0"

definition mark_used :: "u8 list \<Rightarrow> nat \<Rightarrow> u8 list" where
  "mark_used d bi = d[bi div 8 := d ! (bi div 8) OR push_bit (bi mod 8) 1]"

definition mark_free :: "u8 list \<Rightarrow> nat \<Rightarrow> u8 list" where
  "mark_free d bi = d[bi div 8 := d ! (bi div 8) AND NOT (push_bit (bi mod 8) 1)]"

text \<open>The outer loop from block \<open>b\<close> on; \<open>sb.size\<close> is a 32-bit number.\<close>

function balloc_from :: "nat \<Rightarrow> nat \<Rightarrow> (nat, 'z kfs_scheme) km" where
  "balloc_from dev b =
     seq (gets (\<lambda>s. sb_size (sb s))) (\<lambda>size.
     if b < size \<and> b < 2 ^ 32 then
       seq (gets (\<lambda>s. BBLOCK b (sb s))) (\<lambda>bb.
       seq (bread dev bb) (\<lambda>bp.
       seq (bdata bp) (\<lambda>d.
       seq (gets (\<lambda>s. find (bit_free d) [0 ..< min BPB (sb_size (sb s) - b)])) (\<lambda>r.
       case r of
         Some bi \<Rightarrow>
           seq (log_data bp (mark_used d bi)) (\<lambda>_.
           seq (brelse bp) (\<lambda>_.
           seq (bzero dev (b + bi)) (\<lambda>_.
           ret (b + bi))))
       | None \<Rightarrow>
           seq (brelse bp) (\<lambda>_.
           balloc_from dev (b + BPB))))))
     else panic ''balloc: out of blocks'')"
  by auto
termination
  by (relation "measure (\<lambda>(dev, b). 2 ^ 32 - b)") (auto simp: const_defs)

declare balloc_from.simps [simp del]

definition balloc :: "nat \<Rightarrow> (nat, 'z kfs_scheme) km" where
  "balloc dev = balloc_from dev 0"

definition bfree :: "nat \<Rightarrow> nat \<Rightarrow> (unit, 'z kfs_scheme) km" where
  "bfree dev b =
     seq (readsb dev) (\<lambda>x.
     seq (modify (\<lambda>s. s\<lparr>sb := x\<rparr>)) (\<lambda>_.
     seq (gets (\<lambda>s. BBLOCK b (sb s))) (\<lambda>bb.
     seq (bread dev bb) (\<lambda>bp.
     seq (bdata bp) (\<lambda>d.
     if bit_free d (b mod BPB) then panic ''freeing free block''
     else
       seq (log_data bp (mark_free d (b mod BPB))) (\<lambda>_.
       brelse bp))))))"

section \<open>Inodes\<close>

definition iinit :: "nat \<Rightarrow> (unit, 'z kfs_scheme) km" where
  "iinit dev =
     seq (initlock LIcache) (\<lambda>_.
     seq (for_each (\<lambda>i. modify (upd_inode_lock i (\<lambda>_. initsleeplock))) [0 ..< NINODE]) (\<lambda>_.
     seq (readsb dev) (\<lambda>x.
     seq (modify (\<lambda>s. s\<lparr>sb := x\<rparr>)) (\<lambda>_.
     cprintf_fmt (Some (bytes ''sb: size %d nblocks %d ninodes %d nlog %d logstart %d inodestart %d bmap start %d'' @ [10]))
       (map (\<lambda>n. CInt (of_nat n)) [sb_size x, sb_nblocks x, sb_ninodes x, sb_nlog x, sb_logstart x,
          sb_inodestart x, sb_bmapstart x])))))"

definition iget :: "nat \<Rightarrow> nat \<Rightarrow> (nat, 'z kfs_scheme) km" where
  "iget dev inum =
     seq (acquire LIcache) (\<lambda>_.
     seq (gets (\<lambda>s. find (\<lambda>i. i_ref (inodes s i) > 0 \<and> i_dev (inodes s i) = dev
            \<and> i_inum (inodes s i) = inum) [0 ..< NINODE])) (\<lambda>r.
     case r of
       Some ip \<Rightarrow>
         seq (upd_inode ip (i_ref_update (\<lambda>n. n + 1))) (\<lambda>_.
         seq (release LIcache) (\<lambda>_.
         ret ip))
     | None \<Rightarrow>
         seq (gets (\<lambda>s. find (\<lambda>i. i_ref (inodes s i) = 0) [0 ..< NINODE])) (\<lambda>empty.
         case empty of None \<Rightarrow> panic ''iget: no inodes''
         | Some ip \<Rightarrow>
             seq (upd_inode ip (\<lambda>x. x\<lparr>i_dev := dev, i_inum := inum, i_ref := 1, i_valid := False\<rparr>)) (\<lambda>_.
             seq (release LIcache) (\<lambda>_.
             ret ip)))))"

definition empty_dinode :: dinode where
  "empty_dinode = \<lparr>d_type = 0, d_major = 0, d_minor = 0, d_nlink = 0, d_size = 0, d_addrs = (\<lambda>_. 0)\<rparr>"

function ialloc_from :: "nat \<Rightarrow> u16 \<Rightarrow> nat \<Rightarrow> (nat, 'z kfs_scheme) km" where
  "ialloc_from dev ty inum =
     seq (gets (\<lambda>s. sb_ninodes (sb s))) (\<lambda>n.
     if inum < n \<and> inum < 2 ^ 32 then
       seq (gets (\<lambda>s. IBLOCK inum (sb s))) (\<lambda>ib.
       seq (bread dev ib) (\<lambda>bp.
       seq (bdata bp) (\<lambda>d.
       if d_type (get_dinode d (inum mod IPB)) = 0 then
         seq (log_data bp (put_dinode d (inum mod IPB) (empty_dinode\<lparr>d_type := ty\<rparr>))) (\<lambda>_.
         seq (brelse bp) (\<lambda>_.
         iget dev inum))
       else
         seq (brelse bp) (\<lambda>_.
         ialloc_from dev ty (inum + 1)))))
     else panic ''ialloc: no inodes'')"
  by auto
termination
  by (relation "measure (\<lambda>(dev, ty, inum). 2 ^ 32 - inum)") (auto simp: const_defs)

declare ialloc_from.simps [simp del]

definition ialloc :: "nat \<Rightarrow> u16 \<Rightarrow> (nat, 'z kfs_scheme) km" where
  "ialloc dev ty = ialloc_from dev ty 1"

definition iupdate :: "nat \<Rightarrow> (unit, 'z kfs_scheme) km" where
  "iupdate ip =
     seq (inode_at ip) (\<lambda>x.
     seq (gets (\<lambda>s. IBLOCK (i_inum x) (sb s))) (\<lambda>ib.
     seq (bread (i_dev x) ib) (\<lambda>bp.
     seq (bdata bp) (\<lambda>d.
     seq (inode_at ip) (\<lambda>x.
     seq (log_data bp (put_dinode d (i_inum x mod IPB) (i_d x))) (\<lambda>_.
     brelse bp))))))"

definition idup :: "nat \<Rightarrow> (nat, 'z kfs_scheme) km" where
  "idup ip =
     seq (acquire LIcache) (\<lambda>_.
     seq (upd_inode ip (i_ref_update (\<lambda>n. n + 1))) (\<lambda>_.
     seq (release LIcache) (\<lambda>_.
     ret ip)))"

definition ilock :: "nat \<Rightarrow> (unit, 'z kfs_scheme) km" where
  "ilock ip =
     seq (inode_at ip) (\<lambda>x.
     if i_ref x < 1 then panic ''ilock''
     else
       seq (acquiresleep (inode_lock ip) (upd_inode_lock ip) (ChInodeLock ip)) (\<lambda>_.
       seq (inode_at ip) (\<lambda>x.
       if \<not> i_valid x then
         seq (gets (\<lambda>s. IBLOCK (i_inum x) (sb s))) (\<lambda>ib.
         seq (bread (i_dev x) ib) (\<lambda>bp.
         seq (bdata bp) (\<lambda>d.
         seq (upd_inode ip (\<lambda>x. x\<lparr>i_d := get_dinode d (i_inum x mod IPB)\<rparr>)) (\<lambda>_.
         seq (brelse bp) (\<lambda>_.
         seq (upd_inode ip (i_valid_update (\<lambda>_. True))) (\<lambda>_.
         seq (inode_at ip) (\<lambda>x.
         if d_type (i_d x) = 0 then panic ''ilock: no type'' else ret ())))))))
       else ret ())))"

definition iunlock :: "nat \<Rightarrow> (unit, 'z kfs_scheme) km" where
  "iunlock ip =
     seq (holdingsleep (inode_lock ip) (ChInodeLock ip)) (\<lambda>h.
     seq (inode_at ip) (\<lambda>x.
     if \<not> h \<or> i_ref x < 1 then panic ''iunlock''
     else releasesleep (upd_inode_lock ip) (ChInodeLock ip)))"

section \<open>The contents of an inode\<close>

definition addr_of :: "nat \<Rightarrow> nat \<Rightarrow> (u32, 'z kfs_scheme) km" where
  "addr_of ip k = gets (\<lambda>s. d_addrs (i_d (inodes s ip)) k)"

definition set_addr :: "nat \<Rightarrow> nat \<Rightarrow> u32 \<Rightarrow> (unit, 'z kfs_scheme) km" where
  "set_addr ip k a = upd_inode ip (\<lambda>x. x\<lparr>i_d := (i_d x)\<lparr>d_addrs := (d_addrs (i_d x))(k := a)\<rparr>\<rparr>)"

text \<open>\<open>if((addr = ip->addrs[k]) == 0) ip->addrs[k] = addr = balloc(ip->dev);\<close>\<close>

definition addr_or_alloc :: "nat \<Rightarrow> nat \<Rightarrow> (u32, 'z kfs_scheme) km" where
  "addr_or_alloc ip k =
     seq (addr_of ip k) (\<lambda>addr.
     if addr = 0 then
       seq (inode_at ip) (\<lambda>x.
       seq (balloc (i_dev x)) (\<lambda>b.
       seq (set_addr ip k (of_nat b)) (\<lambda>_.
       ret (of_nat b))))
     else ret addr)"

definition bmap :: "nat \<Rightarrow> nat \<Rightarrow> (u32, 'z kfs_scheme) km" where
  "bmap ip bn =
     (if bn < NDIRECT then addr_or_alloc ip bn
      else if bn - NDIRECT < NINDIRECT then
        seq (addr_or_alloc ip NDIRECT) (\<lambda>addr.
        seq (inode_at ip) (\<lambda>x.
        seq (bread (i_dev x) (unat addr)) (\<lambda>bp.
        seq (bdata bp) (\<lambda>d.
        let addr = get32 d (4 * (bn - NDIRECT)) in
        if addr = 0 then
          seq (inode_at ip) (\<lambda>x.
          seq (balloc (i_dev x)) (\<lambda>b.
          seq (bdata bp) (\<lambda>d.
          seq (log_data bp (put32 d (4 * (bn - NDIRECT)) (of_nat b))) (\<lambda>_.
          seq (brelse bp) (\<lambda>_.
          ret (of_nat b))))))
        else
          seq (brelse bp) (\<lambda>_.
          ret addr)))))
      else panic ''bmap: out of range'')"

definition itrunc_direct :: "nat \<Rightarrow> nat \<Rightarrow> (unit, 'z kfs_scheme) km" where
  "itrunc_direct ip i =
     seq (addr_of ip i) (\<lambda>a.
     if a \<noteq> 0 then
       seq (inode_at ip) (\<lambda>x.
       seq (bfree (i_dev x) (unat a)) (\<lambda>_.
       set_addr ip i 0))
     else ret ())"

definition itrunc_indirect :: "nat \<Rightarrow> nat \<Rightarrow> nat \<Rightarrow> (unit, 'z kfs_scheme) km" where
  "itrunc_indirect ip bp j =
     seq (bdata bp) (\<lambda>d.
     if get32 d (4 * j) \<noteq> 0 then
       seq (inode_at ip) (\<lambda>x. bfree (i_dev x) (unat (get32 d (4 * j))))
     else ret ())"

definition itrunc :: "nat \<Rightarrow> (unit, 'z kfs_scheme) km" where
  "itrunc ip =
     seq (for_each (itrunc_direct ip) [0 ..< NDIRECT]) (\<lambda>_.
     seq (addr_of ip NDIRECT) (\<lambda>a.
     seq (if a \<noteq> 0 then
            seq (inode_at ip) (\<lambda>x.
            seq (bread (i_dev x) (unat a)) (\<lambda>bp.
            seq (for_each (itrunc_indirect ip bp) [0 ..< NINDIRECT]) (\<lambda>_.
            seq (brelse bp) (\<lambda>_.
            seq (bfree (i_dev x) (unat a)) (\<lambda>_.
            set_addr ip NDIRECT 0)))))
          else ret ()) (\<lambda>_.
     seq (upd_inode ip (\<lambda>x. x\<lparr>i_d := (i_d x)\<lparr>d_size := 0\<rparr>\<rparr>)) (\<lambda>_.
     iupdate ip))))"

definition iput :: "nat \<Rightarrow> (unit, 'z kfs_scheme) km" where
  "iput ip =
     seq (acquiresleep (inode_lock ip) (upd_inode_lock ip) (ChInodeLock ip)) (\<lambda>_.
     seq (inode_at ip) (\<lambda>x.
     seq (if i_valid x \<and> d_nlink (i_d x) = 0 then
            seq (acquire LIcache) (\<lambda>_.
            seq (inode_at ip) (\<lambda>y.
            seq (release LIcache) (\<lambda>_.
            if i_ref y = 1 then
              seq (itrunc ip) (\<lambda>_.
              seq (upd_inode ip (\<lambda>x. x\<lparr>i_d := (i_d x)\<lparr>d_type := 0\<rparr>\<rparr>)) (\<lambda>_.
              seq (iupdate ip) (\<lambda>_.
              upd_inode ip (i_valid_update (\<lambda>_. False)))))
            else ret ())))
          else ret ()) (\<lambda>_.
     seq (releasesleep (upd_inode_lock ip) (ChInodeLock ip)) (\<lambda>_.
     seq (acquire LIcache) (\<lambda>_.
     seq (upd_inode ip (i_ref_update (\<lambda>n. n - 1))) (\<lambda>_.
     release LIcache))))))"

definition iunlockput :: "nat \<Rightarrow> (unit, 'z kfs_scheme) km" where
  "iunlockput ip = seq (iunlock ip) (\<lambda>_. iput ip)"

record stat =
  st_type :: u16
  st_dev :: nat
  st_ino :: nat
  st_nlink :: u16
  st_size :: u32

definition stati :: "nat \<Rightarrow> (stat, 'z kfs_scheme) km" where
  "stati ip = gets (\<lambda>s. let x = inodes s ip in
     \<lparr>st_type = d_type (i_d x), st_dev = i_dev x, st_ino = i_inum x, st_nlink = d_nlink (i_d x),
      st_size = d_size (i_d x)\<rparr>)"

section \<open>Blocks inside a transaction\<close>

text \<open>
  The running process is inside a transaction that may still log \<open>k\<close> blocks, and has the blocks of \<open>L\<close>
  locked. No locked block has changes that are not logged.
\<close>

definition txn :: "'z klog_scheme \<Rightarrow> (nat \<rightharpoonup> nat) \<Rightarrow> nat \<Rightarrow> bool" where
  "txn s L k \<longleftrightarrow> cache_inv s L \<and> (\<forall>b\<in>dom L. b \<in> pinned s \<or> block_view s b = disk s b)
     \<and> inj_on (lg_block s) {..<lg_n s} \<and> pinned s = logged s \<and> 1 \<le> lg_outstanding s
     \<and> lg_n s + k \<le> LOGSIZE \<and> lg_n s + k < lg_size s \<and> lg_n s + k + 4 \<le> NBUF"

text \<open>What operations on blocks change besides the contents of the blocks.\<close>

definition fs_step :: "'z klog_scheme \<Rightarrow> 'z klog_scheme \<Rightarrow> bool" where
  "fs_step s t \<longleftrightarrow> (\<exists>pt bf l d tr x g. t = s\<lparr>ptable := pt, bufs := bf, lru := l, disk := d, dtrace := tr,
     lg_n := x, lg_block := g\<rparr>)"

lemma fs_step_cache: "cache_step s t \<Longrightarrow> fs_step s t"
  unfolding cache_step_def fs_step_def
  by (elim exE, rule_tac x = pt in exI, rule_tac x = bf in exI, rule_tac x = l in exI, rule_tac x = d in exI,
      rule_tac x = tr in exI, rule exI [of _ "lg_n s"], rule exI [of _ "lg_block s"]) simp

lemma fs_step_refl [simp]: "fs_step s s"
  by (simp add: fs_step_cache)

lemma fs_step_trans [trans]: "fs_step s t \<Longrightarrow> fs_step t u \<Longrightarrow> fs_step s u"
  unfolding fs_step_def by (elim exE) (intro exI, simp)

lemma fs_step_log: "cache_step (s\<lparr>lg_n := x, lg_block := g\<rparr>) t \<Longrightarrow> fs_step s t"
proof -
  assume "cache_step (s\<lparr>lg_n := x, lg_block := g\<rparr>) t"
  then obtain pt bf l d tr where
    "t = s\<lparr>lg_n := x, lg_block := g, ptable := pt, bufs := bf, lru := l, disk := d, dtrace := tr\<rparr>"
    by (auto simp: cache_step_def)
  also have "\<dots> = s\<lparr>ptable := pt, bufs := bf, lru := l, disk := d, dtrace := tr, lg_n := x, lg_block := g\<rparr>"
    by (cases s) simp
  finally show ?thesis unfolding fs_step_def by blast
qed

lemma fs_step_frame:
  fixes s t :: "'z kfs_scheme"
  assumes "fs_step s t"
  shows "sb t = sb s" "inodes t = inodes s" "disksize t = disksize s" "held t = held s" "curproc t = curproc s"
    "panicked t = panicked s" "cons_locking t = cons_locking s"
  using assms by (auto simp: fs_step_def)

locale txn_blocks =
  fixes read :: "nat \<Rightarrow> (nat, 's) km"
    and data :: "nat \<Rightarrow> (u8 list, 's) km"
    and upd :: "nat \<Rightarrow> u8 list \<Rightarrow> (unit, 's) km"
    and rel :: "nat \<Rightarrow> (unit, 's) km"
    and inv :: "'s \<Rightarrow> (nat \<rightharpoonup> nat) \<Rightarrow> nat \<Rightarrow> bool"
    and view :: "'s \<Rightarrow> nat \<Rightarrow> u8 list"
    and size :: "'s \<Rightarrow> nat"
    and step :: "'s \<Rightarrow> 's \<Rightarrow> bool"
  assumes read_ok: "inv s L k \<Longrightarrow> b \<notin> dom L \<Longrightarrow> card (dom L) \<le> 3 \<Longrightarrow> b < size s \<Longrightarrow>
      returns (read b s) (\<lambda>i t. inv t (L(b \<mapsto> i)) k \<and> step s t \<and> view t = view s)"
    and data_ok: "inv s L k \<Longrightarrow> L b = Some i \<Longrightarrow> data i s = Ret (view s b) s"
    and upd_ok: "inv s L (Suc k) \<Longrightarrow> L b = Some i \<Longrightarrow>
      returns (upd i d s) (\<lambda>_ t. inv t L k \<and> step s t \<and> view t = (view s)(b := d))"
    and rel_ok: "inv s L k \<Longrightarrow> L b = Some i \<Longrightarrow>
      returns (rel i s) (\<lambda>_ t. inv t (L(b := None)) k \<and> step s t \<and> view t = view s)"
    and step_refl: "step s s"
    and step_trans: "step s t \<Longrightarrow> step t u \<Longrightarrow> step s u"
    and step_size: "step s t \<Longrightarrow> size t = size s"
begin

text \<open>A block is locked, something is computed from its content, and it is released.\<close>

lemma peek_block:
  assumes "inv s L k" "b \<notin> dom L" "card (dom L) \<le> 3" "b < size s"
  shows "returns (seq (read b) (\<lambda>i. seq (data i) (\<lambda>d. seq (rel i) (\<lambda>_. ret (f d)))) s)
    (\<lambda>x t. x = f (view s b) \<and> inv t L k \<and> step s t \<and> view t = view s)"
proof -
  obtain i t where t: "read b s = Ret i t" "inv t (L(b \<mapsto> i)) k" "step s t" "view t = view s"
    using read_ok [OF assms] by (auto elim!: returnsE)
  obtain u where u: "rel i t = Ret () u" "inv u ((L(b \<mapsto> i))(b := None)) k" "step t u" "view u = view t"
    using rel_ok [OF t(2), of b i] by (auto elim!: returnsE)
  have "(L(b \<mapsto> i))(b := None) = L" using assms(2) by (auto simp: fun_eq_iff domIff)
  moreover have "data i t = Ret (view s b) t" using data_ok [OF t(2), of b i] t(4) by simp
  ultimately show ?thesis using t u step_trans [OF t(3) u(3)] by simp
qed

text \<open>A block is locked, changed and logged, and released.\<close>

lemma modify_block:
  assumes "inv s L (Suc k)" "b \<notin> dom L" "card (dom L) \<le> 3" "b < size s"
  shows "returns (seq (read b) (\<lambda>i. seq (data i) (\<lambda>d. seq (upd i (f d)) (\<lambda>_. rel i))) s)
    (\<lambda>_ t. inv t L k \<and> step s t \<and> view t = (view s)(b := f (view s b)))"
proof -
  obtain i t where t: "read b s = Ret i t" "inv t (L(b \<mapsto> i)) (Suc k)" "step s t" "view t = view s"
    using read_ok [OF assms] by (auto elim!: returnsE)
  obtain u where u: "upd i (f (view s b)) t = Ret () u" "inv u (L(b \<mapsto> i)) k" "step t u"
    "view u = (view t)(b := f (view s b))"
    using upd_ok [OF t(2), of b i "f (view s b)"] by (auto elim!: returnsE)
  obtain v where v: "rel i u = Ret () v" "inv v ((L(b \<mapsto> i))(b := None)) k" "step u v" "view v = view u"
    using rel_ok [OF u(2), of b i] by (auto elim!: returnsE)
  have "(L(b \<mapsto> i))(b := None) = L" using assms(2) by (auto simp: fun_eq_iff domIff)
  moreover have "data i t = Ret (view s b) t" using data_ok [OF t(2), of b i] t(4) by simp
  ultimately show ?thesis using t u v step_trans [OF t(3) step_trans [OF u(3) v(3)]] by simp
qed

end

lemma txnD:
  assumes "txn s L k"
  shows "cache_inv s L" "b \<in> dom L \<Longrightarrow> b \<in> pinned s \<or> block_view s b = disk s b"
    "inj_on (lg_block s) {..<lg_n s}" "pinned s = logged s" "1 \<le> lg_outstanding s"
    "lg_n s + k \<le> LOGSIZE" "lg_n s + k < lg_size s" "lg_n s + k + 4 \<le> NBUF" "held s = {}" "curproc s \<noteq> None"
  using assms cache_invD(1,2) by (auto simp: txn_def)

lemma txn_cache:
  assumes "txn s L k" "cache_inv t M" "cache_step s t" "pinned t = pinned s"
    "\<And>b. b \<in> dom M \<Longrightarrow> b \<in> pinned t \<or> block_view t b = disk t b"
  shows "txn t M k"
  using txnD [OF assms(1)] cache_step_log [OF assms(3)] assms(2,4,5) by (simp add: txn_def logged_def)

lemma txn_bread:
  assumes "txn s L k" "b \<notin> dom L" "card (dom L) \<le> 3" "b < disksize s"
  shows "returns (bread ROOTDEV b s) (\<lambda>i t. txn t (L(b \<mapsto> i)) k \<and> fs_step s t \<and> block_view t = block_view s)"
proof -
  note d = txnD [OF assms(1)]
  have "card (dom L \<union> pinned s) \<le> card (dom L) + card (pinned s)" by (rule card_Un_le)
  also have "card (pinned s) \<le> lg_n s"
    unfolding d(4) logged_def using card_image_le [of "{..<lg_n s}" "lg_block s"] by simp
  finally have room: "card (dom L \<union> pinned s) < NBUF" using assms(3) d(8) by simp
  have cl: "b \<in> pinned s \<or> block_view s b = disk s b" using bc.view_clean [OF d(1)] assms(2) by blast
  show ?thesis
  proof (rule returns_mono [OF bread_ok [OF d(1) assms(2) _ assms(4)]])
    fix i t
    assume t: "cache_inv t (L(b \<mapsto> i)) \<and> cache_step s t \<and> block_view t = block_view s \<and> pinned t = pinned s
      \<and> disk t = disk s \<and> dtrace t = dtrace s \<and> b_data (bufs t i) = block_view s b"
    then have "txn t (L(b \<mapsto> i)) k"
      by (intro txn_cache [OF assms(1)]) (use d(2) cl in auto)
    with t show "txn t (L(b \<mapsto> i)) k \<and> fs_step s t \<and> block_view t = block_view s"
      by (simp add: fs_step_cache)
  qed (use room in blast)
qed

lemma txn_brelse:
  assumes "txn s L k" "L b = Some i"
  shows "returns (brelse i s) (\<lambda>_ t. txn t (L(b := None)) k \<and> fs_step s t \<and> block_view t = block_view s)"
proof -
  note d = txnD [OF assms(1)]
  have cl: "b \<in> pinned s \<or> block_view s b = disk s b" using d(2) assms(2) by blast
  show ?thesis
  proof (rule returns_mono [OF brelse_ok [OF d(1) assms(2) cl]])
    fix r t
    assume t: "cache_inv t (L(b := None)) \<and> cache_step s t \<and> block_view t = block_view s \<and> pinned t = pinned s
      \<and> disk t = disk s \<and> dtrace t = dtrace s"
    then have "txn t (L(b := None)) k"
      by (intro txn_cache [OF assms(1)]) (use d(2) in auto)
    with t show "txn t (L(b := None)) k \<and> fs_step s t \<and> block_view t = block_view s"
      by (simp add: fs_step_cache)
  qed
qed

lemma txn_log_data:
  fixes s :: "'z klog_scheme"
  assumes "txn s L (Suc k)" "L b = Some i"
  shows "returns (log_data i d s) (\<lambda>_ t. txn t L k \<and> fs_step s t \<and> block_view t = (block_view s)(b := d))"
proof -
  note x = txnD [OF assms(1)]
  obtain t where t: "set_bdata i d s = Ret () t" "cache_inv t L" "cache_step s t"
    "block_view t = (block_view s)(b := d)" "pinned t = pinned s" "disk t = disk s"
    using set_bdata_ok [OF x(1) assms(2), of d] by (auto elim!: returnsE)
  note lg = cache_step_log [OF t(3)]
  obtain u y g where u: "log_write i t = Ret () u" "cache_inv u L" "logged u = insert b (logged t)"
    "lg_n u = (if b \<in> logged t then lg_n t else lg_n t + 1)" "inj_on (lg_block u) {..<lg_n u}"
    "pinned u = insert b (pinned t)" "block_view u = block_view t" "disk u = disk t"
    "cache_step (t\<lparr>lg_n := y, lg_block := g\<rparr>) u"
    using log_write_ok [OF t(2) assms(2)] x lg by (auto elim!: returnsE)
  have "fs_step s u"
    using fs_step_trans [OF fs_step_cache [OF t(3)] fs_step_log [OF u(9)]] .
  moreover have "txn u L k"
    unfolding txn_def
    using u x(2,4-8) t lg cache_step_log [OF u(9)] by (auto simp: logged_def)
  ultimately show ?thesis using t(1,4) u(1,7) by (simp add: log_data_def)
qed

interpretation fb: txn_blocks "bread ROOTDEV" bdata log_data brelse txn block_view disksize fs_step
proof unfold_locales
  show "fs_step s t \<Longrightarrow> disksize t = disksize s" for s t :: "'a klog_scheme"
    by (auto simp: fs_step_def)
  show "txn s L k \<Longrightarrow> L b = Some i \<Longrightarrow> bdata i s = Ret (block_view s b) s" for s :: "'a klog_scheme" and L k b i
    using bdata_ok txnD(1) by blast
qed (auto intro: txn_bread txn_brelse txn_log_data fs_step_trans)

text \<open>The same facts as elimination rules.\<close>

lemma txn_breadE:
  assumes "txn s L k" "b \<notin> dom L" "card (dom L) \<le> 3" "b < disksize s"
  obtains i t where "bread ROOTDEV b s = Ret i t" "txn t (L(b \<mapsto> i)) k" "fs_step s t" "block_view t = block_view s"
    "bdata i t = Ret (block_view s b) t"
proof -
  obtain i t where t: "bread ROOTDEV b s = Ret i t" "txn t (L(b \<mapsto> i)) k" "fs_step s t" "block_view t = block_view s"
    using txn_bread [OF assms] by (auto elim!: returnsE)
  moreover have "bdata i t = Ret (block_view s b) t" using fb.data_ok [OF t(2), of b i] t(4) by simp
  ultimately show thesis by (rule that)
qed

lemma txn_log_dataE:
  fixes s :: "'z klog_scheme"
  assumes "txn s L (Suc k)" "L b = Some i"
  obtains t where "log_data i d s = Ret () t" "txn t L k" "fs_step s t" "block_view t = (block_view s)(b := d)"
  using txn_log_data [OF assms, of d] by (elim returns_unitE conjE) (rule that)

lemma txn_brelseE:
  assumes "txn s (L(b \<mapsto> i)) k" "b \<notin> dom L"
  obtains t where "brelse i s = Ret () t" "txn t L k" "fs_step s t" "block_view t = block_view s"
proof -
  have "(L(b \<mapsto> i))(b := None) = L" using assms(2) by (auto simp: fun_eq_iff domIff)
  then show thesis
    using txn_brelse [OF assms(1), of b i] that by (auto elim!: returnsE)
qed

section \<open>The allocator of blocks\<close>

definition used :: "'z kfs_scheme \<Rightarrow> nat \<Rightarrow> bool" where
  "used s b \<longleftrightarrow> \<not> bit_free (block_view s (BBLOCK b (sb s))) (b mod BPB)"

text \<open>The bitmap covers the blocks of the file system, and all of them are on the disk.\<close>

definition layout_ok :: "'z kfs_scheme \<Rightarrow> bool" where
  "layout_ok s \<longleftrightarrow> sb_size (sb s) \<le> disksize s \<and> disksize s \<le> 2 ^ 32
     \<and> (\<forall>b < sb_size (sb s). BBLOCK b (sb s) < disksize s)"

lemma find_upt_first: "k < n \<Longrightarrow> P k \<Longrightarrow> (\<And>j. j < k \<Longrightarrow> \<not> P j) \<Longrightarrow> find P [0 ..< n] = Some k"
  by (subst find_Some_iff) (auto intro!: exI [of _ k])

lemma BBLOCK_chunk: "bi < BPB \<Longrightarrow> BBLOCK (q * BPB + bi) x = BBLOCK (q * BPB) x"
  by (simp add: BBLOCK_def BPB_def BSIZE_def)

lemma bzero_ok:
  assumes "txn s L (Suc k)" "b \<notin> dom L" "card (dom L) \<le> 3" "b < disksize s"
  shows "returns (bzero ROOTDEV b s) (\<lambda>_ t. txn t L k \<and> fs_step s t
    \<and> block_view t = (block_view s)(b := replicate BSIZE 0))"
proof -
  obtain i t where t: "bread ROOTDEV b s = Ret i t" "txn t (L(b \<mapsto> i)) (Suc k)" "fs_step s t"
    "block_view t = block_view s" "bdata i t = Ret (block_view s b) t"
    by (rule txn_breadE [OF assms])
  obtain u where u: "log_data i (replicate BSIZE 0) t = Ret () u" "txn u (L(b \<mapsto> i)) k" "fs_step t u"
    "block_view u = (block_view t)(b := replicate BSIZE 0)"
    by (rule txn_log_dataE [OF t(2), of b i]) simp_all
  obtain v where v: "brelse i u = Ret () v" "txn v L k" "fs_step u v" "block_view v = block_view u"
    by (rule txn_brelseE [OF u(2) assms(2)])
  show ?thesis
    using t u v fs_step_trans [OF t(3) fs_step_trans [OF u(3) v(3)]] by (simp add: bzero_def)
qed

lemma balloc_take:
  fixes s :: "'z kfs_scheme"
  assumes x: "txn s L (Suc (Suc k))" "card (dom L) \<le> 3" and lay: "layout_ok s"
    and b: "b < sb_size (sb s)" "\<not> used s b" "\<forall>b'<b. used s b'"
    and un: "BBLOCK b (sb s) \<notin> dom L" "b \<notin> dom L" and q: "b div BPB = q"
  shows "returns (balloc_from ROOTDEV (q * BPB) s) (\<lambda>r t. r = b \<and> txn t L k \<and> fs_step s t
    \<and> block_view t = (block_view s)(BBLOCK b (sb s) := mark_used (block_view s (BBLOCK b (sb s))) (b mod BPB),
        b := replicate BSIZE 0))"
proof -
  let ?B = "BBLOCK b (sb s)" and ?bi = "b mod BPB"
  have split: "b = q * BPB + ?bi" "?bi < BPB" using q by (auto simp: BPB_def BSIZE_def)
  have B: "BBLOCK (q * BPB) (sb s) = ?B" using BBLOCK_chunk [OF split(2), of q "sb s"] split(1) by simp
  have "?B < disksize s" "sb_size (sb s) \<le> 2 ^ 32" "b < disksize s" using lay b(1) by (auto simp: layout_ok_def)
  obtain i t where t: "bread ROOTDEV ?B s = Ret i t" "txn t (L(?B \<mapsto> i)) (Suc (Suc k))" "fs_step s t"
    "block_view t = block_view s" "bdata i t = Ret (block_view s ?B) t"
    by (rule txn_breadE [OF x(1) un(1) x(2) \<open>?B < disksize s\<close>])
  have "find (bit_free (block_view s ?B)) [0 ..< min BPB (sb_size (sb s) - q * BPB)] = Some ?bi"
  proof (rule find_upt_first)
    show "?bi < min BPB (sb_size (sb s) - q * BPB)" using split b(1) by linarith
    show "bit_free (block_view s ?B) ?bi" using b(2) by (simp add: used_def)
    fix j assume "j < ?bi"
    then have "j < BPB" "q * BPB + j < b" using split by linarith+
    then have "used s (q * BPB + j)" using b(3) by blast
    then show "\<not> bit_free (block_view s ?B) j"
      using BBLOCK_chunk [OF \<open>j < BPB\<close>, of q "sb s"] B \<open>j < BPB\<close> by (simp add: used_def)
  qed
  note fnd = this
  obtain u where u: "log_data i (mark_used (block_view s ?B) ?bi) t = Ret () u" "txn u (L(?B \<mapsto> i)) (Suc k)"
    "fs_step t u" "block_view u = (block_view t)(?B := mark_used (block_view s ?B) ?bi)"
    by (rule txn_log_dataE [OF t(2), of ?B i]) simp_all
  obtain v where v: "brelse i u = Ret () v" "txn v L (Suc k)" "fs_step u v" "block_view v = block_view u"
    by (rule txn_brelseE [OF u(2) un(1)])
  have sv: "fs_step s v" using fs_step_trans [OF t(3) fs_step_trans [OF u(3) v(3)]] .
  obtain w where w: "bzero ROOTDEV b v = Ret () w" "txn w L k" "fs_step v w"
    "block_view w = (block_view v)(b := replicate BSIZE 0)"
    using bzero_ok [of v L k b] v(2) un(2) x(2) \<open>b < disksize s\<close> fs_step_frame(3) [OF sv] by (auto elim!: returnsE)
  have "balloc_from ROOTDEV (q * BPB) s = Ret b w"
    using split b(1) \<open>sb_size (sb s) \<le> 2 ^ 32\<close> t(1,5) fnd u(1) v(1) w(1) B fs_step_frame(1) [OF t(3)]
    by (subst balloc_from.simps) (simp add: seq_apply)
  then show ?thesis using w fs_step_trans [OF sv w(3)] v(4) u(4) t(4) by simp
qed

text \<open>A part of the bitmap without a free block is read and released.\<close>

lemma balloc_skip:
  fixes s :: "'z kfs_scheme"
  assumes x: "txn s L k" "card (dom L) \<le> 3" and lay: "layout_ok s"
    and full: "\<forall>j<BPB. q * BPB + j < sb_size (sb s) \<longrightarrow> used s (q * BPB + j)"
    and un: "BBLOCK (q * BPB) (sb s) \<notin> dom L" and b: "q * BPB < sb_size (sb s)"
  obtains t where "balloc_from ROOTDEV (q * BPB) s = balloc_from ROOTDEV (Suc q * BPB) t" "txn t L k" "fs_step s t"
    "block_view t = block_view s"
proof -
  let ?B = "BBLOCK (q * BPB) (sb s)"
  have lt: "?B < disksize s" "sb_size (sb s) \<le> 2 ^ 32" using lay b by (auto simp: layout_ok_def)
  obtain i t where t: "bread ROOTDEV ?B s = Ret i t" "txn t (L(?B \<mapsto> i)) k" "fs_step s t"
    "block_view t = block_view s" "bdata i t = Ret (block_view s ?B) t"
    by (rule txn_breadE [OF x(1) un x(2) lt(1)])
  obtain v where v: "brelse i t = Ret () v" "txn v L k" "fs_step t v" "block_view v = block_view t"
    by (rule txn_brelseE [OF t(2) un])
  have "find (bit_free (block_view s ?B)) [0 ..< min BPB (sb_size (sb s) - q * BPB)] = None"
    using full BBLOCK_chunk [of _ q "sb s"] by (auto simp: find_None_iff used_def)
  then have "balloc_from ROOTDEV (q * BPB) s = balloc_from ROOTDEV (Suc q * BPB) v"
    using b lt(2) t(1,5) v(1) fs_step_frame(1) [OF t(3)]
    by (subst balloc_from.simps) (simp add: seq_apply add.commute)
  then show thesis
    using that v(2,4) t(4) fs_step_trans [OF t(3) v(3)] by simp
qed

lemma balloc_from_ok:
  fixes s :: "'z kfs_scheme"
  assumes x: "txn s L (Suc (Suc k))" "card (dom L) \<le> 3" and lay: "layout_ok s"
    and b: "b < sb_size (sb s)" "\<not> used s b" "\<forall>b'<b. used s b'"
    and un: "\<forall>b'\<le>b. BBLOCK b' (sb s) \<notin> dom L" "b \<notin> dom L" and q: "b div BPB = q + n"
  shows "returns (balloc_from ROOTDEV (q * BPB) s) (\<lambda>r t. r = b \<and> txn t L k \<and> fs_step s t
    \<and> block_view t = (block_view s)(BBLOCK b (sb s) := mark_used (block_view s (BBLOCK b (sb s))) (b mod BPB),
        b := replicate BSIZE 0))"
  using assms
proof (induction n arbitrary: q s)
  case 0
  then show ?case by (intro balloc_take) auto
next
  case (Suc n)
  have pos: "0 < BPB" by (simp add: const_defs)
  have "Suc q \<le> b div BPB" using Suc.prems(9) by simp
  then have le: "Suc q * BPB \<le> b" using pos by (metis less_eq_div_iff_mult_less_eq)
  have full: "\<forall>j<BPB. q * BPB + j < sb_size (sb s) \<longrightarrow> used s (q * BPB + j)"
  proof (intro allI impI)
    fix j assume "j < BPB"
    then have "q * BPB + j < b" using le by simp
    then show "used s (q * BPB + j)" using Suc.prems(6) by blast
  qed
  have sz: "q * BPB < sb_size (sb s)" "q * BPB \<le> b" using le Suc.prems(4) by simp_all
  then have un: "BBLOCK (q * BPB) (sb s) \<notin> dom L" using Suc.prems(7) by blast
  obtain t where t: "balloc_from ROOTDEV (q * BPB) s = balloc_from ROOTDEV (Suc q * BPB) t"
    "txn t L (Suc (Suc k))" "fs_step s t" "block_view t = block_view s"
    by (rule balloc_skip [OF Suc.prems(1,2,3) full un sz(1)])
  note f = fs_step_frame [OF t(3)]
  have us: "used t = used s" using f t(4) by (simp add: used_def fun_eq_iff)
  have "returns (balloc_from ROOTDEV (Suc q * BPB) t) (\<lambda>r u. r = b \<and> txn u L k \<and> fs_step t u
    \<and> block_view u = (block_view t)(BBLOCK b (sb t) := mark_used (block_view t (BBLOCK b (sb t))) (b mod BPB),
        b := replicate BSIZE 0))"
    by (rule Suc.IH) (use Suc.prems t f us in \<open>simp_all add: layout_ok_def\<close>)
  then show ?case
    unfolding t(1) using f t(3,4) by (elim returns_mono) (auto intro: fs_step_trans)
qed

lemma balloc_ok:
  fixes s :: "'z kfs_scheme"
  assumes x: "txn s L (Suc (Suc k))" "card (dom L) \<le> 3" and lay: "layout_ok s"
    and b: "b < sb_size (sb s)" "\<not> used s b" "\<forall>b'<b. used s b'"
    and un: "\<forall>b'\<le>b. BBLOCK b' (sb s) \<notin> dom L" "b \<notin> dom L"
  shows "returns (balloc ROOTDEV s) (\<lambda>r t. r = b \<and> txn t L k \<and> fs_step s t
    \<and> block_view t = (block_view s)(BBLOCK b (sb s) := mark_used (block_view s (BBLOCK b (sb s))) (b mod BPB),
        b := replicate BSIZE 0))"
  using balloc_from_ok [OF assms, of 0 "b div BPB"] by (simp add: balloc_def)

text \<open>The bits of the map.\<close>

lemma bit_free_iff: "bit_free d bi \<longleftrightarrow> \<not> bit (d ! (bi div 8)) (bi mod 8)"
  by (simp add: bit_free_def push_bit_eq_mult and_exp_eq_0_iff_not_bit)

lemma length_mark [simp]: "length (mark_used d bi) = length d" "length (mark_free d bi) = length d"
  by (simp_all add: mark_used_def mark_free_def)

lemma bit_free_mark:
  assumes "bi < 8 * length d"
  shows "bit_free (mark_used d bi) bj \<longleftrightarrow> bit_free d bj \<and> bj \<noteq> bi"
    "bit_free (mark_free d bi) bj \<longleftrightarrow> bit_free d bj \<or> bj = bi"
proof -
  have l: "bi div 8 < length d" using assms by (simp add: less_mult_imp_div_less mult.commute)
  have e: "bj div 8 = bi div 8 \<and> bj mod 8 = bi mod 8 \<longleftrightarrow> bj = bi"
    by (metis div_mult_mod_eq)
  show "bit_free (mark_used d bi) bj \<longleftrightarrow> bit_free d bj \<and> bj \<noteq> bi"
    using l e by (auto simp: bit_free_iff mark_used_def nth_list_update bit_simps)
  show "bit_free (mark_free d bi) bj \<longleftrightarrow> bit_free d bj \<or> bj = bi"
    using l e by (auto simp: bit_free_iff mark_free_def nth_list_update bit_simps bit_u8_beyond)
qed

text \<open>The bitmap blocks are allocated themselves, and every block has its size.\<close>

definition bitmap_ok :: "'z kfs_scheme \<Rightarrow> bool" where
  "bitmap_ok s \<longleftrightarrow> (\<forall>b. b < sb_size (sb s) \<longrightarrow> used s (BBLOCK b (sb s)))
     \<and> (\<forall>b. length (block_view s b) = BSIZE)"

lemma used_marked:
  assumes "block_view t (BBLOCK b' (sb s)) = ((block_view s)(B := d)) (BBLOCK b' (sb s))" "sb t = sb s"
    "B = BBLOCK b (sb s)"
    "length (block_view s B) = BSIZE"
  shows "d = mark_used (block_view s B) (b mod BPB) \<Longrightarrow> used t b' = (used s b' \<or> b' = b)"
    "d = mark_free (block_view s B) (b mod BPB) \<Longrightarrow> used t b' = (used s b' \<and> b' \<noteq> b)"
proof -
  have l: "b mod BPB < 8 * length (block_view s B)" using assms(4) by (simp add: const_defs)
  have e: "b' = b \<longleftrightarrow> b' mod BPB = b mod BPB" if "BBLOCK b' (sb s) = BBLOCK b (sb s)"
    using that by (metis BBLOCK_def add_right_cancel div_mult_mod_eq)
  show "d = mark_used (block_view s B) (b mod BPB) \<Longrightarrow> used t b' = (used s b' \<or> b' = b)"
    "d = mark_free (block_view s B) (b mod BPB) \<Longrightarrow> used t b' = (used s b' \<and> b' \<noteq> b)"
    using assms e bit_free_mark [OF l] by (auto simp: used_def)
qed

text \<open>
  C10. Block allocation (\<open>balloc\<close> in \<open>fs.c\<close>): inside a transaction with room for two blocks, \<open>balloc\<close> returns the first free block of
  the file system. Afterwards exactly that block is marked in the bitmap in addition, its content is zero, and no
  other block outside the bitmap has changed.
\<close>

theorem balloc_first_free:
  fixes s :: "'z kfs_scheme"
  assumes "txn s Map.empty (Suc (Suc k))" "layout_ok s" "bitmap_ok s"
    "b < sb_size (sb s)" "\<not> used s b" "\<forall>b'<b. used s b'"
  shows "returns (balloc ROOTDEV s) (\<lambda>r t. r = b \<and> txn t Map.empty k
    \<and> (\<forall>b'. b' < sb_size (sb s) \<longrightarrow> used t b' = (used s b' \<or> b' = b)) \<and> block_view t b = replicate BSIZE 0
    \<and> (\<forall>c. c = b \<or> c = BBLOCK b (sb s) \<or> block_view t c = block_view s c))"
proof (rule returns_mono [OF balloc_ok [OF assms(1) _ assms(2,4-6)]])
  let ?B = "BBLOCK b (sb s)"
  fix r t
  assume t: "r = b \<and> txn t Map.empty k \<and> fs_step s t
    \<and> block_view t = (block_view s)(?B := mark_used (block_view s ?B) (b mod BPB), b := replicate BSIZE 0)"
  have nb: "BBLOCK b' (sb s) \<noteq> b" if "b' < sb_size (sb s)" for b'
    using assms(3,5) that by (auto simp: bitmap_ok_def)
  have len: "length (block_view s ?B) = BSIZE" using assms(3) by (simp add: bitmap_ok_def)
  have "used t b' = (used s b' \<or> b' = b)" if "b' < sb_size (sb s)" for b'
    by (rule used_marked(1) [where B = ?B]) (use t nb [OF that] len fs_step_frame(1) in auto)
  then show "r = b \<and> txn t Map.empty k \<and> (\<forall>b'. b' < sb_size (sb s) \<longrightarrow> used t b' = (used s b' \<or> b' = b))
    \<and> block_view t b = replicate BSIZE 0 \<and> (\<forall>c. c = b \<or> c = ?B \<or> block_view t c = block_view s c)"
    using t by simp
qed simp_all

lemma readsb_ok:
  assumes "txn s L k" "1 \<notin> dom L" "card (dom L) \<le> 3" "1 < disksize s"
  shows "returns (readsb ROOTDEV s) (\<lambda>x t. x = sb_of (block_view s 1) \<and> txn t L k \<and> fs_step s t
    \<and> block_view t = block_view s)"
  unfolding readsb_def using assms by (rule fb.peek_block)

lemma txn_sb [simp]: "txn (sb_update f s) L k = txn s L k"
  by (simp add: txn_def cache_inv_def caches_def pinned_def block_view_def logged_def split: option.split)

text \<open>The state a block is freed in, once the super block has been read again.\<close>

lemma bfree_start:
  fixes s :: "'z kfs_scheme"
  assumes x: "txn s L k" "card (dom L) \<le> 3" "1 \<notin> dom L" "BBLOCK b (sb s) \<notin> dom L"
    and d: "1 < disksize s" "BBLOCK b (sb s) < disksize s" "sb_of (block_view s 1) = sb s"
  obtains i t where "txn t (L(BBLOCK b (sb s) \<mapsto> i)) k" "fs_step s t" "block_view t = block_view s"
    "bfree ROOTDEV b s = (if bit_free (block_view s (BBLOCK b (sb s))) (b mod BPB) then Panic ''freeing free block''
       else seq (log_data i (mark_free (block_view s (BBLOCK b (sb s))) (b mod BPB))) (\<lambda>_. brelse i) t)"
proof -
  obtain t where t: "readsb ROOTDEV s = Ret (sb s) t" "txn t L k" "fs_step s t" "block_view t = block_view s"
    using readsb_ok [OF x(1,3,2) d(1)] d(3) by (auto elim!: returnsE)
  note f = fs_step_frame [OF t(3)]
  have tt: "t\<lparr>sb := sb s\<rparr> = t" using f(1) by (cases t) simp
  have dt: "BBLOCK b (sb s) < disksize t" using d(2) f(3) by simp
  obtain i u where u: "bread ROOTDEV (BBLOCK b (sb s)) t = Ret i u" "txn u (L(BBLOCK b (sb s) \<mapsto> i)) k" "fs_step t u"
    "block_view u = block_view t" "bdata i u = Ret (block_view t (BBLOCK b (sb s))) u"
    by (rule txn_breadE [OF t(2) x(4,2) dt])
  show thesis
    by (rule that [OF u(2) fs_step_trans [OF t(3) u(3)]])
      (use t(1,4) u(1,4,5) f(1) in \<open>simp_all add: bfree_def tt\<close>)
qed

lemma bfree_ok:
  fixes s :: "'z kfs_scheme"
  assumes x: "txn s L (Suc k)" "card (dom L) \<le> 3" "1 \<notin> dom L" "BBLOCK b (sb s) \<notin> dom L"
    and d: "1 < disksize s" "BBLOCK b (sb s) < disksize s" "sb_of (block_view s 1) = sb s" and u: "used s b"
  shows "returns (bfree ROOTDEV b s) (\<lambda>_ t. txn t L k \<and> fs_step s t \<and> block_view t
    = (block_view s)(BBLOCK b (sb s) := mark_free (block_view s (BBLOCK b (sb s))) (b mod BPB)))"
proof -
  let ?B = "BBLOCK b (sb s)"
  obtain i t where t: "txn t (L(?B \<mapsto> i)) (Suc k)" "fs_step s t" "block_view t = block_view s"
    "bfree ROOTDEV b s = (if bit_free (block_view s ?B) (b mod BPB) then Panic ''freeing free block''
       else seq (log_data i (mark_free (block_view s ?B) (b mod BPB))) (\<lambda>_. brelse i) t)"
    by (rule bfree_start [OF x d])
  obtain v where v: "log_data i (mark_free (block_view s ?B) (b mod BPB)) t = Ret () v" "txn v (L(?B \<mapsto> i)) k"
    "fs_step t v" "block_view v = (block_view t)(?B := mark_free (block_view s ?B) (b mod BPB))"
    by (rule txn_log_dataE [OF t(1), of ?B i]) simp_all
  obtain w where w: "brelse i v = Ret () w" "txn w L k" "fs_step v w" "block_view w = block_view v"
    by (rule txn_brelseE [OF v(2) x(4)])
  show ?thesis
    using u t v w fs_step_trans [OF t(2) fs_step_trans [OF v(3) w(3)]] by (simp add: used_def)
qed

text \<open>
  C37. Freeing a block (\<open>bfree\<close> in \<open>fs.c\<close>): for a block marked in use, exactly its mark is cleared and no block outside the bitmap
  changes, the freed one included; freeing a free block panics.
\<close>

theorem bfree_clears_mark:
  fixes s :: "'z kfs_scheme"
  assumes "txn s Map.empty (Suc k)" "bitmap_ok s" "b < sb_size (sb s)"
    "1 < disksize s" "BBLOCK b (sb s) < disksize s" "sb_of (block_view s 1) = sb s"
  shows "if used s b then returns (bfree ROOTDEV b s) (\<lambda>_ t. txn t Map.empty k
      \<and> (\<forall>b'. used t b' = (used s b' \<and> b' \<noteq> b))
      \<and> (\<forall>c. c = BBLOCK b (sb s) \<or> block_view t c = block_view s c))
    else bfree ROOTDEV b s = Panic ''freeing free block''"
proof (cases "used s b")
  case True
  have len: "length (block_view s (BBLOCK b (sb s))) = BSIZE" using assms(2) by (simp add: bitmap_ok_def)
  have "returns (bfree ROOTDEV b s) (\<lambda>_ t. txn t Map.empty k \<and> (\<forall>b'. used t b' = (used s b' \<and> b' \<noteq> b))
      \<and> (\<forall>c. c = BBLOCK b (sb s) \<or> block_view t c = block_view s c))"
  proof (rule returns_mono [OF bfree_ok [OF assms(1) _ _ _ assms(4-6) True]])
    fix r t
    assume t: "txn t Map.empty k \<and> fs_step s t \<and> block_view t
      = (block_view s)(BBLOCK b (sb s) := mark_free (block_view s (BBLOCK b (sb s))) (b mod BPB))"
    have "used t b' = (used s b' \<and> b' \<noteq> b)" for b'
      by (rule used_marked(2) [where B = "BBLOCK b (sb s)"]) (use t len fs_step_frame(1) in auto)
    with t show "txn t Map.empty k \<and> (\<forall>b'. used t b' = (used s b' \<and> b' \<noteq> b))
      \<and> (\<forall>c. c = BBLOCK b (sb s) \<or> block_view t c = block_view s c)" by simp
  qed simp_all
  with True show ?thesis by simp
next
  case False
  obtain i t where "bfree ROOTDEV b s = (if bit_free (block_view s (BBLOCK b (sb s))) (b mod BPB)
       then Panic ''freeing free block''
       else seq (log_data i (mark_free (block_view s (BBLOCK b (sb s))) (b mod BPB))) (\<lambda>_. brelse i) t)"
    by (rule bfree_start [OF assms(1) _ _ _ assms(4-6)]) simp_all
  with False show ?thesis by (simp add: used_def)
qed

section \<open>An example file system\<close>

text \<open>
  A small disk in the layout of \<open>mkfs\<close>: the super block, the log from block 2, the inodes from block 32, the bitmap
  in block 58, a root directory in block 59 and a file of 600 bytes in blocks 60 and 61.
\<close>

definition demo_sb :: superblock where
  "demo_sb = \<lparr>sb_size = 1000, sb_nblocks = 941, sb_ninodes = 200, sb_nlog = 30, sb_logstart = 2,
     sb_inodestart = 32, sb_bmapstart = 58\<rparr>"

definition demo_inodes :: "u8 list" where
  "demo_inodes = put_dinode (put_dinode (replicate BSIZE 0) 1
     \<lparr>d_type = 1, d_major = 0, d_minor = 0, d_nlink = 1, d_size = 32, d_addrs = (\<lambda>i. if i = 0 then 59 else 0)\<rparr>) 2
     \<lparr>d_type = 2, d_major = 0, d_minor = 0, d_nlink = 1, d_size = 600,
      d_addrs = (\<lambda>i. if i = 0 then 60 else if i = 1 then 61 else 0)\<rparr>"

definition demo_disk :: "nat \<Rightarrow> u8 list" where
  "demo_disk b =
     (if b = 1 then put32 (put32 (put32 (put32 (put32 (put32 (put32 (replicate BSIZE 0) 0 1000) 4 941) 8 200) 12 30)
        16 2) 20 32) 24 58
      else if b = 32 then demo_inodes
      else if b = 58 then replicate 8 255 @ replicate 504 0
      else if b = 59 then [1, 0, 46] @ replicate 13 0 @ [2, 0, 97] @ replicate 493 0
      else if b = 60 \<or> b = 61 then replicate 512 7
      else replicate 512 0)"

definition demo_fs :: kfs where
  "demo_fs = kcons.extend (demo_cons\<lparr>disk := demo_disk, disksize := 1000, lg_outstanding := 1\<rparr>)
     \<lparr>sb = demo_sb,
      inodes = (\<lambda>i. \<lparr>i_dev = ROOTDEV, i_inum = (if i = 0 then 2 else 0), i_ref = (if i = 0 then 1 else 0),
        i_lock = initsleeplock, i_valid = False, i_d = empty_dinode\<rparr>)\<rparr>"

lemma demo_fs_sel:
  "held demo_fs = {}" "curproc demo_fs = Some 0" "disk demo_fs = demo_disk" "disksize demo_fs = 1000"
  "lg_n demo_fs = 0" "lg_size demo_fs = 30" "lg_outstanding demo_fs = 1" "sb demo_fs = demo_sb"
  "lru demo_fs = [0 ..< NBUF]"
  "bufs demo_fs = (\<lambda>_. \<lparr>b_valid = False, b_dirty = False, b_dev = 0, b_blockno = 0,
      b_lock = initsleeplock, b_refcnt = 0, b_data = []\<rparr>)"
  "inodes demo_fs = (\<lambda>i. \<lparr>i_dev = ROOTDEV, i_inum = (if i = 0 then 2 else 0), i_ref = (if i = 0 then 1 else 0),
        i_lock = initsleeplock, i_valid = False, i_d = empty_dinode\<rparr>)"
  by (simp_all add: demo_fs_def demo_cons_def kcons.defs klog.defs kapic.defs kdisk.defs empty_log_def empty_cache_def)

lemma demo_fs_view: "block_view demo_fs = demo_disk"
  by (rule ext, rule block_view_cases) (simp_all add: demo_fs_sel)

lemma demo_fs_txn: "k \<le> 26 \<Longrightarrow> txn demo_fs Map.empty k"
  by (auto simp: txn_def cache_inv_def caches_def pinned_def logged_def demo_fs_sel const_defs initsleeplock_def)

lemma demo_used: "b < 1000 \<Longrightarrow> used demo_fs b \<longleftrightarrow> b < 64"
proof -
  assume b: "b < 1000"
  have "(replicate 8 (255::u8) @ replicate 504 0) ! (b div 8) = (if b div 8 < 8 then 255 else 0)"
    using b by (simp add: nth_append)
  moreover have "bit (255 :: u8) (b mod 8)"
  proof -
    have "(255 :: u8) = mask 8" by (simp add: mask_eq_exp_minus_1)
    then show ?thesis by (simp only: bit_mask_iff) simp
  qed
  moreover have "BBLOCK b demo_sb = 58" "b mod BPB = b" using b by (simp_all add: BBLOCK_def const_defs demo_sb_def)
  moreover have "b div 8 < 8 \<longleftrightarrow> b < 64" by auto
  ultimately show ?thesis
    by (auto simp: used_def bit_free_iff demo_fs_view demo_fs_sel demo_disk_def)
qed

lemma demo_length: "length (demo_disk b) = BSIZE"
  by (simp add: demo_disk_def demo_inodes_def const_defs)

lemma demo_BBLOCK: "b < 1000 \<Longrightarrow> BBLOCK b demo_sb = 58"
  by (simp add: BBLOCK_def const_defs demo_sb_def)

lemma demo_size: "sb_size demo_sb = 1000"
  by (simp add: demo_sb_def)

lemma demo_fs_ok: "layout_ok demo_fs" "bitmap_ok demo_fs"
  using demo_used [of 58] demo_length
  by (auto simp: layout_ok_def bitmap_ok_def demo_fs_sel demo_fs_view demo_BBLOCK demo_size)

theorem balloc_first_free_witness:
  "returns (balloc ROOTDEV demo_fs) (\<lambda>r t. r = 64 \<and> txn t Map.empty 8 \<and> block_view t 64 = replicate BSIZE 0)"
proof -
  have "returns (balloc ROOTDEV demo_fs) (\<lambda>r t. r = 64 \<and> txn t Map.empty 8
    \<and> (\<forall>b'. b' < sb_size (sb demo_fs) \<longrightarrow> used t b' = (used demo_fs b' \<or> b' = 64))
    \<and> block_view t 64 = replicate BSIZE 0
    \<and> (\<forall>c. c = 64 \<or> c = BBLOCK 64 (sb demo_fs) \<or> block_view t c = block_view demo_fs c))"
    by (rule balloc_first_free)
      (use demo_used in \<open>simp_all add: demo_fs_txn demo_fs_ok demo_fs_sel demo_size\<close>)
  then show ?thesis by (rule returns_mono) simp
qed

theorem bfree_clears_mark_witness:
  "returns (bfree ROOTDEV 60 demo_fs) (\<lambda>_ t. \<not> used t 60 \<and> used t 59 \<and> block_view t 60 = replicate 512 7)"
proof -
  have "sb_of (demo_disk 1) = demo_sb"
    by (simp add: demo_disk_def sb_of_def demo_sb_def get32_put32_other const_defs)
  then have "if used demo_fs 60 then returns (bfree ROOTDEV 60 demo_fs) (\<lambda>_ t. txn t Map.empty 5
      \<and> (\<forall>b'. used t b' = (used demo_fs b' \<and> b' \<noteq> 60))
      \<and> (\<forall>c. c = BBLOCK 60 (sb demo_fs) \<or> block_view t c = block_view demo_fs c))
    else bfree ROOTDEV 60 demo_fs = Panic ''freeing free block''"
    by (intro bfree_clears_mark)
      (simp_all add: demo_fs_txn demo_fs_ok demo_fs_sel demo_fs_view demo_BBLOCK demo_size)
  then have "returns (bfree ROOTDEV 60 demo_fs) (\<lambda>_ t. txn t Map.empty 5
      \<and> (\<forall>b'. used t b' = (used demo_fs b' \<and> b' \<noteq> 60))
      \<and> (\<forall>c. c = BBLOCK 60 (sb demo_fs) \<or> block_view t c = block_view demo_fs c))"
    using demo_used [of 60] by simp
  then show ?thesis
  proof (rule returns_mono)
    fix r t
    assume t: "txn t Map.empty 5 \<and> (\<forall>b'. used t b' = (used demo_fs b' \<and> b' \<noteq> 60))
      \<and> (\<forall>c. c = BBLOCK 60 (sb demo_fs) \<or> block_view t c = block_view demo_fs c)"
    then have "60 = BBLOCK 60 (sb demo_fs) \<or> block_view t 60 = block_view demo_fs 60" by blast
    with t show "\<not> used t 60 \<and> used t 59 \<and> block_view t 60 = replicate 512 7"
      using demo_used [of 59] by (simp add: demo_fs_sel demo_BBLOCK demo_fs_view demo_disk_def)
  qed
qed

end
