(* ===== verification/Fs.thy ===== *)
theory Fs
  imports Inode
begin

text \<open>
  Files, directories and path names: the reading and writing part of \<open>fs.c\<close>, and the console device
  (\<open>consoleread\<close>, \<open>consolewrite\<close> in \<open>console.c\<close>), which the file system reaches through \<open>devsw\<close>.

  A read delivers its result and the bytes it stored at the destination; a write takes the bytes at
  the source as a function of the position. A path name is the list of its bytes up to the terminating NUL.

  Shown: \<open>readi\<close> returns the bytes of the file; \<open>writei\<close> changes exactly the bytes it covers; \<open>dirlookup\<close> finds the
  first entry with the name; \<open>skipelem\<close> splits a path into its components.
\<close>

section \<open>The console device (console.c)\<close>

definition T_DIR :: u16 where [const_defs]: "T_DIR = 1"
definition T_FILE :: u16 where [const_defs]: "T_FILE = 2"
definition T_DEV :: u16 where [const_defs]: "T_DEV = 3"
definition CONSOLE :: u16 where [const_defs]: "CONSOLE = 1"

text \<open>\<open>while(input.r == input.w)\<close>: the answer says whether the process was killed while it waited.\<close>

definition wait_input :: "(bool, 'z kfs_scheme) km" where
  "wait_input = iterate (\<lambda>_.
     seq (gets (\<lambda>s. in_r s = in_w s)) (\<lambda>empty.
     if \<not> empty then ret (Inl False)
     else
       seq myproc (\<lambda>mp. case mp of None \<Rightarrow> panic ''trap'' | Some p \<Rightarrow>
       seq (gets (\<lambda>s. p_killed (ptable s p))) (\<lambda>killed.
       if killed then ret (Inl True)
       else seq (sleep ChInput LCons) (\<lambda>_. ret (Inr ())))))) ()"

text \<open>
  The loop \<open>while(n > 0)\<close>; \<open>acc\<close> are the bytes stored so far. The answer says whether the process was killed.
\<close>

fun consoleread_loop :: "nat \<Rightarrow> u8 list \<Rightarrow> (bool \<times> u8 list, 'z kfs_scheme) km" where
  "consoleread_loop 0 acc = ret (False, acc)"
| "consoleread_loop (Suc n) acc =
     seq wait_input (\<lambda>killed.
     if killed then ret (True, acc)
     else
       seq (gets (\<lambda>s. in_buf s (unat (in_r s mod INPUT_BUF)))) (\<lambda>c.
       seq (modify (\<lambda>s. s\<lparr>in_r := in_r s + 1\<rparr>)) (\<lambda>_.
       if c = 4 then
         seq (if acc \<noteq> [] then modify (\<lambda>s. s\<lparr>in_r := in_r s - 1\<rparr>) else ret ()) (\<lambda>_.
         ret (False, acc))
       else if c = 10 then ret (False, acc @ [c])
       else consoleread_loop n (acc @ [c]))))"

definition consoleread :: "nat \<Rightarrow> int \<Rightarrow> (int \<times> u8 list, 'z kfs_scheme) km" where
  "consoleread ip n =
     seq (iunlock ip) (\<lambda>_.
     seq (acquire LCons) (\<lambda>_.
     seq (consoleread_loop (nat n) []) (\<lambda>(killed, bs).
     seq (release LCons) (\<lambda>_.
     seq (ilock ip) (\<lambda>_.
     ret (if killed then - 1 else int (length bs), bs))))))"

definition consolewrite :: "nat \<Rightarrow> (nat \<Rightarrow> u8) \<Rightarrow> int \<Rightarrow> (int, 'z kfs_scheme) km" where
  "consolewrite ip buf n =
     seq (iunlock ip) (\<lambda>_.
     seq (acquire LCons) (\<lambda>_.
     seq (for_each (\<lambda>i. consputc (uint (buf i))) [0 ..< nat n]) (\<lambda>_.
     seq (release LCons) (\<lambda>_.
     seq (ilock ip) (\<lambda>_.
     ret n)))))"

definition consoleinit :: "(unit, 'z kfs_scheme) km" where
  "consoleinit =
     seq (modify (\<lambda>s. s\<lparr>panicked := False\<rparr>)) (\<lambda>_.
     seq (initlock LCons) (\<lambda>_.
     seq (modify (\<lambda>s. s\<lparr>devsw_console := True\<rparr>)) (\<lambda>_.
     seq (for_each (\<lambda>b. graphic_putc (uint b)) (bytes ''Starting XV6_UEFI...'' @ [10])) (\<lambda>_.
     seq (modify (\<lambda>s. s\<lparr>cons_locking := True\<rparr>)) (\<lambda>_.
     ioapicenable IRQ_KBD 0)))))"

section \<open>Reading and writing\<close>

text \<open>The device of the inode has a driver: the console is the only one.\<close>

definition has_driver :: "u16 \<Rightarrow> 'z kcons_scheme \<Rightarrow> bool" where
  "has_driver major s \<longleftrightarrow> unat major < NDEV \<and> major = CONSOLE \<and> devsw_console s"

function readi_loop :: "nat \<Rightarrow> nat \<Rightarrow> nat \<Rightarrow> (u8 list, 'z kfs_scheme) km" where
  "readi_loop ip off n =
     (if n = 0 then ret []
      else
        let m = min n (BSIZE - off mod BSIZE) in
        seq (inode_at ip) (\<lambda>x.
        seq (bmap ip (off div BSIZE)) (\<lambda>a.
        seq (bread (i_dev x) (unat a)) (\<lambda>bp.
        seq (bdata bp) (\<lambda>d.
        seq (brelse bp) (\<lambda>_.
        seq (readi_loop ip (off + m) (n - m)) (\<lambda>rest.
        ret (slice d (off mod BSIZE) m @ rest))))))))"
  by auto
termination
  by (relation "measure (\<lambda>(ip, off, n). n)") (auto simp: const_defs)

declare readi_loop.simps [simp del]

definition readi :: "nat \<Rightarrow> u32 \<Rightarrow> u32 \<Rightarrow> (int \<times> u8 list, 'z kfs_scheme) km" where
  "readi ip off n =
     seq (inode_at ip) (\<lambda>x.
     if d_type (i_d x) = T_DEV then
       seq (gets (has_driver (d_major (i_d x)))) (\<lambda>drv.
       if drv then consoleread ip (sint n) else ret (- 1, []))
     else if off > d_size (i_d x) \<or> off + n < off then ret (- 1, [])
     else
       let n = (if off + n > d_size (i_d x) then d_size (i_d x) - off else n) in
       seq (readi_loop ip (unat off) (unat n)) (\<lambda>bs.
       ret (sint n, bs)))"

function writei_loop :: "nat \<Rightarrow> (nat \<Rightarrow> u8) \<Rightarrow> nat \<Rightarrow> nat \<Rightarrow> (unit, 'z kfs_scheme) km" where
  "writei_loop ip src off n =
     (if n = 0 then ret ()
      else
        let m = min n (BSIZE - off mod BSIZE) in
        seq (inode_at ip) (\<lambda>x.
        seq (bmap ip (off div BSIZE)) (\<lambda>a.
        seq (bread (i_dev x) (unat a)) (\<lambda>bp.
        seq (bdata bp) (\<lambda>d.
        seq (log_data bp (splice d (off mod BSIZE) (map src [0 ..< m]))) (\<lambda>_.
        seq (brelse bp) (\<lambda>_.
        writei_loop ip (\<lambda>i. src (m + i)) (off + m) (n - m))))))))"
  by auto
termination
  by (relation "measure (\<lambda>(ip, src, off, n). n)") (auto simp: const_defs)

declare writei_loop.simps [simp del]

definition writei :: "nat \<Rightarrow> (nat \<Rightarrow> u8) \<Rightarrow> u32 \<Rightarrow> u32 \<Rightarrow> (int, 'z kfs_scheme) km" where
  "writei ip src off n =
     seq (inode_at ip) (\<lambda>x.
     if d_type (i_d x) = T_DEV then
       seq (gets (has_driver (d_major (i_d x)))) (\<lambda>drv.
       if drv then consolewrite ip src (sint n) else ret (- 1))
     else if off > d_size (i_d x) \<or> off + n < off then ret (- 1)
     else if unat (off + n) > MAXFILE * BSIZE then ret (- 1)
     else
       seq (writei_loop ip src (unat off) (unat n)) (\<lambda>_.
       seq (inode_at ip) (\<lambda>x.
       seq (if n > 0 \<and> off + n > d_size (i_d x) then
              seq (upd_inode ip (\<lambda>x. x\<lparr>i_d := (i_d x)\<lparr>d_size := off + n\<rparr>\<rparr>)) (\<lambda>_.
              iupdate ip)
            else ret ()) (\<lambda>_.
       ret (sint n)))))"

section \<open>Directories\<close>

text \<open>A \<open>struct dirent\<close> is 16 bytes: the inode number and the name, NUL-padded to \<open>DIRSIZ\<close> bytes.\<close>

definition DIRENT :: nat where [const_defs]: "DIRENT = 16"

definition de_inum :: "u8 list \<Rightarrow> u16" where
  "de_inum de = get16 de 0"

definition de_name :: "u8 list \<Rightarrow> u8 list" where
  "de_name de = drop 2 de"

definition put_dirent :: "u8 list \<Rightarrow> u16 \<Rightarrow> u8 list" where
  "put_dirent name inum = [lo8 inum, hi8 inum] @ take DIRSIZ (takeWhile (\<lambda>c. c \<noteq> 0) name @ replicate DIRSIZ 0)"

definition namecmp :: "u8 list \<Rightarrow> u8 list \<Rightarrow> int" where
  "namecmp s t = strncmp (zt s) (zt t) DIRSIZ"

function dirlookup_from :: "nat \<Rightarrow> u8 list \<Rightarrow> nat \<Rightarrow> ((nat \<times> nat) option, 'z kfs_scheme) km" where
  "dirlookup_from dp name off =
     seq (gets (\<lambda>s. d_size (i_d (inodes s dp)))) (\<lambda>size.
     if off < unat size then
       seq (readi dp (of_nat off) (of_nat DIRENT)) (\<lambda>(r, de).
       if r \<noteq> int DIRENT then panic ''dirlookup read''
       else if de_inum de = 0 then dirlookup_from dp name (off + DIRENT)
       else if namecmp name (de_name de) = 0 then
         seq (inode_at dp) (\<lambda>x.
         seq (iget (i_dev x) (unat (de_inum de))) (\<lambda>ip.
         ret (Some (ip, off))))
       else dirlookup_from dp name (off + DIRENT))
     else ret None)"
  by auto
termination
proof (relation "measure (\<lambda>(dp, name, off). 2 ^ 32 - off)")
  fix dp off x and name :: "u8 list" and size :: u32
  assume "off < unat size"
  then have "off < 2 ^ 32" using u32_bound [of size] by simp
  then show "((dp, name, off + DIRENT), (dp, name, off)) \<in> measure (\<lambda>(dp, name, off). 2 ^ 32 - off)"
    by (simp add: DIRENT_def)
  then show "((dp, name, off + DIRENT), (dp, name, off)) \<in> measure (\<lambda>(dp, name, off). 2 ^ 32 - off)" .
qed simp

declare dirlookup_from.simps [simp del]

definition dirlookup :: "nat \<Rightarrow> u8 list \<Rightarrow> ((nat \<times> nat) option, 'z kfs_scheme) km" where
  "dirlookup dp name =
     seq (inode_at dp) (\<lambda>x.
     if d_type (i_d x) \<noteq> T_DIR then panic ''dirlookup not DIR''
     else dirlookup_from dp name 0)"

text \<open>The offset of the first unused entry, or the end of the directory.\<close>

function free_dirent :: "nat \<Rightarrow> nat \<Rightarrow> (nat, 'z kfs_scheme) km" where
  "free_dirent dp off =
     seq (gets (\<lambda>s. d_size (i_d (inodes s dp)))) (\<lambda>size.
     if off < unat size then
       seq (readi dp (of_nat off) (of_nat DIRENT)) (\<lambda>(r, de).
       if r \<noteq> int DIRENT then panic ''dirlink read''
       else if de_inum de = 0 then ret off
       else free_dirent dp (off + DIRENT))
     else ret off)"
  by auto
termination
proof (relation "measure (\<lambda>(dp, off). 2 ^ 32 - off)")
  fix dp off x and size :: u32
  assume "off < unat size"
  then have "off < 2 ^ 32" using u32_bound [of size] by simp
  then show "((dp, off + DIRENT), (dp, off)) \<in> measure (\<lambda>(dp, off). 2 ^ 32 - off)"
    by (simp add: DIRENT_def)
qed simp

declare free_dirent.simps [simp del]

definition dirlink :: "nat \<Rightarrow> u8 list \<Rightarrow> nat \<Rightarrow> (int, 'z kfs_scheme) km" where
  "dirlink dp name inum =
     seq (dirlookup dp name) (\<lambda>r. case r of
       Some (ip, _) \<Rightarrow> seq (iput ip) (\<lambda>_. ret (- 1))
     | None \<Rightarrow>
         seq (free_dirent dp 0) (\<lambda>off.
         seq (writei dp (zt (put_dirent name (of_nat inum))) (of_nat off) (of_nat DIRENT)) (\<lambda>w.
         if w \<noteq> int DIRENT then panic ''dirlink'' else ret 0)))"

section \<open>Paths\<close>

text \<open>The next element, cut to \<open>DIRSIZ\<close> bytes, and the rest of the path; 47 is the slash.\<close>

definition skipelem :: "u8 list \<Rightarrow> (u8 list \<times> u8 list) option" where
  "skipelem path =
     (let p = dropWhile (\<lambda>c. c = 47) path in
      if p = [] then None
      else Some (take DIRSIZ (takeWhile (\<lambda>c. c \<noteq> 47) p), dropWhile (\<lambda>c. c = 47) (dropWhile (\<lambda>c. c \<noteq> 47) p)))"

lemma length_dropWhile_less: "xs \<noteq> [] \<Longrightarrow> P (hd xs) \<Longrightarrow> length (dropWhile P xs) < length xs"
  by (cases xs) (auto intro: le_imp_less_Suc length_dropWhile_le)

lemma skipelem_shorter:
  assumes "skipelem path = Some (name, rest)"
  shows "length rest < length path"
proof -
  let ?p = "dropWhile (\<lambda>c. c = 47) path"
  have ne: "?p \<noteq> []" and r: "rest = dropWhile (\<lambda>c. c = 47) (dropWhile (\<lambda>c. c \<noteq> 47) ?p)"
    using assms by (auto simp: skipelem_def Let_def split: if_splits)
  have "length rest \<le> length (dropWhile (\<lambda>c. c \<noteq> 47) ?p)" unfolding r by (rule length_dropWhile_le)
  also have "\<dots> < length ?p" using ne hd_dropWhile [OF ne] by (intro length_dropWhile_less) auto
  also have "\<dots> \<le> length path" by (rule length_dropWhile_le)
  finally show ?thesis .
qed

text \<open>The loop of \<open>namex\<close>; the answer carries the inode and the last element copied to \<open>name\<close>.\<close>

function namex_loop :: "nat \<Rightarrow> u8 list \<Rightarrow> bool \<Rightarrow> u8 list \<Rightarrow> ((nat \<times> u8 list) option, 'z kfs_scheme) km" where
  "namex_loop ip path nameiparent nm =
     (case skipelem path of
        None \<Rightarrow> if nameiparent then seq (iput ip) (\<lambda>_. ret None) else ret (Some (ip, nm))
      | Some (name, rest) \<Rightarrow>
          seq (ilock ip) (\<lambda>_.
          seq (inode_at ip) (\<lambda>x.
          if d_type (i_d x) \<noteq> T_DIR then seq (iunlockput ip) (\<lambda>_. ret None)
          else if nameiparent \<and> rest = [] then seq (iunlock ip) (\<lambda>_. ret (Some (ip, name)))
          else
            seq (dirlookup ip name) (\<lambda>r. case r of
              None \<Rightarrow> seq (iunlockput ip) (\<lambda>_. ret None)
            | Some (next, _) \<Rightarrow>
                seq (iunlockput ip) (\<lambda>_.
                namex_loop next rest nameiparent name)))))"
  by pat_completeness auto
termination
  by (relation "measure (\<lambda>(ip, path, np, nm). length path)") (auto intro: skipelem_shorter)

declare namex_loop.simps [simp del]

definition namex :: "u8 list \<Rightarrow> bool \<Rightarrow> ((nat \<times> u8 list) option, 'z kfs_scheme) km" where
  "namex path nameiparent =
     (if path \<noteq> [] \<and> hd path = 47 then
        seq (iget ROOTDEV ROOTINO) (\<lambda>ip. namex_loop ip path nameiparent [])
      else
        seq myproc (\<lambda>mp. case mp of None \<Rightarrow> panic ''trap'' | Some p \<Rightarrow>
        seq (gets (\<lambda>s. p_cwd (ptable s p))) (\<lambda>cwd. case cwd of None \<Rightarrow> panic ''trap'' | Some d \<Rightarrow>
        seq (idup d) (\<lambda>ip. namex_loop ip path nameiparent []))))"

definition namei :: "u8 list \<Rightarrow> (nat option, 'z kfs_scheme) km" where
  "namei path = seq (namex path False) (\<lambda>r. ret (map_option fst r))"

definition nameiparent :: "u8 list \<Rightarrow> ((nat \<times> u8 list) option, 'z kfs_scheme) km" where
  "nameiparent path = namex path True"

section \<open>Splitting paths\<close>

text \<open>The reference: the non-empty pieces between slashes.\<close>

fun pieces :: "u8 list \<Rightarrow> u8 list \<Rightarrow> u8 list list" where
  "pieces acc [] = (if acc = [] then [] else [acc])"
| "pieces acc (c # cs) = (if c = 47 then (if acc = [] then [] else [acc]) @ pieces [] cs else pieces (acc @ [c]) cs)"

text \<open>All elements of a path, as the loop of \<open>namex\<close> takes them off one after the other.\<close>

function path_elems :: "u8 list \<Rightarrow> u8 list list" where
  "path_elems path = (case skipelem path of None \<Rightarrow> [] | Some (name, rest) \<Rightarrow> name # path_elems rest)"
  by auto
termination
  by (relation "measure length") (auto intro: skipelem_shorter)

declare path_elems.simps [simp del]

lemma pieces_drop_slashes: "pieces [] (dropWhile (\<lambda>c. c = 47) p) = pieces [] p"
  by (induction p) auto

lemma pieces_element:
  assumes "acc \<noteq> [] \<or> p \<noteq> [] \<and> hd p \<noteq> 47"
  shows "pieces acc p = (acc @ takeWhile (\<lambda>c. c \<noteq> 47) p) # pieces [] (dropWhile (\<lambda>c. c \<noteq> 47) p)"
  using assms by (induction p arbitrary: acc) auto

lemma skipelem_pieces:
  "skipelem path = (case pieces [] path of [] \<Rightarrow> None | e # es \<Rightarrow>
     Some (take DIRSIZ e, dropWhile (\<lambda>c. c = 47) (dropWhile (\<lambda>c. c \<noteq> 47) (dropWhile (\<lambda>c. c = 47) path))))"
proof -
  let ?p = "dropWhile (\<lambda>c. c = 47) path"
  show ?thesis
  proof (cases "?p = []")
    case True
    then have "pieces [] path = []" by (metis pieces_drop_slashes pieces.simps(1))
    then show ?thesis using True by (simp add: skipelem_def)
  next
    case False
    then have "pieces [] ?p = takeWhile (\<lambda>c. c \<noteq> 47) ?p # pieces [] (dropWhile (\<lambda>c. c \<noteq> 47) ?p)"
      using pieces_element [of "[]" ?p] hd_dropWhile [OF False] by simp
    then show ?thesis using False pieces_drop_slashes [of path] by (auto simp: skipelem_def Let_def)
  qed
qed

text \<open>
  C38. Path names (\<open>skipelem\<close> in \<open>fs.c\<close>): taking elements off a path one by one yields exactly the non-empty pieces between
  slashes, in order, each cut to \<open>DIRSIZ\<close> bytes, whatever leading, doubled or trailing slashes there are; the remaining path never
  starts with a slash, so it is empty exactly after the last element.
\<close>

theorem skipelem_splits_path:
  "path_elems path = map (take DIRSIZ) (pieces [] path)
   \<and> (case skipelem path of None \<Rightarrow> pieces [] path = []
      | Some (name, rest) \<Rightarrow> pieces [] rest = tl (pieces [] path) \<and> take 1 rest \<noteq> [47]
          \<and> (rest = []) = (length (pieces [] path) = 1))"
proof -
  have step: "pieces [] rest = tl (pieces [] path) \<and> (rest = [] \<or> hd rest \<noteq> 47) \<and> pieces [] path \<noteq> []
      \<and> name = take DIRSIZ (hd (pieces [] path))"
    if "skipelem path = Some (name, rest)" for path name rest
  proof -
    let ?p = "dropWhile (\<lambda>c. c = 47) path"
    have ne: "?p \<noteq> []" and r: "rest = dropWhile (\<lambda>c. c = 47) (dropWhile (\<lambda>c. c \<noteq> 47) ?p)"
      and nm: "name = take DIRSIZ (takeWhile (\<lambda>c. c \<noteq> 47) ?p)"
      using that by (auto simp: skipelem_def Let_def split: if_splits)
    have p: "pieces [] path = takeWhile (\<lambda>c. c \<noteq> 47) ?p # pieces [] (dropWhile (\<lambda>c. c \<noteq> 47) ?p)"
      using pieces_element [of "[]" ?p] hd_dropWhile [OF ne] ne pieces_drop_slashes [of path] by simp
    have "rest = [] \<or> hd rest \<noteq> 47" unfolding r using hd_dropWhile by blast
    moreover have "pieces [] rest = tl (pieces [] path)"
      unfolding p r list.sel by (rule pieces_drop_slashes)
    ultimately show ?thesis using p nm by simp
  qed
  have all: "path_elems path = map (take DIRSIZ) (pieces [] path)"
  proof (induction path rule: path_elems.induct)
    case (1 path)
    show ?case
    proof (cases "skipelem path")
      case None
      then show ?thesis
        by (subst path_elems.simps) (simp add: skipelem_pieces split: list.splits)
    next
      case (Some a)
      then obtain name rest where e: "skipelem path = Some (name, rest)" by (cases a) auto
      have "path_elems path = name # path_elems rest" by (subst path_elems.simps) (simp add: e)
      moreover have "path_elems rest = map (take DIRSIZ) (pieces [] rest)" using "1" e by simp
      ultimately show ?thesis using step [OF e] by (cases "pieces [] path") simp_all
    qed
  qed
  have none: "pieces [] path = []" if "skipelem path = None"
    using that by (auto simp: skipelem_pieces split: list.splits)
  have last: "(rest = []) = (length (pieces [] path) = 1)" if e: "skipelem path = Some (name, rest)" for name rest
  proof -
    have "pieces [] rest = [] \<longleftrightarrow> rest = []"
      using step [OF e] pieces_element [of "[]" rest] by (cases "rest = []") auto
    then show ?thesis using step [OF e] by (cases "pieces [] path") auto
  qed
  show ?thesis
  proof (cases "skipelem path")
    case None
    then show ?thesis using all none by simp
  next
    case (Some a)
    then obtain name rest where e: "skipelem path = Some (name, rest)" by (cases a) auto
    from step [OF e] all last [OF e] e show ?thesis by (cases rest) auto
  qed
qed

section \<open>The contents of a file\<close>

text \<open>The disk block that holds block \<open>bn\<close> of the file, 0 if there is none.\<close>

definition ind_block :: "'z kfs_scheme \<Rightarrow> nat \<Rightarrow> u32" where
  "ind_block s ip = d_addrs (i_d (inodes s ip)) NDIRECT"

definition fblock :: "'z kfs_scheme \<Rightarrow> nat \<Rightarrow> nat \<Rightarrow> u32" where
  "fblock s ip bn =
     (if bn < NDIRECT then d_addrs (i_d (inodes s ip)) bn
      else if ind_block s ip = 0 then 0
      else get32 (block_view s (unat (ind_block s ip))) (4 * (bn - NDIRECT)))"

definition file_byte :: "'z kfs_scheme \<Rightarrow> nat \<Rightarrow> nat \<Rightarrow> u8" where
  "file_byte s ip i = block_view s (unat (fblock s ip (i div BSIZE))) ! (i mod BSIZE)"

text \<open>The first \<open>N\<close> blocks of the file are allocated, on the disk.\<close>

definition mapped :: "'z kfs_scheme \<Rightarrow> nat \<Rightarrow> nat \<Rightarrow> bool" where
  "mapped s ip N \<longleftrightarrow> i_dev (inodes s ip) = ROOTDEV \<and> N \<le> MAXFILE
     \<and> (\<forall>bn<N. fblock s ip bn \<noteq> 0 \<and> unat (fblock s ip bn) < disksize s
          \<and> (NDIRECT \<le> bn \<longrightarrow> unat (ind_block s ip) < disksize s))"

lemma mapped_le: "mapped s ip N \<Longrightarrow> M \<le> N \<Longrightarrow> mapped s ip M"
  unfolding mapped_def by (meson less_le_trans le_trans)

lemma fs_step_file:
  assumes "fs_step s t" "block_view t = block_view s"
  shows "fblock t = fblock s" "file_byte t = file_byte s" "mapped t = mapped s"
  using fs_step_frame [OF assms(1)] assms(2)
  by (simp_all add: fblock_def ind_block_def file_byte_def mapped_def fun_eq_iff)

lemma bmap_mapped:
  fixes s :: "'z kfs_scheme"
  assumes "txn s Map.empty k" "mapped s ip N" "bn < N"
  obtains t where "bmap ip bn s = Ret (fblock s ip bn) t" "txn t Map.empty k" "fs_step s t" "block_view t = block_view s"
proof (cases "bn < NDIRECT")
  case True
  then have "bmap ip bn s = Ret (fblock s ip bn) s"
    using assms(2,3) by (auto simp: bmap_def addr_or_alloc_def addr_of_def mapped_def fblock_def kmonad_simps)
  then show thesis using that assms(1) by simp
next
  case False
  have nz: "fblock s ip bn \<noteq> 0" "i_dev (inodes s ip) = ROOTDEV" "unat (ind_block s ip) < disksize s" "bn - NDIRECT < NINDIRECT"
    using assms(2,3) False by (auto simp: mapped_def MAXFILE_def)
  then have ind: "ind_block s ip \<noteq> 0" using False by (auto simp: fblock_def)
  obtain i t where t: "bread ROOTDEV (unat (ind_block s ip)) s = Ret i t"
    "txn t (Map.empty(unat (ind_block s ip) \<mapsto> i)) k" "fs_step s t"
    "block_view t = block_view s" "bdata i t = Ret (block_view s (unat (ind_block s ip))) t"
    by (rule txn_breadE [OF assms(1) _ _ nz(3)]) simp_all
  obtain u where u: "brelse i t = Ret () u" "txn u Map.empty k" "fs_step t u" "block_view u = block_view t"
    by (rule txn_brelseE [OF t(2)]) simp_all
  have a: "addr_or_alloc ip NDIRECT s = Ret (ind_block s ip) s"
    using ind by (simp add: addr_or_alloc_def addr_of_def ind_block_def kmonad_simps)
  have "bmap ip bn s = Ret (fblock s ip bn) u"
    using False nz a t(1,5) u(1) ind
    by (simp add: bmap_def inode_at_def Let_def fblock_def)
  then show thesis using that u t fs_step_trans [OF t(3) u(3)] by simp
qed

lemma offset_in_block:
  fixes off j B :: nat
  assumes "off mod B + j < B"
  shows "(off + j) div B = off div B" "(off + j) mod B = off mod B + j"
proof -
  have "(q * B + r) div B = q \<and> (q * B + r) mod B = r" if "r < B" for q r using that by simp
  from this [OF assms, of "off div B"]
  show "(off + j) div B = off div B" "(off + j) mod B = off mod B + j"
    by (simp_all only: add.assoc [symmetric] div_mult_mod_eq)
qed

text \<open>The part of a file inside one block.\<close>

lemma slice_file:
  assumes "length (block_view s (unat (fblock s ip (off div BSIZE)))) = BSIZE" "m \<le> BSIZE - off mod BSIZE"
  shows "slice (block_view s (unat (fblock s ip (off div BSIZE)))) (off mod BSIZE) m = map (file_byte s ip) [off ..< off + m]"
proof (rule nth_equalityI)
  show "length (slice (block_view s (unat (fblock s ip (off div BSIZE)))) (off mod BSIZE) m)
      = length (map (file_byte s ip) [off ..< off + m])"
    using assms by (simp add: slice_def)
  fix j assume "j < length (slice (block_view s (unat (fblock s ip (off div BSIZE)))) (off mod BSIZE) m)"
  then have j: "j < m" "off mod BSIZE + j < BSIZE" using assms(2) by (auto simp: slice_def)
  show "slice (block_view s (unat (fblock s ip (off div BSIZE)))) (off mod BSIZE) m ! j
      = map (file_byte s ip) [off ..< off + m] ! j"
    using j assms offset_in_block [OF j(2)] by (simp add: slice_def file_byte_def)
qed

lemma readi_loop_ok:
  fixes s :: "'z kfs_scheme"
  assumes "txn s Map.empty k" "mapped s ip N" "off + n \<le> N * BSIZE" "\<forall>b. length (block_view s b) = BSIZE"
  shows "returns (readi_loop ip off n s) (\<lambda>bs t. bs = map (file_byte s ip) [off ..< off + n]
    \<and> txn t Map.empty k \<and> fs_step s t \<and> block_view t = block_view s)"
  using assms
proof (induction n arbitrary: off s rule: less_induct)
  case (less n)
  show ?case
  proof (cases "n = 0")
    case True
    then show ?thesis using less.prems(1) by (subst readi_loop.simps) simp
  next
    case False
    let ?m = "min n (BSIZE - off mod BSIZE)"
    have pos: "0 < BSIZE" by (simp add: const_defs)
    then have m: "0 < ?m" "?m \<le> n" "?m \<le> BSIZE - off mod BSIZE" using False by auto
    have bn: "off div BSIZE < N" using less.prems(3) False by (intro less_mult_imp_div_less) simp
    obtain t where t: "bmap ip (off div BSIZE) s = Ret (fblock s ip (off div BSIZE)) t" "txn t Map.empty k" "fs_step s t"
      "block_view t = block_view s"
      by (rule bmap_mapped [OF less.prems(1,2) bn])
    let ?b = "unat (fblock s ip (off div BSIZE))"
    have b: "?b < disksize t" "i_dev (inodes s ip) = ROOTDEV"
      using less.prems(2) bn fs_step_frame(3) [OF t(3)] by (auto simp: mapped_def)
    obtain i u where u: "bread ROOTDEV ?b t = Ret i u" "txn u (Map.empty(?b \<mapsto> i)) k" "fs_step t u"
      "block_view u = block_view t" "bdata i u = Ret (block_view t ?b) u"
      by (rule txn_breadE [OF t(2) _ _ b(1)]) simp_all
    obtain v where v: "brelse i u = Ret () v" "txn v Map.empty k" "fs_step u v" "block_view v = block_view u"
      by (rule txn_brelseE [OF u(2)]) simp_all
    have sv: "fs_step s v" "block_view v = block_view s"
      using fs_step_trans [OF t(3) fs_step_trans [OF u(3) v(3)]] t(4) u(4) v(4) by simp_all
    note f = fs_step_file [OF sv]
    have "returns (readi_loop ip (off + ?m) (n - ?m) v) (\<lambda>bs w. bs = map (file_byte v ip) [off + ?m ..< off + ?m + (n - ?m)]
        \<and> txn w Map.empty k \<and> fs_step v w \<and> block_view w = block_view v)"
      by (rule less.IH) (use m v less.prems f sv(2) in simp_all)
    then obtain w where w: "readi_loop ip (off + ?m) (n - ?m) v
        = Ret (map (file_byte s ip) [off + ?m ..< off + ?m + (n - ?m)]) w"
      "txn w Map.empty k" "fs_step v w" "block_view w = block_view v"
      unfolding f by (elim returnsE conjE) blast
    have sl: "slice (block_view t ?b) (off mod BSIZE) ?m = map (file_byte s ip) [off ..< off + ?m]"
      unfolding t(4) by (rule slice_file) (use less.prems(4) m in auto)
    have "[off ..< off + ?m] @ [off + ?m ..< off + ?m + (n - ?m)] = [off ..< off + n]"
      using m(2) upt_add_eq_append [of off "off + ?m" "n - ?m"] by simp
    then have "map (file_byte s ip) [off ..< off + ?m] @ map (file_byte s ip) [off + ?m ..< off + ?m + (n - ?m)]
        = map (file_byte s ip) [off ..< off + n]"
      by (metis map_append)
    then have "readi_loop ip off n s = Ret (map (file_byte s ip) [off ..< off + n]) w"
      using False t(1) u(1,5) v(1) w(1) b(2) sl
      by (subst readi_loop.simps) (simp add: inode_at_def Let_def)
    then show ?thesis using w fs_step_trans [OF sv(1) w(3)] sv(2) by simp
  qed
qed

lemma readi_ok:
  fixes s :: "'z kfs_scheme"
  assumes "txn s Map.empty k" "mapped s ip N" "\<forall>b. length (block_view s b) = BSIZE"
    "d_type (i_d (inodes s ip)) \<noteq> T_DEV" "unat (d_size (i_d (inodes s ip))) \<le> N * BSIZE"
  shows "if off > d_size (i_d (inodes s ip)) \<or> off + n < off then readi ip off n s = Ret (- 1, []) s
    else returns (readi ip off n s) (\<lambda>(r, bs) t. r = int (length bs)
      \<and> bs = map (file_byte s ip) [unat off ..< min (unat off + unat n) (unat (d_size (i_d (inodes s ip))))]
      \<and> txn t Map.empty k \<and> fs_step s t \<and> block_view t = block_view s)"
proof (cases "off > d_size (i_d (inodes s ip)) \<or> off + n < off")
  case True
  then show ?thesis using assms(4) by (simp add: readi_def inode_at_def)
next
  case False
  let ?sz = "d_size (i_d (inodes s ip))"
  define n' where "n' = (if off + n > ?sz then ?sz - off else n)"
  have "\<not> off + n < off" using False by simp
  then have add: "unat (off + n) = unat off + unat n"
    using unat_add_lem [of off n] by (metis no_olen_add_nat not_le)
  have le: "unat off \<le> unat ?sz" using False by (simp add: not_less word_le_nat_alt)
  have n': "unat off + unat n' = min (unat off + unat n) (unat ?sz)"
    using add le by (auto simp: n'_def word_less_nat_alt unat_sub word_le_nat_alt min_def)
  have "N * BSIZE \<le> MAXFILE * BSIZE" using assms(2) by (simp add: mapped_def)
  then have "unat n' < 2 ^ 31" using n' assms(5) by (simp add: const_defs)
  then have sn: "sint n' = int (unat n')" by (simp add: sint_u32 word_le_nat_alt)
  have inN: "unat off + unat n' \<le> N * BSIZE" using n' assms(5) by linarith
  obtain t where t: "readi_loop ip (unat off) (unat n') s = Ret (map (file_byte s ip) [unat off ..< unat off + unat n']) t"
    "txn t Map.empty k" "fs_step s t" "block_view t = block_view s"
    using readi_loop_ok [OF assms(1,2) inN assms(3)] by (elim returnsE conjE) blast
  have "readi ip off n s = Ret (sint n', map (file_byte s ip) [unat off ..< unat off + unat n']) t"
    using False assms(4) t(1) by (simp add: readi_def inode_at_def Let_def n'_def)
  then show ?thesis using False t(2-4) sn unfolding n' [symmetric] by simp
qed

text \<open>
  C14. Reading a file (\<open>readi\<close> in \<open>fs.c\<close>): for a regular file whose blocks are allocated, \<open>readi\<close> of \<open>n\<close> bytes at offset \<open>off\<close> delivers the bytes of the
  file from \<open>off\<close> up to \<open>off + n\<close> or the end of the file, and their number, across direct and indirect
  blocks, and changes no block. An offset behind the end of the file or a range that wraps around gives -1.
\<close>

theorem readi_returns_contents:
  fixes s :: "'z kfs_scheme"
  assumes "txn s Map.empty k" "mapped s ip N" "\<forall>b. length (block_view s b) = BSIZE"
    "d_type (i_d (inodes s ip)) \<noteq> T_DEV" "unat (d_size (i_d (inodes s ip))) \<le> N * BSIZE"
  shows "if off > d_size (i_d (inodes s ip)) \<or> off + n < off then readi ip off n s = Ret (- 1, []) s
    else returns (readi ip off n s) (\<lambda>(r, bs) t. r = int (length bs)
      \<and> bs = map (file_byte s ip) [unat off ..< min (unat off + unat n) (unat (d_size (i_d (inodes s ip))))]
      \<and> txn t Map.empty k \<and> fs_step s t \<and> block_view t = block_view s)"
  using assms by (rule readi_ok)

text \<open>The example file system with inode 2 read into the inode cache.\<close>

definition demo_file :: kfs where
  "demo_file = demo_fs\<lparr>inodes := (inodes demo_fs)(0 := (inodes demo_fs 0)\<lparr>i_valid := True, i_d := get_dinode demo_inodes 2\<rparr>)\<rparr>"

lemma demo_file_txn: "k \<le> 26 \<Longrightarrow> txn demo_file Map.empty k" "block_view demo_file = demo_disk"
proof -
  have "txn demo_file L k = txn demo_fs L k" "block_view demo_file = block_view demo_fs" for L k
    by (simp_all add: demo_file_def txn_def cache_inv_def caches_def pinned_def block_view_def logged_def fun_eq_iff split: option.split)
  then show "k \<le> 26 \<Longrightarrow> txn demo_file Map.empty k" "block_view demo_file = demo_disk"
    by (simp_all add: demo_fs_txn demo_fs_view)
qed

lemma demo_inode: "i_d (inodes demo_file 0) = \<lparr>d_type = 2, d_major = 0, d_minor = 0, d_nlink = 1, d_size = 600,
      d_addrs = (\<lambda>i. if i = 0 then 60 else if i = 1 then 61 else 0)\<rparr>"
  by (simp add: demo_file_def demo_inodes_def get_dinode_same BSIZE_def NDIRECT_def)

lemma demo_mapped: "mapped demo_file 0 2"
proof -
  have "fblock demo_file 0 0 = 60" "fblock demo_file 0 1 = 61"
    by (simp_all add: fblock_def demo_inode NDIRECT_def)
  then show ?thesis
    by (auto simp: mapped_def demo_file_def demo_fs_sel const_defs less_2_cases_iff)
qed

theorem readi_returns_contents_witness:
  "returns (readi 0 500 1000 demo_file) (\<lambda>(r, bs) t. r = 100 \<and> bs = replicate 100 7)"
proof -
  have *: "if (500::u32) > d_size (i_d (inodes demo_file 0)) \<or> (500::u32) + 1000 < 500 then readi 0 500 1000 demo_file = Ret (- 1, []) demo_file
    else returns (readi 0 500 1000 demo_file) (\<lambda>(r, bs) t. r = int (length bs)
      \<and> bs = map (file_byte demo_file 0) [unat (500::u32) ..< min (unat (500::u32) + unat (1000::u32)) (unat (d_size (i_d (inodes demo_file 0))))]
      \<and> txn t Map.empty 3 \<and> fs_step demo_file t \<and> block_view t = block_view demo_file)"
    by (rule readi_returns_contents [where N = 2])
      (simp_all add: demo_file_txn demo_mapped demo_length demo_inode const_defs)
  have b: "file_byte demo_file 0 i = 7" if "500 \<le> i" "i < 600" for i
  proof -
    have "i div BSIZE = 0 \<or> i div BSIZE = 1" using that by (simp add: BSIZE_def) linarith
    moreover have "fblock demo_file 0 0 = 60" "fblock demo_file 0 1 = 61"
      by (simp_all add: fblock_def demo_inode NDIRECT_def)
    moreover have "i mod BSIZE < 512" by (simp add: BSIZE_def)
    ultimately show ?thesis by (auto simp: file_byte_def demo_file_txn demo_disk_def)
  qed
  have "map (file_byte demo_file 0) [500 ..< 600] = replicate 100 7"
    by (rule replicate_eqI) (use b in auto)
  with * show ?thesis by (simp add: demo_inode) (erule returns_mono, auto)
qed

section \<open>Writing\<close>

lemma txn_inodes [simp]: "txn (inodes_update f s) L k = txn s L k"
  and view_inodes [simp]: "block_view (inodes_update f s) = block_view s"
  by (simp_all add: txn_def cache_inv_def caches_def pinned_def block_view_def logged_def fun_eq_iff split: option.split)

lemma length_splice [simp]: "off + length xs \<le> length d \<Longrightarrow> length (splice d off xs) = length d"
  by (simp add: splice_def)

lemma splice_nth:
  assumes "off + length xs \<le> length d" "j < length d"
  shows "splice d off xs ! j = (if off \<le> j \<and> j < off + length xs then xs ! (j - off) else d ! j)"
  using assms by (auto simp: splice_def nth_append)

text \<open>No two blocks of the file share a disk block, and none is its indirect block.\<close>

definition separate :: "'z kfs_scheme \<Rightarrow> nat \<Rightarrow> nat \<Rightarrow> bool" where
  "separate s ip N \<longleftrightarrow> inj_on (fblock s ip) {..<N} \<and> (NDIRECT < N \<longrightarrow> ind_block s ip \<notin> fblock s ip ` {..<N})"

text \<open>One block of the file changed.\<close>

lemma write_block_file:
  fixes s u :: "'z kfs_scheme"
  assumes "mapped s ip N" "separate s ip N" "\<forall>b. length (block_view s b) = BSIZE" "inodes u = inodes s"
    and bn: "off div BSIZE < N" and m: "m \<le> BSIZE - off mod BSIZE"
    and v: "block_view u = (block_view s)(unat (fblock s ip (off div BSIZE)) :=
        splice (block_view s (unat (fblock s ip (off div BSIZE)))) (off mod BSIZE) (map src [0 ..< m]))"
  shows "bn < N \<Longrightarrow> fblock u ip bn = fblock s ip bn" "\<forall>b. length (block_view u b) = BSIZE"
    "i < N * BSIZE \<Longrightarrow> file_byte u ip i = (if off \<le> i \<and> i < off + m then src (i - off) else file_byte s ip i)"
proof -
  let ?b = "unat (fblock s ip (off div BSIZE))"
  have pos: "0 < BSIZE" by (simp add: const_defs)
  then have len: "off mod BSIZE + length (map src [0 ..< m]) \<le> length (block_view s ?b)"
    using assms(3) m mod_less_divisor [OF pos, of off] by simp
  have fb: "fblock u ip bn = fblock s ip bn" if "bn < N" for bn
  proof (cases "bn < NDIRECT")
    case False
    then have "ind_block s ip \<noteq> fblock s ip (off div BSIZE)"
      using assms(2) that bn by (auto simp: separate_def)
    then have "block_view u (unat (ind_block s ip)) = block_view s (unat (ind_block s ip))"
      unfolding v by (simp add: word_unat_eq_iff)
    moreover have "ind_block u ip = ind_block s ip" by (simp add: ind_block_def assms(4))
    ultimately show ?thesis using False by (simp add: fblock_def)
  qed (simp add: fblock_def assms(4))
  then show "bn < N \<Longrightarrow> fblock u ip bn = fblock s ip bn" .
  show "\<forall>b. length (block_view u b) = BSIZE" using assms(3) v len by simp
  assume i: "i < N * BSIZE"
  then have iN: "i div BSIZE < N" by (rule less_mult_imp_div_less)
  have mi: "i mod BSIZE < BSIZE" using pos by simp
  show "file_byte u ip i = (if off \<le> i \<and> i < off + m then src (i - off) else file_byte s ip i)"
  proof (cases "i div BSIZE = off div BSIZE")
    case True
    have eqs: "i = off div BSIZE * BSIZE + i mod BSIZE" "off = off div BSIZE * BSIZE + off mod BSIZE"
      using True by (metis div_mult_mod_eq)+
    have c: "off mod BSIZE \<le> i mod BSIZE \<and> i mod BSIZE < off mod BSIZE + m \<longleftrightarrow> off \<le> i \<and> i < off + m"
      "i mod BSIZE - off mod BSIZE = i - off"
      using eqs by linarith+
    have "file_byte u ip i = splice (block_view s ?b) (off mod BSIZE) (map src [0 ..< m]) ! (i mod BSIZE)"
      using True fb [OF iN] v by (simp add: file_byte_def)
    also have "\<dots> = (if off \<le> i \<and> i < off + m then map src [0 ..< m] ! (i - off) else block_view s ?b ! (i mod BSIZE))"
      using splice_nth [OF len] mi assms(3) c by simp
    also have "\<dots> = (if off \<le> i \<and> i < off + m then src (i - off) else file_byte s ip i)"
      using True by (auto simp: file_byte_def)
    finally show ?thesis .
  next
    case False
    then have "fblock s ip (i div BSIZE) \<noteq> fblock s ip (off div BSIZE)"
      using assms(2) iN bn by (auto simp: separate_def inj_on_def)
    then have "file_byte u ip i = file_byte s ip i"
      using fb [OF iN] v by (simp add: file_byte_def word_unat_eq_iff)
    moreover have "\<not> (off \<le> i \<and> i < off + m)"
    proof
      assume a: "off \<le> i \<and> i < off + m"
      then have "off mod BSIZE + (i - off) < BSIZE" using m by linarith
      from offset_in_block(1) [OF this] a False show False by simp
    qed
    ultimately show ?thesis by auto
  qed
qed

text \<open>The number of blocks that hold the \<open>n\<close> bytes from \<open>off\<close> on.\<close>

definition nblocks :: "nat \<Rightarrow> nat \<Rightarrow> nat" where
  "nblocks off n = (if n = 0 then 0 else (off + n - 1) div BSIZE + 1 - off div BSIZE)"

lemma nblocks_step:
  assumes "0 < n" and m: "m = min n (BSIZE - off mod BSIZE)"
  shows "nblocks off n = Suc (nblocks (off + m) (n - m))"
proof (cases "n \<le> BSIZE - off mod BSIZE")
  case True
  then have "off mod BSIZE + (n - 1) < BSIZE" using assms(1) mod_less_divisor [of BSIZE off]
    by (simp add: const_defs)
  from offset_in_block(1) [OF this] True m assms(1) show ?thesis by (simp add: nblocks_def)
next
  case False
  have pos: "0 < BSIZE" by (simp add: const_defs)
  have m': "m = BSIZE - off mod BSIZE" using False m by simp
  have le: "off mod BSIZE \<le> BSIZE" using mod_less_divisor [OF pos, of off] by simp
  have "off + m = Suc (off div BSIZE) * BSIZE"
    using m' le div_mult_mod_eq [of off BSIZE] unfolding mult_Suc by linarith
  then have d: "(off + m) div BSIZE = Suc (off div BSIZE)" using pos by simp
  have "(off + m) div BSIZE \<le> (off + n - 1) div BSIZE" using False m' by (intro div_le_mono) simp
  moreover have "m < n" "off + m + (n - m) = off + n" using False m' by simp_all
  ultimately show ?thesis using d assms(1) by (simp add: nblocks_def)
qed

lemma writei_loop_ok:
  fixes s :: "'z kfs_scheme"
  assumes "txn s Map.empty (nblocks off n + k)" "mapped s ip N" "separate s ip N" "off + n \<le> N * BSIZE"
    "\<forall>b. length (block_view s b) = BSIZE"
  shows "returns (writei_loop ip src off n s) (\<lambda>_ t. txn t Map.empty k \<and> fs_step s t
    \<and> (\<forall>bn<N. fblock t ip bn = fblock s ip bn) \<and> (\<forall>b. length (block_view t b) = BSIZE)
    \<and> (\<forall>b. b \<notin> (\<lambda>bn. unat (fblock s ip bn)) ` {..<N} \<longrightarrow> block_view t b = block_view s b)
    \<and> (\<forall>i<N * BSIZE. file_byte t ip i = (if off \<le> i \<and> i < off + n then src (i - off) else file_byte s ip i)))"
  using assms
proof (induction n arbitrary: off src s rule: less_induct)
  case (less n)
  show ?case
  proof (cases "n = 0")
    case True
    then show ?thesis using less.prems by (subst writei_loop.simps) (auto simp: nblocks_def)
  next
    case False
    define m where "m = min n (BSIZE - off mod BSIZE)"
    have pos: "0 < BSIZE" by (simp add: const_defs)
    then have m: "0 < m" "m \<le> n" "m \<le> BSIZE - off mod BSIZE" using False by (auto simp: m_def)
    have bn: "off div BSIZE < N" using less.prems(4) False by (intro less_mult_imp_div_less) simp
    have k: "nblocks off n + k = Suc (nblocks (off + m) (n - m) + k)"
      using nblocks_step [of n m off] False by (simp add: m_def)
    obtain t where t: "bmap ip (off div BSIZE) s = Ret (fblock s ip (off div BSIZE)) t"
      "txn t Map.empty (Suc (nblocks (off + m) (n - m) + k))" "fs_step s t" "block_view t = block_view s"
      by (rule bmap_mapped [OF less.prems(1) [unfolded k] less.prems(2) bn])
    let ?b = "unat (fblock s ip (off div BSIZE))"
    let ?d = "splice (block_view s ?b) (off mod BSIZE) (map src [0 ..< m])"
    have b: "?b < disksize t" "i_dev (inodes s ip) = ROOTDEV"
      using less.prems(2) bn fs_step_frame(3) [OF t(3)] by (auto simp: mapped_def)
    obtain i u where u: "bread ROOTDEV ?b t = Ret i u" "txn u (Map.empty(?b \<mapsto> i)) (Suc (nblocks (off + m) (n - m) + k))"
      "fs_step t u" "block_view u = block_view t" "bdata i u = Ret (block_view t ?b) u"
      by (rule txn_breadE [OF t(2) _ _ b(1)]) simp_all
    obtain w where w: "log_data i ?d u = Ret () w" "txn w (Map.empty(?b \<mapsto> i)) (nblocks (off + m) (n - m) + k)"
      "fs_step u w" "block_view w = (block_view u)(?b := ?d)"
      by (rule txn_log_dataE [OF u(2), of ?b i]) simp_all
    obtain v where v: "brelse i w = Ret () v" "txn v Map.empty (nblocks (off + m) (n - m) + k)" "fs_step w v"
      "block_view v = block_view w"
      by (rule txn_brelseE [OF w(2)]) simp_all
    have sv: "fs_step s v" using fs_step_trans [OF t(3) fs_step_trans [OF u(3) fs_step_trans [OF w(3) v(3)]]] .
    have vv: "block_view v = (block_view s)(?b := ?d)" using t(4) u(4) w(4) v(4) by simp
    note wb = write_block_file [OF less.prems(2,3,5) fs_step_frame(2) [OF sv] bn m(3) vv]
    have fN: "fblock v ip bn = fblock s ip bn" if "bn < N" for bn using wb(1) that .
    have iv: "ind_block v ip = ind_block s ip" using fs_step_frame(2) [OF sv] by (simp add: ind_block_def)
    have mv: "mapped v ip N"
      using less.prems(2) fN iv fs_step_frame [OF sv] unfolding mapped_def by auto
    have "fblock v ip ` {..<N} = fblock s ip ` {..<N}" using fN by (intro image_cong) auto
    moreover have "inj_on (fblock v ip) {..<N} = inj_on (fblock s ip) {..<N}" using fN by (intro inj_on_cong) auto
    ultimately have sepv: "separate v ip N" using less.prems(3) iv by (simp add: separate_def)
    have ih: "returns (writei_loop ip (\<lambda>i. src (m + i)) (off + m) (n - m) v) (\<lambda>_ z. txn z Map.empty k \<and> fs_step v z
      \<and> (\<forall>bn<N. fblock z ip bn = fblock v ip bn) \<and> (\<forall>b. length (block_view z b) = BSIZE)
      \<and> (\<forall>b. b \<notin> (\<lambda>bn. unat (fblock v ip bn)) ` {..<N} \<longrightarrow> block_view z b = block_view v b)
      \<and> (\<forall>i<N * BSIZE. file_byte z ip i = (if off + m \<le> i \<and> i < off + m + (n - m)
           then src (m + (i - (off + m))) else file_byte v ip i)))"
      by (rule less.IH) (use m v(2) mv sepv less.prems(4) wb(2) in simp_all)
    have ev: "writei_loop ip src off n s = writei_loop ip (\<lambda>i. src (m + i)) (off + m) (n - m) v"
      using False t(1,4) u(1,5) w(1) v(1) b(2)
      by (subst writei_loop.simps) (simp add: inode_at_def Let_def m_def)
    have img: "(\<lambda>bn. unat (fblock v ip bn)) ` {..<N} = (\<lambda>bn. unat (fblock s ip bn)) ` {..<N}"
      using fN by (intro image_cong) auto
    have oth: "block_view v b = block_view s b" if "b \<notin> (\<lambda>bn. unat (fblock s ip bn)) ` {..<N}" for b
      using that bn vv by auto
    show ?thesis
      unfolding ev
    proof (rule returns_mono [OF ih], elim conjE, intro conjI)
      fix z :: "'z kfs_scheme"
      assume z: "fs_step v z" "\<forall>bn<N. fblock z ip bn = fblock v ip bn"
        "\<forall>b. b \<notin> (\<lambda>bn. unat (fblock v ip bn)) ` {..<N} \<longrightarrow> block_view z b = block_view v b"
        "\<forall>i<N * BSIZE. file_byte z ip i = (if off + m \<le> i \<and> i < off + m + (n - m)
           then src (m + (i - (off + m))) else file_byte v ip i)"
      show "fs_step s z" using fs_step_trans [OF sv z(1)] .
      show "\<forall>bn<N. fblock z ip bn = fblock s ip bn" using z(2) fN by simp
      show "\<forall>b. b \<notin> (\<lambda>bn. unat (fblock s ip bn)) ` {..<N} \<longrightarrow> block_view z b = block_view s b"
        using z(3) oth unfolding img by auto
      show "\<forall>i<N * BSIZE. file_byte z ip i = (if off \<le> i \<and> i < off + n then src (i - off) else file_byte s ip i)"
        using z(4) wb(3) m(2) by auto
    qed
  qed
qed

lemma txn_Suc: "txn s L (Suc k) \<Longrightarrow> txn s L k"
  by (auto simp: txn_def)

lemma iupdate_ok:
  fixes s :: "'z kfs_scheme"
  assumes "txn s L (Suc k)" "card (dom L) \<le> 3" "i_dev (inodes s ip) = ROOTDEV"
    "IBLOCK (i_inum (inodes s ip)) (sb s) \<notin> dom L" "IBLOCK (i_inum (inodes s ip)) (sb s) < disksize s"
  obtains t where "iupdate ip s = Ret () t" "txn t L k" "fs_step s t"
    "block_view t = (block_view s)(IBLOCK (i_inum (inodes s ip)) (sb s) :=
       put_dinode (block_view s (IBLOCK (i_inum (inodes s ip)) (sb s))) (i_inum (inodes s ip) mod IPB) (i_d (inodes s ip)))"
proof -
  let ?x = "inodes s ip" and ?B = "IBLOCK (i_inum (inodes s ip)) (sb s)"
  obtain i t where t: "bread ROOTDEV ?B s = Ret i t" "txn t (L(?B \<mapsto> i)) (Suc k)" "fs_step s t"
    "block_view t = block_view s" "bdata i t = Ret (block_view s ?B) t"
    by (rule txn_breadE [OF assms(1,4,2,5)])
  let ?d = "put_dinode (block_view s ?B) (i_inum ?x mod IPB) (i_d ?x)"
  obtain u where u: "log_data i ?d t = Ret () u" "txn u (L(?B \<mapsto> i)) k" "fs_step t u" "block_view u = (block_view t)(?B := ?d)"
    by (rule txn_log_dataE [OF t(2), of ?B i]) simp_all
  obtain v where v: "brelse i u = Ret () v" "txn v L k" "fs_step u v" "block_view v = block_view u"
    by (rule txn_brelseE [OF u(2) assms(4)])
  have "iupdate ip s = Ret () v"
    using t(1,5) u(1) v(1) assms(3) fs_step_frame(2) [OF t(3)] by (simp add: iupdate_def inode_at_def)
  then show thesis
    using that v(2) fs_step_trans [OF t(3) fs_step_trans [OF u(3) v(3)]] v(4) u(4) t(4) by simp
qed

text \<open>The inode's own block is not a block of the file.\<close>

definition inode_apart :: "'z kfs_scheme \<Rightarrow> nat \<Rightarrow> nat \<Rightarrow> bool" where
  "inode_apart s ip N \<longleftrightarrow> (let b = IBLOCK (i_inum (inodes s ip)) (sb s) in
     b < disksize s \<and> b \<notin> (\<lambda>bn. unat (fblock s ip bn)) ` {..<N} \<and> b \<noteq> unat (ind_block s ip))"

text \<open>The state of the file when the new size has been recorded.\<close>

lemma writei_grow:
  fixes s :: "'z kfs_scheme"
  assumes "txn s Map.empty (Suc k)" "mapped s ip N" "inode_apart s ip N"
  obtains t where "seq (upd_inode ip (\<lambda>x. x\<lparr>i_d := (i_d x)\<lparr>d_size := z\<rparr>\<rparr>)) (\<lambda>_. iupdate ip) s = Ret () t"
    "txn t Map.empty k" "d_size (i_d (inodes t ip)) = z" "\<And>i. i < N * BSIZE \<Longrightarrow> file_byte t ip i = file_byte s ip i"
proof -
  let ?s = "s\<lparr>inodes := (inodes s)(ip := (inodes s ip)\<lparr>i_d := (i_d (inodes s ip))\<lparr>d_size := z\<rparr>\<rparr>)\<rparr>"
  let ?B = "IBLOCK (i_inum (inodes s ip)) (sb s)"
  obtain t where t: "iupdate ip ?s = Ret () t" "txn t Map.empty k" "fs_step ?s t"
    "block_view t = (block_view ?s)(IBLOCK (i_inum (inodes ?s ip)) (sb ?s) :=
       put_dinode (block_view ?s (IBLOCK (i_inum (inodes ?s ip)) (sb ?s))) (i_inum (inodes ?s ip) mod IPB) (i_d (inodes ?s ip)))"
    by (rule iupdate_ok [of ?s Map.empty k ip])
      (use assms in \<open>simp_all add: mapped_def inode_apart_def Let_def\<close>)
  have v: "block_view t b = block_view s b" if "b \<noteq> ?B" for b using t(4) that by simp
  have i: "inodes t ip = (inodes s ip)\<lparr>i_d := (i_d (inodes s ip))\<lparr>d_size := z\<rparr>\<rparr>" using fs_step_frame(2) [OF t(3)] by simp
  have fb: "fblock t ip bn = fblock s ip bn" for bn
    using assms(3) v [of "unat (ind_block s ip)"] i by (simp add: fblock_def ind_block_def inode_apart_def Let_def)
  have "file_byte t ip j = file_byte s ip j" if "j < N * BSIZE" for j
  proof -
    have "j div BSIZE < N" using that by (rule less_mult_imp_div_less)
    then have "unat (fblock s ip (j div BSIZE)) \<noteq> ?B"
      using assms(3) unfolding inode_apart_def Let_def by (metis image_eqI lessThan_iff)
    then show ?thesis using v fb by (simp add: file_byte_def)
  qed
  with that [OF _ t(2)] t(1) i show thesis by (simp add: upd_inode_def)
qed


lemma demo_fblock: "bn < 2 \<Longrightarrow> fblock demo_file 0 bn = of_nat (60 + bn)"
  by (auto simp: fblock_def demo_inode NDIRECT_def less_2_cases_iff)

lemma demo_file_sel:
  "i_inum (inodes demo_file 0) = 2" "sb_inodestart (sb demo_file) = 32" "disksize demo_file = 1000"
  by (simp_all add: demo_file_def demo_fs_sel demo_sb_def)


section \<open>Looking up names\<close>

lemma strncmp_zero:
  "strncmp (zt xs) (zt ys) n = 0 \<longleftrightarrow> take n (takeWhile (\<lambda>c. c \<noteq> 0) xs) = take n (takeWhile (\<lambda>c. c \<noteq> 0) ys)"
proof (induction n arbitrary: xs ys)
  case (Suc n)
  have z: "(\<lambda>i. zt xs (Suc i)) = zt (tl xs)" for xs
    by (cases xs) (auto simp: zt_def fun_eq_iff)
  have u: "(uint a = uint b) = (a = b)" "(uint a = 0) = (a = 0)" for a b :: u8
    by (simp_all add: word_uint_eq_iff)
  show ?case
    using Suc by (cases xs; cases ys) (auto simp: z u)
qed simp

text \<open>Entry \<open>k\<close> of the directory, and the reference search.\<close>

definition dirent_at :: "'z kfs_scheme \<Rightarrow> nat \<Rightarrow> nat \<Rightarrow> u8 list" where
  "dirent_at s dp k = map (file_byte s dp) [DIRENT * k ..< DIRENT * k + DIRENT]"

definition name_of :: "u8 list \<Rightarrow> u8 list" where
  "name_of bs = take DIRSIZ (takeWhile (\<lambda>c. c \<noteq> 0) bs)"

definition entry_named :: "'z kfs_scheme \<Rightarrow> nat \<Rightarrow> u8 list \<Rightarrow> nat \<Rightarrow> bool" where
  "entry_named s dp name k \<longleftrightarrow> de_inum (dirent_at s dp k) \<noteq> 0 \<and> name_of (de_name (dirent_at s dp k)) = name_of name"

lemma namecmp_zero: "namecmp s t = 0 \<longleftrightarrow> name_of t = name_of s"
  by (auto simp: namecmp_def strncmp_zero name_of_def)

text \<open>A directory: its size is a number of entries, and its blocks are allocated.\<close>

definition dir_ok :: "'z kfs_scheme \<Rightarrow> nat \<Rightarrow> nat \<Rightarrow> bool" where
  "dir_ok s dp n \<longleftrightarrow> d_type (i_d (inodes s dp)) = T_DIR \<and> unat (d_size (i_d (inodes s dp))) = DIRENT * n
     \<and> (\<exists>N. mapped s dp N \<and> DIRENT * n \<le> N * BSIZE) \<and> (\<forall>b. length (block_view s b) = BSIZE)"

lemma read_dirent:
  fixes s :: "'z kfs_scheme"
  assumes "txn s Map.empty m" "dir_ok s dp n" "k < n"
  obtains t where "readi dp (of_nat (DIRENT * k)) (of_nat DIRENT) s = Ret (int DIRENT, dirent_at s dp k) t"
    "txn t Map.empty m" "fs_step s t" "block_view t = block_view s"
proof -
  let ?sz = "d_size (i_d (inodes s dp))"
  obtain N where N: "mapped s dp N" "unat ?sz \<le> N * BSIZE" "d_type (i_d (inodes s dp)) \<noteq> T_DEV"
    "\<forall>b. length (block_view s b) = BSIZE" "unat ?sz = DIRENT * n"
    using assms(2) by (auto simp: dir_ok_def const_defs)
  have le: "DIRENT * k + DIRENT \<le> unat ?sz" using assms(3) N(5) by (simp add: DIRENT_def)
  then have "DIRENT * k < 2 ^ 32" "DIRENT < 2 ^ 32" using u32_bound [of ?sz] by (simp_all add: DIRENT_def)
  then have off: "unat (of_nat (DIRENT * k) :: u32) = DIRENT * k" "unat (of_nat DIRENT :: u32) = DIRENT"
    by (simp_all only: unat_of_nat_small)
  have "unat (of_nat (DIRENT * k) + of_nat DIRENT :: u32) = DIRENT * k + DIRENT"
    using le u32_bound [of ?sz] off by (simp add: unat_word_ariths)
  then have c: "\<not> ((of_nat (DIRENT * k) :: u32) > ?sz \<or> (of_nat (DIRENT * k) :: u32) + of_nat DIRENT < of_nat (DIRENT * k))"
    using off le by (simp add: word_less_nat_alt del: of_nat_mult)
  show thesis
    using readi_ok [OF assms(1) N(1,4,3,2), of "of_nat (DIRENT * k)" "of_nat DIRENT"] c off le that
    by (auto elim!: returnsE simp: dirent_at_def min_absorb1 simp del: of_nat_mult)
qed

text \<open>The search from entry \<open>k\<close> on.\<close>

definition found_from :: "'z kfs_scheme \<Rightarrow> nat \<Rightarrow> u8 list \<Rightarrow> nat \<Rightarrow> nat \<Rightarrow> nat option" where
  "found_from s dp name k n = find (entry_named s dp name) [k ..< n]"

lemma fs_step_dir:
  assumes "fs_step s t" "block_view t = block_view s"
  shows "dirent_at t = dirent_at s" "entry_named t = entry_named s" "dir_ok t = dir_ok s" "found_from t = found_from s"
proof -
  note f = fs_step_file [OF assms] fs_step_frame [OF assms(1)]
  show d: "dirent_at t = dirent_at s" unfolding dirent_at_def f ..
  show e: "entry_named t = entry_named s" unfolding entry_named_def d ..
  show "dir_ok t = dir_ok s" unfolding dir_ok_def f assms(2) ..
  show "found_from t = found_from s" unfolding found_from_def e ..
qed

lemma dirlookup_from_ok:
  fixes s :: "'z kfs_scheme"
  assumes "txn s Map.empty m" "dir_ok s dp n" "k \<le> n"
  shows "\<exists>t. txn t Map.empty m \<and> fs_step s t \<and> block_view t = block_view s
    \<and> dirlookup_from dp name (DIRENT * k) s = (case found_from s dp name k n of None \<Rightarrow> Ret None t
        | Some j \<Rightarrow> seq (iget (i_dev (inodes s dp)) (unat (de_inum (dirent_at s dp j)))) (\<lambda>ip. ret (Some (ip, DIRENT * j))) t)"
  using assms
proof (induction "n - k" arbitrary: k s)
  case 0
  then have "dirlookup_from dp name (DIRENT * k) s = Ret None s"
    by (subst dirlookup_from.simps) (simp add: dir_ok_def)
  moreover have "found_from s dp name k n = None" using 0 by (simp add: found_from_def)
  ultimately show ?case using 0 by (intro exI [of _ s]) simp
next
  case (Suc d)
  then have k: "k < n" by simp
  obtain t where t: "readi dp (of_nat (DIRENT * k)) (of_nat DIRENT) s = Ret (int DIRENT, dirent_at s dp k) t"
    "txn t Map.empty m" "fs_step s t" "block_view t = block_view s"
    by (rule read_dirent [OF Suc.prems(1,2) k])
  note f = fs_step_dir [OF t(3,4)] fs_step_frame(2) [OF t(3)]
  have sz: "DIRENT * k < unat (d_size (i_d (inodes s dp)))"
    using Suc.prems(2) k by (simp add: dir_ok_def DIRENT_def)
  have up: "[k ..< n] = k # [Suc k ..< n]" using k by (rule upt_conv_Cons)
  show ?case
  proof (cases "entry_named s dp name k")
    case True
    then have "dirlookup_from dp name (DIRENT * k) s
        = seq (iget (i_dev (inodes s dp)) (unat (de_inum (dirent_at s dp k)))) (\<lambda>ip. ret (Some (ip, DIRENT * k))) t"
      using sz t(1) f by (subst dirlookup_from.simps) (simp add: entry_named_def namecmp_zero inode_at_def)
    moreover have "found_from s dp name k n = Some k" using True up by (simp add: found_from_def)
    ultimately show ?thesis using t by (intro exI [of _ t]) simp
  next
    case False
    have "dirlookup_from dp name (DIRENT * k) s = dirlookup_from dp name (DIRENT * Suc k) t"
      using sz t(1) f False by (subst dirlookup_from.simps) (auto simp: entry_named_def namecmp_zero add.commute)
    moreover have "found_from s dp name k n = found_from s dp name (Suc k) n"
      using False up by (simp add: found_from_def)
    moreover have "\<exists>u. txn u Map.empty m \<and> fs_step t u \<and> block_view u = block_view t
      \<and> dirlookup_from dp name (DIRENT * Suc k) t = (case found_from t dp name (Suc k) n of None \<Rightarrow> Ret None u
        | Some j \<Rightarrow> seq (iget (i_dev (inodes t dp)) (unat (de_inum (dirent_at t dp j)))) (\<lambda>ip. ret (Some (ip, DIRENT * j))) u)"
      using Suc.hyps Suc.prems t f k by (intro Suc.hyps(1)) auto
    ultimately show ?thesis
      unfolding f using t(4) fs_step_trans [OF t(3)] by (metis (no_types, lifting))
  qed
qed

section \<open>References to inodes\<close>

interpretation il: sleeplock_cell "inode_lock ip" "upd_inode_lock ip" "ChInodeLock ip" for ip
  by unfold_locales (simp_all add: inode_lock_def upd_inode_lock_def)

text \<open>No two entries in use are for the same inode.\<close>

definition icache_ok :: "'z kfs_scheme \<Rightarrow> bool" where
  "icache_ok s \<longleftrightarrow> (\<forall>i<NINODE. 0 \<le> i_ref (inodes s i))
     \<and> (\<forall>i<NINODE. \<forall>j<NINODE. 0 < i_ref (inodes s i) \<and> 0 < i_ref (inodes s j)
          \<and> i_dev (inodes s i) = i_dev (inodes s j) \<and> i_inum (inodes s i) = i_inum (inodes s j) \<longrightarrow> i = j)"

text \<open>The number of references to an inode.\<close>

definition holds :: "inode \<Rightarrow> nat \<Rightarrow> nat \<Rightarrow> int" where
  "holds x dev inum = (if i_dev x = dev \<and> i_inum x = inum then i_ref x else 0)"

definition refs :: "'z kfs_scheme \<Rightarrow> nat \<Rightarrow> nat \<Rightarrow> int" where
  "refs s dev inum = (\<Sum>i<NINODE. holds (inodes s i) dev inum)"

lemma refs_update:
  assumes "inodes t = (inodes s)(ip := x)" "ip < NINODE"
  shows "refs t dev inum = refs s dev inum - holds (inodes s ip) dev inum + holds x dev inum"
proof -
  have "refs t dev inum = holds x dev inum + (\<Sum>i\<in>{..<NINODE} - {ip}. holds (inodes t i) dev inum)"
    using assms by (simp add: refs_def sum.remove [of "{..<NINODE}" ip])
  also have "(\<Sum>i\<in>{..<NINODE} - {ip}. holds (inodes t i) dev inum) = (\<Sum>i\<in>{..<NINODE} - {ip}. holds (inodes s i) dev inum)"
    using assms(1) by (intro sum.cong) auto
  also have "\<dots> = refs s dev inum - holds (inodes s ip) dev inum"
    using assms(2) by (simp add: refs_def sum.remove [of "{..<NINODE}" ip])
  finally show ?thesis by simp
qed

lemma icache_ok_sub:
  assumes "icache_ok s" "\<And>i. i < NINODE \<Longrightarrow> 0 \<le> i_ref (inodes t i)"
    "\<And>i. i < NINODE \<Longrightarrow> 0 < i_ref (inodes t i) \<Longrightarrow> 0 < i_ref (inodes s i)
      \<and> i_dev (inodes t i) = i_dev (inodes s i) \<and> i_inum (inodes t i) = i_inum (inodes s i)"
  shows "icache_ok t"
  unfolding icache_ok_def
proof (intro conjI allI impI)
  fix i j
  assume "i < NINODE" "j < NINODE" and a: "0 < i_ref (inodes t i) \<and> 0 < i_ref (inodes t j)
    \<and> i_dev (inodes t i) = i_dev (inodes t j) \<and> i_inum (inodes t i) = i_inum (inodes t j)"
  with assms(1) assms(3) [of i] assms(3) [of j] show "i = j"
    unfolding icache_ok_def by metis
qed (rule assms(2))

lemma i_ref_update_by [simp]:
  "i_ref_update (\<lambda>n. n + 1) x = x\<lparr>i_ref := i_ref x + 1\<rparr>" "i_ref_update (\<lambda>n. n - 1) x = x\<lparr>i_ref := i_ref x - 1\<rparr>"
  by (cases x; simp)+

lemma iget_ok:
  fixes s :: "'z kfs_scheme"
  assumes "icache_ok s" "LIcache \<notin> held s" "0 < refs s dev inum \<or> (\<exists>i<NINODE. i_ref (inodes s i) = 0)"
  shows "returns (iget dev inum s) (\<lambda>ip t. ip < NINODE \<and> i_dev (inodes t ip) = dev \<and> i_inum (inodes t ip) = inum
    \<and> 0 < i_ref (inodes t ip) \<and> icache_ok t \<and> t = s\<lparr>inodes := inodes t\<rparr>
    \<and> (\<forall>d n. refs t d n = refs s d n + (if d = dev \<and> n = inum then 1 else 0)))"
proof (cases "find (\<lambda>i. i_ref (inodes s i) > 0 \<and> i_dev (inodes s i) = dev \<and> i_inum (inodes s i) = inum) [0 ..< NINODE]")
  case (Some ip)
  let ?t = "s\<lparr>inodes := (inodes s)(ip := (inodes s ip)\<lparr>i_ref := i_ref (inodes s ip) + 1\<rparr>)\<rparr>"
  have ip: "ip < NINODE" "0 < i_ref (inodes s ip)" "i_dev (inodes s ip) = dev" "i_inum (inodes s ip) = inum"
    using find_SomeD [OF Some] by auto
  have "iget dev inum s = Ret ip ?t"
    using Some assms(2) by (simp add: iget_def upd_inode_def)
  moreover have "icache_ok ?t"
    using ip assms(1) by (intro icache_ok_sub [OF assms(1)]) (auto simp: icache_ok_def)
  moreover have "refs ?t d n = refs s d n + (if d = dev \<and> n = inum then 1 else 0)" for d n
    using refs_update [of ?t s ip _ d n] ip by (simp add: holds_def)
  ultimately show ?thesis using ip by simp
next
  case None
  then have none: "\<not> (0 < i_ref (inodes s i) \<and> i_dev (inodes s i) = dev \<and> i_inum (inodes s i) = inum)" if "i < NINODE" for i
    using that by (auto simp: find_None_iff)
  have "refs s dev inum \<le> 0"
    unfolding refs_def using none by (intro sum_nonpos) (auto simp: holds_def not_less)
  then have "\<exists>i\<in>set [0 ..< NINODE]. i_ref (inodes s i) = 0" using assms(3) by auto
  then obtain ip where f: "find (\<lambda>i. i_ref (inodes s i) = 0) [0 ..< NINODE] = Some ip"
    using find_ex [of "[0 ..< NINODE]" "\<lambda>i. i_ref (inodes s i) = 0"] by blast
  have ip: "ip < NINODE" "i_ref (inodes s ip) = 0" using find_SomeD [OF f] by auto
  let ?x = "(inodes s ip)\<lparr>i_dev := dev, i_inum := inum, i_ref := 1, i_valid := False\<rparr>"
  let ?t = "s\<lparr>inodes := (inodes s)(ip := ?x)\<rparr>"
  have "iget dev inum s = Ret ip ?t"
    using None f assms(2) by (simp add: iget_def upd_inode_def)
  moreover have "icache_ok ?t" using assms(1) none unfolding icache_ok_def by auto
  moreover have "refs ?t d n = refs s d n + (if d = dev \<and> n = inum then 1 else 0)" for d n
    using refs_update [of ?t s ip ?x d n] ip by (simp add: holds_def)
  ultimately show ?thesis using ip by simp
qed

text \<open>\<open>iput\<close> of a reference that is not the last one, or of an inode that has links or is not loaded.\<close>

lemma iput_keeps:
  fixes s :: "'z kfs_scheme"
  assumes "icache_ok s" "held s = {}" "curproc s = Some p" "ip < NINODE" "0 < i_ref (inodes s ip)"
    "\<not> sl_locked (i_lock (inodes s ip))"
    "\<not> (i_valid (inodes s ip) \<and> d_nlink (i_d (inodes s ip)) = 0 \<and> i_ref (inodes s ip) = 1)"
  shows "returns (iput ip s) (\<lambda>_ t. icache_ok t \<and> held t = {}
    \<and> (\<forall>d n. refs t d n = refs s d n - (if d = i_dev (inodes s ip) \<and> n = i_inum (inodes s ip) then 1 else 0))
    \<and> block_view t = block_view s)"
proof -
  let ?x = "inodes s ip"
  let ?lk = "\<lparr>sl_locked = True, sl_pid = p_pid (ptable s p)\<rparr>"
  let ?s1 = "upd_inode_lock ip (\<lambda>_. ?lk) s"
  have a: "acquiresleep (inode_lock ip) (upd_inode_lock ip) (ChInodeLock ip) s = Ret () ?s1"
    by (rule il.acquiresleep_free) (use assms in \<open>auto simp: inode_lock_def\<close>)
  have r: "releasesleep (upd_inode_lock ip) (ChInodeLock ip) ?s1
      = Ret () (upd_inode_lock ip (\<lambda>_. initsleeplock) (?s1\<lparr>ptable := woken (ChInodeLock ip) (ptable ?s1)\<rparr>))"
    by (rule il.releasesleep_apply) (use assms in \<open>simp_all add: upd_inode_lock_def\<close>)
  let ?y = "?x\<lparr>i_lock := initsleeplock, i_ref := i_ref ?x - 1\<rparr>"
  let ?t = "s\<lparr>ptable := woken (ChInodeLock ip) (ptable s), inodes := (inodes s)(ip := ?y)\<rparr>"
  have x1: "inode_at ip ?s1 = Ret (?x\<lparr>i_lock := ?lk\<rparr>) ?s1" by (simp add: inode_at_def upd_inode_lock_def)
  have mid: "(if i_valid (?x\<lparr>i_lock := ?lk\<rparr>) \<and> d_nlink (i_d (?x\<lparr>i_lock := ?lk\<rparr>)) = 0 then
            seq (acquire LIcache) (\<lambda>_.
            seq (inode_at ip) (\<lambda>y.
            seq (release LIcache) (\<lambda>_.
            if i_ref y = 1 then
              seq (itrunc ip) (\<lambda>_.
              seq (upd_inode ip (\<lambda>x. x\<lparr>i_d := (i_d x)\<lparr>d_type := 0\<rparr>\<rparr>)) (\<lambda>_.
              seq (iupdate ip) (\<lambda>_.
              upd_inode ip (i_valid_update (\<lambda>_. False)))))
            else ret ())))
          else ret ()) ?s1 = Ret () ?s1"
    using assms(2,7) by (simp add: inode_at_def upd_inode_lock_def)
  have "iput ip s = Ret () ?t"
    using assms(2)
    by (simp only: iput_def seq_apply a obind_simps x1 mid r) (simp add: upd_inode_lock_def upd_inode_def)
  moreover have "icache_ok ?t"
    using assms(1,5) by (intro icache_ok_sub [OF assms(1)]) (auto simp: icache_ok_def)
  moreover have "refs ?t d n = refs s d n - (if d = i_dev ?x \<and> n = i_inum ?x then 1 else 0)" for d n
    using refs_update [of ?t s ip ?y d n] assms(4) by (simp add: holds_def)
  moreover have "block_view ?t = block_view s"
    by (simp add: block_view_def caches_def fun_eq_iff split: option.split)
  ultimately show ?thesis using assms(2) by simp
qed

text \<open>
  C26. Reference counts of inodes (\<open>iget\<close>, \<open>idup\<close>, \<open>iput\<close> in \<open>fs.c\<close>): the inode cache never has two entries in use for the same inode; \<open>iget\<close> returns an entry
  for the inode asked for, the one already cached if there is one, and adds one reference to that inode and to no
  other; \<open>idup\<close> adds one; \<open>iput\<close> takes one away when it is not the last reference to an unlinked inode.
\<close>

theorem inode_reference_counts:
  fixes s :: "'z kfs_scheme"
  assumes "icache_ok s" "held s = {}" "curproc s = Some p"
  shows "(0 < refs s dev inum \<or> (\<exists>i<NINODE. i_ref (inodes s i) = 0) \<longrightarrow>
      returns (iget dev inum s) (\<lambda>ip t. ip < NINODE \<and> i_dev (inodes t ip) = dev \<and> i_inum (inodes t ip) = inum
        \<and> 0 < i_ref (inodes t ip) \<and> icache_ok t
        \<and> (\<forall>d n. refs t d n = refs s d n + (if d = dev \<and> n = inum then 1 else 0))))
    \<and> (ip < NINODE \<and> 0 < i_ref (inodes s ip) \<longrightarrow>
      returns (idup ip s) (\<lambda>jp t. jp = ip \<and> icache_ok t
        \<and> (\<forall>d n. refs t d n = refs s d n + holds ((inodes s ip)\<lparr>i_ref := 1\<rparr>) d n)))
    \<and> (ip < NINODE \<and> 0 < i_ref (inodes s ip) \<and> \<not> sl_locked (i_lock (inodes s ip))
        \<and> \<not> (i_valid (inodes s ip) \<and> d_nlink (i_d (inodes s ip)) = 0 \<and> i_ref (inodes s ip) = 1) \<longrightarrow>
      returns (iput ip s) (\<lambda>_ t. icache_ok t
        \<and> (\<forall>d n. refs t d n = refs s d n - holds ((inodes s ip)\<lparr>i_ref := 1\<rparr>) d n)))"
proof (intro conjI impI)
  assume room: "0 < refs s dev inum \<or> (\<exists>i<NINODE. i_ref (inodes s i) = 0)"
  show "returns (iget dev inum s) (\<lambda>ip t. ip < NINODE \<and> i_dev (inodes t ip) = dev \<and> i_inum (inodes t ip) = inum
        \<and> 0 < i_ref (inodes t ip) \<and> icache_ok t
        \<and> (\<forall>d n. refs t d n = refs s d n + (if d = dev \<and> n = inum then 1 else 0)))"
    by (rule returns_mono [OF iget_ok [OF assms(1) _ room]]) (use assms(2) in simp_all)
next
  assume ip: "ip < NINODE \<and> 0 < i_ref (inodes s ip)"
  let ?t = "s\<lparr>inodes := (inodes s)(ip := (inodes s ip)\<lparr>i_ref := i_ref (inodes s ip) + 1\<rparr>)\<rparr>"
  have "idup ip s = Ret ip ?t" using assms(2) by (simp add: idup_def upd_inode_def)
  moreover have "icache_ok ?t"
    using ip assms(1) by (intro icache_ok_sub [OF assms(1)]) (auto simp: icache_ok_def)
  moreover have "refs ?t d n = refs s d n + holds ((inodes s ip)\<lparr>i_ref := 1\<rparr>) d n" for d n
    using refs_update [of ?t s ip _ d n] ip by (simp add: holds_def)
  ultimately show "returns (idup ip s) (\<lambda>jp t. jp = ip \<and> icache_ok t
        \<and> (\<forall>d n. refs t d n = refs s d n + holds ((inodes s ip)\<lparr>i_ref := 1\<rparr>) d n))" by simp
next
  assume a: "ip < NINODE \<and> 0 < i_ref (inodes s ip) \<and> \<not> sl_locked (i_lock (inodes s ip))
        \<and> \<not> (i_valid (inodes s ip) \<and> d_nlink (i_d (inodes s ip)) = 0 \<and> i_ref (inodes s ip) = 1)"
  show "returns (iput ip s) (\<lambda>_ t. icache_ok t
        \<and> (\<forall>d n. refs t d n = refs s d n - holds ((inodes s ip)\<lparr>i_ref := 1\<rparr>) d n))"
    by (rule returns_mono [OF iput_keeps [OF assms]]) (use a in \<open>auto simp: holds_def\<close>)
qed

lemma demo_icache: "icache_ok demo_fs"
  by (auto simp: icache_ok_def demo_fs_sel split: if_splits)

theorem inode_reference_counts_witness:
  "returns (iget ROOTDEV 2 demo_fs) (\<lambda>ip t. i_inum (inodes t ip) = 2 \<and> refs t ROOTDEV 2 = refs demo_fs ROOTDEV 2 + 1)"
proof -
  have "\<exists>i<NINODE. i_ref (inodes demo_fs i) = 0" by (rule exI [of _ 1]) (simp add: demo_fs_sel const_defs)
  then have "returns (iget ROOTDEV 2 demo_fs) (\<lambda>ip t. ip < NINODE \<and> i_dev (inodes t ip) = ROOTDEV \<and> i_inum (inodes t ip) = 2
        \<and> 0 < i_ref (inodes t ip) \<and> icache_ok t
        \<and> (\<forall>d n. refs t d n = refs demo_fs d n + (if d = ROOTDEV \<and> n = 2 then 1 else 0)))"
    using inode_reference_counts [OF demo_icache, of 0 ROOTDEV 2 0] by (simp add: demo_fs_sel)
  then show ?thesis by (rule returns_mono) simp
qed

text \<open>
  C27. Looking up a name (\<open>dirlookup\<close> in \<open>fs.c\<close>): in a directory of \<open>n\<close> entries the call answers with the first entry in use whose name, NUL-padded to
  \<open>DIRSIZ\<close> bytes on disk, is the name looked for, cut to \<open>DIRSIZ\<close> bytes: it returns a reference to the inode of that entry and the offset
  of the entry. Without such an entry it returns no inode. No block changes.
\<close>

theorem dirlookup_first_entry:
  fixes s :: "'z kfs_scheme"
  assumes "txn s Map.empty m" "dir_ok s dp n" "icache_ok s" "\<exists>i<NINODE. i_ref (inodes s i) = 0" "i_dev (inodes s dp) = ROOTDEV"
  shows "case find (entry_named s dp name) [0 ..< n] of
      None \<Rightarrow> returns (dirlookup dp name s) (\<lambda>r t. r = None \<and> block_view t = block_view s)
    | Some k \<Rightarrow> returns (dirlookup dp name s) (\<lambda>r t. \<exists>ip. r = Some (ip, DIRENT * k) \<and> i_dev (inodes t ip) = ROOTDEV
        \<and> i_inum (inodes t ip) = unat (de_inum (dirent_at s dp k)) \<and> 0 < i_ref (inodes t ip)
        \<and> icache_ok t \<and> block_view t = block_view s)"
proof -
  have ty: "d_type (i_d (inodes s dp)) = T_DIR" using assms(2) by (simp add: dir_ok_def)
  obtain t where t: "txn t Map.empty m" "fs_step s t" "block_view t = block_view s"
    "dirlookup_from dp name (DIRENT * 0) s = (case found_from s dp name 0 n of None \<Rightarrow> Ret None t
        | Some j \<Rightarrow> seq (iget (i_dev (inodes s dp)) (unat (de_inum (dirent_at s dp j)))) (\<lambda>ip. ret (Some (ip, DIRENT * j))) t)"
    using dirlookup_from_ok [OF assms(1,2), of 0 name] by blast
  note f = fs_step_frame [OF t(2)]
  have d: "dirlookup dp name s = dirlookup_from dp name (DIRENT * 0) s"
    using ty by (simp add: dirlookup_def inode_at_def)
  show ?thesis
  proof (cases "find (entry_named s dp name) [0 ..< n]")
    case None
    then show ?thesis using d t by (simp add: found_from_def)
  next
    case (Some k)
    have "icache_ok t" using assms(3) f by (simp add: icache_ok_def)
    moreover have "LIcache \<notin> held t" using txnD(9) [OF t(1)] by simp
    ultimately obtain ip u where u: "iget ROOTDEV (unat (de_inum (dirent_at s dp k))) t = Ret ip u"
      "i_dev (inodes u ip) = ROOTDEV" "i_inum (inodes u ip) = unat (de_inum (dirent_at s dp k))"
      "0 < i_ref (inodes u ip)" "icache_ok u" "u = t\<lparr>inodes := inodes u\<rparr>"
      using iget_ok [of t ROOTDEV "unat (de_inum (dirent_at s dp k))"] assms(4) f by (auto elim!: returnsE)
    have "block_view u = block_view t" using u(6) view_inodes by metis
    then show ?thesis using d t u(1-5) Some assms(5) by (auto simp: found_from_def)
  qed
qed

text \<open>The example file system with the root directory in entry 1 of the inode cache.\<close>

definition demo_dir :: kfs where
  "demo_dir = demo_fs\<lparr>inodes := (inodes demo_fs)(1 := (inodes demo_fs 0)\<lparr>i_inum := 1, i_valid := True, i_d := get_dinode demo_inodes 1\<rparr>)\<rparr>"

lemma demo_dir_txn: "txn demo_dir Map.empty 5" "block_view demo_dir = demo_disk"
  by (simp_all add: demo_dir_def demo_fs_txn demo_fs_view)

lemma demo_dir_inode: "i_d (inodes demo_dir 1) = \<lparr>d_type = 1, d_major = 0, d_minor = 0, d_nlink = 1, d_size = 32,
     d_addrs = (\<lambda>i. if i = 0 then 59 else 0)\<rparr>" "i_dev (inodes demo_dir 1) = ROOTDEV"
  by (simp_all add: demo_dir_def demo_inodes_def get_dinode_same get_dinode_other BSIZE_def NDIRECT_def demo_fs_sel)

lemma demo_dir_fblock: "fblock demo_dir 1 0 = 59"
  using demo_dir_inode by (simp add: fblock_def NDIRECT_def)

lemma demo_dir_ok: "dir_ok demo_dir 1 2"
proof -
  have "disksize demo_dir = 1000" by (simp add: demo_dir_def demo_fs_sel)
  then have "mapped demo_dir 1 1"
    using demo_dir_inode demo_dir_fblock by (simp add: mapped_def const_defs)
  then show ?thesis
    using demo_length demo_dir_inode
    by (auto simp: dir_ok_def demo_dir_txn const_defs intro!: exI [of _ 1])
qed

lemma demo_dirent:
  "dirent_at demo_dir 1 0 = [1, 0, 46] @ replicate 13 0" "dirent_at demo_dir 1 1 = [2, 0, 97] @ replicate 13 0"
proof -
  have b: "file_byte demo_dir 1 i = demo_disk 59 ! i" if "i < 32" for i
    using that demo_dir_fblock by (simp add: file_byte_def demo_dir_txn BSIZE_def)
  have d: "dirent_at demo_dir 1 k = take 16 (drop (16 * k) (demo_disk 59))" if "k < 2" for k
  proof (rule nth_equalityI)
    show "length (dirent_at demo_dir 1 k) = length (take 16 (drop (16 * k) (demo_disk 59)))"
      using that by (simp add: dirent_at_def DIRENT_def demo_disk_def)
    fix i assume "i < length (dirent_at demo_dir 1 k)"
    then have "i < 16" by (simp add: dirent_at_def DIRENT_def)
    with that show "dirent_at demo_dir 1 k ! i = take 16 (drop (16 * k) (demo_disk 59)) ! i"
      using b [of "16 * k + i"] by (simp add: dirent_at_def DIRENT_def demo_disk_def)
  qed
  show "dirent_at demo_dir 1 0 = [1, 0, 46] @ replicate 13 0" "dirent_at demo_dir 1 1 = [2, 0, 97] @ replicate 13 0"
    using d [of 0] d [of 1] by (simp_all add: demo_disk_def numeral_eq_Suc)
qed

theorem dirlookup_first_entry_witness:
  "returns (dirlookup 1 [97] demo_dir) (\<lambda>r t. \<exists>ip. r = Some (ip, 16) \<and> i_inum (inodes t ip) = 2)"
proof -
  have ic: "icache_ok demo_dir" "\<exists>i<NINODE. i_ref (inodes demo_dir i) = 0"
    by (auto simp: icache_ok_def demo_dir_def demo_fs_sel const_defs split: if_splits intro!: exI [of _ 2])
  have e: "entry_named demo_dir 1 [97] 1" "\<not> entry_named demo_dir 1 [97] 0" "unat (de_inum (dirent_at demo_dir 1 1)) = 2"
    unfolding entry_named_def demo_dirent
    by (simp_all add: de_inum_def de_name_def name_of_def get16_def le16_of_def DIRSIZ_def)
  have "find (entry_named demo_dir 1 [97]) [0 ..< 2] = Some 1"
    by (rule find_upt_first) (use e in auto)
  then have "returns (dirlookup 1 [97] demo_dir) (\<lambda>r t. \<exists>ip. r = Some (ip, DIRENT * 1) \<and> i_dev (inodes t ip) = ROOTDEV
        \<and> i_inum (inodes t ip) = unat (de_inum (dirent_at demo_dir 1 1)) \<and> 0 < i_ref (inodes t ip)
        \<and> icache_ok t \<and> block_view t = block_view demo_dir)"
    using dirlookup_first_entry [OF demo_dir_txn(1) demo_dir_ok ic demo_dir_inode(2), of "[97]"] by simp
  then show ?thesis by (rule returns_mono) (use e(3) in \<open>auto simp: DIRENT_def\<close>)
qed

end
