(* ===== verification/File.thy ===== *)
theory File
  imports Fs
begin

text \<open>
  Open files (\<open>file.c\<close>) and pipes (\<open>pipe.c\<close>). A \<open>struct pipe\<close> lives in a page of its own; \<open>pipes\<close> is the table of these
  structures by address, the page itself comes from \<open>kalloc\<close> and goes back with \<open>kfree\<close>.

  Shown: a pipe is a bounded first-in first-out queue between any number of writers and readers, however the scheduler
  interleaves them; a blocked writer has written as much as fits and goes on where it stopped; the
  page of a pipe is freed by the close of its second end and not before.
\<close>

section \<open>State\<close>

datatype ftype = FD_NONE | FD_PIPE | FD_INODE

record "file" =
  f_type :: ftype
  f_ref :: int
  f_readable :: bool
  f_writable :: bool
  f_pipe :: u32
  f_ip :: nat
  f_off :: u32

record pipe =
  p_data :: "nat \<Rightarrow> u8"
  p_nread :: u32
  p_nwrite :: u32
  p_readopen :: bool
  p_writeopen :: bool

record kfile = kfs +
  files :: "nat \<Rightarrow> file"
  pipes :: "u32 \<Rightarrow> pipe"

definition PIPESIZE :: u32 where "PIPESIZE = 512"

definition upd_file :: "nat \<Rightarrow> (file \<Rightarrow> file) \<Rightarrow> (unit, 'z kfile_scheme) km" where
  "upd_file f g = modify (\<lambda>s. s\<lparr>files := (files s)(f := g (files s f))\<rparr>)"

definition upd_pipe :: "u32 \<Rightarrow> (pipe \<Rightarrow> pipe) \<Rightarrow> (unit, 'z kfile_scheme) km" where
  "upd_pipe p g = modify (\<lambda>s. s\<lparr>pipes := (pipes s)(p := g (pipes s p))\<rparr>)"

section \<open>The file table\<close>

definition fileinit :: "(unit, 'z kfile_scheme) km" where
  "fileinit = initlock LFtable"

definition filealloc :: "(nat option, 'z kfile_scheme) km" where
  "filealloc =
     seq (acquire LFtable) (\<lambda>_.
     seq (gets (\<lambda>s. find (\<lambda>f. f_ref (files s f) = 0) [0 ..< NFILE])) (\<lambda>r.
     case r of
       Some f \<Rightarrow>
         seq (upd_file f (f_ref_update (\<lambda>_. 1))) (\<lambda>_.
         seq (release LFtable) (\<lambda>_.
         ret (Some f)))
     | None \<Rightarrow>
         seq (release LFtable) (\<lambda>_.
         ret None)))"

definition filedup :: "nat \<Rightarrow> (nat, 'z kfile_scheme) km" where
  "filedup f =
     seq (acquire LFtable) (\<lambda>_.
     seq (gets (\<lambda>s. f_ref (files s f))) (\<lambda>r.
     if r < 1 then panic ''filedup''
     else
       seq (upd_file f (f_ref_update (\<lambda>n. n + 1))) (\<lambda>_.
       seq (release LFtable) (\<lambda>_.
       ret f))))"

section \<open>Pipes\<close>

definition pipeclose :: "u32 \<Rightarrow> bool \<Rightarrow> (unit, 'z kfile_scheme) km" where
  "pipeclose p writable =
     seq (acquire (LPipe p)) (\<lambda>_.
     seq (if writable then
            seq (upd_pipe p (p_writeopen_update (\<lambda>_. False))) (\<lambda>_. wakeup (ChPipeRead p))
          else
            seq (upd_pipe p (p_readopen_update (\<lambda>_. False))) (\<lambda>_. wakeup (ChPipeWrite p))) (\<lambda>_.
     seq (gets (\<lambda>s. \<not> p_readopen (pipes s p) \<and> \<not> p_writeopen (pipes s p))) (\<lambda>closed.
     if closed then seq (release (LPipe p)) (\<lambda>_. kfree p)
     else release (LPipe p))))"

text \<open>\<open>while(p->nwrite == p->nread + PIPESIZE)\<close>: the answer is false if the write has to be given up.\<close>

definition wait_room :: "u32 \<Rightarrow> (bool, 'z kfile_scheme) km" where
  "wait_room p = iterate (\<lambda>_.
     seq (gets (\<lambda>s. p_nwrite (pipes s p) = p_nread (pipes s p) + PIPESIZE)) (\<lambda>full.
     if \<not> full then ret (Inl True)
     else
       seq (gets (\<lambda>s. p_readopen (pipes s p))) (\<lambda>readopen.
       if \<not> readopen then ret (Inl False)
       else
         seq myproc (\<lambda>mp. case mp of None \<Rightarrow> panic ''trap'' | Some q \<Rightarrow>
         seq (gets (\<lambda>s. p_killed (ptable s q))) (\<lambda>killed.
         if killed then ret (Inl False)
         else
           seq (wakeup (ChPipeRead p)) (\<lambda>_.
           seq (sleep (ChPipeWrite p) (LPipe p)) (\<lambda>_.
           ret (Inr ())))))))) ()"

definition put_byte :: "u8 \<Rightarrow> pipe \<Rightarrow> pipe" where
  "put_byte b x = x\<lparr>p_data := (p_data x)(unat (p_nwrite x mod PIPESIZE) := b), p_nwrite := p_nwrite x + 1\<rparr>"

fun pipewrite_loop :: "u32 \<Rightarrow> u8 list \<Rightarrow> (bool, 'z kfile_scheme) km" where
  "pipewrite_loop p [] = ret True"
| "pipewrite_loop p (b # bs) =
     seq (wait_room p) (\<lambda>ok.
     if ok then seq (upd_pipe p (put_byte b)) (\<lambda>_. pipewrite_loop p bs)
     else ret False)"

definition pipewrite_end :: "u32 \<Rightarrow> int \<Rightarrow> bool \<Rightarrow> (int, 'z kfile_scheme) km" where
  "pipewrite_end p n ok =
     (if ok then
        seq (wakeup (ChPipeRead p)) (\<lambda>_.
        seq (release (LPipe p)) (\<lambda>_.
        ret n))
      else
        seq (release (LPipe p)) (\<lambda>_.
        ret (- 1)))"

definition pipewrite :: "u32 \<Rightarrow> (nat \<Rightarrow> u8) \<Rightarrow> int \<Rightarrow> (int, 'z kfile_scheme) km" where
  "pipewrite p addr n =
     seq (acquire (LPipe p)) (\<lambda>_.
     seq (pipewrite_loop p (map addr [0 ..< nat n])) (\<lambda>ok.
     pipewrite_end p n ok))"

text \<open>\<open>while(p->nread == p->nwrite && p->writeopen)\<close>: the answer is false if the process was killed.\<close>

definition wait_data :: "u32 \<Rightarrow> (bool, 'z kfile_scheme) km" where
  "wait_data p = iterate (\<lambda>_.
     seq (gets (\<lambda>s. p_nread (pipes s p) = p_nwrite (pipes s p) \<and> p_writeopen (pipes s p))) (\<lambda>empty.
     if \<not> empty then ret (Inl True)
     else
       seq myproc (\<lambda>mp. case mp of None \<Rightarrow> panic ''trap'' | Some q \<Rightarrow>
       seq (gets (\<lambda>s. p_killed (ptable s q))) (\<lambda>killed.
       if killed then ret (Inl False)
       else
         seq (sleep (ChPipeRead p) (LPipe p)) (\<lambda>_.
         ret (Inr ())))))) ()"

fun piperead_loop :: "u32 \<Rightarrow> nat \<Rightarrow> (u8 list, 'z kfile_scheme) km" where
  "piperead_loop p 0 = ret []"
| "piperead_loop p (Suc n) =
     seq (gets (\<lambda>s. p_nread (pipes s p) = p_nwrite (pipes s p))) (\<lambda>empty.
     if empty then ret []
     else
       seq (gets (\<lambda>s. p_data (pipes s p) (unat (p_nread (pipes s p) mod PIPESIZE)))) (\<lambda>b.
       seq (upd_pipe p (\<lambda>x. x\<lparr>p_nread := p_nread x + 1\<rparr>)) (\<lambda>_.
       seq (piperead_loop p n) (\<lambda>bs.
       ret (b # bs)))))"

definition piperead_end :: "u32 \<Rightarrow> int \<Rightarrow> bool \<Rightarrow> (int \<times> u8 list, 'z kfile_scheme) km" where
  "piperead_end p n ok =
     (if ok then
        seq (piperead_loop p (nat n)) (\<lambda>bs.
        seq (wakeup (ChPipeWrite p)) (\<lambda>_.
        seq (release (LPipe p)) (\<lambda>_.
        ret (int (length bs), bs))))
      else
        seq (release (LPipe p)) (\<lambda>_.
        ret (- 1, [])))"

definition piperead :: "u32 \<Rightarrow> int \<Rightarrow> (int \<times> u8 list, 'z kfile_scheme) km" where
  "piperead p n =
     seq (acquire (LPipe p)) (\<lambda>_.
     seq (wait_data p) (\<lambda>ok.
     piperead_end p n ok))"

section \<open>Files\<close>

definition fileclose :: "nat \<Rightarrow> (unit, 'z kfile_scheme) km" where
  "fileclose f =
     seq (acquire LFtable) (\<lambda>_.
     seq (gets (\<lambda>s. f_ref (files s f))) (\<lambda>r.
     if r < 1 then panic ''fileclose''
     else
       seq (upd_file f (f_ref_update (\<lambda>n. n - 1))) (\<lambda>_.
       seq (gets (\<lambda>s. files s f)) (\<lambda>ff.
       if f_ref ff > 0 then release LFtable
       else
         seq (upd_file f (\<lambda>x. x\<lparr>f_ref := 0, f_type := FD_NONE\<rparr>)) (\<lambda>_.
         seq (release LFtable) (\<lambda>_.
         case f_type ff of
           FD_PIPE \<Rightarrow> pipeclose (f_pipe ff) (f_writable ff)
         | FD_INODE \<Rightarrow>
             seq begin_op (\<lambda>_.
             seq (iput (f_ip ff)) (\<lambda>_.
             end_op))
         | FD_NONE \<Rightarrow> ret ()))))))"

text \<open>When \<open>pipealloc\<close> fails no page has been allocated yet, so there is none to free.\<close>

definition pipealloc :: "((nat \<times> nat) option, 'z kfile_scheme) km" where
  "pipealloc =
     seq filealloc (\<lambda>f0. case f0 of None \<Rightarrow> ret None | Some f0 \<Rightarrow>
     seq filealloc (\<lambda>f1. case f1 of None \<Rightarrow> seq (fileclose f0) (\<lambda>_. ret None) | Some f1 \<Rightarrow>
     seq kalloc (\<lambda>p.
     if p = 0 then
       seq (fileclose f0) (\<lambda>_.
       seq (fileclose f1) (\<lambda>_.
       ret None))
     else
       seq (upd_pipe p (\<lambda>x. x\<lparr>p_readopen := True, p_writeopen := True, p_nwrite := 0, p_nread := 0\<rparr>)) (\<lambda>_.
       seq (initlock (LPipe p)) (\<lambda>_.
       seq (upd_file f0 (\<lambda>x. x\<lparr>f_type := FD_PIPE, f_readable := True, f_writable := False, f_pipe := p\<rparr>)) (\<lambda>_.
       seq (upd_file f1 (\<lambda>x. x\<lparr>f_type := FD_PIPE, f_readable := False, f_writable := True, f_pipe := p\<rparr>)) (\<lambda>_.
       ret (Some (f0, f1)))))))))"

definition filestat :: "nat \<Rightarrow> (int \<times> stat option, 'z kfile_scheme) km" where
  "filestat f =
     seq (gets (\<lambda>s. files s f)) (\<lambda>x.
     if f_type x = FD_INODE then
       seq (ilock (f_ip x)) (\<lambda>_.
       seq (stati (f_ip x)) (\<lambda>st.
       seq (iunlock (f_ip x)) (\<lambda>_.
       ret (0, Some st))))
     else ret (- 1, None))"

definition fileread :: "nat \<Rightarrow> int \<Rightarrow> (int \<times> u8 list, 'z kfile_scheme) km" where
  "fileread f n =
     seq (gets (\<lambda>s. files s f)) (\<lambda>x.
     if \<not> f_readable x then ret (- 1, [])
     else case f_type x of
       FD_PIPE \<Rightarrow> piperead (f_pipe x) n
     | FD_INODE \<Rightarrow>
         seq (ilock (f_ip x)) (\<lambda>_.
         seq (gets (\<lambda>s. f_off (files s f))) (\<lambda>off.
         seq (readi (f_ip x) off (of_int n)) (\<lambda>(r, bs).
         seq (if r > 0 then upd_file f (\<lambda>x. x\<lparr>f_off := f_off x + of_int r\<rparr>) else ret ()) (\<lambda>_.
         seq (iunlock (f_ip x)) (\<lambda>_.
         ret (r, bs))))))
     | FD_NONE \<Rightarrow> panic ''fileread'')"

definition FILEWRITE_MAX :: nat where
  "FILEWRITE_MAX = ((MAXOPBLOCKS - 1 - 1 - 2) div 2) * 512"

text \<open>The loop \<open>while(i < n)\<close>; the answer says whether all bytes were written.\<close>

function filewrite_loop :: "nat \<Rightarrow> (nat \<Rightarrow> u8) \<Rightarrow> nat \<Rightarrow> nat \<Rightarrow> (bool, 'z kfile_scheme) km" where
  "filewrite_loop f addr n i =
     (if i < n then
        let n1 = min (n - i) FILEWRITE_MAX in
        seq begin_op (\<lambda>_.
        seq (gets (\<lambda>s. f_ip (files s f))) (\<lambda>ip.
        seq (ilock ip) (\<lambda>_.
        seq (gets (\<lambda>s. f_off (files s f))) (\<lambda>off.
        seq (writei ip (\<lambda>j. addr (i + j)) off (of_nat n1)) (\<lambda>r.
        seq (if r > 0 then upd_file f (\<lambda>x. x\<lparr>f_off := f_off x + of_int r\<rparr>) else ret ()) (\<lambda>_.
        seq (iunlock ip) (\<lambda>_.
        seq end_op (\<lambda>_.
        if r < 0 then ret False
        else if r \<noteq> int n1 then panic ''short filewrite''
        else filewrite_loop f addr n (i + n1)))))))))
      else ret True)"
  by pat_completeness auto
termination
  by (relation "measure (\<lambda>(f, addr, n, i). n - i)") (auto simp: FILEWRITE_MAX_def const_defs)

declare filewrite_loop.simps [simp del]

definition filewrite :: "nat \<Rightarrow> (nat \<Rightarrow> u8) \<Rightarrow> int \<Rightarrow> (int, 'z kfile_scheme) km" where
  "filewrite f addr n =
     seq (gets (\<lambda>s. files s f)) (\<lambda>x.
     if \<not> f_writable x then ret (- 1)
     else case f_type x of
       FD_PIPE \<Rightarrow> pipewrite (f_pipe x) addr n
     | FD_INODE \<Rightarrow>
         seq (filewrite_loop f addr (nat n) 0) (\<lambda>all.
         ret (if all \<and> 0 \<le> n then n else - 1))
     | FD_NONE \<Rightarrow> panic ''filewrite'')"

section \<open>A pipe is a bounded queue\<close>

definition pqueue :: "pipe \<Rightarrow> u8 list" where
  "pqueue x = ring_seg 512 (p_data x) (unat (p_nread x)) (unat (p_nwrite x - p_nread x))"

definition pipe_ok :: "pipe \<Rightarrow> bool" where
  "pipe_ok x \<longleftrightarrow> unat (p_nwrite x - p_nread x) \<le> 512"

text \<open>What one uninterrupted stretch of a writer and of a reader does to the structure.\<close>

definition pipe_put :: "u8 list \<Rightarrow> pipe \<Rightarrow> pipe" where
  "pipe_put bs x = fold put_byte bs x"

fun pipe_get :: "nat \<Rightarrow> pipe \<Rightarrow> u8 list \<times> pipe" where
  "pipe_get 0 x = ([], x)"
| "pipe_get (Suc n) x =
     (if p_nread x = p_nwrite x then ([], x)
      else case pipe_get n (x\<lparr>p_nread := p_nread x + 1\<rparr>) of (bs, y) \<Rightarrow>
        (p_data x (unat (p_nread x mod PIPESIZE)) # bs, y))"

lemma pqueue_length: "length (pqueue x) = unat (p_nwrite x - p_nread x)"
  by (simp add: pqueue_def)

lemma pipe_empty: "p_nread x = p_nwrite x \<longleftrightarrow> pqueue x = []"
proof -
  have "pqueue x = [] \<longleftrightarrow> p_nwrite x - p_nread x = 0"
    by (metis length_0_conv pqueue_length unat_0 unat_eq_zero)
  then show ?thesis by auto
qed

lemma pipe_full: "p_nwrite x = p_nread x + PIPESIZE \<longleftrightarrow> length (pqueue x) = 512"
proof -
  have "p_nwrite x = p_nread x + PIPESIZE \<longleftrightarrow> p_nwrite x - p_nread x = 512"
    by (auto simp: PIPESIZE_def diff_eq_eq add.commute)
  also have "\<dots> \<longleftrightarrow> unat (p_nwrite x - p_nread x) = 512" by (simp add: word_unat_eq_iff)
  finally show ?thesis by (simp add: pqueue_length)
qed

lemma put_byte_queue:
  assumes "length (pqueue x) < 512"
  shows "pqueue (put_byte b x) = pqueue x @ [b]" "pipe_ok (put_byte b x)"
proof -
  let ?n = "unat (p_nwrite x - p_nread x)"
  have n: "?n < 512" using assms by (simp add: pqueue_length)
  have e: "unat (p_nwrite x + 1 - p_nread x) = Suc ?n"
    using n unat_add_nat [of "p_nwrite x - p_nread x" 1] by (simp add: algebra_simps)
  have "unat (p_nwrite x mod PIPESIZE) = unat (p_nread x + (p_nwrite x - p_nread x)) mod 512"
    by (simp add: PIPESIZE_def unat_mod)
  also have "\<dots> = (unat (p_nread x) + ?n) mod 512" by (rule unat_add_mod) simp
  finally show "pqueue (put_byte b x) = pqueue x @ [b]" "pipe_ok (put_byte b x)"
    using n ring_seg_upd [of ?n ?n 512 "p_data x" "unat (p_nread x)" b]
    by (simp_all add: pqueue_def put_byte_def e ring_seg_Suc pipe_ok_def)
qed

lemma get_byte_queue:
  assumes "p_nread x \<noteq> p_nwrite x"
  shows "pqueue x = p_data x (unat (p_nread x mod PIPESIZE)) # pqueue (x\<lparr>p_nread := p_nread x + 1\<rparr>)"
    "pipe_ok x \<Longrightarrow> pipe_ok (x\<lparr>p_nread := p_nread x + 1\<rparr>)"
proof -
  let ?m = "unat (p_nwrite x - (p_nread x + 1))"
  have n: "unat (p_nwrite x - p_nread x) = Suc ?m" using assms by (intro unat_diff_Suc) simp
  have "unat (p_nread x mod PIPESIZE) = unat (p_nread x) mod 512" by (simp add: PIPESIZE_def unat_mod)
  moreover have "Suc (unat (p_nread x)) mod 512 = unat (p_nread x + 1) mod 512"
    using unat_add_mod [of 512 "p_nread x" 1] by simp
  ultimately show "pqueue x = p_data x (unat (p_nread x mod PIPESIZE)) # pqueue (x\<lparr>p_nread := p_nread x + 1\<rparr>)"
    unfolding pqueue_def n by (simp add: ring_seg_Cons ring_seg_mod [of "Suc (unat (p_nread x))" 512 "unat (p_nread x + 1)"])
  show "pipe_ok x \<Longrightarrow> pipe_ok (x\<lparr>p_nread := p_nread x + 1\<rparr>)" using n by (simp add: pipe_ok_def)
qed

text \<open>The contract of a bounded queue of bytes, and what follows from it for any sequence of writes and reads.\<close>

datatype queue_op = Put "u8 list" | Get nat

text \<open>The bytes written, the bytes read and the final queue; a write that does not fit writes what fits.\<close>

fun queue_run ::
  "('q \<Rightarrow> u8 list) \<Rightarrow> (u8 list \<Rightarrow> 'q \<Rightarrow> 'q) \<Rightarrow> (nat \<Rightarrow> 'q \<Rightarrow> u8 list \<times> 'q) \<Rightarrow> nat \<Rightarrow> queue_op list \<Rightarrow> 'q \<Rightarrow>
   u8 list \<times> u8 list \<times> 'q" where
  "queue_run queue put get cap [] q = ([], [], q)"
| "queue_run queue put get cap (Put bs # ops) q =
     (let cs = take (cap - length (queue q)) bs in
      case queue_run queue put get cap ops (put cs q) of (w, r, q') \<Rightarrow> (cs @ w, r, q'))"
| "queue_run queue put get cap (Get n # ops) q =
     (case get n q of (cs, q1) \<Rightarrow>
      case queue_run queue put get cap ops q1 of (w, r, q') \<Rightarrow> (w, cs @ r, q'))"

locale bounded_queue =
  fixes ok :: "'q \<Rightarrow> bool"
    and queue :: "'q \<Rightarrow> u8 list"
    and put :: "u8 list \<Rightarrow> 'q \<Rightarrow> 'q"
    and get :: "nat \<Rightarrow> 'q \<Rightarrow> u8 list \<times> 'q"
    and cap :: nat
  assumes ok_cap: "ok q \<Longrightarrow> length (queue q) \<le> cap"
    and put_ok: "ok q \<Longrightarrow> length (queue q) + length bs \<le> cap \<Longrightarrow> ok (put bs q) \<and> queue (put bs q) = queue q @ bs"
    and get_ok: "ok q \<Longrightarrow> ok (snd (get n q)) \<and> fst (get n q) = take n (queue q) \<and> queue (snd (get n q)) = drop n (queue q)"
begin

lemma run_fifo:
  assumes "ok q" "queue_run queue put get cap ops q = (w, r, q')"
  shows "ok q' \<and> queue q @ w = r @ queue q'"
  using assms
proof (induction ops arbitrary: q w r rule: list.induct)
  case (Cons op ops)
  show ?case
  proof (cases op)
    case (Put bs)
    let ?cs = "take (cap - length (queue q)) bs"
    have "length (queue q) + length ?cs \<le> cap" using ok_cap [OF Cons.prems(1)] by simp
    then have p: "ok (put ?cs q)" "queue (put ?cs q) = queue q @ ?cs" using put_ok [OF Cons.prems(1)] by auto
    obtain w1 where "queue_run queue put get cap ops (put ?cs q) = (w1, r, q')" "w = ?cs @ w1"
      using Cons.prems(2) Put by (auto simp: Let_def split: prod.splits)
    then show ?thesis using Cons.IH [OF p(1)] p(2) by auto
  next
    case (Get n)
    obtain cs q1 r1 where g: "get n q = (cs, q1)" "queue_run queue put get cap ops q1 = (w, r1, q')" "r = cs @ r1"
      using Cons.prems(2) Get by (auto split: prod.splits)
    then have "ok q1" "cs = take n (queue q)" "queue q1 = drop n (queue q)" using get_ok [OF Cons.prems(1), of n] by auto
    then have "ok q' \<and> drop n (queue q) @ w = r1 @ queue q'" using Cons.IH [OF _ g(2)] by simp
    then show ?thesis using g(3) \<open>cs = take n (queue q)\<close>
      by (metis append.assoc append_take_drop_id)
  qed
qed simp

end

lemma put_byte_ok_fold:
  "pipe_ok x \<Longrightarrow> length (pqueue x) + length bs \<le> 512 \<Longrightarrow>
   pipe_ok (pipe_put bs x) \<and> pqueue (pipe_put bs x) = pqueue x @ bs"
proof (induction bs arbitrary: x)
  case (Cons b bs)
  have "pqueue (put_byte b x) = pqueue x @ [b]" "pipe_ok (put_byte b x)"
    using put_byte_queue [of x b] Cons.prems(2) by simp_all
  then show ?case using Cons.IH [of "put_byte b x"] Cons.prems(2) by (simp add: pipe_put_def)
qed (simp add: pipe_put_def)

lemma pipe_get_ok:
  "pipe_ok x \<Longrightarrow> pipe_ok (snd (pipe_get n x)) \<and> fst (pipe_get n x) = take n (pqueue x) \<and>
   pqueue (snd (pipe_get n x)) = drop n (pqueue x)"
proof (induction n x rule: pipe_get.induct)
  case (2 n x)
  show ?case
  proof (cases "p_nread x = p_nwrite x")
    case True
    then show ?thesis using 2(2) pipe_empty [of x] by simp
  next
    case False
    note get_byte_queue [OF False]
    then show ?thesis using 2(1) [OF False] 2(2) False by (auto split: prod.splits)
  qed
qed simp

interpretation pq: bounded_queue pipe_ok pqueue pipe_put pipe_get 512
proof unfold_locales
  fix x
  show "pipe_ok x \<Longrightarrow> length (pqueue x) \<le> 512" by (simp add: pipe_ok_def pqueue_length)
qed (simp_all add: put_byte_ok_fold pipe_get_ok)

lemma pipe_put_frame [simp]:
  "p_nread (pipe_put bs x) = p_nread x" "p_readopen (pipe_put bs x) = p_readopen x"
  "p_writeopen (pipe_put bs x) = p_writeopen x"
  by (induction bs arbitrary: x) (simp_all add: pipe_put_def put_byte_def)

section \<open>Writers and readers\<close>

definition put_all :: "u32 \<Rightarrow> u8 list \<Rightarrow> 'z kfile_scheme \<Rightarrow> 'z kfile_scheme" where
  "put_all p bs s = s\<lparr>pipes := (pipes s)(p := pipe_put bs (pipes s p))\<rparr>"

lemma put_all_sel [simp]:
  "held (put_all p bs s) = held s" "curproc (put_all p bs s) = curproc s" "ptable (put_all p bs s) = ptable s"
  "pipes (put_all p bs s) p = pipe_put bs (pipes s p)"
  by (simp_all add: put_all_def)

lemma put_all_Nil [simp]: "put_all p [] s = s"
  by (simp add: put_all_def pipe_put_def)

lemma put_all_Cons: "put_all p (b # bs) s = put_all p bs (s\<lparr>pipes := (pipes s)(p := put_byte b (pipes s p))\<rparr>)"
  by (simp add: put_all_def pipe_put_def)

lemma wait_room_free: "length (pqueue (pipes s p)) \<noteq> 512 \<Longrightarrow> wait_room p s = Ret True s"
  by (simp add: wait_room_def iterate_def kmonad_simps pipe_full)

lemma wait_room_full:
  assumes "curproc s = Some q" "held s = {LPipe p}" "length (pqueue (pipes s p)) = 512"
    "p_readopen (pipes s p)" "\<not> p_killed (ptable s q)"
  shows "\<exists>k. wait_room p s = Switch (asleep q (ChPipeWrite p) (s\<lparr>ptable := woken (ChPipeRead p) (ptable s)\<rparr>)) k
    \<and> (\<forall>u. held u = {LPtable} \<longrightarrow> curproc u = Some q \<longrightarrow> k u = wait_room p ((awake q u)\<lparr>held := {LPipe p}\<rparr>))"
  unfolding wait_room_def
proof (rule iterate_wait, goal_cases)
  case 1
  show ?case using assms by (simp add: seq_apply myproc_def pipe_full wakeup_apply)
next
  case (5 u b t)
  then show ?case
    by (auto simp: seq_apply myproc_def wakeup_apply sleep_apply split: option.splits)
qed (use assms in simp_all)

lemma pipewrite_loop_ok:
  assumes "held s = {LPipe p}" "curproc s = Some q" "pipe_ok (pipes s p)"
    "p_readopen (pipes s p)" "\<not> p_killed (ptable s q)"
    "room = 512 - length (pqueue (pipes s p))"
  shows "if length bs \<le> room then pipewrite_loop p bs s = Ret True (put_all p bs s)
    else \<exists>k. pipewrite_loop p bs s =
        Switch (asleep q (ChPipeWrite p) ((put_all p (take room bs) s)\<lparr>ptable := woken (ChPipeRead p) (ptable s)\<rparr>)) k
      \<and> (\<forall>u. held u = {LPtable} \<longrightarrow> curproc u = Some q \<longrightarrow>
           k u = pipewrite_loop p (drop room bs) ((awake q u)\<lparr>held := {LPipe p}\<rparr>))"
  using assms
proof (induction bs arbitrary: s room)
  case (Cons b bs)
  let ?x = "pipes s p" and ?s = "s\<lparr>pipes := (pipes s)(p := put_byte b (pipes s p))\<rparr>"
  show ?case
  proof (cases "length (pqueue ?x) = 512")
    case True
    then have "room = 0" using Cons.prems(6) by simp
    obtain k where k: "wait_room p s = Switch (asleep q (ChPipeWrite p) (s\<lparr>ptable := woken (ChPipeRead p) (ptable s)\<rparr>)) k"
      "\<forall>u. held u = {LPtable} \<longrightarrow> curproc u = Some q \<longrightarrow> k u = wait_room p ((awake q u)\<lparr>held := {LPipe p}\<rparr>)"
      using wait_room_full [OF Cons.prems(2,1) True Cons.prems(4,5)] by blast
    show ?thesis using k \<open>room = 0\<close> by (simp add: seq_apply)
  next
    case False
    then have l: "length (pqueue ?x) < 512" using pq.ok_cap [OF Cons.prems(3)] by simp
    then have q: "pqueue (pipes ?s p) = pqueue ?x @ [b]" "pipe_ok (pipes ?s p)"
      using put_byte_queue [of ?x b] by simp_all
    have f: "p_readopen (put_byte b ?x) = p_readopen ?x" by (simp add: put_byte_def)
    define m where "m = 512 - length (pqueue (pipes ?s p))"
    have r: "room = Suc m" using Cons.prems(6) l q(1) by (simp add: m_def)
    have e: "pipewrite_loop p (b # bs) s = pipewrite_loop p bs ?s"
      by (simp add: seq_apply wait_room_free [OF False] upd_pipe_def)
    have "held ?s = {LPipe p}" "curproc ?s = Some q" "p_readopen (pipes ?s p)" "\<not> p_killed (ptable ?s q)"
      using Cons.prems(1,2,4,5) f by simp_all
    from Cons.IH [OF this(1,2) q(2) this(3,4) m_def] show ?thesis
      unfolding e r by (simp add: put_all_Cons split: if_splits)
  qed
qed simp

lemma wait_data_ready:
  "pqueue (pipes s p) \<noteq> [] \<or> \<not> p_writeopen (pipes s p) \<Longrightarrow> wait_data p s = Ret True s"
  by (auto simp: wait_data_def iterate_def kmonad_simps pipe_empty)

lemma wait_data_empty:
  assumes "curproc s = Some q" "held s = {LPipe p}" "pqueue (pipes s p) = []"
    "p_writeopen (pipes s p)" "\<not> p_killed (ptable s q)"
  shows "\<exists>k. wait_data p s = Switch (asleep q (ChPipeRead p) s) k
    \<and> (\<forall>u. held u = {LPtable} \<longrightarrow> curproc u = Some q \<longrightarrow> k u = wait_data p ((awake q u)\<lparr>held := {LPipe p}\<rparr>))"
  unfolding wait_data_def
proof (rule iterate_wait, goal_cases)
  case 1
  show ?case using assms by (simp add: seq_apply myproc_def pipe_empty)
next
  case (5 u b t)
  then show ?case
    by (auto simp: seq_apply myproc_def sleep_apply split: option.splits)
qed (use assms in simp_all)

definition get_all :: "u32 \<Rightarrow> nat \<Rightarrow> 'z kfile_scheme \<Rightarrow> 'z kfile_scheme" where
  "get_all p n s = s\<lparr>pipes := (pipes s)(p := snd (pipe_get n (pipes s p)))\<rparr>"

lemma piperead_loop_apply:
  "piperead_loop p n s = Ret (fst (pipe_get n (pipes s p))) (get_all p n s)"
proof (induction n arbitrary: s)
  case (Suc n)
  show ?case by (simp add: seq_apply Suc.IH upd_pipe_def get_all_def split: prod.splits)
qed (simp add: get_all_def)



section \<open>Closing\<close>

text \<open>The state of a pipe one of whose ends has been closed, with the processes that wait on the other end woken.\<close>

definition end_closed :: "u32 \<Rightarrow> bool \<Rightarrow> 'z kfile_scheme \<Rightarrow> 'z kfile_scheme" where
  "end_closed p writable s = s\<lparr>
     pipes := (pipes s)(p := (if writable then (pipes s p)\<lparr>p_writeopen := False\<rparr> else (pipes s p)\<lparr>p_readopen := False\<rparr>)),
     ptable := woken (if writable then ChPipeRead p else ChPipeWrite p) (ptable s)\<rparr>"

lemma pipeclose_apply:
  assumes "held s = {}"
  shows "pipeclose p writable s =
    (if (if writable then p_readopen (pipes s p) else p_writeopen (pipes s p))
     then Ret () (end_closed p writable s) else kfree p (end_closed p writable s))"
  using assms by (auto simp: pipeclose_def end_closed_def seq_apply upd_pipe_def wakeup_apply)

lemma pipeclose_frees_page:
  assumes "held s = {}" "free_list s xs" "usable_page (kend s) p" "p \<notin> set xs"
    "\<not> (if writable then p_readopen (pipes s p) else p_writeopen (pipes s p))"
  shows "returns (pipeclose p writable s) (\<lambda>_ t. free_list t (p # xs) \<and> held t = {})"
proof -
  have "free_list (end_closed p writable s) xs" using assms(2) by (simp add: free_list_def end_closed_def)
  moreover have "kend (end_closed p writable s) = kend s" "held (end_closed p writable s) = {}"
    using assms(1) by (simp_all add: end_closed_def)
  ultimately show ?thesis
    using assms kfree_free_list [of "end_closed p writable s" xs p]
    by (simp add: pipeclose_apply) (auto elim: returns_mono)
qed

definition demo_pipe :: "kfile" where
  "demo_pipe = kfs.extend demo_fs
     \<lparr>files = (\<lambda>_. \<lparr>f_type = FD_NONE, f_ref = 0, f_readable = False, f_writable = False, f_pipe = 0, f_ip = 0, f_off = 0\<rparr>),
      pipes = (\<lambda>_. \<lparr>p_data = (\<lambda>_. 0), p_nread = 510, p_nwrite = 510, p_readopen = True, p_writeopen = True\<rparr>)\<rparr>"

lemma demo_pipe_sel:
  "held demo_pipe = {}" "curproc demo_pipe = Some 0" "\<not> p_killed (ptable demo_pipe 0)"
  "pipes demo_pipe = (\<lambda>_. \<lparr>p_data = (\<lambda>_. 0), p_nread = 510, p_nwrite = 510, p_readopen = True, p_writeopen = True\<rparr>)"
  by (simp_all add: demo_pipe_def kfs.defs demo_fs_def demo_cons_def kcons.defs klog.defs kapic.defs kdisk.defs empty_log_def empty_cache_def zero_proc_def)

text \<open>
  C28. Writing to a pipe and reading from it (\<open>pipe.c\<close>), for a process that is not killed. A write for which there is room stores all its
  bytes and returns their number with every reader woken; one for which there is not stores the bytes that fit, wakes the readers,
  sleeps without the lock and, once woken, goes on with exactly the bytes that are left. A read from an empty pipe
  with a writer sleeps and looks again when it is woken; any other read returns the first bytes of the pipe, at
  most as many as asked for, removes them and wakes the writers; it returns 0 only if the pipe is empty and the writers gone, or
  nothing was asked for.
\<close>

theorem pipe_blocking_io:
  assumes s: "held s = {}" "curproc s = Some q" "pipe_ok (pipes s p)" "\<not> p_killed (ptable s q)"
    and room: "room = 512 - length (pqueue (pipes s p))"
    and bs: "bs = map addr [0 ..< nat n]"
  shows "(p_readopen (pipes s p) \<longrightarrow>
      (if length bs \<le> room
       then pipewrite p addr n s = Ret n ((put_all p bs s)\<lparr>ptable := woken (ChPipeRead p) (ptable s)\<rparr>)
       else \<exists>k. pipewrite p addr n s = Switch (asleep q (ChPipeWrite p)
              ((put_all p (take room bs) s)\<lparr>ptable := woken (ChPipeRead p) (ptable s)\<rparr>)) k
          \<and> (\<forall>u. held u = {LPtable} \<longrightarrow> curproc u = Some q \<longrightarrow>
               k u = seq (pipewrite_loop p (drop room bs)) (pipewrite_end p n) ((awake q u)\<lparr>held := {LPipe p}\<rparr>))))
    \<and> (if pqueue (pipes s p) = [] \<and> p_writeopen (pipes s p)
      then \<exists>k. piperead p n s = Switch (asleep q (ChPipeRead p) s) k
          \<and> (\<forall>u. held u = {LPtable} \<longrightarrow> curproc u = Some q \<longrightarrow>
               k u = piperead p n ((awake q u)\<lparr>held := {}\<rparr>))
      else \<exists>t. piperead p n s =
            Ret (int (min (nat n) (length (pqueue (pipes s p)))), take (nat n) (pqueue (pipes s p))) t
          \<and> pqueue (pipes t p) = drop (nat n) (pqueue (pipes s p)) \<and> pipe_ok (pipes t p)
          \<and> ptable t = woken (ChPipeWrite p) (ptable s) \<and> held t = {})"
    (is "(_ \<longrightarrow> (if _ then ?A else ?B)) \<and> (if _ then ?C else ?D)")
proof -
  let ?s = "s\<lparr>held := {LPipe p}\<rparr>"
  have s': "held ?s = {LPipe p}" "curproc ?s = Some q" "pipe_ok (pipes ?s p)" "\<not> p_killed (ptable ?s q)"
    "room = 512 - length (pqueue (pipes ?s p))"
    using s room by simp_all
  have w: "pipewrite p addr n s = obind (pipewrite_loop p bs ?s) (pipewrite_end p n)"
    using s(1) by (simp add: pipewrite_def bs seq_apply)
  have "p_readopen (pipes s p) \<longrightarrow> (if length bs \<le> room then ?A else ?B)"
  proof
    assume "p_readopen (pipes s p)"
    then have "p_readopen (pipes ?s p)" by simp
    note pipewrite_loop_ok [OF s'(1-3) this s'(4,5), of bs]
    then show "if length bs \<le> room then ?A else ?B"
      unfolding w using s
      by (auto simp: pipewrite_end_def seq_apply wakeup_apply put_all_def asleep_def split: if_splits)
  qed
  moreover have r: "piperead p n s = obind (wait_data p ?s) (piperead_end p n)"
    using s(1) by (simp add: piperead_def seq_apply)
  moreover have "if pqueue (pipes s p) = [] \<and> p_writeopen (pipes s p) then ?C else ?D"
  proof (cases "pqueue (pipes s p) = [] \<and> p_writeopen (pipes s p)")
    case True
    then show ?thesis
      using wait_data_empty [OF s'(2,1) _ _ s'(4)] s(1)
      by (auto simp: r asleep_def piperead_def seq_apply)
  next
    case False
    then have "wait_data p ?s = Ret True ?s" by (intro wait_data_ready) auto
    then show ?thesis
      using False pq.get_ok [OF s(3), of "nat n"] s(1)
      by (auto simp: r piperead_end_def seq_apply piperead_loop_apply get_all_def wakeup_apply)
  qed
  ultimately show ?thesis by blast
qed

theorem pipe_blocking_io_witness:
  "(\<exists>t. pipewrite 0x80500000 of_nat 3 demo_pipe = Ret 3 t)
   \<and> (\<exists>t k. piperead 0x80500000 3 demo_pipe = Switch t k)"
proof -
  have "pipe_ok (pipes demo_pipe 0x80500000)" "length (pqueue (pipes demo_pipe 0x80500000)) = 0"
    by (simp_all add: demo_pipe_sel pipe_ok_def pqueue_length)
  then show ?thesis
    using pipe_blocking_io [of demo_pipe 0 "0x80500000" 512 "map of_nat [0 ..< nat 3]" of_nat 3] demo_pipe_sel
    by (simp del: map_eq_conv) blast
qed

end
