(* ===== verification/Vm.thy ===== *)
theory Vm
  imports File
begin

text \<open>
  Virtual memory (\<open>vm.c\<close>): two-level page tables in memory, the kernel map every address space shares, and the
  operations that grow, shrink, copy and free the user part.

  \<open>mem\<close> is addressed by kernel virtual addresses, which map physical memory linearly; a user
  address is reached through a page directory only. A null pointer for a missing page or table entry is 0. A loop
  \<open>for(; a < b; a += PGSIZE)\<close> goes on as long as the address grows; at the top of the address space, which no caller reaches, the unsigned
  addition wraps and the loop does not end (\<open>forever\<close>).
\<close>

section \<open>State\<close>

record segdesc =
  lim_15_0 :: u32
  base_15_0 :: u32
  base_23_16 :: u32
  sd_type :: u32
  sd_s :: u32
  sd_dpl :: u32
  sd_p :: u32
  lim_19_16 :: u32
  avl :: u32
  rsv1 :: u32
  db :: u32
  sd_g :: u32
  base_31_24 :: u32

definition SEG :: "u32 \<Rightarrow> u32 \<Rightarrow> u32 \<Rightarrow> u32 \<Rightarrow> segdesc" where
  "SEG type base lim dpl =
     \<lparr>lim_15_0 = drop_bit 12 lim AND 0xFFFF, base_15_0 = base AND 0xFFFF,
      base_23_16 = drop_bit 16 base AND 0xFF, sd_type = type, sd_s = 1, sd_dpl = dpl, sd_p = 1,
      lim_19_16 = drop_bit 28 lim, avl = 0, rsv1 = 0, db = 1, sd_g = 1, base_31_24 = drop_bit 24 base\<rparr>"

definition SEG16 :: "u32 \<Rightarrow> u32 \<Rightarrow> u32 \<Rightarrow> u32 \<Rightarrow> segdesc" where
  "SEG16 type base lim dpl =
     \<lparr>lim_15_0 = lim AND 0xFFFF, base_15_0 = base AND 0xFFFF,
      base_23_16 = drop_bit 16 base AND 0xFF, sd_type = type, sd_s = 1, sd_dpl = dpl, sd_p = 1,
      lim_19_16 = drop_bit 16 lim, avl = 0, rsv1 = 0, db = 1, sd_g = 0, base_31_24 = drop_bit 24 base\<rparr>"

definition SEG_KCODE :: nat where [const_defs]: "SEG_KCODE = 1"
definition SEG_KDATA :: nat where [const_defs]: "SEG_KDATA = 2"
definition SEG_UCODE :: nat where [const_defs]: "SEG_UCODE = 3"
definition SEG_UDATA :: nat where [const_defs]: "SEG_UDATA = 4"
definition SEG_TSS :: nat where [const_defs]: "SEG_TSS = 5"
definition DPL_USER :: u32 where [const_defs]: "DPL_USER = 3"
definition STA_X :: u32 where [const_defs]: "STA_X = 8"
definition STA_W :: u32 where [const_defs]: "STA_W = 2"
definition STA_R :: u32 where [const_defs]: "STA_R = 2"
definition STS_T32A :: u32 where [const_defs]: "STS_T32A = 9"

text \<open>
  What the memory management unit of the processor is given: the page directory register, the segment descriptors, the task register
  and the fields of the task state segment the kernel sets. \<open>ts_addr\<close> is the address of that segment, \<open>kdata\<close> the address of \<open>data[]\<close>.
\<close>

record kvm = kfile +
  kpgdir :: u32
  kdata :: u32
  cr3 :: u32
  gdt :: "nat \<Rightarrow> segdesc"
  tr :: u32
  ts_addr :: u32
  ts_esp0 :: u32
  ts_ss0 :: u32
  ts_iomb :: u32

definition upd_mem :: "(mem \<Rightarrow> mem) \<Rightarrow> (unit, 'z kmem_scheme) km" where
  "upd_mem f = modify (\<lambda>s. s\<lparr>mem := f (mem s)\<rparr>)"

section \<open>Segments\<close>

definition seginit :: "(unit, 'z kvm_scheme) km" where
  "seginit = modify (\<lambda>s. s\<lparr>gdt := (gdt s)(
     SEG_KCODE := SEG (STA_X OR STA_R) 0 0xFFFFFFFF 0,
     SEG_KDATA := SEG STA_W 0 0xFFFFFFFF 0,
     SEG_UCODE := SEG (STA_X OR STA_R) 0 0xFFFFFFFF DPL_USER,
     SEG_UDATA := SEG STA_W 0 0xFFFFFFFF DPL_USER)\<rparr>)"

section \<open>Page tables\<close>

definition walkpgdir :: "u32 \<Rightarrow> u32 \<Rightarrow> bool \<Rightarrow> (u32, 'z kmem_scheme) km" where
  "walkpgdir pgdir va alloc =
     (let pde = pgdir + 4 * PDX va in
      seq (gets (\<lambda>s. load32 (mem s) pde)) (\<lambda>e.
      if e AND PTE_P \<noteq> 0 then ret (P2V (PTE_ADDR e) + 4 * PTX va)
      else if \<not> alloc then ret 0
      else
        seq kalloc (\<lambda>pgtab.
        if pgtab = 0 then ret 0
        else
          seq (upd_mem (\<lambda>m. memset m pgtab 0 PGSIZE)) (\<lambda>_.
          seq (upd_mem (\<lambda>m. store32 m pde (V2P pgtab OR PTE_P OR PTE_W OR PTE_U))) (\<lambda>_.
          ret (pgtab + 4 * PTX va))))))"

text \<open>
  The loop of \<open>mappages\<close>; \<open>a\<close> and \<open>last\<close> are page aligned, so \<open>a == last\<close> after \<open>(last - a) / PGSIZE\<close> more rounds, which is the last argument.
\<close>

fun mappages_loop :: "u32 \<Rightarrow> u32 \<Rightarrow> u32 \<Rightarrow> u32 \<Rightarrow> nat \<Rightarrow> (int, 'z kmem_scheme) km" where
  "mappages_loop pgdir a pa perm n =
     seq (walkpgdir pgdir a True) (\<lambda>pte.
     if pte = 0 then ret (- 1)
     else
       seq (gets (\<lambda>s. load32 (mem s) pte)) (\<lambda>e.
       if e AND PTE_P \<noteq> 0 then panic ''remap''
       else
         seq (upd_mem (\<lambda>m. store32 m pte (pa OR perm OR PTE_P))) (\<lambda>_.
         case n of 0 \<Rightarrow> ret 0
         | Suc n' \<Rightarrow> mappages_loop pgdir (a + PGSIZE) (pa + PGSIZE) perm n')))"

declare mappages_loop.simps [simp del]

definition mappages :: "u32 \<Rightarrow> u32 \<Rightarrow> u32 \<Rightarrow> u32 \<Rightarrow> u32 \<Rightarrow> (int, 'z kmem_scheme) km" where
  "mappages pgdir va sz pa perm =
     (let a = PGROUNDDOWN va; last = PGROUNDDOWN (va + sz - 1) in
      mappages_loop pgdir a pa perm (unat (last - a) div 4096))"

section \<open>Freeing the user part\<close>

lemma loop_measure: "a < (b :: u32) \<Longrightarrow> a < a' \<Longrightarrow> unat b - unat a' < unat b - unat a"
  by (auto simp: word_less_nat_alt)

function dealloc_loop :: "u32 \<Rightarrow> u32 \<Rightarrow> u32 \<Rightarrow> (unit, 'z kmem_scheme) km" where
  "dealloc_loop pgdir a oldsz =
     (if a < oldsz then
        seq (walkpgdir pgdir a False) (\<lambda>pte.
        if pte = 0 then
          let a' = PGADDR (PDX a + 1) 0 0 - PGSIZE + PGSIZE in
          if a < a' then dealloc_loop pgdir a' oldsz else forever
        else
          seq (gets (\<lambda>s. load32 (mem s) pte)) (\<lambda>e.
          seq (if e AND PTE_P \<noteq> 0 then
                 let pa = PTE_ADDR e in
                 if pa = 0 then panic ''kfree''
                 else
                   seq (kfree (P2V pa)) (\<lambda>_.
                   upd_mem (\<lambda>m. store32 m pte 0))
               else ret ()) (\<lambda>_.
          let a' = a + PGSIZE in
          if a < a' then dealloc_loop pgdir a' oldsz else forever)))
      else ret ())"
  by pat_completeness auto
termination
  by (relation "measure (\<lambda>(pgdir, a, oldsz). unat oldsz - unat a)") (auto intro: loop_measure)

declare dealloc_loop.simps [simp del]

definition deallocuvm :: "u32 \<Rightarrow> u32 \<Rightarrow> u32 \<Rightarrow> (u32, 'z kmem_scheme) km" where
  "deallocuvm pgdir oldsz newsz =
     (if newsz \<ge> oldsz then ret oldsz
      else
        seq (dealloc_loop pgdir (PGROUNDUP newsz) oldsz) (\<lambda>_.
        ret newsz))"

definition freevm :: "u32 \<Rightarrow> (unit, 'z kmem_scheme) km" where
  "freevm pgdir =
     (if pgdir = 0 then panic ''freevm: no pgdir''
      else
        seq (deallocuvm pgdir KERNBASE 0) (\<lambda>_.
        seq (for_each (\<lambda>i.
               seq (gets (\<lambda>s. load32 (mem s) (pgdir + 4 * of_nat i))) (\<lambda>e.
               if e AND PTE_P \<noteq> 0 then kfree (P2V (PTE_ADDR e)) else ret ()))
             [0 ..< NPDENTRIES]) (\<lambda>_.
        kfree pgdir)))"

section \<open>The kernel part\<close>

record kmap =
  k_virt :: u32
  phys_start :: u32
  phys_end :: u32
  k_perm :: u32

text \<open>The table \<open>kmap\<close> with entry 3 filled in from the graphics mode, as \<open>setupkvm\<close> does before it uses it.\<close>

definition kmap_table :: "u32 \<Rightarrow> gpu \<Rightarrow> kmap list" where
  "kmap_table dat g =
     [\<lparr>k_virt = KERNBASE, phys_start = 0, phys_end = EXTMEM, k_perm = PTE_W\<rparr>,
      \<lparr>k_virt = KERNLINK, phys_start = V2P KERNLINK, phys_end = V2P dat, k_perm = 0\<rparr>,
      \<lparr>k_virt = dat, phys_start = V2P dat, phys_end = PHYSTOP, k_perm = PTE_W\<rparr>,
      \<lparr>k_virt = DEVSPACE - vram_size g, phys_start = pvram_addr g, phys_end = pvram_addr g + vram_size g, k_perm = PTE_W\<rparr>,
      \<lparr>k_virt = PCI_BAR_BASE + PCI_VP_OFFSET, phys_start = PCI_BAR_BASE, phys_end = 0x10000000 + PCI_BAR_BASE, k_perm = PTE_W\<rparr>,
      \<lparr>k_virt = DEVSPACE, phys_start = DEVSPACE, phys_end = 0, k_perm = PTE_W\<rparr>]"

fun map_all :: "u32 \<Rightarrow> kmap list \<Rightarrow> (bool, 'z kmem_scheme) km" where
  "map_all pgdir [] = ret True"
| "map_all pgdir (k # ks) =
     seq (mappages pgdir (k_virt k) (phys_end k - phys_start k) (phys_start k) (k_perm k)) (\<lambda>r.
     if r < 0 then seq (freevm pgdir) (\<lambda>_. ret False)
     else map_all pgdir ks)"

definition setupkvm :: "(u32, 'z kvm_scheme) km" where
  "setupkvm =
     seq kalloc (\<lambda>pgdir.
     if pgdir = 0 then ret 0
     else
       seq (upd_mem (\<lambda>m. memset m pgdir 0 PGSIZE)) (\<lambda>_.
       if P2V PHYSTOP > DEVSPACE then panic ''PHYSTOP too high''
       else
         seq (gets (\<lambda>s. kmap_table (kdata s) (gpu s))) (\<lambda>ks.
         seq (map_all pgdir ks) (\<lambda>ok.
         ret (if ok then pgdir else 0)))))"

definition switchkvm :: "(unit, 'z kvm_scheme) km" where
  "switchkvm = modify (\<lambda>s. s\<lparr>cr3 := V2P (kpgdir s)\<rparr>)"

definition kvmalloc :: "(unit, 'z kvm_scheme) km" where
  "kvmalloc =
     seq setupkvm (\<lambda>d.
     seq (modify (\<lambda>s. s\<lparr>kpgdir := d\<rparr>)) (\<lambda>_.
     switchkvm))"

text \<open>
  The \<open>pushcli\<close> and \<open>popcli\<close> around the updates are a matched pair, which leaves the set of held locks and the interrupt flag
  as they were. \<open>sizeof(struct taskstate)\<close> is 104.
\<close>

definition switchuvm :: "nat option \<Rightarrow> (unit, 'z kvm_scheme) km" where
  "switchuvm p = (case p of None \<Rightarrow> panic ''switchuvm: no process'' | Some i \<Rightarrow>
     seq (gets (\<lambda>s. ptable s i)) (\<lambda>x.
     if p_kstack x = 0 then panic ''switchuvm: no kstack''
     else if p_pgdir x = 0 then panic ''switchuvm: no pgdir''
     else modify (\<lambda>s. s\<lparr>
       gdt := (gdt s)(SEG_TSS := (SEG16 STS_T32A (ts_addr s) (104 - 1) 0)\<lparr>sd_s := 0\<rparr>),
       ts_ss0 := push_bit 3 (of_nat SEG_KDATA),
       ts_esp0 := p_kstack x + KSTACKSIZE,
       ts_iomb := 0xFFFF,
       tr := push_bit 3 (of_nat SEG_TSS),
       cr3 := V2P (p_pgdir x)\<rparr>)))"

section \<open>The user part\<close>

fun put_bytes :: "mem \<Rightarrow> u32 \<Rightarrow> u8 list \<Rightarrow> mem" where
  "put_bytes m a [] = m"
| "put_bytes m a (b # bs) = put_bytes (m(a := b)) (a + 1) bs"

text \<open>\<open>memset\<close> and \<open>memmove\<close> through a null pointer fault, which happens here when there is no free page.\<close>

definition inituvm :: "u32 \<Rightarrow> u8 list \<Rightarrow> (unit, 'z kmem_scheme) km" where
  "inituvm pgdir init =
     (if length init \<ge> unat PGSIZE then panic ''inituvm: more than a page''
      else
        seq kalloc (\<lambda>pg.
        if pg = 0 then panic ''trap''
        else
          seq (upd_mem (\<lambda>m. memset m pg 0 PGSIZE)) (\<lambda>_.
          seq (mappages pgdir 0 PGSIZE (V2P pg) (PTE_W OR PTE_U)) (\<lambda>_.
          upd_mem (\<lambda>m. put_bytes m pg init)))))"

function loaduvm_loop :: "u32 \<Rightarrow> u32 \<Rightarrow> nat \<Rightarrow> u32 \<Rightarrow> u32 \<Rightarrow> u32 \<Rightarrow> (int, 'z kvm_scheme) km" where
  "loaduvm_loop pgdir addr ip offset sz i =
     (if i < sz then
        seq (walkpgdir pgdir (addr + i) False) (\<lambda>pte.
        if pte = 0 then panic ''loaduvm: address should exist''
        else
          seq (gets (\<lambda>s. PTE_ADDR (load32 (mem s) pte))) (\<lambda>pa.
          let n = (if sz - i < PGSIZE then sz - i else PGSIZE) in
          seq (readi ip (offset + i) n) (\<lambda>(r, bs).
          seq (upd_mem (\<lambda>m. put_bytes m (P2V pa) bs)) (\<lambda>_.
          if r \<noteq> sint n then ret (- 1)
          else
            let i' = i + PGSIZE in
            if i < i' then loaduvm_loop pgdir addr ip offset sz i' else forever))))
      else ret 0)"
  by pat_completeness auto
termination
  by (relation "measure (\<lambda>(pgdir, addr, ip, offset, sz, i). unat sz - unat i)") (auto intro: loop_measure)

declare loaduvm_loop.simps [simp del]

definition loaduvm :: "u32 \<Rightarrow> u32 \<Rightarrow> nat \<Rightarrow> u32 \<Rightarrow> u32 \<Rightarrow> (int, 'z kvm_scheme) km" where
  "loaduvm pgdir addr ip offset sz =
     (if addr mod PGSIZE \<noteq> 0 then panic ''loaduvm: addr must be page aligned''
      else loaduvm_loop pgdir addr ip offset sz 0)"

function allocuvm_loop :: "u32 \<Rightarrow> u32 \<Rightarrow> u32 \<Rightarrow> u32 \<Rightarrow> (u32, 'z kvm_scheme) km" where
  "allocuvm_loop pgdir oldsz newsz a =
     (if a < newsz then
        seq kalloc (\<lambda>pg.
        if pg = 0 then
          seq (cprintf_fmt (Some (bytes ''allocuvm out of memory'' @ [10])) []) (\<lambda>_.
          seq (deallocuvm pgdir newsz oldsz) (\<lambda>_.
          ret 0))
        else
          seq (upd_mem (\<lambda>m. memset m pg 0 PGSIZE)) (\<lambda>_.
          seq (mappages pgdir a PGSIZE (V2P pg) (PTE_W OR PTE_U)) (\<lambda>r.
          if r < 0 then
            seq (cprintf_fmt (Some (bytes ''allocuvm out of memory (2)'' @ [10])) []) (\<lambda>_.
            seq (deallocuvm pgdir newsz oldsz) (\<lambda>_.
            seq (kfree pg) (\<lambda>_.
            ret 0)))
          else
            let a' = a + PGSIZE in
            if a < a' then allocuvm_loop pgdir oldsz newsz a' else forever)))
      else ret newsz)"
  by pat_completeness auto
termination
  by (relation "measure (\<lambda>(pgdir, oldsz, newsz, a). unat newsz - unat a)") (auto intro: loop_measure)

declare allocuvm_loop.simps [simp del]

definition allocuvm :: "u32 \<Rightarrow> u32 \<Rightarrow> u32 \<Rightarrow> (u32, 'z kvm_scheme) km" where
  "allocuvm pgdir oldsz newsz =
     (if newsz \<ge> KERNBASE then ret 0
      else if newsz < oldsz then ret oldsz
      else allocuvm_loop pgdir oldsz newsz (PGROUNDUP oldsz))"

definition clearpteu :: "u32 \<Rightarrow> u32 \<Rightarrow> (unit, 'z kmem_scheme) km" where
  "clearpteu pgdir uva =
     seq (walkpgdir pgdir uva False) (\<lambda>pte.
     if pte = 0 then panic ''clearpteu''
     else upd_mem (\<lambda>m. store32 m pte (load32 m pte AND NOT PTE_U)))"

text \<open>The loop of \<open>copyuvm\<close>; the answer is false at the label \<open>bad\<close>.\<close>

function copyuvm_loop :: "u32 \<Rightarrow> u32 \<Rightarrow> u32 \<Rightarrow> u32 \<Rightarrow> (bool, 'z kmem_scheme) km" where
  "copyuvm_loop pgdir d sz i =
     (if i < sz then
        seq (walkpgdir pgdir i False) (\<lambda>pte.
        if pte = 0 then panic ''copyuvm: pte should exist''
        else
          seq (gets (\<lambda>s. load32 (mem s) pte)) (\<lambda>e.
          if e AND PTE_P = 0 then panic ''copyuvm: page not present''
          else
            seq kalloc (\<lambda>pg.
            if pg = 0 then ret False
            else
              seq (upd_mem (\<lambda>m. memmove m pg (P2V (PTE_ADDR e)) PGSIZE)) (\<lambda>_.
              seq (mappages d i PGSIZE (V2P pg) (PTE_FLAGS e)) (\<lambda>r.
              if r < 0 then ret False
              else
                let i' = i + PGSIZE in
                if i < i' then copyuvm_loop pgdir d sz i' else forever)))))
      else ret True)"
  by pat_completeness auto
termination
  by (relation "measure (\<lambda>(pgdir, d, sz, i). unat sz - unat i)") (auto intro: loop_measure)

declare copyuvm_loop.simps [simp del]

definition copyuvm :: "u32 \<Rightarrow> u32 \<Rightarrow> (u32, 'z kvm_scheme) km" where
  "copyuvm pgdir sz =
     seq setupkvm (\<lambda>d.
     if d = 0 then ret 0
     else
       seq (copyuvm_loop pgdir d sz 0) (\<lambda>ok.
       if ok then ret d
       else
         seq (freevm d) (\<lambda>_.
         ret 0)))"

text \<open>
  Where there is no page table for the address, \<open>uva2ka\<close> dereferences the null pointer \<open>walkpgdir\<close> returns: what it reads is the first word of
  the address space in use, whatever that is. No behaviour is assumed for this case.
\<close>

definition uva2ka :: "u32 \<Rightarrow> u32 \<Rightarrow> (u32, 'z kmem_scheme) km" where
  "uva2ka pgdir uva =
     seq (walkpgdir pgdir uva False) (\<lambda>pte.
     if pte = 0 then panic ''undefined''
     else
       seq (gets (\<lambda>s. load32 (mem s) pte)) (\<lambda>e.
       if e AND PTE_P = 0 then ret 0
       else if e AND PTE_U = 0 then ret 0
       else ret (P2V (PTE_ADDR e))))"

text \<open>\<open>copyout\<close>, with the bytes at \<open>p\<close> as a list.\<close>

function copyout :: "u32 \<Rightarrow> u32 \<Rightarrow> u8 list \<Rightarrow> (int, 'z kmem_scheme) km" where
  "copyout pgdir va buf =
     (if buf = [] then ret 0
      else
        let va0 = PGROUNDDOWN va in
        seq (uva2ka pgdir va0) (\<lambda>pa0.
        if pa0 = 0 then ret (- 1)
        else
          let n = min (length buf) (unat (PGSIZE - (va - va0))) in
          seq (upd_mem (\<lambda>m. put_bytes m (pa0 + (va - va0)) (take n buf))) (\<lambda>_.
          copyout pgdir (va0 + PGSIZE) (drop n buf))))"
  by pat_completeness auto

lemma page_room: "0 < unat (PGSIZE - (va - PGROUNDDOWN va))"
proof -
  have "unat (va - PGROUNDDOWN va) = unat va mod 4096"
    by (subst unat_sub) (simp_all add: word_le_nat_alt unat_PGROUNDDOWN minus_div_mult_eq_mod)
  then have "va - PGROUNDDOWN va < 4096" by (simp add: word_less_nat_alt)
  then show ?thesis by (auto simp: PGSIZE_def unat_gt_0)
qed

termination copyout
proof (relation "measure (\<lambda>(pgdir, va, buf). length buf)", goal_cases)
  case (2 pgdir va buf va0 r n s)
  then show ?case using page_room [of va] by simp
qed simp

declare copyout.simps [simp del]

section \<open>Translation\<close>

text \<open>
  The kernel address behind a user address, as the paging hardware finds it for the kernel: both entries have to be present.
\<close>

definition pte_of :: "mem \<Rightarrow> u32 \<Rightarrow> u32 \<Rightarrow> u32" where
  "pte_of m pgdir va =
     (let e = load32 m (pgdir + 4 * PDX va) in
      if e AND PTE_P = 0 then 0 else load32 m (P2V (PTE_ADDR e) + 4 * PTX va))"

definition translate :: "mem \<Rightarrow> u32 \<Rightarrow> u32 \<Rightarrow> u32 option" where
  "translate m pgdir va =
     (let e = pte_of m pgdir va in
      if e AND PTE_P = 0 then None else Some (P2V (PTE_ADDR e) + (va AND 0xFFF)))"

end
