(* ===== verification/Proc.thy ===== *)
theory Proc
  imports Vm
begin

text \<open>
  Processes (\<open>proc.c\<close>): creating, growing, ending and reaping them, and the scheduler. The trap frame and the context of a process are in the
  memory of its kernel stack, at the offsets of the C structures; a thread of control is a kernel computation, cut
  where it calls \<open>swtch\<close>.
\<close>

section \<open>State\<close>

text \<open>
  \<open>forkret\<close> and \<open>trapret\<close> as addresses, and the program \<open>initcode\<close>, come from the linker.
\<close>

record kproc = kvm +
  initproc :: "nat option"
  nextpid :: u32
  ticks :: u32
  forkret_first :: bool
  forkret_addr :: u32
  trapret_addr :: u32
  initcode :: "u8 list"

text \<open>The offsets of \<open>struct trapframe\<close> and its size, and those of \<open>struct context\<close>.\<close>

definition TF_eax :: u32 where "TF_eax = 28"
definition TF_es :: u32 where "TF_es = 40"
definition TF_ds :: u32 where "TF_ds = 44"
definition TF_trapno :: u32 where "TF_trapno = 48"
definition TF_err :: u32 where "TF_err = 52"
definition TF_eip :: u32 where "TF_eip = 56"
definition TF_cs :: u32 where "TF_cs = 60"
definition TF_eflags :: u32 where "TF_eflags = 64"
definition TF_esp :: u32 where "TF_esp = 68"
definition TF_ss :: u32 where "TF_ss = 72"
definition TF_size :: u32 where "TF_size = 76"
definition CTX_eip :: u32 where "CTX_eip = 16"
definition CTX_size :: u32 where "CTX_size = 20"

lemmas tf_defs = TF_eax_def TF_es_def TF_ds_def TF_trapno_def TF_err_def TF_eip_def TF_cs_def TF_eflags_def
  TF_esp_def TF_ss_def TF_size_def CTX_eip_def CTX_size_def

definition FL_IF :: u32 where "FL_IF = 0x200"

definition store16 :: "mem \<Rightarrow> u32 \<Rightarrow> u32 \<Rightarrow> mem" where
  "store16 m a w = m(a := byte_of 0 w, a + 1 := byte_of (Suc 0) w)"

definition load16 :: "mem \<Rightarrow> u32 \<Rightarrow> u32" where
  "load16 m a = ucast (m a) + 256 * ucast (m (a + 1))"

text \<open>\<open>safestrcpy\<close> between character arrays; the end of the source list is its NUL.\<close>

fun safestrcpy_arr :: "u8 list \<Rightarrow> u8 list \<Rightarrow> nat \<Rightarrow> u8 list" where
  "safestrcpy_arr d t 0 = d"
| "safestrcpy_arr d t (Suc 0) = 0 # tl d"
| "safestrcpy_arr d t (Suc (Suc n)) =
     (if t \<noteq> [] \<and> hd t \<noteq> 0 then hd t # safestrcpy_arr (tl d) (tl t) (Suc n)
      else 0 # 0 # drop 2 d)"

section \<open>Creating processes\<close>

definition pinit :: "(unit, 'z kproc_scheme) km" where
  "pinit = initlock LPtable"

definition allocproc :: "(nat option, 'z kproc_scheme) km" where
  "allocproc =
     seq (acquire LPtable) (\<lambda>_.
     seq (gets (\<lambda>s. find (\<lambda>i. p_state (ptable s i) = UNUSED) [0 ..< NPROC])) (\<lambda>r.
     case r of
       None \<Rightarrow>
         seq (release LPtable) (\<lambda>_.
         ret None)
     | Some p \<Rightarrow>
         seq (gets nextpid) (\<lambda>pid.
         seq (upd_proc p (\<lambda>x. x\<lparr>p_state := EMBRYO, p_pid := pid\<rparr>)) (\<lambda>_.
         seq (modify (\<lambda>s. s\<lparr>nextpid := pid + 1\<rparr>)) (\<lambda>_.
         seq (release LPtable) (\<lambda>_.
         seq kalloc (\<lambda>stack.
         seq (upd_proc p (p_kstack_update (\<lambda>_. stack))) (\<lambda>_.
         if stack = 0 then
           seq (upd_proc p (p_state_update (\<lambda>_. UNUSED))) (\<lambda>_.
           ret None)
         else
           let tf = stack + KSTACKSIZE - TF_size; ctx = tf - 4 - CTX_size in
           seq (upd_proc p (p_tf_update (\<lambda>_. tf))) (\<lambda>_.
           seq (gets trapret_addr) (\<lambda>tr.
           seq (upd_mem (\<lambda>m. store32 m (tf - 4) tr)) (\<lambda>_.
           seq (upd_proc p (p_context_update (\<lambda>_. ctx))) (\<lambda>_.
           seq (upd_mem (\<lambda>m. memset m ctx 0 CTX_size)) (\<lambda>_.
           seq (gets forkret_addr) (\<lambda>fr.
           seq (upd_mem (\<lambda>m. store32 m (ctx + CTX_eip) fr)) (\<lambda>_.
           ret (Some p))))))))))))))))"

definition userinit :: "(unit, 'z kproc_scheme) km" where
  "userinit =
     seq allocproc (\<lambda>r.
     seq (modify (\<lambda>s. s\<lparr>initproc := r\<rparr>)) (\<lambda>_.
     case r of None \<Rightarrow> panic ''trap'' | Some p \<Rightarrow>
     seq setupkvm (\<lambda>d.
     seq (upd_proc p (p_pgdir_update (\<lambda>_. d))) (\<lambda>_.
     if d = 0 then panic ''userinit: out of memory?''
     else
       seq (gets initcode) (\<lambda>init.
       seq (inituvm d init) (\<lambda>_.
       seq (upd_proc p (p_sz_update (\<lambda>_. PGSIZE))) (\<lambda>_.
       seq (gets (\<lambda>s. p_tf (ptable s p))) (\<lambda>tf.
       seq (upd_mem (\<lambda>m. memset m tf 0 TF_size)) (\<lambda>_.
       seq (upd_mem (\<lambda>m. store16 m (tf + TF_cs) (push_bit 3 (of_nat SEG_UCODE) OR DPL_USER))) (\<lambda>_.
       seq (upd_mem (\<lambda>m. store16 m (tf + TF_ds) (push_bit 3 (of_nat SEG_UDATA) OR DPL_USER))) (\<lambda>_.
       seq (upd_mem (\<lambda>m. store16 m (tf + TF_es) (load16 m (tf + TF_ds)))) (\<lambda>_.
       seq (upd_mem (\<lambda>m. store16 m (tf + TF_ss) (load16 m (tf + TF_ds)))) (\<lambda>_.
       seq (upd_mem (\<lambda>m. store32 m (tf + TF_eflags) FL_IF)) (\<lambda>_.
       seq (upd_mem (\<lambda>m. store32 m (tf + TF_esp) PGSIZE)) (\<lambda>_.
       seq (upd_mem (\<lambda>m. store32 m (tf + TF_eip) 0)) (\<lambda>_.
       seq (upd_proc p (p_name_update (\<lambda>d. safestrcpy_arr d (bytes ''initcode'') 16))) (\<lambda>_.
       seq (namei (bytes ''/'')) (\<lambda>dir.
       seq (upd_proc p (p_cwd_update (\<lambda>_. dir))) (\<lambda>_.
       seq (acquire LPtable) (\<lambda>_.
       seq (upd_proc p (p_state_update (\<lambda>_. RUNNABLE))) (\<lambda>_.
       release LPtable)))))))))))))))))))))"

definition growproc :: "int \<Rightarrow> (int, 'z kproc_scheme) km" where
  "growproc n =
     seq myproc (\<lambda>mp. case mp of None \<Rightarrow> panic ''trap'' | Some p \<Rightarrow>
     seq (gets (\<lambda>s. ptable s p)) (\<lambda>x.
     seq (if n > 0 then allocuvm (p_pgdir x) (p_sz x) (p_sz x + of_int n)
          else if n < 0 then deallocuvm (p_pgdir x) (p_sz x) (p_sz x + of_int n)
          else ret (p_sz x)) (\<lambda>sz.
     if n \<noteq> 0 \<and> sz = 0 then ret (- 1)
     else
       seq (upd_proc p (p_sz_update (\<lambda>_. sz))) (\<lambda>_.
       seq (switchuvm (Some p)) (\<lambda>_.
       ret 0)))))"

definition dup_files :: "nat \<Rightarrow> nat \<Rightarrow> nat \<Rightarrow> (unit, 'z kproc_scheme) km" where
  "dup_files p np fd =
     seq (gets (\<lambda>s. p_ofile (ptable s p) fd)) (\<lambda>f.
     case f of None \<Rightarrow> ret ()
     | Some f \<Rightarrow>
         seq (filedup f) (\<lambda>g.
         upd_proc np (\<lambda>x. x\<lparr>p_ofile := (p_ofile x)(fd := Some g)\<rparr>)))"

definition fork :: "(int, 'z kproc_scheme) km" where
  "fork =
     seq myproc (\<lambda>mp. case mp of None \<Rightarrow> panic ''trap'' | Some p \<Rightarrow>
     seq allocproc (\<lambda>r. case r of None \<Rightarrow> ret (- 1) | Some np \<Rightarrow>
     seq (gets (\<lambda>s. ptable s p)) (\<lambda>x.
     seq (copyuvm (p_pgdir x) (p_sz x)) (\<lambda>d.
     seq (upd_proc np (p_pgdir_update (\<lambda>_. d))) (\<lambda>_.
     if d = 0 then
       seq (gets (\<lambda>s. p_kstack (ptable s np))) (\<lambda>stack.
       seq (kfree stack) (\<lambda>_.
       seq (upd_proc np (\<lambda>y. y\<lparr>p_kstack := 0, p_state := UNUSED\<rparr>)) (\<lambda>_.
       ret (- 1))))
     else
       seq (upd_proc np (\<lambda>y. y\<lparr>p_sz := p_sz x, p_parent := Some p\<rparr>)) (\<lambda>_.
       seq (gets (\<lambda>s. p_tf (ptable s np))) (\<lambda>tf.
       seq (upd_mem (\<lambda>m. memmove m tf (p_tf x) TF_size)) (\<lambda>_.
       seq (upd_mem (\<lambda>m. store32 m (tf + TF_eax) 0)) (\<lambda>_.
       seq (for_each (dup_files p np) [0 ..< NOFILE]) (\<lambda>_.
       seq (case p_cwd x of None \<Rightarrow> panic ''trap'' | Some dir \<Rightarrow> idup dir) (\<lambda>dir.
       seq (upd_proc np (p_cwd_update (\<lambda>_. Some dir))) (\<lambda>_.
       seq (upd_proc np (p_name_update (\<lambda>d. safestrcpy_arr d (p_name x) 16))) (\<lambda>_.
       seq (gets (\<lambda>s. p_pid (ptable s np))) (\<lambda>pid.
       seq (acquire LPtable) (\<lambda>_.
       seq (upd_proc np (p_state_update (\<lambda>_. RUNNABLE))) (\<lambda>_.
       seq (release LPtable) (\<lambda>_.
       ret (sint pid))))))))))))))))))"

section \<open>Ending processes\<close>

definition close_file :: "nat \<Rightarrow> nat \<Rightarrow> (unit, 'z kproc_scheme) km" where
  "close_file p fd =
     seq (gets (\<lambda>s. p_ofile (ptable s p) fd)) (\<lambda>f.
     case f of None \<Rightarrow> ret ()
     | Some f \<Rightarrow>
         seq (fileclose f) (\<lambda>_.
         upd_proc p (\<lambda>x. x\<lparr>p_ofile := (p_ofile x)(fd := None)\<rparr>)))"

text \<open>No process sleeps on the null pointer, so a wakeup for a process that does not exist has no effect.\<close>

definition wakeup_proc :: "nat option \<Rightarrow> (unit, 'z kbase_scheme) km" where
  "wakeup_proc q = (case q of None \<Rightarrow> ret () | Some i \<Rightarrow> wakeup1 (ChProc i))"

definition abandon :: "nat \<Rightarrow> nat \<Rightarrow> (unit, 'z kproc_scheme) km" where
  "abandon p i =
     seq (gets (\<lambda>s. ptable s i)) (\<lambda>x.
     if p_parent x = Some p then
       seq (gets initproc) (\<lambda>ip.
       seq (upd_proc i (p_parent_update (\<lambda>_. ip))) (\<lambda>_.
       if p_state x = ZOMBIE then wakeup_proc ip else ret ()))
     else ret ())"

definition exit :: "(unit, 'z kproc_scheme) km" where
  "exit =
     seq myproc (\<lambda>mp.
     seq (gets initproc) (\<lambda>ip.
     if mp = ip then panic ''init exiting''
     else case mp of None \<Rightarrow> panic ''trap'' | Some p \<Rightarrow>
       seq (for_each (close_file p) [0 ..< NOFILE]) (\<lambda>_.
       seq begin_op (\<lambda>_.
       seq (gets (\<lambda>s. p_cwd (ptable s p))) (\<lambda>dir.
       seq (case dir of None \<Rightarrow> panic ''trap'' | Some d \<Rightarrow> iput d) (\<lambda>_.
       seq end_op (\<lambda>_.
       seq (upd_proc p (p_cwd_update (\<lambda>_. None))) (\<lambda>_.
       seq (acquire LPtable) (\<lambda>_.
       seq (gets (\<lambda>s. p_parent (ptable s p))) (\<lambda>parent.
       seq (wakeup_proc parent) (\<lambda>_.
       seq (for_each (abandon p) [0 ..< NPROC]) (\<lambda>_.
       seq (upd_proc p (p_state_update (\<lambda>_. ZOMBIE))) (\<lambda>_.
       seq (sched p) (\<lambda>_.
       panic ''zombie exit''))))))))))))))"

definition reap :: "nat \<Rightarrow> (int, 'z kproc_scheme) km" where
  "reap c =
     seq (gets (\<lambda>s. ptable s c)) (\<lambda>x.
     seq (kfree (p_kstack x)) (\<lambda>_.
     seq (upd_proc c (p_kstack_update (\<lambda>_. 0))) (\<lambda>_.
     seq (freevm (p_pgdir x)) (\<lambda>_.
     seq (upd_proc c (\<lambda>y. y\<lparr>p_pid := 0, p_parent := None, p_name := (p_name y)[0 := 0], p_killed := False,
            p_state := UNUSED\<rparr>)) (\<lambda>_.
     seq (release LPtable) (\<lambda>_.
     ret (sint (p_pid x))))))))"

definition wait :: "(int, 'z kproc_scheme) km" where
  "wait =
     seq myproc (\<lambda>mp. case mp of None \<Rightarrow> panic ''trap'' | Some p \<Rightarrow>
     seq (acquire LPtable) (\<lambda>_.
     iterate (\<lambda>_.
       seq (gets (\<lambda>s. find (\<lambda>c. p_parent (ptable s c) = Some p \<and> p_state (ptable s c) = ZOMBIE) [0 ..< NPROC])) (\<lambda>z.
       case z of
         Some c \<Rightarrow> seq (reap c) (\<lambda>pid. ret (Inl pid))
       | None \<Rightarrow>
           seq (gets (\<lambda>s. \<exists>c<NPROC. p_parent (ptable s c) = Some p)) (\<lambda>havekids.
           seq (gets (\<lambda>s. p_killed (ptable s p))) (\<lambda>killed.
           if \<not> havekids \<or> killed then
             seq (release LPtable) (\<lambda>_.
             ret (Inl (- 1)))
           else
             seq (sleep (ChProc p) LPtable) (\<lambda>_.
             ret (Inr ())))))) ()))"

definition kill :: "int \<Rightarrow> (int, 'z kproc_scheme) km" where
  "kill pid =
     seq (acquire LPtable) (\<lambda>_.
     seq (gets (\<lambda>s. find (\<lambda>i. sint (p_pid (ptable s i)) = pid) [0 ..< NPROC])) (\<lambda>r.
     case r of
       Some p \<Rightarrow>
         seq (upd_proc p (\<lambda>x. x\<lparr>p_killed := True, p_state := (if p_state x = SLEEPING then RUNNABLE else p_state x)\<rparr>)) (\<lambda>_.
         seq (release LPtable) (\<lambda>_.
         ret 0))
     | None \<Rightarrow>
         seq (release LPtable) (\<lambda>_.
         ret (- 1))))"

section \<open>Scheduling\<close>

definition forkret :: "(unit, 'z kproc_scheme) km" where
  "forkret =
     seq (release LPtable) (\<lambda>_.
     seq (gets forkret_first) (\<lambda>first.
     if first then
       seq (modify (\<lambda>s. s\<lparr>forkret_first := False\<rparr>)) (\<lambda>_.
       seq (iinit ROOTDEV) (\<lambda>_.
       initlog ROOTDEV))
     else ret ()))"

text \<open>What the scheduler does before it switches to a process and after the process has switched back.\<close>

definition dispatch :: "nat \<Rightarrow> (unit, 'z kvm_scheme) km" where
  "dispatch p =
     seq (modify (\<lambda>s. s\<lparr>curproc := Some p\<rparr>)) (\<lambda>_.
     seq (switchuvm (Some p)) (\<lambda>_.
     upd_proc p (p_state_update (\<lambda>_. RUNNING))))"

definition switched_back :: "(unit, 'z kvm_scheme) km" where
  "switched_back =
     seq switchkvm (\<lambda>_.
     modify (\<lambda>s. s\<lparr>curproc := None\<rparr>))"

text \<open>
  One pass over the process table. \<open>threads\<close> has for every process the rest of its computation, from where it last called \<open>swtch\<close>;
  the answer is these computations after the pass, the state and the processes that were run, or none if the machine has stopped.
\<close>

fun scheduler_scan ::
  "(nat \<Rightarrow> (unit, 'z kvm_scheme) km) \<Rightarrow> nat list \<Rightarrow> 'z kvm_scheme \<Rightarrow>
   ((nat \<Rightarrow> (unit, 'z kvm_scheme) km) \<times> 'z kvm_scheme \<times> nat list) option" where
  "scheduler_scan threads [] s = Some (threads, s, [])"
| "scheduler_scan threads (p # ps) s =
     (if p_state (ptable s p) \<noteq> RUNNABLE then scheduler_scan threads ps s
      else (case seq (dispatch p) (\<lambda>_. threads p) s of
          Switch t k \<Rightarrow>
            (case switched_back t of
               Ret _ u \<Rightarrow> map_option (\<lambda>(th, v, trace). (th, v, p # trace)) (scheduler_scan (threads(p := k)) ps u)
             | _ \<Rightarrow> None)
        | _ \<Rightarrow> None))"

definition scheduler_pass ::
  "(nat \<Rightarrow> (unit, 'z kvm_scheme) km) \<Rightarrow> 'z kvm_scheme \<Rightarrow>
   ((nat \<Rightarrow> (unit, 'z kvm_scheme) km) \<times> 'z kvm_scheme \<times> nat list) option" where
  "scheduler_pass threads s =
     (case acquire LPtable s of
        Ret _ t \<Rightarrow>
          (case scheduler_scan threads [0 ..< NPROC] t of
             Some (th, u, trace) \<Rightarrow> (case release LPtable u of Ret _ v \<Rightarrow> Some (th, v, trace) | _ \<Rightarrow> None)
           | None \<Rightarrow> None)
      | _ \<Rightarrow> None)"

text \<open>The scheduler never returns; \<open>n\<close> is the number of passes looked at.\<close>

fun scheduler ::
  "nat \<Rightarrow> (nat \<Rightarrow> (unit, 'z kvm_scheme) km) \<Rightarrow> 'z kvm_scheme \<Rightarrow>
   ((nat \<Rightarrow> (unit, 'z kvm_scheme) km) \<times> 'z kvm_scheme \<times> nat list) option" where
  "scheduler 0 threads s = Some (threads, s, [])"
| "scheduler (Suc n) threads s =
     (case scheduler_pass threads s of
        Some (th, t, trace) \<Rightarrow> map_option (\<lambda>(th', u, trace'). (th', u, trace @ trace')) (scheduler n th t)
      | None \<Rightarrow> None)"

end
