(* ===== verification/Syscall.thy ===== *)
theory Syscall
  imports Proc
begin

text \<open>
  System call arguments (\<open>syscall.c\<close>) and the process-related system calls (\<open>sysproc.c\<close>). The kernel runs in the address space of the
  process, so a user pointer it dereferences goes through the page directory of the process; an access that is not mapped
  is a trap in the kernel, which panics. A user string is passed on as the list of its bytes.
\<close>

section \<open>User memory\<close>

definition cur_pgdir :: "'z kbase_scheme \<Rightarrow> u32" where
  "cur_pgdir s = (case curproc s of None \<Rightarrow> 0 | Some p \<Rightarrow> p_pgdir (ptable s p))"

definition uload8 :: "u32 \<Rightarrow> (u8, 'z kmem_scheme) km" where
  "uload8 va =
     seq (gets (\<lambda>s. map_option (mem s) (translate (mem s) (cur_pgdir s) va))) (\<lambda>r.
     case r of None \<Rightarrow> panic ''trap'' | Some b \<Rightarrow> ret b)"

definition uload32 :: "u32 \<Rightarrow> (u32, 'z kmem_scheme) km" where
  "uload32 va =
     seq (uload8 va) (\<lambda>b0.
     seq (uload8 (va + 1)) (\<lambda>b1.
     seq (uload8 (va + 2)) (\<lambda>b2.
     seq (uload8 (va + 3)) (\<lambda>b3.
     ret (le32_of b0 b1 b2 b3)))))"

fun uloads :: "u32 \<Rightarrow> nat \<Rightarrow> (u8 list, 'z kmem_scheme) km" where
  "uloads va 0 = ret []"
| "uloads va (Suc n) = seq (uload8 va) (\<lambda>b. seq (uloads (va + 1) n) (\<lambda>bs. ret (b # bs)))"

definition ustore8 :: "u32 \<Rightarrow> u8 \<Rightarrow> (unit, 'z kmem_scheme) km" where
  "ustore8 va b =
     seq (gets (\<lambda>s. translate (mem s) (cur_pgdir s) va)) (\<lambda>r.
     case r of None \<Rightarrow> panic ''trap'' | Some a \<Rightarrow> upd_mem (\<lambda>m. m(a := b)))"

fun ustores :: "u32 \<Rightarrow> u8 list \<Rightarrow> (unit, 'z kmem_scheme) km" where
  "ustores va [] = ret ()"
| "ustores va (b # bs) = seq (ustore8 va b) (\<lambda>_. ustores (va + 1) bs)"

definition bytes32 :: "u32 \<Rightarrow> u8 list" where
  "bytes32 w = map (\<lambda>i. byte_of i w) [0 ..< 4]"

section \<open>Fetching arguments (syscall.c)\<close>

definition cur :: "(nat, 'z kbase_scheme) km" where
  "cur = seq myproc (\<lambda>mp. case mp of None \<Rightarrow> panic ''trap'' | Some p \<Rightarrow> ret p)"

definition cur_sz :: "(u32, 'z kbase_scheme) km" where
  "cur_sz = seq cur (\<lambda>p. gets (\<lambda>s. p_sz (ptable s p)))"

definition fetchint :: "u32 \<Rightarrow> (u32 option, 'z kmem_scheme) km" where
  "fetchint addr =
     seq cur_sz (\<lambda>sz.
     if addr \<ge> sz \<or> addr + 4 > sz then ret None
     else seq (uload32 addr) (\<lambda>v. ret (Some v)))"

lemma word_step: "p < ep \<Longrightarrow> p < p + (1 :: u32)"
proof -
  assume "p < ep"
  then have "unat p + 1 < 2 ^ 32" using u32_bound [of ep] by (simp add: word_less_nat_alt)
  then show ?thesis by (simp add: word_less_nat_alt unat_add_nat [of p 1, simplified])
qed

function fetchstr_loop :: "u32 \<Rightarrow> u32 \<Rightarrow> (u8 list option, 'z kmem_scheme) km" where
  "fetchstr_loop p ep =
     (if p < ep then
        seq (uload8 p) (\<lambda>c.
        if c = 0 then ret (Some [])
        else seq (fetchstr_loop (p + 1) ep) (\<lambda>r. ret (map_option ((#) c) r)))
      else ret None)"
  by pat_completeness auto
termination
  by (relation "measure (\<lambda>(p, ep). unat ep - unat p)") (auto intro!: loop_measure word_step)

declare fetchstr_loop.simps [simp del]

definition fetchstr :: "u32 \<Rightarrow> (u8 list option, 'z kmem_scheme) km" where
  "fetchstr addr =
     seq cur_sz (\<lambda>sz.
     if addr \<ge> sz then ret None
     else fetchstr_loop addr sz)"

definition argint :: "nat \<Rightarrow> (u32 option, 'z kmem_scheme) km" where
  "argint n =
     seq cur (\<lambda>p.
     seq (gets (\<lambda>s. load32 (mem s) (p_tf (ptable s p) + TF_esp))) (\<lambda>esp.
     fetchint (esp + 4 + 4 * of_nat n)))"

definition argptr :: "nat \<Rightarrow> int \<Rightarrow> (u32 option, 'z kmem_scheme) km" where
  "argptr n len =
     seq (argint n) (\<lambda>r. case r of None \<Rightarrow> ret None | Some i \<Rightarrow>
     seq cur_sz (\<lambda>sz.
     if len < 0 \<or> i \<ge> sz \<or> i + of_int len > sz then ret None
     else ret (Some i)))"

definition argstr :: "nat \<Rightarrow> (u8 list option, 'z kmem_scheme) km" where
  "argstr n =
     seq (argint n) (\<lambda>r. case r of None \<Rightarrow> ret None | Some addr \<Rightarrow> fetchstr addr)"

section \<open>System calls on processes (sysproc.c)\<close>

definition sys_fork :: "(int, 'z kproc_scheme) km" where
  "sys_fork = fork"

definition sys_exit :: "(int, 'z kproc_scheme) km" where
  "sys_exit = seq exit (\<lambda>_. ret 0)"

definition sys_wait :: "(int, 'z kproc_scheme) km" where
  "sys_wait = wait"

definition sys_kill :: "(int, 'z kproc_scheme) km" where
  "sys_kill =
     seq (argint 0) (\<lambda>r. case r of None \<Rightarrow> ret (- 1) | Some pid \<Rightarrow>
     kill (sint pid))"

definition sys_getpid :: "(int, 'z kproc_scheme) km" where
  "sys_getpid = seq cur (\<lambda>p. gets (\<lambda>s. sint (p_pid (ptable s p))))"

definition sys_sbrk :: "(int, 'z kproc_scheme) km" where
  "sys_sbrk =
     seq (argint 0) (\<lambda>r. case r of None \<Rightarrow> ret (- 1) | Some n \<Rightarrow>
     seq cur_sz (\<lambda>addr.
     seq (growproc (sint n)) (\<lambda>g.
     if g < 0 then ret (- 1)
     else ret (sint addr))))"

text \<open>In \<open>ticks - ticks0 < n\<close> the \<open>int\<close> is converted to unsigned, so a negative \<open>n\<close> is a very long sleep.\<close>

definition sys_sleep :: "(int, 'z kproc_scheme) km" where
  "sys_sleep =
     seq (argint 0) (\<lambda>r. case r of None \<Rightarrow> ret (- 1) | Some n \<Rightarrow>
     seq (acquire LTicks) (\<lambda>_.
     seq (gets ticks) (\<lambda>ticks0.
     seq (iterate (\<lambda>_.
       seq (gets ticks) (\<lambda>now.
       if now - ticks0 < n then
         seq cur (\<lambda>p.
         seq (gets (\<lambda>s. p_killed (ptable s p))) (\<lambda>killed.
         if killed then ret (Inl False)
         else
           seq (sleep ChTicks LTicks) (\<lambda>_.
           ret (Inr ()))))
       else ret (Inl True))) ()) (\<lambda>ok.
     seq (release LTicks) (\<lambda>_.
     ret (if ok then 0 else - 1))))))"

definition sys_uptime :: "(int, 'z kproc_scheme) km" where
  "sys_uptime =
     seq (acquire LTicks) (\<lambda>_.
     seq (gets ticks) (\<lambda>xticks.
     seq (release LTicks) (\<lambda>_.
     ret (sint xticks))))"

end
