(* ===== verification/Exec.thy ===== *)
theory Exec
  imports Syscall
begin

text \<open>
  Replacing the program of a process (\<open>exec.c\<close>, with the file format of \<open>elf.h\<close>). The structures \<open>elfhdr\<close> and \<open>proghdr\<close> are read at their
  offsets in the bytes of the file.
\<close>

section \<open>The file format\<close>

definition ELF_MAGIC :: u32 where "ELF_MAGIC = 0x464C457F"
definition ELF_PROG_LOAD :: u32 where "ELF_PROG_LOAD = 1"

record elfhdr =
  e_magic :: u32
  e_entry :: u32
  e_phoff :: u32
  e_phnum :: u16

record proghdr =
  ph_type :: u32
  ph_off :: u32
  ph_vaddr :: u32
  ph_filesz :: u32
  ph_memsz :: u32

definition ELFHDR_SIZE :: nat where "ELFHDR_SIZE = 52"
definition PROGHDR_SIZE :: nat where "PROGHDR_SIZE = 32"

definition elfhdr_of :: "u8 list \<Rightarrow> elfhdr" where
  "elfhdr_of d = \<lparr>e_magic = get32 d 0, e_entry = get32 d 24, e_phoff = get32 d 28, e_phnum = get16 d 44\<rparr>"

definition proghdr_of :: "u8 list \<Rightarrow> proghdr" where
  "proghdr_of d = \<lparr>ph_type = get32 d 0, ph_off = get32 d 4, ph_vaddr = get32 d 8, ph_filesz = get32 d 16, ph_memsz = get32 d 20\<rparr>"

section \<open>exec\<close>

text \<open>Loading the segments; \<open>None\<close> is the jump to the label \<open>bad\<close>.\<close>

fun load_segments :: "u32 \<Rightarrow> nat \<Rightarrow> u32 \<Rightarrow> nat \<Rightarrow> u32 \<Rightarrow> (u32 option, 'z kvm_scheme) km" where
  "load_segments pgdir ip off 0 sz = ret (Some sz)"
| "load_segments pgdir ip off (Suc n) sz =
     seq (readi ip off (of_nat PROGHDR_SIZE)) (\<lambda>(r, bs).
     if r \<noteq> int PROGHDR_SIZE then ret None
     else
       let ph = proghdr_of bs; off' = off + of_nat PROGHDR_SIZE in
       if ph_type ph \<noteq> ELF_PROG_LOAD then load_segments pgdir ip off' n sz
       else if ph_memsz ph < ph_filesz ph then ret None
       else if ph_vaddr ph + ph_memsz ph < ph_vaddr ph then ret None
       else
         seq (allocuvm pgdir sz (ph_vaddr ph + ph_memsz ph)) (\<lambda>sz'.
         if sz' = 0 then ret None
         else if ph_vaddr ph mod PGSIZE \<noteq> 0 then ret None
         else
           seq (loaduvm pgdir (ph_vaddr ph) ip (ph_off ph) (ph_filesz ph)) (\<lambda>r.
           if r < 0 then ret None
           else load_segments pgdir ip off' n sz')))"

text \<open>Pushing the argument strings; the answer is the stack pointer and the addresses of the strings.\<close>

fun push_args :: "u32 \<Rightarrow> u8 list list \<Rightarrow> nat \<Rightarrow> u32 \<Rightarrow> ((u32 \<times> u32 list) option, 'z kmem_scheme) km" where
  "push_args pgdir [] argc sp = ret (Some (sp, []))"
| "push_args pgdir (a # argv) argc sp =
     (if argc \<ge> MAXARG then ret None
      else
        let sp' = (sp - (of_nat (length a) + 1)) AND NOT 3 in
        seq (copyout pgdir sp' (a @ [0])) (\<lambda>r.
        if r < 0 then ret None
        else
          seq (push_args pgdir argv (argc + 1) sp') (\<lambda>q.
          ret (map_option (\<lambda>(top, ps). (top, sp' # ps)) q))))"

definition ustack_bytes :: "nat \<Rightarrow> u32 \<Rightarrow> u32 list \<Rightarrow> u8 list" where
  "ustack_bytes argc sp ptrs =
     concat (map bytes32 ([0xFFFFFFFF, of_nat argc, sp - (of_nat argc + 1) * 4] @ ptrs @ [0]))"

text \<open>The part of the path after the last slash.\<close>

fun base_name :: "u8 list \<Rightarrow> u8 list \<Rightarrow> u8 list" where
  "base_name l [] = l"
| "base_name l (c # s) = base_name (if c = 47 then s else l) s"

definition exec_bad :: "u32 \<Rightarrow> nat option \<Rightarrow> (int, 'z kvm_scheme) km" where
  "exec_bad pgdir ip =
     seq (if pgdir \<noteq> 0 then freevm pgdir else ret ()) (\<lambda>_.
     seq (case ip of None \<Rightarrow> ret () | Some i \<Rightarrow> seq (iunlockput i) (\<lambda>_. end_op)) (\<lambda>_.
     ret (- 1)))"

text \<open>From the allocation of the stack on; the inode is no longer locked.\<close>

definition exec_stack :: "nat \<Rightarrow> u8 list \<Rightarrow> u8 list list \<Rightarrow> u32 \<Rightarrow> u32 \<Rightarrow> u32 \<Rightarrow> (int, 'z kvm_scheme) km" where
  "exec_stack p path argv entry pgdir sz0 =
     (let sz1 = PGROUNDUP sz0 in
      seq (allocuvm pgdir sz1 (sz1 + 2 * PGSIZE)) (\<lambda>sz.
      if sz = 0 then exec_bad pgdir None
      else
        seq (clearpteu pgdir (sz - 2 * PGSIZE)) (\<lambda>_.
        seq (push_args pgdir argv 0 sz) (\<lambda>q. case q of None \<Rightarrow> exec_bad pgdir None | Some (sp, ptrs) \<Rightarrow>
        let argc = length argv; sp' = sp - (3 + of_nat argc + 1) * 4 in
        seq (copyout pgdir sp' (ustack_bytes argc sp ptrs)) (\<lambda>r.
        if r < 0 then exec_bad pgdir None
        else
          seq (upd_proc p (p_name_update (\<lambda>d. safestrcpy_arr d (base_name path path) 16))) (\<lambda>_.
          seq (gets (\<lambda>s. ptable s p)) (\<lambda>x.
          seq (upd_proc p (\<lambda>x. x\<lparr>p_pgdir := pgdir, p_sz := sz\<rparr>)) (\<lambda>_.
          seq (upd_mem (\<lambda>m. store32 m (p_tf x + TF_eip) entry)) (\<lambda>_.
          seq (upd_mem (\<lambda>m. store32 m (p_tf x + TF_esp) sp')) (\<lambda>_.
          seq (switchuvm (Some p)) (\<lambda>_.
          seq (freevm (p_pgdir x)) (\<lambda>_.
          ret 0))))))))))))"

definition exec :: "u8 list \<Rightarrow> u8 list list \<Rightarrow> (int, 'z kvm_scheme) km" where
  "exec path argv =
     seq cur (\<lambda>p.
     seq begin_op (\<lambda>_.
     seq (namei path) (\<lambda>r. case r of
       None \<Rightarrow>
         seq end_op (\<lambda>_.
         seq (cprintf_fmt (Some (bytes ''exec: fail'' @ [10])) []) (\<lambda>_.
         ret (- 1)))
     | Some ip \<Rightarrow>
         seq (ilock ip) (\<lambda>_.
         seq (readi ip 0 (of_nat ELFHDR_SIZE)) (\<lambda>(n, bs).
         if n \<noteq> int ELFHDR_SIZE then exec_bad 0 (Some ip)
         else
           let elf = elfhdr_of bs in
           if e_magic elf \<noteq> ELF_MAGIC then exec_bad 0 (Some ip)
           else
             seq setupkvm (\<lambda>pgdir.
             if pgdir = 0 then exec_bad 0 (Some ip)
             else
               seq (load_segments pgdir ip (e_phoff elf) (unat (e_phnum elf)) 0) (\<lambda>q. case q of
                 None \<Rightarrow> exec_bad pgdir (Some ip)
               | Some sz \<Rightarrow>
                   seq (iunlockput ip) (\<lambda>_.
                   seq end_op (\<lambda>_.
                   exec_stack p path argv (e_entry elf) pgdir sz)))))))))"

end
