(* ===== verification/Sysfile.thy ===== *)
theory Sysfile
  imports Exec
begin

text \<open>
  The file system calls (\<open>sysfile.c\<close>): argument checking and calls into \<open>file.c\<close> and \<open>fs.c\<close>, each between \<open>begin_op\<close> and
  \<open>end_op\<close>. Data read goes to the user buffer, data written comes from it; nothing else can change the memory of the process while it
  is in the kernel.
\<close>

section \<open>Descriptors\<close>

definition argfd :: "nat \<Rightarrow> ((nat \<times> nat) option, 'z kproc_scheme) km" where
  "argfd n =
     seq (argint n) (\<lambda>r. case r of None \<Rightarrow> ret None | Some fd \<Rightarrow>
     seq cur (\<lambda>p.
     seq (gets (\<lambda>s. p_ofile (ptable s p) (unat fd))) (\<lambda>f.
     if sint fd < 0 \<or> sint fd \<ge> int NOFILE then ret None
     else case f of None \<Rightarrow> ret None | Some f \<Rightarrow> ret (Some (unat fd, f)))))"

definition fdalloc :: "nat \<Rightarrow> (int, 'z kproc_scheme) km" where
  "fdalloc f =
     seq cur (\<lambda>p.
     seq (gets (\<lambda>s. find (\<lambda>fd. p_ofile (ptable s p) fd = None) [0 ..< NOFILE])) (\<lambda>r. case r of
       Some fd \<Rightarrow>
         seq (upd_proc p (\<lambda>x. x\<lparr>p_ofile := (p_ofile x)(fd := Some f)\<rparr>)) (\<lambda>_.
         ret (int fd))
     | None \<Rightarrow> ret (- 1)))"

definition sys_dup :: "(int, 'z kproc_scheme) km" where
  "sys_dup =
     seq (argfd 0) (\<lambda>r. case r of None \<Rightarrow> ret (- 1) | Some (_, f) \<Rightarrow>
     seq (fdalloc f) (\<lambda>fd.
     if fd < 0 then ret (- 1)
     else
       seq (filedup f) (\<lambda>_.
       ret fd)))"

text \<open>The arguments of \<open>sys_read\<close> and \<open>sys_write\<close>: the file, the length and the buffer.\<close>

definition rw_args :: "((nat \<times> int \<times> u32) option, 'z kproc_scheme) km" where
  "rw_args =
     seq (argfd 0) (\<lambda>r. case r of None \<Rightarrow> ret None | Some (_, f) \<Rightarrow>
     seq (argint 2) (\<lambda>r. case r of None \<Rightarrow> ret None | Some n \<Rightarrow>
     seq (argptr 1 (sint n)) (\<lambda>r. case r of None \<Rightarrow> ret None | Some p \<Rightarrow>
     ret (Some (f, sint n, p)))))"

definition sys_read :: "(int, 'z kproc_scheme) km" where
  "sys_read =
     seq rw_args (\<lambda>a. case a of None \<Rightarrow> ret (- 1) | Some (f, n, p) \<Rightarrow>
     seq (fileread f n) (\<lambda>(r, bs).
     seq (ustores p bs) (\<lambda>_.
     ret r)))"

definition sys_write :: "(int, 'z kproc_scheme) km" where
  "sys_write =
     seq rw_args (\<lambda>a. case a of None \<Rightarrow> ret (- 1) | Some (f, n, p) \<Rightarrow>
     seq (uloads p (nat n)) (\<lambda>bs.
     filewrite f (\<lambda>i. bs ! i) n))"

definition sys_close :: "(int, 'z kproc_scheme) km" where
  "sys_close =
     seq (argfd 0) (\<lambda>r. case r of None \<Rightarrow> ret (- 1) | Some (fd, f) \<Rightarrow>
     seq cur (\<lambda>p.
     seq (upd_proc p (\<lambda>x. x\<lparr>p_ofile := (p_ofile x)(fd := None)\<rparr>)) (\<lambda>_.
     seq (fileclose f) (\<lambda>_.
     ret 0))))"

text \<open>\<open>struct stat\<close> is 20 bytes: \<open>type\<close> at 0, \<open>dev\<close> at 4, \<open>ino\<close> at 8, \<open>nlink\<close> at 12, \<open>size\<close> at 16; the padding is not written.\<close>

definition ustore_stat :: "u32 \<Rightarrow> stat \<Rightarrow> (unit, 'z kmem_scheme) km" where
  "ustore_stat a st =
     seq (ustores a [lo8 (st_type st), hi8 (st_type st)]) (\<lambda>_.
     seq (ustores (a + 4) (bytes32 (of_nat (st_dev st)))) (\<lambda>_.
     seq (ustores (a + 8) (bytes32 (of_nat (st_ino st)))) (\<lambda>_.
     seq (ustores (a + 12) [lo8 (st_nlink st), hi8 (st_nlink st)]) (\<lambda>_.
     ustores (a + 16) (bytes32 (st_size st))))))"

definition sys_fstat :: "(int, 'z kproc_scheme) km" where
  "sys_fstat =
     seq (argfd 0) (\<lambda>r. case r of None \<Rightarrow> ret (- 1) | Some (_, f) \<Rightarrow>
     seq (argptr 1 20) (\<lambda>r. case r of None \<Rightarrow> ret (- 1) | Some a \<Rightarrow>
     seq (filestat f) (\<lambda>(r, st).
     seq (case st of None \<Rightarrow> ret () | Some st \<Rightarrow> ustore_stat a st) (\<lambda>_.
     ret r))))"

section \<open>Links\<close>

definition upd_nlink :: "nat \<Rightarrow> (u16 \<Rightarrow> u16) \<Rightarrow> (unit, 'z kfs_scheme) km" where
  "upd_nlink ip f = upd_inode ip (\<lambda>x. x\<lparr>i_d := (i_d x)\<lparr>d_nlink := f (d_nlink (i_d x))\<rparr>\<rparr>)"

definition sys_link_bad :: "nat \<Rightarrow> (int, 'z kproc_scheme) km" where
  "sys_link_bad ip =
     seq (ilock ip) (\<lambda>_.
     seq (upd_nlink ip (\<lambda>n. n - 1)) (\<lambda>_.
     seq (iupdate ip) (\<lambda>_.
     seq (iunlockput ip) (\<lambda>_.
     seq end_op (\<lambda>_.
     ret (- 1))))))"

definition sys_link :: "(int, 'z kproc_scheme) km" where
  "sys_link =
     seq (argstr 0) (\<lambda>r. case r of None \<Rightarrow> ret (- 1) | Some old \<Rightarrow>
     seq (argstr 1) (\<lambda>r. case r of None \<Rightarrow> ret (- 1) | Some new \<Rightarrow>
     seq begin_op (\<lambda>_.
     seq (namei old) (\<lambda>r. case r of None \<Rightarrow> seq end_op (\<lambda>_. ret (- 1)) | Some ip \<Rightarrow>
     seq (ilock ip) (\<lambda>_.
     seq (inode_at ip) (\<lambda>x.
     if d_type (i_d x) = T_DIR then
       seq (iunlockput ip) (\<lambda>_.
       seq end_op (\<lambda>_.
       ret (- 1)))
     else
       seq (upd_nlink ip (\<lambda>n. n + 1)) (\<lambda>_.
       seq (iupdate ip) (\<lambda>_.
       seq (iunlock ip) (\<lambda>_.
       seq (nameiparent new) (\<lambda>r. case r of None \<Rightarrow> sys_link_bad ip | Some (dp, name) \<Rightarrow>
       seq (ilock dp) (\<lambda>_.
       seq (inode_at dp) (\<lambda>d.
       seq (inode_at ip) (\<lambda>x.
       seq (if i_dev d \<noteq> i_dev x then ret (- 1) else dirlink dp name (i_inum x)) (\<lambda>r.
       if r < 0 then
         seq (iunlockput dp) (\<lambda>_.
         sys_link_bad ip)
       else
         seq (iunlockput dp) (\<lambda>_.
         seq (iput ip) (\<lambda>_.
         seq end_op (\<lambda>_.
         ret 0)))))))))))))))))"

text \<open>The loop of \<open>isdirempty\<close>, from the offset \<open>off\<close> on.\<close>

function isdirempty_from :: "nat \<Rightarrow> nat \<Rightarrow> nat \<Rightarrow> (bool, 'z kfs_scheme) km" where
  "isdirempty_from dp sz off =
     (if off < sz then
        seq (readi dp (of_nat off) (of_nat DIRENT)) (\<lambda>(r, de).
        if r \<noteq> int DIRENT then panic ''isdirempty: readi''
        else if de_inum de \<noteq> 0 then ret False
        else isdirempty_from dp sz (off + DIRENT))
      else ret True)"
  by pat_completeness auto
termination
  by (relation "measure (\<lambda>(dp, sz, off). sz - off)") (auto simp: DIRENT_def)

declare isdirempty_from.simps [simp del]

definition isdirempty :: "nat \<Rightarrow> (bool, 'z kfs_scheme) km" where
  "isdirempty dp = seq (inode_at dp) (\<lambda>x. isdirempty_from dp (unat (d_size (i_d x))) (2 * DIRENT))"

definition sys_unlink_bad :: "nat \<Rightarrow> (int, 'z kproc_scheme) km" where
  "sys_unlink_bad dp =
     seq (iunlockput dp) (\<lambda>_.
     seq end_op (\<lambda>_.
     ret (- 1)))"

definition sys_unlink :: "(int, 'z kproc_scheme) km" where
  "sys_unlink =
     seq (argstr 0) (\<lambda>r. case r of None \<Rightarrow> ret (- 1) | Some path \<Rightarrow>
     seq begin_op (\<lambda>_.
     seq (nameiparent path) (\<lambda>r. case r of None \<Rightarrow> seq end_op (\<lambda>_. ret (- 1)) | Some (dp, name) \<Rightarrow>
     seq (ilock dp) (\<lambda>_.
     if namecmp name (bytes ''.'') = 0 \<or> namecmp name (bytes ''..'') = 0 then sys_unlink_bad dp
     else
       seq (dirlookup dp name) (\<lambda>r. case r of None \<Rightarrow> sys_unlink_bad dp | Some (ip, off) \<Rightarrow>
       seq (ilock ip) (\<lambda>_.
       seq (inode_at ip) (\<lambda>x.
       if sint (d_nlink (i_d x)) < 1 then panic ''unlink: nlink < 1''
       else
         seq (if d_type (i_d x) = T_DIR then isdirempty ip else ret True) (\<lambda>ok.
         if \<not> ok then
           seq (iunlockput ip) (\<lambda>_.
           sys_unlink_bad dp)
         else
           seq (writei dp (\<lambda>_. 0) (of_nat off) (of_nat DIRENT)) (\<lambda>r.
           if r \<noteq> int DIRENT then panic ''unlink: writei''
           else
             seq (if d_type (i_d x) = T_DIR then
                    seq (upd_nlink dp (\<lambda>n. n - 1)) (\<lambda>_. iupdate dp)
                  else ret ()) (\<lambda>_.
             seq (iunlockput dp) (\<lambda>_.
             seq (upd_nlink ip (\<lambda>n. n - 1)) (\<lambda>_.
             seq (iupdate ip) (\<lambda>_.
             seq (iunlockput ip) (\<lambda>_.
             seq end_op (\<lambda>_.
             ret 0)))))))))))))))"

section \<open>Creating and opening\<close>

text \<open>\<open>ialloc\<close> panics when there is no free inode, so it does not return the null pointer.\<close>

definition create :: "u8 list \<Rightarrow> u16 \<Rightarrow> u16 \<Rightarrow> u16 \<Rightarrow> (nat option, 'z kfs_scheme) km" where
  "create path ty major minor =
     seq (nameiparent path) (\<lambda>r. case r of None \<Rightarrow> ret None | Some (dp, name) \<Rightarrow>
     seq (ilock dp) (\<lambda>_.
     seq (dirlookup dp name) (\<lambda>r. case r of
       Some (ip, _) \<Rightarrow>
         seq (iunlockput dp) (\<lambda>_.
         seq (ilock ip) (\<lambda>_.
         seq (inode_at ip) (\<lambda>x.
         if ty = T_FILE \<and> d_type (i_d x) = T_FILE then ret (Some ip)
         else
           seq (iunlockput ip) (\<lambda>_.
           ret None))))
     | None \<Rightarrow>
         seq (inode_at dp) (\<lambda>d.
         seq (ialloc (i_dev d) ty) (\<lambda>ip.
         seq (ilock ip) (\<lambda>_.
         seq (upd_inode ip (\<lambda>x. x\<lparr>i_d := (i_d x)\<lparr>d_major := major, d_minor := minor, d_nlink := 1\<rparr>\<rparr>)) (\<lambda>_.
         seq (iupdate ip) (\<lambda>_.
         seq (inode_at ip) (\<lambda>x.
         seq (if ty = T_DIR then
                seq (upd_nlink dp (\<lambda>n. n + 1)) (\<lambda>_.
                seq (iupdate dp) (\<lambda>_.
                seq (dirlink ip (bytes ''.'') (i_inum x)) (\<lambda>r.
                if r < 0 then panic ''create dots''
                else
                  seq (dirlink ip (bytes ''..'') (i_inum d)) (\<lambda>r.
                  if r < 0 then panic ''create dots'' else ret ()))))
              else ret ()) (\<lambda>_.
         seq (dirlink dp name (i_inum x)) (\<lambda>r.
         if r < 0 then panic ''create: dirlink''
         else
           seq (iunlockput dp) (\<lambda>_.
           ret (Some ip)))))))))))))"

definition O_RDONLY :: u32 where "O_RDONLY = 0x000"
definition O_WRONLY :: u32 where "O_WRONLY = 0x001"
definition O_RDWR :: u32 where "O_RDWR = 0x002"
definition O_CREATE :: u32 where "O_CREATE = 0x200"

text \<open>The inode to open, locked; \<open>None\<close> if there is none or it must not be opened in this mode.\<close>

definition open_inode :: "u8 list \<Rightarrow> u32 \<Rightarrow> (nat option, 'z kfs_scheme) km" where
  "open_inode path omode =
     (if omode AND O_CREATE \<noteq> 0 then create path T_FILE 0 0
      else
        seq (namei path) (\<lambda>r. case r of None \<Rightarrow> ret None | Some ip \<Rightarrow>
        seq (ilock ip) (\<lambda>_.
        seq (inode_at ip) (\<lambda>x.
        if d_type (i_d x) = T_DIR \<and> omode \<noteq> O_RDONLY then
          seq (iunlockput ip) (\<lambda>_.
          ret None)
        else ret (Some ip)))))"

definition sys_open :: "(int, 'z kproc_scheme) km" where
  "sys_open =
     seq (argstr 0) (\<lambda>r. case r of None \<Rightarrow> ret (- 1) | Some path \<Rightarrow>
     seq (argint 1) (\<lambda>r. case r of None \<Rightarrow> ret (- 1) | Some omode \<Rightarrow>
     seq begin_op (\<lambda>_.
     seq (open_inode path omode) (\<lambda>r. case r of None \<Rightarrow> seq end_op (\<lambda>_. ret (- 1)) | Some ip \<Rightarrow>
     seq filealloc (\<lambda>f.
     seq (case f of None \<Rightarrow> ret (- 1) | Some f \<Rightarrow> fdalloc f) (\<lambda>fd.
     case (if fd < 0 then None else f) of
       None \<Rightarrow>
         seq (case f of None \<Rightarrow> ret () | Some f \<Rightarrow> fileclose f) (\<lambda>_.
         seq (iunlockput ip) (\<lambda>_.
         seq end_op (\<lambda>_.
         ret (- 1))))
     | Some f \<Rightarrow>
         seq (iunlock ip) (\<lambda>_.
         seq end_op (\<lambda>_.
         seq (upd_file f (\<lambda>x. x\<lparr>f_type := FD_INODE, f_ip := ip, f_off := 0,
                f_readable := (omode AND O_WRONLY = 0),
                f_writable := (omode AND O_WRONLY \<noteq> 0 \<or> omode AND O_RDWR \<noteq> 0)\<rparr>)) (\<lambda>_.
         ret fd)))))))))"

definition sys_mkdir :: "(int, 'z kproc_scheme) km" where
  "sys_mkdir =
     seq begin_op (\<lambda>_.
     seq (argstr 0) (\<lambda>r.
     seq (case r of None \<Rightarrow> ret None | Some path \<Rightarrow> create path T_DIR 0 0) (\<lambda>q. case q of
       None \<Rightarrow> seq end_op (\<lambda>_. ret (- 1))
     | Some ip \<Rightarrow>
         seq (iunlockput ip) (\<lambda>_.
         seq end_op (\<lambda>_.
         ret 0)))))"

definition sys_mknod :: "(int, 'z kproc_scheme) km" where
  "sys_mknod =
     seq begin_op (\<lambda>_.
     seq (seq (argstr 0) (\<lambda>r. case r of None \<Rightarrow> ret None | Some path \<Rightarrow>
          seq (argint 1) (\<lambda>r. case r of None \<Rightarrow> ret None | Some major \<Rightarrow>
          seq (argint 2) (\<lambda>r. case r of None \<Rightarrow> ret None | Some minor \<Rightarrow>
          create path T_DEV (ucast major) (ucast minor))))) (\<lambda>q. case q of
       None \<Rightarrow> seq end_op (\<lambda>_. ret (- 1))
     | Some ip \<Rightarrow>
         seq (iunlockput ip) (\<lambda>_.
         seq end_op (\<lambda>_.
         ret 0))))"

definition sys_chdir :: "(int, 'z kproc_scheme) km" where
  "sys_chdir =
     seq cur (\<lambda>p.
     seq begin_op (\<lambda>_.
     seq (argstr 0) (\<lambda>r.
     seq (case r of None \<Rightarrow> ret None | Some path \<Rightarrow> namei path) (\<lambda>q. case q of
       None \<Rightarrow> seq end_op (\<lambda>_. ret (- 1))
     | Some ip \<Rightarrow>
         seq (ilock ip) (\<lambda>_.
         seq (inode_at ip) (\<lambda>x.
         if d_type (i_d x) \<noteq> T_DIR then
           seq (iunlockput ip) (\<lambda>_.
           seq end_op (\<lambda>_.
           ret (- 1)))
         else
           seq (iunlock ip) (\<lambda>_.
           seq (gets (\<lambda>s. p_cwd (ptable s p))) (\<lambda>dir.
           seq (case dir of None \<Rightarrow> panic ''trap'' | Some d \<Rightarrow> iput d) (\<lambda>_.
           seq end_op (\<lambda>_.
           seq (upd_proc p (p_cwd_update (\<lambda>_. Some ip))) (\<lambda>_.
           ret 0)))))))))))"

section \<open>exec and pipe\<close>

text \<open>Collecting the argument strings; \<open>n\<close> is the room left in \<open>argv\<close>.\<close>

fun exec_argv :: "u32 \<Rightarrow> nat \<Rightarrow> (u8 list list option, 'z kmem_scheme) km" where
  "exec_argv uargv 0 = ret None"
| "exec_argv uargv (Suc n) =
     seq (fetchint uargv) (\<lambda>r. case r of None \<Rightarrow> ret None | Some uarg \<Rightarrow>
     if uarg = 0 then ret (Some [])
     else
       seq (fetchstr uarg) (\<lambda>r. case r of None \<Rightarrow> ret None | Some a \<Rightarrow>
       seq (exec_argv (uargv + 4) n) (\<lambda>q.
       ret (map_option ((#) a) q))))"

definition sys_exec :: "(int, 'z kproc_scheme) km" where
  "sys_exec =
     seq (argstr 0) (\<lambda>r. case r of None \<Rightarrow> ret (- 1) | Some path \<Rightarrow>
     seq (argint 1) (\<lambda>r. case r of None \<Rightarrow> ret (- 1) | Some uargv \<Rightarrow>
     seq (exec_argv uargv MAXARG) (\<lambda>q. case q of None \<Rightarrow> ret (- 1) | Some argv \<Rightarrow>
     exec path argv)))"

definition sys_pipe :: "(int, 'z kproc_scheme) km" where
  "sys_pipe =
     seq (argptr 0 8) (\<lambda>r. case r of None \<Rightarrow> ret (- 1) | Some a \<Rightarrow>
     seq pipealloc (\<lambda>q. case q of None \<Rightarrow> ret (- 1) | Some (f0, f1) \<Rightarrow>
     seq (fdalloc f0) (\<lambda>fd0.
     seq (if fd0 < 0 then ret (- 1) else fdalloc f1) (\<lambda>fd1.
     if fd1 < 0 then
       seq (if fd0 \<ge> 0 then
              seq cur (\<lambda>p. upd_proc p (\<lambda>x. x\<lparr>p_ofile := (p_ofile x)(nat fd0 := None)\<rparr>))
            else ret ()) (\<lambda>_.
       seq (fileclose f0) (\<lambda>_.
       seq (fileclose f1) (\<lambda>_.
       ret (- 1))))
     else
       seq (ustores a (bytes32 (of_int fd0))) (\<lambda>_.
       seq (ustores (a + 4) (bytes32 (of_int fd1))) (\<lambda>_.
       ret 0))))))"

end
