(* ===== verification/Nic.thy ===== *)
theory Nic
  imports Proc
begin

text \<open>
  The network card (\<open>i8254.c\<close>) and the PCI bus it is found on (\<open>pci.c\<close>). The registers of the card are words of memory from \<open>base_addr\<close> on
  and the descriptor rings are in ordinary memory, as in the code; what the card itself writes there between two calls of
  the driver is not part of the model. Two answers of the hardware are fields of the state: the configuration
  space of the bus and the contents of the EEPROM register after a request.
\<close>

section \<open>State\<close>

record pci_dev =
  bus_num :: u8
  device_num :: u8
  function_num :: u8
  device_id :: u32
  vendor_id :: u32
  base_class :: u8
  sub_class :: u8
  pci_interface :: u8
  revision_id :: u8
  bar0 :: u32
  bar1 :: u32

record arp_entry =
  a_ip :: "u8 list"
  a_mac :: "u8 list"
  a_use :: u8

record knet = kproc +
  base_addr :: u32
  mac_addr :: "u8 list"
  my_ip :: "u8 list"
  intr_addr :: u32
  pci_device :: pci_dev
  pci_config :: "u32 \<Rightarrow> u32"   \<comment> \<open>the configuration space, by configuration address\<close>
  eeprom :: "u32 \<Rightarrow> u32"       \<comment> \<open>what the card leaves in \<open>EERD\<close> for an address\<close>
  arp_table :: "nat \<Rightarrow> arp_entry"
  ip_id :: int
  send_id :: u16
  seq_num :: u32
  fin_flag :: bool

definition I8254_RECV_DESC_NUM :: u32 where [const_defs]: "I8254_RECV_DESC_NUM = 256"
definition I8254_SEND_DESC_NUM :: u32 where [const_defs]: "I8254_SEND_DESC_NUM = 256"
definition I8254_DEVICE_ID :: u32 where [const_defs]: "I8254_DEVICE_ID = 0x100E"
definition I8254_VENDOR_ID :: u32 where [const_defs]: "I8254_VENDOR_ID = 0x8086"
definition I8254_CTRL_SLU :: u32 where [const_defs]: "I8254_CTRL_SLU = push_bit 6 1"
definition I8254_CTRL_ILOS :: u32 where [const_defs]: "I8254_CTRL_ILOS = push_bit 7 1"
definition I8254_CTRL_RST :: u32 where [const_defs]: "I8254_CTRL_RST = push_bit 26 1"
definition I8254_CTRL_VME :: u32 where [const_defs]: "I8254_CTRL_VME = push_bit 30 1"
definition I8254_CTRL_PHY_RST :: u32 where [const_defs]: "I8254_CTRL_PHY_RST = push_bit 31 1"
definition I8254_RCTL_EN :: u32 where [const_defs]: "I8254_RCTL_EN = push_bit 1 1"
definition I8254_RCTL_UPE :: u32 where [const_defs]: "I8254_RCTL_UPE = push_bit 3 1"
definition I8254_RCTL_MPE :: u32 where [const_defs]: "I8254_RCTL_MPE = push_bit 4 1"
definition I8254_RCTL_BAM :: u32 where [const_defs]: "I8254_RCTL_BAM = push_bit 15 1"
definition I8254_RCTL_SECRC :: u32 where [const_defs]: "I8254_RCTL_SECRC = push_bit 26 1"
definition I8254_RCTL_BSIZE :: u32 where [const_defs]: "I8254_RCTL_BSIZE = 0"
definition I8254_TCTL_EN :: u32 where [const_defs]: "I8254_TCTL_EN = push_bit 1 1"
definition I8254_TCTL_PSP :: u32 where [const_defs]: "I8254_TCTL_PSP = push_bit 3 1"
definition I8254_TCTL_CT :: u32 where [const_defs]: "I8254_TCTL_CT = push_bit 4 0xF"
definition I8254_TCTL_COLD :: u32 where [const_defs]: "I8254_TCTL_COLD = push_bit 12 0x40"
definition I8254_RAH_AS_DEST :: u32 where [const_defs]: "I8254_RAH_AS_DEST = 0"
definition I8254_RAH_AV :: u32 where [const_defs]: "I8254_RAH_AV = push_bit 31 1"
definition I8254_IMS_LSC :: u32 where [const_defs]: "I8254_IMS_LSC = push_bit 2 1"
definition I8254_IMS_RXSEQ :: u32 where [const_defs]: "I8254_IMS_RXSEQ = push_bit 3 1"
definition I8254_IMS_RXDMT0 :: u32 where [const_defs]: "I8254_IMS_RXDMT0 = push_bit 4 1"
definition I8254_IMS_RXO :: u32 where [const_defs]: "I8254_IMS_RXO = push_bit 6 1"
definition I8254_IMS_RXT0 :: u32 where [const_defs]: "I8254_IMS_RXT0 = push_bit 7 1"
definition I8254_TXDCTL_WTHRESH :: u32 where [const_defs]: "I8254_TXDCTL_WTHRESH = push_bit 16 1"
definition I8254_TXDCTL_GRAN_DESC :: u32 where [const_defs]: "I8254_TXDCTL_GRAN_DESC = push_bit 24 1"
definition PCI_CMD_BUS_MASTER :: u32 where [const_defs]: "PCI_CMD_BUS_MASTER = push_bit 2 1"

definition PCI_P2V :: "u32 \<Rightarrow> u32" where "PCI_P2V a = a + PCI_VP_OFFSET"

section \<open>Access to the card\<close>

definition reg :: "u32 \<Rightarrow> (u32, 'z knet_scheme) km" where
  "reg off = gets (\<lambda>s. load32 (mem s) (base_addr s + off))"

definition set_reg :: "u32 \<Rightarrow> u32 \<Rightarrow> (unit, 'z knet_scheme) km" where
  "set_reg off w = modify (\<lambda>s. s\<lparr>mem := store32 (mem s) (base_addr s + off) w\<rparr>)"

definition cprintln :: "string \<Rightarrow> carg list \<Rightarrow> (unit, 'z kcons_scheme) km" where
  "cprintln fmt args = cprintf_fmt (Some (bytes fmt @ [10])) args"

text \<open>The loop polls until the card has set the done bit; a card that never does hangs the driver.\<close>

definition i8254_read_eeprom :: "u32 \<Rightarrow> (u32, 'z knet_scheme) km" where
  "i8254_read_eeprom addr =
     seq (set_reg 0x14 (push_bit 8 (addr AND 0xFF) OR 1)) (\<lambda>_.
     seq (gets (\<lambda>s. eeprom s addr)) (\<lambda>answer.
     seq (set_reg 0x14 answer) (\<lambda>_.
     if answer AND push_bit 4 1 = 0 then forever
     else
       seq (reg 0x14) (\<lambda>w.
       ret (drop_bit 16 w AND 0xFFFF)))))"

section \<open>Sending\<close>

text \<open>The fields of the \<open>i\<close>-th transmit descriptor at \<open>d\<close>: 16 bytes each.\<close>

definition i8254_send :: "u32 \<Rightarrow> u32 \<Rightarrow> (int, 'z knet_scheme) km" where
  "i8254_send pkt_addr len =
     seq (reg 0x3810) (\<lambda>tdh.
     seq (reg 0x3818) (\<lambda>tdt.
     seq (reg 0x3800) (\<lambda>tdbal.
     let tx_available = I8254_SEND_DESC_NUM - ((I8254_SEND_DESC_NUM - tdh + tdt) mod I8254_SEND_DESC_NUM);
         d = P2V tdbal + 16 * (tdt mod I8254_SEND_DESC_NUM) in
     if sint tx_available > 0 then
       seq (upd_mem (\<lambda>m. memmove m (P2V (load32 m d)) pkt_addr len)) (\<lambda>_.
       seq (upd_mem (\<lambda>m. store16 m (d + 8) len)) (\<lambda>_.
       seq (upd_mem (\<lambda>m. m(d + 12 := 0, d + 13 := 0, d + 11 := 0xB))) (\<lambda>_.
       seq (upd_mem (\<lambda>m. store16 m (d + 14) 0)) (\<lambda>_.
       seq (upd_mem (\<lambda>m. m(d + 10 := 0))) (\<lambda>_.
       seq (set_reg 0x3818 ((tdt + 1) mod I8254_SEND_DESC_NUM)) (\<lambda>_.
       ret (sint len)))))))
     else ret (- 1))))"

definition i8254_intr :: "(unit, 'z knet_scheme) km" where
  "i8254_intr = modify (\<lambda>s. s\<lparr>mem := store32 (mem s) (intr_addr s) 0xEEEEEE\<rparr>)"

section \<open>Initialisation\<close>

text \<open>Clearing a receive or transmit descriptor except for its buffer address: both structures have the same layout up to names.\<close>

definition clear_desc :: "u32 \<Rightarrow> nat \<Rightarrow> (unit, 'z knet_scheme) km" where
  "clear_desc desc i =
     (let d = desc + 16 * of_nat i in
      seq (upd_mem (\<lambda>m. store32 m (d + 4) 0)) (\<lambda>_.
      seq (upd_mem (\<lambda>m. store16 m (d + 8) 0)) (\<lambda>_.
      seq (upd_mem (\<lambda>m. m(d + 10 := 0, d + 11 := 0, d + 12 := 0, d + 13 := 0))) (\<lambda>_.
      upd_mem (\<lambda>m. store16 m (d + 14) 0)))))"

text \<open>The loop that gives buffers to the descriptors; \<open>n\<close> rounds are left.\<close>

fun fill_buffers :: "u32 \<Rightarrow> nat \<Rightarrow> nat \<Rightarrow> (unit, 'z knet_scheme) km" where
  "fill_buffers desc i 0 = ret ()"
| "fill_buffers desc i (Suc n) =
     seq kalloc (\<lambda>buf.
     if buf = 0 then cprintln ''failed to allocate buffer area'' []
     else
       seq (upd_mem (\<lambda>m. store32 m (desc + 16 * of_nat i) (V2P buf))) (\<lambda>_.
       seq (upd_mem (\<lambda>m. store32 m (desc + 16 * of_nat (i + 1)) (V2P (buf + 0x800)))) (\<lambda>_.
       fill_buffers desc (i + 1) n)))"

definition i8254_init_recv :: "(unit, 'z knet_scheme) km" where
  "i8254_init_recv =
     seq (i8254_read_eeprom 0) (\<lambda>data_l.
     seq (i8254_read_eeprom 1) (\<lambda>data_m.
     seq (i8254_read_eeprom 2) (\<lambda>data_h.
     let mac = [ucast (data_l AND 0xFF), ucast (drop_bit 8 data_l), ucast (data_m AND 0xFF), ucast (drop_bit 8 data_m),
                ucast (data_h AND 0xFF), ucast (drop_bit 8 data_h)] in
     seq (modify (\<lambda>s. s\<lparr>mac_addr := mac\<rparr>)) (\<lambda>_.
     seq (cprintln ''MAC Address %x:%x:%x:%x:%x:%x'' (map (\<lambda>b. CInt (ucast b)) mac)) (\<lambda>_.
     seq (set_reg 0x5400 (data_l OR push_bit 16 data_m)) (\<lambda>_.
     seq (set_reg 0x5404 (data_h OR I8254_RAH_AS_DEST OR I8254_RAH_AV)) (\<lambda>_.
     seq (for_each (\<lambda>i. set_reg (0x5200 + 4 * of_nat i) 0) [0 ..< 128]) (\<lambda>_.
     let ims = I8254_IMS_RXT0 OR I8254_IMS_RXDMT0 OR I8254_IMS_RXSEQ OR I8254_IMS_LSC OR I8254_IMS_RXO in
     seq (set_reg 0xD0 ims) (\<lambda>_.
     seq (set_reg 0xC8 ims) (\<lambda>_.
     seq (set_reg 0x2828 0) (\<lambda>_.
     seq (set_reg 0x100 (I8254_RCTL_UPE OR I8254_RCTL_MPE OR I8254_RCTL_BAM OR I8254_RCTL_BSIZE OR I8254_RCTL_SECRC)) (\<lambda>_.
     seq kalloc (\<lambda>recv_desc.
     seq (set_reg 0x2800 (V2P recv_desc)) (\<lambda>_.
     seq (set_reg 0x2804 0) (\<lambda>_.
     seq (set_reg 0x2808 (16 * I8254_RECV_DESC_NUM)) (\<lambda>_.
     seq (set_reg 0x2810 0) (\<lambda>_.
     seq (set_reg 0x2818 I8254_RECV_DESC_NUM) (\<lambda>_.
     seq (for_each (clear_desc recv_desc) [0 ..< unat I8254_RECV_DESC_NUM]) (\<lambda>_.
     seq (fill_buffers recv_desc 0 (unat I8254_RECV_DESC_NUM div 2)) (\<lambda>_.
     seq (reg 0x100) (\<lambda>rctl.
     seq (set_reg 0x100 (rctl OR I8254_RCTL_EN)) (\<lambda>_.
     cprintln ''E1000 Recieve Initialize Done'' []))))))))))))))))))))))"

definition i8254_init_send :: "(unit, 'z knet_scheme) km" where
  "i8254_init_send =
     seq (set_reg 0x3828 (I8254_TXDCTL_WTHRESH OR I8254_TXDCTL_GRAN_DESC)) (\<lambda>_.
     seq kalloc (\<lambda>tx_desc.
     seq (set_reg 0x3800 (V2P tx_desc)) (\<lambda>_.
     seq (set_reg 0x3804 0) (\<lambda>_.
     seq (set_reg 0x3808 (16 * I8254_SEND_DESC_NUM)) (\<lambda>_.
     seq (set_reg 0x3810 0) (\<lambda>_.
     seq (set_reg 0x3818 0) (\<lambda>_.
     seq (for_each (clear_desc tx_desc) [0 ..< unat I8254_SEND_DESC_NUM]) (\<lambda>_.
     seq (fill_buffers tx_desc 0 (unat I8254_SEND_DESC_NUM div 2)) (\<lambda>_.
     seq (set_reg 0x400 (I8254_TCTL_EN OR I8254_TCTL_PSP OR I8254_TCTL_COLD OR I8254_TCTL_CT)) (\<lambda>_.
     seq (set_reg 0x410 (10 OR push_bit 10 10 OR push_bit 20 10)) (\<lambda>_.
     cprintln ''E1000 Transmit Initialize Done'' [])))))))))))"

section \<open>The PCI bus\<close>

definition config_addr :: "u32 \<Rightarrow> u32 \<Rightarrow> u32 \<Rightarrow> u32 \<Rightarrow> u32" where
  "config_addr bus device function reg_addr =
     push_bit 16 (bus AND 0xFF) OR push_bit 11 (device AND 0x1F) OR push_bit 8 (function AND 0x7) OR
     (reg_addr AND 0xFC) OR 0x80000000"

definition pci_access_config :: "u32 \<Rightarrow> u32 \<Rightarrow> u32 \<Rightarrow> u32 \<Rightarrow> (u32, 'z knet_scheme) km" where
  "pci_access_config bus device function reg_addr =
     gets (\<lambda>s. pci_config s (config_addr bus device function reg_addr))"

definition pci_write_config_register :: "u32 \<Rightarrow> u32 \<Rightarrow> u32 \<Rightarrow> u32 \<Rightarrow> u32 \<Rightarrow> (unit, 'z knet_scheme) km" where
  "pci_write_config_register bus device function reg_addr data =
     modify (\<lambda>s. s\<lparr>pci_config := (pci_config s)(config_addr bus device function reg_addr := data)\<rparr>)"

definition i8254_init :: "pci_dev \<Rightarrow> (unit, 'z knet_scheme) km" where
  "i8254_init dev =
     (let b = ucast (bus_num dev); d = ucast (device_num dev); f = ucast (function_num dev) in
      seq (pci_access_config b d f 0x04) (\<lambda>cmd_reg.
      seq (pci_write_config_register b d f 0x04 (cmd_reg OR PCI_CMD_BUS_MASTER)) (\<lambda>_.
      seq (modify (\<lambda>s. s\<lparr>base_addr := PCI_P2V (bar0 dev)\<rparr>)) (\<lambda>_.
      seq (set_reg 0xD8 0xFFFFFFFF) (\<lambda>_.
      seq (reg 0) (\<lambda>ctrl.
      seq (set_reg 0 (ctrl OR I8254_CTRL_RST)) (\<lambda>_.
      seq (set_reg 0xD8 0xFFFFFFFF) (\<lambda>_.
      seq (reg 0) (\<lambda>ctrl.
      seq (set_reg 0 (ctrl OR I8254_CTRL_SLU)) (\<lambda>_.
      seq (reg 0) (\<lambda>ctrl.
      seq (set_reg 0 (ctrl AND (NOT I8254_CTRL_PHY_RST OR NOT I8254_CTRL_VME OR NOT I8254_CTRL_ILOS))) (\<lambda>_.
      seq (cprintln ''E1000 General Configuration Done'' []) (\<lambda>_.
      seq kalloc (\<lambda>p.
      seq (modify (\<lambda>s. s\<lparr>intr_addr := p\<rparr>)) (\<lambda>_.
      seq (upd_mem (\<lambda>m. store32 m p 0)) (\<lambda>_.
      seq (cprintln ''INTR_ADDR:%x'' [CInt p]) (\<lambda>_.
      seq i8254_init_recv (\<lambda>_.
      seq i8254_init_send (\<lambda>_.
      seq (gets my_ip) (\<lambda>ip.
      seq (cprintln ''IP Address %d.%d.%d.%d'' (map (\<lambda>b. CInt (ucast b)) ip)) (\<lambda>_.
      set_reg 0xD8 0)))))))))))))))))))))"

definition pci_init_device :: "u32 \<Rightarrow> u32 \<Rightarrow> u32 \<Rightarrow> (unit, 'z knet_scheme) km" where
  "pci_init_device bus device function =
     seq (cprintln ''PCI Device Found Bus:0x%x Device:0x%x Function:%x'' [CInt bus, CInt device, CInt function]) (\<lambda>_.
     seq (pci_access_config bus device function 0) (\<lambda>ids.
     let dev_id = drop_bit 16 ids; ven_id = ids AND 0xFFFF in
     seq (cprintln ''  Device ID:0x%x  Vendor ID:0x%x'' [CInt dev_id, CInt ven_id]) (\<lambda>_.
     seq (pci_access_config bus device function 0x8) (\<lambda>c.
     seq (cprintln ''  Base Class:0x%x  Sub Class:0x%x  Interface:0x%x  Revision ID:0x%x''
            [CInt (drop_bit 24 c), CInt (drop_bit 16 c AND 0xFF), CInt (drop_bit 8 c AND 0xFF), CInt (c AND 0xFF)]) (\<lambda>_.
     seq (pci_access_config bus device function 0x10) (\<lambda>b0.
     seq (pci_access_config bus device function 0x14) (\<lambda>b1.
     let dev = \<lparr>bus_num = ucast bus, device_num = ucast device, function_num = ucast function, device_id = dev_id,
                vendor_id = ven_id, base_class = ucast (drop_bit 24 c), sub_class = ucast (drop_bit 16 c AND 0xFF),
                pci_interface = ucast (drop_bit 8 c AND 0xFF), revision_id = ucast (c AND 0xFF), bar0 = b0, bar1 = b1\<rparr> in
     seq (modify (\<lambda>s. s\<lparr>pci_device := dev\<rparr>)) (\<lambda>_.
     if dev_id = I8254_DEVICE_ID \<and> ven_id = I8254_VENDOR_ID then
       seq (cprintln ''E1000 Ethernet NIC Found'' []) (\<lambda>_.
       seq (pci_access_config bus device function 0xF0) (\<lambda>msg.
       seq (cprintln ''Message Control:%x'' [CInt msg]) (\<lambda>_.
       i8254_init dev)))
     else ret ()))))))))"

definition pci_init :: "(unit, 'z knet_scheme) km" where
  "pci_init =
     for_each (\<lambda>i. for_each (\<lambda>j. for_each (\<lambda>k.
       seq (pci_access_config (of_nat i) (of_nat j) (of_nat k) 0) (\<lambda>data.
       if data AND 0xFFFF \<noteq> 0xFFFF then pci_init_device (of_nat i) (of_nat j) (of_nat k) else ret ()))
       [0 ..< 8]) [0 ..< 32]) [0 ..< 256]"

end
