(* ===== verification/Net.thy ===== *)
theory Net
  imports Nic
begin

text \<open>
  The network protocols: Ethernet (\<open>eth.c\<close>), ARP (\<open>arp.c\<close>), IPv4 (\<open>ipv4.c\<close>), ICMP echo (\<open>icmp.c\<close>), a TCP endpoint (\<open>tcp.c\<close>) and the page it serves
  (\<open>http.c\<close>). A packet is a range of memory; the fields of the packed structures of \<open>pkts_hdr.h\<close> are at fixed offsets. Half words are
  stored as the machine does, low byte first, so a field in network order is swapped by the code before it is stored. A reply is built in a page of its own,
  so the fields of the received packet are read from the memory before the reply is written.
\<close>

section \<open>Byte order (eth.c)\<close>

definition N2H_ushort :: "u16 \<Rightarrow> u16" where
  "N2H_ushort v = push_bit 8 (v AND 0xFF) + drop_bit 8 v"

definition H2N_ushort :: "u16 \<Rightarrow> u16" where
  "H2N_ushort v = push_bit 8 (v AND 0xFF) + drop_bit 8 v"

definition H2N_uint :: "u32 \<Rightarrow> u32" where
  "H2N_uint v = push_bit 24 (v AND 0xF) + push_bit 8 (v AND 0xF0) + drop_bit 8 (v AND 0xF00) + drop_bit 24 (v AND 0xF000)"

definition N2H_uint :: "u32 \<Rightarrow> u32" where
  "N2H_uint v = push_bit 24 (v AND 0xFF) + push_bit 8 (v AND 0xFF00) + drop_bit 8 (v AND 0xFF0000) + drop_bit 24 (v AND 0xFF000000)"

section \<open>Packets in memory\<close>

definition mem_at :: "mem \<Rightarrow> u32 \<Rightarrow> nat \<Rightarrow> u8 list" where
  "mem_at m a n = map (\<lambda>i. m (a + of_nat i)) [0 ..< n]"

definition half :: "mem \<Rightarrow> u32 \<Rightarrow> u16" where
  "half m a = le16_of (m a) (m (a + 1))"

definition set_half :: "mem \<Rightarrow> u32 \<Rightarrow> u16 \<Rightarrow> mem" where
  "set_half m a w = m(a := lo8 w, a + 1 := hi8 w)"

definition ETH_SIZE :: u32 where [const_defs]: "ETH_SIZE = 14"
definition ARP_SIZE :: u32 where [const_defs]: "ARP_SIZE = 30"
definition IPV4_SIZE :: u32 where [const_defs]: "IPV4_SIZE = 20"
definition ICMP_SIZE :: u32 where [const_defs]: "ICMP_SIZE = 64"
definition TCP_SIZE :: u32 where [const_defs]: "TCP_SIZE = 20"

section \<open>ARP\<close>

definition ARP_TABLE_MAX :: nat where [const_defs]: "ARP_TABLE_MAX = 64"
definition ARP_HARDWARE_TYPE :: u16 where [const_defs]: "ARP_HARDWARE_TYPE = 0x0100"
definition ARP_PROTOCOL_TYPE :: u16 where [const_defs]: "ARP_PROTOCOL_TYPE = 0x0008"
definition ARP_OPS_REQUEST :: u16 where [const_defs]: "ARP_OPS_REQUEST = 0x0100"
definition ARP_OPS_REPLY :: u16 where [const_defs]: "ARP_OPS_REPLY = 0x0200"
definition ARP_UPDATED_TABLE :: int where [const_defs]: "ARP_UPDATED_TABLE = 1"
definition ARP_CREATED_REPLY :: int where [const_defs]: "ARP_CREATED_REPLY = 2"

definition print_ipv4 :: "u8 list \<Rightarrow> (unit, 'z kcons_scheme) km" where
  "print_ipv4 ip = cprintf_fmt (Some (bytes ''IP address: %d.%d.%d.%d'')) (map (\<lambda>b. CInt (ucast b)) ip)"

definition print_mac :: "u8 list \<Rightarrow> (unit, 'z kcons_scheme) km" where
  "print_mac mac = cprintf_fmt (Some (bytes ''MAC address: %x:%x:%x:%x:%x:%x'')) (map (\<lambda>b. CInt (ucast b)) mac)"

definition print_arp_table :: "(unit, 'z knet_scheme) km" where
  "print_arp_table =
     for_each (\<lambda>i.
       seq (gets (\<lambda>s. arp_table s i)) (\<lambda>e.
       if a_use e \<noteq> 0 then
         seq (cprintf_fmt (Some (bytes ''Entry Num: %d '')) [CInt (of_nat i)]) (\<lambda>_.
         seq (print_ipv4 (a_ip e)) (\<lambda>_.
         seq (cprintf_fmt (Some (bytes '' '')) []) (\<lambda>_.
         seq (print_mac (a_mac e)) (\<lambda>_.
         cprintf_fmt (Some [10]) []))))
       else ret ())) [0 ..< ARP_TABLE_MAX]"

text \<open>The loop of \<open>arp_table_search\<close> from entry \<open>i\<close> on, with \<open>n\<close> entries to go and the variable \<open>empty\<close>.\<close>

fun arp_search_loop :: "(nat \<Rightarrow> arp_entry) \<Rightarrow> u8 list \<Rightarrow> nat \<Rightarrow> nat \<Rightarrow> int \<Rightarrow> int" where
  "arp_search_loop tab ip i 0 emp = emp - 1"
| "arp_search_loop tab ip i (Suc n) emp =
     (if a_ip (tab i) = ip then int i
      else arp_search_loop tab ip (Suc i) n (if a_use (tab i) = 0 \<and> emp = 1 then - int i else emp))"

definition arp_table_search :: "(nat \<Rightarrow> arp_entry) \<Rightarrow> u8 list \<Rightarrow> int" where
  "arp_table_search tab ip = arp_search_loop tab ip 0 ARP_TABLE_MAX 1"

text \<open>The update of the table for a sender with this address.\<close>

definition arp_table_enter :: "(nat \<Rightarrow> arp_entry) \<Rightarrow> u8 list \<Rightarrow> u8 list \<Rightarrow> nat \<Rightarrow> arp_entry" where
  "arp_table_enter tab ip mac =
     (let index = arp_table_search tab ip in
      if index > - 1 then tab(nat index := (tab (nat index))\<lparr>a_mac := mac\<rparr>)
      else
        let index = - (index + 1) in
        tab(nat index := \<lparr>a_ip = ip, a_mac = mac, a_use = 1\<rparr>))"

definition arp_table_update :: "u32 \<Rightarrow> (unit, 'z knet_scheme) km" where
  "arp_table_update recv_arp =
     seq (modify (\<lambda>s. s\<lparr>arp_table :=
        arp_table_enter (arp_table s) (mem_at (mem s) (recv_arp + 14) 4) (mem_at (mem s) (recv_arp + 8) 6)\<rparr>)) (\<lambda>_.
     print_arp_table)"

definition print_arp_info :: "u32 \<Rightarrow> (unit, 'z knet_scheme) km" where
  "print_arp_info arp_p =
     seq (gets mem) (\<lambda>m.
     seq (cprintln ''--------Source-------'' []) (\<lambda>_.
     seq (print_ipv4 (mem_at m (arp_p + 14) 4)) (\<lambda>_.
     seq (cprintf_fmt (Some [10]) []) (\<lambda>_.
     seq (print_mac (mem_at m (arp_p + 8) 6)) (\<lambda>_.
     seq (cprintf_fmt (Some [10]) []) (\<lambda>_.
     seq (cprintln ''-----Destination-----'' []) (\<lambda>_.
     seq (print_ipv4 (mem_at m (arp_p + 24) 4)) (\<lambda>_.
     seq (cprintf_fmt (Some [10]) []) (\<lambda>_.
     seq (print_mac (mem_at m (arp_p + 18) 6)) (\<lambda>_.
     seq (cprintf_fmt (Some [10]) []) (\<lambda>_.
     seq (cprintf_fmt (Some (bytes ''Operation: '')) []) (\<lambda>_.
     seq (if half m (arp_p + 6) = ARP_OPS_REQUEST then cprintln ''Request'' []
          else if half m (arp_p + 6) = ARP_OPS_REPLY then cprintln ''Reply'' [] else ret ()) (\<lambda>_.
     cprintf_fmt (Some [10]) [])))))))))))))"

text \<open>An Ethernet header of the type \<open>t0 t1\<close> to \<open>dst\<close>, at \<open>a\<close>.\<close>

definition eth_header :: "mem \<Rightarrow> u32 \<Rightarrow> u8 list \<Rightarrow> u8 list \<Rightarrow> u8 \<Rightarrow> u8 \<Rightarrow> mem" where
  "eth_header m a dst src t0 t1 = put_bytes (put_bytes (m(a + 12 := t0, a + 13 := t1)) a dst) (a + 6) src"

definition arp_body :: "mem \<Rightarrow> u32 \<Rightarrow> u16 \<Rightarrow> u8 list \<Rightarrow> u8 list \<Rightarrow> u8 list \<Rightarrow> u8 list \<Rightarrow> mem" where
  "arp_body m a op dst_mac dst_ip src_mac src_ip =
     (let m1 = set_half m a ARP_HARDWARE_TYPE; m2 = set_half m1 (a + 2) ARP_PROTOCOL_TYPE;
          m3 = m2(a + 4 := 6, a + 5 := 4); m4 = set_half m3 (a + 6) op;
          m5 = put_bytes m4 (a + 18) dst_mac; m6 = put_bytes m5 (a + 24) dst_ip;
          m7 = put_bytes m6 (a + 8) src_mac
      in put_bytes m7 (a + 14) src_ip)"

definition arp_reply_pkt_create :: "u32 \<Rightarrow> u32 \<Rightarrow> (u32, 'z knet_scheme) km" where
  "arp_reply_pkt_create arp_recv send =
     seq (modify (\<lambda>s.
       let m = mem s; dst_mac = mem_at m (arp_recv + 8) 6; dst_ip = mem_at m (arp_recv + 14) 4;
           m1 = eth_header m send dst_mac (mac_addr s) 0x08 0x06
       in s\<lparr>mem := arp_body m1 (send + ETH_SIZE) ARP_OPS_REPLY dst_mac dst_ip (mac_addr s) (my_ip s)\<rparr>)) (\<lambda>_.
     ret (ETH_SIZE + ARP_SIZE))"

definition arp_broadcast :: "u32 \<Rightarrow> u32 \<Rightarrow> (u32, 'z knet_scheme) km" where
  "arp_broadcast send ip =
     seq (modify (\<lambda>s.
       let m1 = eth_header (mem s) send (replicate 6 0xFF) (mac_addr s) 0x08 0x06
       in s\<lparr>mem := arp_body m1 (send + ETH_SIZE) ARP_OPS_REQUEST (replicate 6 0) [10, 0, 1, ucast ip] (mac_addr s) (my_ip s)\<rparr>)) (\<lambda>_.
     ret (ETH_SIZE + ARP_SIZE))"

text \<open>A packet built at the null pointer, when no page is free, is outside the model.\<close>

definition arp_proc :: "u32 \<Rightarrow> (int, 'z knet_scheme) km" where
  "arp_proc arp_p =
     seq (gets mem) (\<lambda>m.
     seq (gets my_ip) (\<lambda>ip.
     if half m arp_p \<noteq> ARP_HARDWARE_TYPE then ret (- 1)
     else if half m (arp_p + 2) \<noteq> ARP_PROTOCOL_TYPE then ret (- 1)
     else if m (arp_p + 4) \<noteq> 6 then ret (- 1)
     else if m (arp_p + 5) \<noteq> 4 then ret (- 1)
     else if ip \<noteq> mem_at m (arp_p + 24) 4 \<and> ip \<noteq> mem_at m (arp_p + 14) 4 then ret (- 1)
     else if half m (arp_p + 6) = ARP_OPS_REQUEST \<and> ip = mem_at m (arp_p + 24) 4 then
       seq kalloc (\<lambda>send.
       if send = 0 then panic ''undefined''
       else
         seq (arp_reply_pkt_create arp_p send) (\<lambda>send_size.
         seq (i8254_send send send_size) (\<lambda>_.
         seq (kfree send) (\<lambda>_.
         ret ARP_CREATED_REPLY))))
     else if half m (arp_p + 6) = ARP_OPS_REPLY \<and> ip = mem_at m (arp_p + 24) 4 then
       seq (cprintln ''ARP TABLE UPDATED'' []) (\<lambda>_.
       seq (arp_table_update arp_p) (\<lambda>_.
       ret ARP_UPDATED_TABLE))
     else ret (- 1)))"

definition arp_scan :: "(unit, 'z knet_scheme) km" where
  "arp_scan =
     for_each (\<lambda>i.
       seq kalloc (\<lambda>send.
       if send = 0 then panic ''undefined''
       else
         seq (arp_broadcast send (of_nat i)) (\<lambda>send_size.
         seq (iterate (\<lambda>_. seq (i8254_send send send_size) (\<lambda>r.
           if r = - 1 then seq (microdelay 1) (\<lambda>_. ret (Inr ())) else ret (Inl ()))) ()) (\<lambda>_.
         kfree send)))) [0 ..< 256]"

section \<open>IPv4 and ICMP\<close>

definition IPV4_TYPE_ICMP :: u8 where [const_defs]: "IPV4_TYPE_ICMP = 0x1"
definition IPV4_TYPE_TCP :: u8 where [const_defs]: "IPV4_TYPE_TCP = 0x6"
definition ICMP_TYPE_ECHO_REQUEST :: u8 where [const_defs]: "ICMP_TYPE_ECHO_REQUEST = 0x8"
definition ICMP_TYPE_ECHO_REPLY :: u8 where [const_defs]: "ICMP_TYPE_ECHO_REPLY = 0x0"

definition be16 :: "mem \<Rightarrow> u32 \<Rightarrow> u32" where
  "be16 m a = push_bit 8 (ucast (m a)) + ucast (m (a + 1))"

text \<open>The loop of the checksums: the next \<open>n\<close> big-endian half words at \<open>a\<close> are added with end-around carry.\<close>

fun chk_loop :: "mem \<Rightarrow> u32 \<Rightarrow> nat \<Rightarrow> u32 \<Rightarrow> u32" where
  "chk_loop m a 0 acc = acc"
| "chk_loop m a (Suc n) acc =
     (let acc = acc + be16 m a in
      chk_loop m (a + 2) n (if acc > 0xFFFF then (acc AND 0xFFFF) + 1 else acc))"

definition ipv4_chksum :: "mem \<Rightarrow> u32 \<Rightarrow> u16" where
  "ipv4_chksum m ipv4_addr = ucast (NOT (chk_loop m ipv4_addr (unat ((m ipv4_addr AND 0xF) * 2)) 0))"

definition icmp_chksum :: "mem \<Rightarrow> u32 \<Rightarrow> u16" where
  "icmp_chksum m icmp_addr = ucast (NOT (chk_loop m icmp_addr 32 0))"

text \<open>The header of a reply, at \<open>a\<close>: \<open>len\<close> bytes with this fragment word and protocol, to \<open>dst\<close>.\<close>

definition ipv4_header :: "mem \<Rightarrow> u32 \<Rightarrow> u16 \<Rightarrow> u16 \<Rightarrow> u16 \<Rightarrow> u8 \<Rightarrow> u8 list \<Rightarrow> u8 list \<Rightarrow> mem" where
  "ipv4_header m a len pid fragment protocol src dst =
     (let m1 = m(a := 0x45, a + 1 := 0); m2 = set_half m1 (a + 2) (H2N_ushort len); m3 = set_half m2 (a + 4) pid;
          m4 = set_half m3 (a + 6) (H2N_ushort fragment); m5 = m4(a + 8 := 255, a + 9 := protocol);
          m6 = put_bytes m5 (a + 12) src; m7 = put_bytes m6 (a + 16) dst; m8 = set_half m7 (a + 10) 0
      in set_half m8 (a + 10) (H2N_ushort (ipv4_chksum m8 a)))"

definition icmp_reply_pkt_create :: "u32 \<Rightarrow> u32 \<Rightarrow> (u32, 'z knet_scheme) km" where
  "icmp_reply_pkt_create recv_addr send_addr =
     seq (modify (\<lambda>s.
       let m = mem s; ipv4_recv = recv_addr + ETH_SIZE;
           icmp_recv = ipv4_recv + ucast (m ipv4_recv AND 0xF) * 4;
           ipv4_send = send_addr + ETH_SIZE; icmp_send = ipv4_send + IPV4_SIZE;
           m1 = eth_header m send_addr (mem_at m (recv_addr + 6) 6) (mac_addr s) 0x08 0x00;
           m2 = ipv4_header m1 ipv4_send (ucast (IPV4_SIZE + ICMP_SIZE)) (send_id s) 0x4000 IPV4_TYPE_ICMP (my_ip s)
                  (mem_at m (ipv4_recv + 12) 4);
           m3 = m2(icmp_send := ICMP_TYPE_ECHO_REPLY, icmp_send + 1 := 0);
           m4 = set_half m3 (icmp_send + 4) (half m (icmp_recv + 4));
           m5 = set_half m4 (icmp_send + 6) (half m (icmp_recv + 6));
           m6 = put_bytes m5 (icmp_send + 8) (mem_at m (icmp_recv + 8) 8);
           m7 = put_bytes m6 (icmp_send + 16) (mem_at m (icmp_recv + 16) 48);
           m8 = set_half m7 (icmp_send + 2) 0
       in s\<lparr>mem := set_half m8 (icmp_send + 2) (H2N_ushort (icmp_chksum m8 icmp_send)), send_id := send_id s + 1\<rparr>)) (\<lambda>_.
     ret (ETH_SIZE + IPV4_SIZE + ICMP_SIZE))"

definition icmp_proc :: "u32 \<Rightarrow> (unit, 'z knet_scheme) km" where
  "icmp_proc buffer_addr =
     seq (gets mem) (\<lambda>m.
     let ipv4_p = buffer_addr + ETH_SIZE; icmp_p = ipv4_p + ucast (m ipv4_p AND 0xF) * 4 in
     if m (icmp_p + 1) = 0 \<and> m icmp_p = ICMP_TYPE_ECHO_REQUEST then
       seq kalloc (\<lambda>send_addr.
       if send_addr = 0 then panic ''undefined''
       else
         seq (icmp_reply_pkt_create buffer_addr send_addr) (\<lambda>send_size.
         seq (i8254_send send_addr send_size) (\<lambda>_.
         kfree send_addr)))
     else ret ())"

definition icmp_proc_req :: "u32 \<Rightarrow> (unit, 'z knet_scheme) km" where
  "icmp_proc_req icmp_p =
     seq (gets mem) (\<lambda>m.
     cprintln ''ICMP ID:0x%x SEQ NUM:0x%x''
       [CInt (ucast (N2H_ushort (half m (icmp_p + 4)))), CInt (ucast (N2H_ushort (half m (icmp_p + 6))))])"

section \<open>HTTP and TCP\<close>

definition tcp_fin :: "(unit, 'z knet_scheme) km" where
  "tcp_fin = modify (\<lambda>s. s\<lparr>fin_flag := True\<rparr>)"

definition http_strcpy :: "u32 \<Rightarrow> u8 list \<Rightarrow> u32 \<Rightarrow> (u32, 'z knet_scheme) km" where
  "http_strcpy dst src start =
     seq (upd_mem (\<lambda>m. put_bytes m (dst + start) src)) (\<lambda>_.
     ret (of_nat (length src)))"

definition http_proc :: "u32 \<Rightarrow> (u32, 'z knet_scheme) km" where
  "http_proc send =
     seq (http_strcpy send (bytes ''HTTP/1.0 200 OK '' @ [13, 10]) 0) (\<lambda>l1.
     seq (http_strcpy send (bytes ''Content-Type: text/html '' @ [13, 10]) l1) (\<lambda>l2.
     seq (http_strcpy send ([13, 10] @ bytes ''Hello World!'' @ [13, 10]) (l1 + l2)) (\<lambda>l3.
     let len = l1 + l2 + l3 in
     seq (if len mod 2 \<noteq> 0 then upd_mem (\<lambda>m. m(send + len := 0)) else ret ()) (\<lambda>_.
     seq tcp_fin (\<lambda>_.
     ret len)))))"

definition TCP_CODEBITS_ACK :: u32 where [const_defs]: "TCP_CODEBITS_ACK = 0x10"
definition TCP_CODEBITS_PSH :: u32 where [const_defs]: "TCP_CODEBITS_PSH = 0x8"
definition TCP_CODEBITS_SYN :: u32 where [const_defs]: "TCP_CODEBITS_SYN = 0x2"
definition TCP_CODEBITS_FIN :: u32 where [const_defs]: "TCP_CODEBITS_FIN = 0x1"

text \<open>The sum of \<open>n\<close> big-endian half words, without carry.\<close>

fun plain_sum :: "mem \<Rightarrow> u32 \<Rightarrow> nat \<Rightarrow> u32 \<Rightarrow> u32" where
  "plain_sum m a 0 acc = acc"
| "plain_sum m a (Suc n) acc = plain_sum m (a + 2) n (acc + be16 m a)"

text \<open>The pseudo header \<open>tcp_dummy\<close> is on the stack of the function: twelve bytes, summed like the segment.\<close>

definition tcp_dummy :: "u8 list \<Rightarrow> u8 list \<Rightarrow> u16 \<Rightarrow> u8 list" where
  "tcp_dummy src dst tcp_len = src @ dst @ [0, IPV4_TYPE_TCP, lo8 tcp_len, hi8 tcp_len]"

definition tcp_chksum :: "mem \<Rightarrow> u32 \<Rightarrow> u8 list \<Rightarrow> u16" where
  "tcp_chksum m ipv4_p ip =
     (let tcp_len = H2N_ushort (N2H_ushort (half m (ipv4_p + 2)) - ucast IPV4_SIZE);
          dummy = tcp_dummy ip (mem_at m (ipv4_p + 12) 4) tcp_len;
          sum1 = plain_sum (\<lambda>a. dummy ! unat a) 0 6 0;
          sum2 = plain_sum m (ipv4_p + IPV4_SIZE) (unat (N2H_ushort tcp_len) div 2) sum1;
          sum3 = sum2 + drop_bit 16 sum2
      in ucast (NOT sum3))"

definition tcp_pkt_create :: "u32 \<Rightarrow> u32 \<Rightarrow> u32 \<Rightarrow> u32 \<Rightarrow> (u32, 'z knet_scheme) km" where
  "tcp_pkt_create recv_addr send_addr pkt_type payload_size =
     seq (modify (\<lambda>s.
       let m = mem s; ipv4_recv = recv_addr + ETH_SIZE;
           tcp_recv = ipv4_recv + ucast (m ipv4_recv AND 0xF) * 4;
           ipv4_send = send_addr + ETH_SIZE; tcp_send = ipv4_send + IPV4_SIZE;
           m1 = eth_header m send_addr (mem_at m (recv_addr + 6) 6) (mac_addr s) 0x08 0x00;
           m2 = ipv4_header m1 ipv4_send (ucast (IPV4_SIZE + TCP_SIZE + payload_size)) (send_id s) 0 IPV4_TYPE_TCP (my_ip s)
                  (mem_at m (ipv4_recv + 12) 4);
           m3 = set_half m2 tcp_send (half m (tcp_recv + 2));
           m4 = set_half m3 (tcp_send + 2) (half m tcp_recv);
           m5 = store32 m4 (tcp_send + 4) (H2N_uint (seq_num s));
           m6 = store32 m5 (tcp_send + 8) (load32 m (tcp_recv + 4) + push_bit 24 1);
           m7 = m6(tcp_send + 12 := 0x50, tcp_send + 13 := ucast pkt_type);
           m8 = set_half m7 (tcp_send + 14) (H2N_ushort 14480);
           m9 = set_half (set_half m8 (tcp_send + 18) 0) (tcp_send + 16) 0
       in s\<lparr>mem := set_half m9 (tcp_send + 16) (H2N_ushort (tcp_chksum m9 ipv4_send (my_ip s) + 8)),
            send_id := send_id s + 1\<rparr>)) (\<lambda>_.
     ret (ETH_SIZE + IPV4_SIZE + TCP_SIZE + payload_size))"

text \<open>Answering a segment with data: an acknowledgement, then the page. Both branches of the test for \<open>GET\<close> do this.\<close>

definition tcp_serve :: "u32 \<Rightarrow> u32 \<Rightarrow> (u32, 'z knet_scheme) km" where
  "tcp_serve buffer_addr send_addr =
     seq (tcp_pkt_create buffer_addr send_addr TCP_CODEBITS_ACK 0) (\<lambda>send_size.
     seq (i8254_send send_addr send_size) (\<lambda>_.
     seq (http_proc (send_addr + ETH_SIZE + IPV4_SIZE + TCP_SIZE)) (\<lambda>payload_size.
     tcp_pkt_create buffer_addr send_addr (TCP_CODEBITS_ACK OR TCP_CODEBITS_PSH) payload_size)))"

definition tcp_proc :: "u32 \<Rightarrow> (unit, 'z knet_scheme) km" where
  "tcp_proc buffer_addr =
     seq (gets mem) (\<lambda>m.
     let ipv4_p = buffer_addr + ETH_SIZE; tcp_p = ipv4_p + ucast (m ipv4_p AND 0xF) * 4;
         payload = tcp_p + 20; bits = ucast (m (tcp_p + 13)) in
     seq kalloc (\<lambda>send_addr.
     if send_addr = 0 then panic ''undefined''
     else
       seq (if bits AND TCP_CODEBITS_SYN \<noteq> 0 then
              seq (tcp_pkt_create buffer_addr send_addr (TCP_CODEBITS_ACK OR TCP_CODEBITS_SYN) 0) (\<lambda>send_size.
              seq (i8254_send send_addr send_size) (\<lambda>_.
              modify (\<lambda>s. s\<lparr>seq_num := seq_num s + 1\<rparr>)))
            else if bits = TCP_CODEBITS_PSH OR TCP_CODEBITS_ACK then
              seq (if mem_at m payload 3 \<noteq> bytes ''GET'' then
                     seq (cprintln ''ACK PSH'' []) (\<lambda>_. tcp_serve buffer_addr send_addr)
                   else tcp_serve buffer_addr send_addr) (\<lambda>send_size.
              seq (i8254_send send_addr send_size) (\<lambda>_.
              modify (\<lambda>s. s\<lparr>seq_num := seq_num s + 1\<rparr>)))
            else if bits = TCP_CODEBITS_ACK then
              seq (gets fin_flag) (\<lambda>fin.
              if fin then
                seq (tcp_pkt_create buffer_addr send_addr TCP_CODEBITS_FIN 0) (\<lambda>send_size.
                seq (i8254_send send_addr send_size) (\<lambda>_.
                modify (\<lambda>s. s\<lparr>fin_flag := False\<rparr>)))
              else ret ())
            else ret ()) (\<lambda>_.
       kfree send_addr)))"

section \<open>Reception\<close>

definition ipv4_proc :: "u32 \<Rightarrow> (unit, 'z knet_scheme) km" where
  "ipv4_proc buffer_addr =
     seq (gets mem) (\<lambda>m.
     let ipv4_p = buffer_addr + 14; pid = uint (half m (ipv4_p + 4)) in
     seq (gets (\<lambda>s. ip_id s \<noteq> pid \<and> my_ip s \<noteq> mem_at m (ipv4_p + 12) 4)) (\<lambda>new.
     if new then
       seq (modify (\<lambda>s. s\<lparr>ip_id := pid\<rparr>)) (\<lambda>_.
       if m (ipv4_p + 9) = IPV4_TYPE_ICMP then icmp_proc buffer_addr
       else if m (ipv4_p + 9) = IPV4_TYPE_TCP then tcp_proc buffer_addr
       else ret ())
     else ret ()))"

definition eth_proc :: "u32 \<Rightarrow> (unit, 'z knet_scheme) km" where
  "eth_proc buffer_addr =
     seq (gets mem) (\<lambda>m.
     if m (buffer_addr + 12) = 0x08 \<and> m (buffer_addr + 13) = 0x06 then
       seq (arp_proc (buffer_addr + ETH_SIZE)) (\<lambda>_.
       ret ())
     else if m (buffer_addr + 12) = 0x08 \<and> m (buffer_addr + 13) = 0x00 then ipv4_proc buffer_addr
     else ret ())"

text \<open>One round of the loop of \<open>i8254_recv\<close>.\<close>

definition i8254_recv_round :: "(unit, 'z knet_scheme) km" where
  "i8254_recv_round =
     seq (reg 0x2800) (\<lambda>rdbal.
     let recv_desc = P2V rdbal in
     seq (reg 0x2818) (\<lambda>rdt.
     seq (reg 0x2810) (\<lambda>rdh.
     let rx_available = (I8254_RECV_DESC_NUM - rdt + rdh) mod I8254_RECV_DESC_NUM in
     seq (if sint rx_available > 0 then
            seq (gets (\<lambda>s. P2V (load32 (mem s) (recv_desc + 16 * rdt)))) (\<lambda>buffer_addr.
            seq (set_reg 0x2818 ((rdt + 1) mod I8254_RECV_DESC_NUM)) (\<lambda>_.
            eth_proc buffer_addr))
          else ret ()) (\<lambda>_.
     seq (reg 0x2818) (\<lambda>rdt.
     seq (reg 0x2810) (\<lambda>rdh.
     if rdt = rdh then set_reg 0x2818 (rdt - 1) else ret ()))))))"

end
