(* ===== verification/Trap.thy ===== *)
theory Trap
  imports Sysfile Net
begin

text \<open>
  Traps: the keyboard (\<open>kbd.c\<close>) and the serial line (\<open>uart.c\<close>) as sources of input, the system call dispatcher (\<open>syscall.c\<close>) and the trap
  handler (\<open>trap.c\<close>). What the devices have to deliver is in the state: the scan codes in the keyboard controller and the bytes in
  the serial port. The acknowledgement \<open>lapiceoi\<close> has no effect on the state of the kernel. The disk of this build is memory, whose
  interrupt handler does nothing.
\<close>

section \<open>State\<close>

record gatedesc =
  off_15_0 :: u32
  g_cs :: u32
  g_args :: u32
  g_rsv1 :: u32
  g_type :: u32
  g_s :: u32
  g_dpl :: u32
  g_p :: u32
  off_31_16 :: u32

record ktrap = knet +
  kbd_shift :: u32
  kbd_pending :: "u8 list"
  uart_pending :: "u8 list"
  idt :: "nat \<Rightarrow> gatedesc"
  idtr :: bool
  vectors :: "nat \<Rightarrow> u32"
  cr2 :: u32

section \<open>Keyboard\<close>

definition SHIFT :: u32 where [const_defs]: "SHIFT = push_bit 0 1"
definition CTL :: u32 where [const_defs]: "CTL = push_bit 1 1"
definition ALT :: u32 where [const_defs]: "ALT = push_bit 2 1"
definition CAPSLOCK :: u32 where [const_defs]: "CAPSLOCK = push_bit 3 1"
definition NUMLOCK :: u32 where [const_defs]: "NUMLOCK = push_bit 4 1"
definition SCROLLLOCK :: u32 where [const_defs]: "SCROLLLOCK = push_bit 5 1"
definition E0ESC :: u32 where [const_defs]: "E0ESC = push_bit 6 1"

definition shiftcode :: "nat \<Rightarrow> u32" where
  "shiftcode = (\<lambda>_. 0)(0x1D := CTL, 0x2A := SHIFT, 0x36 := SHIFT, 0x38 := ALT, 0x9D := CTL, 0xB8 := ALT)"

definition togglecode :: "nat \<Rightarrow> u32" where
  "togglecode = (\<lambda>_. 0)(0x3A := CAPSLOCK, 0x45 := NUMLOCK, 0x46 := SCROLLLOCK)"

text \<open>A map is a table of the first codes, then the two keypad keys, which differ, and the cursor keys.\<close>

definition key_table :: "u8 list \<Rightarrow> u8 \<Rightarrow> u8 \<Rightarrow> nat \<Rightarrow> u8" where
  "key_table keys enter slash =
     (\<lambda>i. if i < length keys then keys ! i else 0)
       (0x9C := enter, 0xB5 := slash, 0xC8 := 0xE2, 0xD0 := 0xE3, 0xC9 := 0xE6, 0xD1 := 0xE7, 0xCB := 0xE4, 0xCD := 0xE5,
        0x97 := 0xE0, 0xCF := 0xE1, 0xD2 := 0xE8, 0xD3 := 0xE9)"

definition normalmap :: "nat \<Rightarrow> u8" where
  "normalmap = key_table
     ([0, 0x1B] @ bytes ''1234567890-='' @ [8, 9] @ bytes ''qwertyuiop[]'' @ [10, 0] @ bytes ''asdfghjkl;'' @
      [39, 96, 0, 92] @ bytes ''zxcvbnm,./'' @ [0, 42, 0, 32] @ replicate 13 0 @ bytes ''789-456+1230.'' @ replicate 4 0) 10 47"

definition shiftmap :: "nat \<Rightarrow> u8" where
  "shiftmap = key_table
     ([0, 27] @ bytes ''!@#$%^&*()_+'' @ [8, 9] @ bytes ''QWERTYUIOP{}'' @ [10, 0] @ bytes ''ASDFGHJKL:'' @
      [34, 126, 0, 124] @ bytes ''ZXCVBNM<>?'' @ [0, 42, 0, 32] @ replicate 13 0 @ bytes ''789-456+1230.'' @ replicate 4 0) 10 47"

definition ctlmap :: "nat \<Rightarrow> u8" where
  "ctlmap = key_table
     (replicate 16 0 @ [17, 23, 5, 18, 20, 25, 21, 9, 15, 16, 0, 0, 13, 0, 1, 19, 4, 6, 7, 8, 10, 11, 12, 0, 0, 0, 0, 28,
      26, 24, 3, 22, 2, 14, 13, 0, 0, 0xEF, 0, 0]) 13 0xEF"

definition charcode :: "u32 \<Rightarrow> nat \<Rightarrow> u8" where
  "charcode k = (if k = 0 then normalmap else if k = 1 then shiftmap else ctlmap)"

text \<open>One scan code: the new shift state and the result of \<open>kbdgetc\<close>.\<close>

definition kbd_scan :: "u32 \<Rightarrow> u8 \<Rightarrow> u32 \<times> int" where
  "kbd_scan shift code =
     (let data = ucast code :: u32 in
      if data = 0xE0 then (shift OR E0ESC, 0)
      else if data AND 0x80 \<noteq> 0 then
        let data = (if shift AND E0ESC \<noteq> 0 then data else data AND 0x7F) in
        (shift AND NOT (shiftcode (unat data) OR E0ESC), 0)
      else
        let (data, shift) = (if shift AND E0ESC \<noteq> 0 then (data OR 0x80, shift AND NOT E0ESC) else (data, shift));
            shift = shift OR shiftcode (unat data);
            shift = shift XOR togglecode (unat data);
            c = uint (charcode (shift AND (CTL OR SHIFT)) (unat data));
            c = (if shift AND CAPSLOCK \<noteq> 0 then
                   if 97 \<le> c \<and> c \<le> 122 then c + (65 - 97)
                   else if 65 \<le> c \<and> c \<le> 90 then c + (97 - 65)
                   else c
                 else c) in
        (shift, c))"

fun kbd_scans :: "u32 \<Rightarrow> u8 list \<Rightarrow> u32 \<times> int list" where
  "kbd_scans shift [] = (shift, [])"
| "kbd_scans shift (d # ds) =
     (case kbd_scan shift d of (shift', c) \<Rightarrow> case kbd_scans shift' ds of (shift'', cs) \<Rightarrow> (shift'', c # cs))"

text \<open>\<open>consoleintr\<close> calls \<open>kbdgetc\<close> until the controller has no more data.\<close>

definition kbdintr :: "(unit, 'z ktrap_scheme) km" where
  "kbdintr =
     seq (gets (\<lambda>s. kbd_scans (kbd_shift s) (kbd_pending s))) (\<lambda>(shift, cs).
     seq (modify (\<lambda>s. s\<lparr>kbd_shift := shift, kbd_pending := []\<rparr>)) (\<lambda>_.
     consoleintr cs))"

definition uartintr :: "(unit, 'z ktrap_scheme) km" where
  "uartintr =
     seq (gets (\<lambda>s. if uart s then map uint (uart_pending s) else [])) (\<lambda>cs.
     seq (modify (\<lambda>s. if uart s then s\<lparr>uart_pending := []\<rparr> else s)) (\<lambda>_.
     consoleintr cs))"

section \<open>System calls\<close>

definition syscalls :: "nat \<Rightarrow> (int, 'z kproc_scheme) km option" where
  "syscalls num =
     (if num = 0 \<or> num > 21 then None
      else Some ([sys_fork, sys_exit, sys_wait, sys_pipe, sys_read, sys_kill, sys_exec, sys_fstat, sys_chdir, sys_dup,
        sys_getpid, sys_sbrk, sys_sleep, sys_uptime, sys_open, sys_write, sys_mknod, sys_unlink, sys_link, sys_mkdir,
        sys_close] ! (num - 1)))"

definition syscall :: "(unit, 'z kproc_scheme) km" where
  "syscall =
     seq cur (\<lambda>p.
     seq (gets (\<lambda>s. load32 (mem s) (p_tf (ptable s p) + TF_eax))) (\<lambda>num.
     seq (case (if sint num > 0 then syscalls (unat num) else None) of
            Some f \<Rightarrow> f
          | None \<Rightarrow>
              seq (gets (\<lambda>s. ptable s p)) (\<lambda>x.
              seq (cprintf_fmt (Some (bytes ''%d %s: unknown sys call %d'' @ [10]))
                     [CInt (p_pid x), CStr (Some (takeWhile (\<lambda>c. c \<noteq> 0) (p_name x))), CInt num]) (\<lambda>_.
              ret (- 1)))) (\<lambda>r.
     modify (\<lambda>s. s\<lparr>mem := store32 (mem s) (p_tf (ptable s p) + TF_eax) (of_int r)\<rparr>))))"

section \<open>Traps\<close>

definition T_SYSCALL :: u32 where [const_defs]: "T_SYSCALL = 64"
definition STS_IG32 :: u32 where [const_defs]: "STS_IG32 = 0xE"
definition STS_TG32 :: u32 where [const_defs]: "STS_TG32 = 0xF"

definition SETGATE :: "bool \<Rightarrow> u32 \<Rightarrow> u32 \<Rightarrow> u32 \<Rightarrow> gatedesc" where
  "SETGATE istrap sel off d =
     \<lparr>off_15_0 = off AND 0xFFFF, g_cs = sel, g_args = 0, g_rsv1 = 0, g_type = (if istrap then STS_TG32 else STS_IG32),
      g_s = 0, g_dpl = d, g_p = 1, off_31_16 = drop_bit 16 off\<rparr>"

definition tvinit :: "(unit, 'z ktrap_scheme) km" where
  "tvinit =
     seq (for_each (\<lambda>i. modify (\<lambda>s. s\<lparr>idt := (idt s)(i := SETGATE False (push_bit 3 (of_nat SEG_KCODE)) (vectors s i) 0)\<rparr>))
            [0 ..< 256]) (\<lambda>_.
     seq (modify (\<lambda>s. s\<lparr>idt := (idt s)(unat T_SYSCALL :=
            SETGATE True (push_bit 3 (of_nat SEG_KCODE)) (vectors s (unat T_SYSCALL)) DPL_USER)\<rparr>)) (\<lambda>_.
     initlock LTicks))"

definition idtinit :: "(unit, 'z ktrap_scheme) km" where
  "idtinit = modify (\<lambda>s. s\<lparr>idtr := True\<rparr>)"

definition cur_killed :: "(bool, 'z kbase_scheme) km" where
  "cur_killed = seq cur (\<lambda>p. gets (\<lambda>s. p_killed (ptable s p)))"

definition timer_tick :: "(unit, 'z ktrap_scheme) km" where
  "timer_tick =
     seq cpuid (\<lambda>c.
     if c = 0 then
       seq (acquire LTicks) (\<lambda>_.
       seq (modify (\<lambda>s. s\<lparr>ticks := ticks s + 1\<rparr>)) (\<lambda>_.
       seq (wakeup ChTicks) (\<lambda>_.
       release LTicks)))
     else ret ())"

definition unexpected_trap :: "u32 \<Rightarrow> u32 \<Rightarrow> (unit, 'z ktrap_scheme) km" where
  "unexpected_trap tf trapno =
     seq myproc (\<lambda>mp.
     seq (gets (\<lambda>s. load16 (mem s) (tf + TF_cs))) (\<lambda>cs.
     seq (gets (\<lambda>s. load32 (mem s) (tf + TF_eip))) (\<lambda>eip.
     seq (gets (\<lambda>s. load32 (mem s) (tf + TF_err))) (\<lambda>err.
     seq (gets cr2) (\<lambda>addr.
     seq cpuid (\<lambda>cpu.
     case (if cs AND 3 = 0 then None else mp) of
       None \<Rightarrow>
         seq (cprintf_fmt (Some (bytes ''unexpected trap %d from cpu %d eip %x (cr2=0x%x)'' @ [10]))
                [CInt trapno, CInt (of_nat cpu), CInt eip, CInt addr]) (\<lambda>_.
         panic ''trap'')
     | Some p \<Rightarrow>
         seq (gets (\<lambda>s. ptable s p)) (\<lambda>x.
         seq (cprintf_fmt (Some (bytes ''pid %d %s: trap %d err %d on cpu %d eip 0x%x addr 0x%x--kill proc'' @ [10]))
                [CInt (p_pid x), CStr (Some (takeWhile (\<lambda>c. c \<noteq> 0) (p_name x))), CInt trapno, CInt err, CInt (of_nat cpu),
                 CInt eip, CInt addr]) (\<lambda>_.
         upd_proc p (p_killed_update (\<lambda>_. True))))))))))"

definition handle_irq :: "u32 \<Rightarrow> u32 \<Rightarrow> (unit, 'z ktrap_scheme) km" where
  "handle_irq tf trapno =
     (if trapno = T_IRQ0 + IRQ_TIMER then seq timer_tick (\<lambda>_. lapiceoi)
      else if trapno = T_IRQ0 + IRQ_IDE then lapiceoi
      else if trapno = T_IRQ0 + IRQ_IDE + 1 then ret ()
      else if trapno = T_IRQ0 + IRQ_KBD then seq kbdintr (\<lambda>_. lapiceoi)
      else if trapno = T_IRQ0 + IRQ_COM1 then seq uartintr (\<lambda>_. lapiceoi)
      else if trapno = T_IRQ0 + 0xB then seq i8254_intr (\<lambda>_. lapiceoi)
      else if trapno = T_IRQ0 + IRQ_SPURIOUS then
        seq cpuid (\<lambda>cpu.
        seq (gets (\<lambda>s. [CInt (of_nat cpu), CInt (load16 (mem s) (tf + TF_cs)), CInt (load32 (mem s) (tf + TF_eip))])) (\<lambda>args.
        seq (cprintf_fmt (Some (bytes ''cpu%d: spurious interrupt at %x:%x'' @ [10])) args) (\<lambda>_.
        lapiceoi)))
      else unexpected_trap tf trapno)"

text \<open>\<open>if(myproc() && myproc()->killed && (tf->cs&3) == DPL_USER) exit();\<close>\<close>

definition exit_if_killed :: "u32 \<Rightarrow> (unit, 'z ktrap_scheme) km" where
  "exit_if_killed tf =
     seq (gets (\<lambda>s. case curproc s of None \<Rightarrow> False | Some p \<Rightarrow>
        p_killed (ptable s p) \<and> load16 (mem s) (tf + TF_cs) AND 3 = DPL_USER)) (\<lambda>b.
     if b then exit else ret ())"

definition trap :: "u32 \<Rightarrow> (unit, 'z ktrap_scheme) km" where
  "trap tf =
     seq (gets (\<lambda>s. load32 (mem s) (tf + TF_trapno))) (\<lambda>trapno.
     if trapno = T_SYSCALL then
       seq cur_killed (\<lambda>k.
       seq (if k then exit else ret ()) (\<lambda>_.
       seq cur (\<lambda>p.
       seq (upd_proc p (p_tf_update (\<lambda>_. tf))) (\<lambda>_.
       seq syscall (\<lambda>_.
       seq cur_killed (\<lambda>k.
       if k then exit else ret ()))))))
     else
       seq (handle_irq tf trapno) (\<lambda>_.
       seq (exit_if_killed tf) (\<lambda>_.
       seq (gets (\<lambda>s. case curproc s of None \<Rightarrow> False | Some p \<Rightarrow>
              p_state (ptable s p) = RUNNING \<and> load32 (mem s) (tf + TF_trapno) = T_IRQ0 + IRQ_TIMER)) (\<lambda>b.
       seq (if b then yield else ret ()) (\<lambda>_.
       exit_if_killed tf)))))"

end
