(* ===== verification/Paging.thy ===== *)
theory Paging
  imports Vm "HOL-Library.Sublist"
begin

text \<open>
  The meaning of page tables. \<open>pgdir_ok\<close> says that a page directory and its tables are distinct pages of their own; under it an entry can be
  set without disturbing any other, which is what \<open>mappages\<close> and the operations built on it rely on.
\<close>

section \<open>Entries of a page\<close>

lemma aligned_offset: "unat (p :: u32) mod 4096 = 0 \<Longrightarrow> i < 4096 \<Longrightarrow> unat (p + of_nat i) = unat p + i"
  using aligned_room by (simp add: unat_add_nat)

lemma unat_plus: "unat a + unat b < 2 ^ 32 \<Longrightarrow> unat (a + b :: u32) = unat a + unat b"
  using unat_add_nat [of a "unat b"] by simp

lemma unat_ent:
  fixes p i :: u32
  assumes "unat p mod 4096 = 0" "i < 1024"
  shows "unat (p + 4 * i) = unat p + 4 * unat i"
proof -
  have "unat i < 1024" using assms(2) by (simp add: word_less_nat_alt)
  moreover from this have "4 * i = of_nat (4 * unat i)" by simp
  ultimately show ?thesis using aligned_offset [OF assms(1), of "4 * unat i"] by simp
qed

lemma ent_far:
  fixes p q i j :: u32
  assumes p: "unat p mod 4096 = 0" "i < 1024" and q: "unat q mod 4096 = 0" "j < 1024" and "k < 4" "(p, i) \<noteq> (q, j)"
  shows "4 \<le> unat (q + 4 * j + of_nat k - (p + 4 * i))"
proof (rule ccontr)
  define D where "D = unat (q + 4 * j + of_nat k - (p + 4 * i))"
  assume "\<not> ?thesis"
  then have D: "D < 4" by (simp add: D_def)
  have ui: "unat i < 1024" "unat j < 1024" using p(2) q(2) by (simp_all add: word_less_nat_alt)
  have "q + 4 * j + of_nat k = p + 4 * i + of_nat D" by (simp add: D_def)
  moreover have "unat (q + 4 * j + of_nat k) = unat q + 4 * unat j + k"
    using unat_ent [OF q] aligned_room [OF q(1), of "4 * unat j + k"] ui \<open>k < 4\<close>
      unat_add_nat [of "q + 4 * j" k] by simp
  moreover have "unat (p + 4 * i + of_nat D) = unat p + 4 * unat i + D"
    using unat_ent [OF p] aligned_room [OF p(1), of "4 * unat i + D"] ui D
      unat_add_nat [of "p + 4 * i" D] by simp
  ultimately have e: "unat q + (4 * unat j + k) = unat p + (4 * unat i + D)" by simp
  obtain x y where xy: "unat q = 4096 * x" "unat p = 4096 * y"
    using p(1) q(1) by (auto simp: mod_eq_0_iff_dvd elim!: dvdE)
  have l: "4 * unat j + k < 4096" "4 * unat i + D < 4096" using ui D \<open>k < 4\<close> by simp_all
  have "(4096 * x + (4 * unat j + k)) div 4096 = (4096 * y + (4 * unat i + D)) div 4096" using e xy by simp
  then have "x = y" using l by simp
  moreover from this have "4 * unat j + k = 4 * unat i + D" using e xy by simp
  then have "(4 * unat j + k) div 4 = (4 * unat i + D) div 4" by simp
  then have "unat j = unat i" using D \<open>k < 4\<close> by simp
  ultimately show False using assms(6) xy by (simp add: word_unat_eq_iff)
qed

lemma load_ent_store:
  fixes p q i j :: u32
  assumes "unat p mod 4096 = 0" "i < 1024" "unat q mod 4096 = 0" "j < 1024"
  shows "load32 (store32 m (p + 4 * i) w) (q + 4 * j) = (if p = q \<and> i = j then w else load32 m (q + 4 * j))"
proof (cases "p = q \<and> i = j")
  case False
  then show ?thesis
    using ent_far [OF assms] by (auto intro!: load32_cong store32_frame)
qed simp

lemma ent_in_page:
  fixes p i :: u32
  assumes "unat p mod 4096 = 0" "i < 1024" "k < 4"
  shows "unat (p + 4 * i + of_nat k - p) < 4096"
proof -
  have i: "unat i < 1024" using assms(2) by (simp add: word_less_nat_alt)
  have "p + 4 * i + of_nat k - p = of_nat (4 * unat i + k)" by simp
  then show ?thesis using i assms(3) by (simp add: unat_of_nat_small del: of_nat_add)
qed

lemma load_ent_other:
  fixes q j :: u32
  assumes "unat v mod 4096 = 0" "unat q mod 4096 = 0" "j < 1024" "q \<noteq> v"
    and same: "\<And>a. 4096 \<le> unat (a - v) \<Longrightarrow> m' a = m a"
  shows "load32 m' (q + 4 * j) = load32 m (q + 4 * j)"
proof (rule load32_cong, rule same)
  fix k :: nat
  assume "k < 4"
  moreover have "unat j < 1024" using assms(3) by (simp add: word_less_nat_alt)
  ultimately show "4096 \<le> unat (q + 4 * j + of_nat k - v)"
    using page_disjoint [OF assms(1,2,4), of "4 * unat j + k"] by (simp add: add.assoc)
qed

lemma memset_page: "memset m x 0 PGSIZE a = (if unat (a - x) < 4096 then 0 else m a)"
  by (simp add: memset_stosb stosb_apply PGSIZE_def)

lemma load_ent_zeroed:
  fixes p i :: u32
  assumes "unat p mod 4096 = 0" "i < 1024"
  shows "load32 (memset m p 0 PGSIZE) (p + 4 * i) = 0"
proof -
  have "memset m p 0 PGSIZE (p + 4 * i + of_nat k) = 0" if "k < 4" for k
    using ent_in_page [OF assms that] by (simp add: memset_page)
  from this [of 0] this [of 1] this [of 2] this [of 3] show ?thesis
    by (simp add: load32_def le32_of_def)
qed

section \<open>Addresses\<close>

lemma unat_PDX: "unat (PDX va) = unat va div 4194304"
proof -
  have "drop_bit 22 va AND 0x3FF = take_bit 10 (drop_bit 22 va)"
    by (simp add: take_bit_eq_mask mask_eq_exp_minus_1)
  also have "\<dots> = drop_bit 22 va"
    by (auto intro!: bit_word_eqI simp: bit_simps) (use bit_imp_le_length [of va] in force)
  finally have "PDX va = drop_bit 22 va" by (simp add: PDX_def)
  then show ?thesis by (simp add: drop_bit_eq_div unat_div)
qed

lemma unat_PTX: "unat (PTX va) = unat va div 4096 mod 1024"
proof -
  have "drop_bit 12 va AND 0x3FF = take_bit 10 (drop_bit 12 va)"
    by (simp add: take_bit_eq_mask mask_eq_exp_minus_1)
  then show ?thesis
    by (simp add: PTX_def take_bit_eq_mod unat_mod drop_bit_eq_div unat_div)
qed

lemma PDX_less: "PDX va < 1024"
proof -
  have "unat va div 4194304 < 1024" using u32_bound [of va] by simp
  then show ?thesis by (simp add: word_less_nat_alt unat_PDX)
qed

lemma PTX_less: "PTX va < 1024"
  by (simp add: word_less_nat_alt unat_PTX)

definition vpn :: "u32 \<Rightarrow> nat" where
  "vpn va = unat va div 4096"

lemma vpn_eq: "PDX va = PDX va' \<and> PTX va = PTX va' \<longleftrightarrow> vpn va = vpn va'"
proof -
  have "vpn va = 1024 * unat (PDX va) + unat (PTX va)" for va
    by (simp add: vpn_def unat_PDX unat_PTX div_mult2_eq [of _ 4096 1024, simplified])
  moreover have "unat (PTX va) < 1024" for va by (simp add: unat_PTX)
  moreover have "1024 * x + y = 1024 * x' + y' \<longleftrightarrow> x = x' \<and> y = y'" if "y < 1024" "y' < 1024" for x y x' y' :: nat
  proof
    assume e: "1024 * x + y = 1024 * x' + y'"
    then have "(1024 * x + y) div 1024 = (1024 * x' + y') div 1024" by simp
    then have "x = x'" using that by simp
    with e show "x = x' \<and> y = y'" by simp
  qed simp
  ultimately show ?thesis by (simp add: word_unat_eq_iff)
qed

section \<open>Entries\<close>

lemma aligned_take_bit: "take_bit 12 w = 0 \<longleftrightarrow> unat (w :: u32) mod 4096 = 0"
proof -
  have "take_bit 12 w = 0 \<longleftrightarrow> unat (take_bit 12 w) = 0" by (simp add: word_unat_eq_iff)
  also have "unat (take_bit 12 w) = unat w mod 4096" by (simp add: take_bit_eq_mod unat_mod)
  finally show ?thesis .
qed

lemma aligned_V2P: "unat v mod 4096 = 0 \<Longrightarrow> unat (V2P v) mod 4096 = 0"
proof -
  assume "unat v mod 4096 = 0"
  moreover have "unat v mod 4096 = (unat (V2P v) + unat KERNBASE) mod 4096"
    using unat_add_mod [of 4096 "V2P v" KERNBASE] by (simp add: V2P_def)
  moreover have "unat KERNBASE = 4096 * 524288" by (simp add: KERNBASE_def)
  ultimately show ?thesis by (metis mod_mult_self2)
qed

lemma PTE_ADDR_take_bit: "PTE_ADDR w = w AND NOT (mask 12)"
  by (simp add: PTE_ADDR_def mask_eq_exp_minus_1)

lemma pte_pack:
  fixes pa fl :: u32
  assumes "unat pa mod 4096 = 0" "fl < 4096"
  shows "PTE_ADDR (pa OR fl OR PTE_P) = pa" "(pa OR fl OR PTE_P) AND PTE_P \<noteq> 0"
    "PTE_FLAGS (pa OR fl OR PTE_P) = fl OR PTE_P"
proof -
  have low: "\<not> bit pa n" if "n < 12" for n
  proof -
    have "take_bit 12 pa = 0" using assms(1) by (simp add: aligned_take_bit)
    then have "bit (take_bit 12 pa) n = False" by simp
    then show ?thesis using that by (simp add: bit_simps)
  qed
  have high: "\<not> bit fl n" if "12 \<le> n" for n
  proof -
    have "fl = take_bit 12 fl"
      using assms(2) by (simp add: take_bit_eq_mod word_unat_eq_iff unat_mod word_less_nat_alt)
    then have "bit fl n = bit (take_bit 12 fl) n" by simp
    then show ?thesis using that by (simp add: bit_simps)
  qed
  have P: "PTE_P = mask 1" by (simp add: PTE_P_def)
  show "PTE_ADDR (pa OR fl OR PTE_P) = pa"
    unfolding PTE_ADDR_take_bit P using low high
    by (auto intro!: bit_word_eqI simp: bit_simps)
  have "bit ((pa OR fl OR PTE_P) AND PTE_P) 0" by (simp add: P bit_simps)
  then show "(pa OR fl OR PTE_P) AND PTE_P \<noteq> 0" by auto
  have F: "PTE_FLAGS w = w AND mask 12" for w by (simp add: PTE_FLAGS_def mask_eq_exp_minus_1)
  show "PTE_FLAGS (pa OR fl OR PTE_P) = fl OR PTE_P"
    unfolding F P using low high
    by (auto intro!: bit_word_eqI simp: bit_simps) (use not_less in blast)+
qed

section \<open>Page directories\<close>

definition has_tab :: "mem \<Rightarrow> u32 \<Rightarrow> u32 \<Rightarrow> bool" where
  "has_tab m d i \<longleftrightarrow> load32 m (d + 4 * i) AND PTE_P \<noteq> 0"

definition tab :: "mem \<Rightarrow> u32 \<Rightarrow> u32 \<Rightarrow> u32" where
  "tab m d i = P2V (PTE_ADDR (load32 m (d + 4 * i)))"

definition tabs :: "mem \<Rightarrow> u32 \<Rightarrow> u32 set" where
  "tabs m d = {tab m d i | i. i < 1024 \<and> has_tab m d i}"

definition pgdir_ok :: "u32 \<Rightarrow> mem \<Rightarrow> u32 \<Rightarrow> bool" where
  "pgdir_ok e m d \<longleftrightarrow> usable_page e d
     \<and> (\<forall>i<1024. has_tab m d i \<longrightarrow> usable_page e (tab m d i) \<and> tab m d i \<noteq> d)
     \<and> (\<forall>i<1024. \<forall>j<1024. has_tab m d i \<and> has_tab m d j \<and> tab m d i = tab m d j \<longrightarrow> i = j)"

definition vm_ok :: "'z kmem_scheme \<Rightarrow> u32 \<Rightarrow> u32 list \<Rightarrow> bool" where
  "vm_ok s d xs \<longleftrightarrow> free_list s xs \<and> pgdir_ok (kend s) (mem s) d \<and> insert d (tabs (mem s) d) \<inter> set xs = {}"

lemma pgdir_okD:
  assumes "pgdir_ok e m d"
  shows "usable_page e d" "i < 1024 \<Longrightarrow> has_tab m d i \<Longrightarrow> usable_page e (tab m d i)"
    "i < 1024 \<Longrightarrow> has_tab m d i \<Longrightarrow> tab m d i \<noteq> d"
    "i < 1024 \<Longrightarrow> j < 1024 \<Longrightarrow> has_tab m d i \<Longrightarrow> has_tab m d j \<Longrightarrow> tab m d i = tab m d j \<Longrightarrow> i = j"
  using assms unfolding pgdir_ok_def by blast+

lemma pte_of_tab: "pte_of m d va = (if has_tab m d (PDX va) then load32 m (tab m d (PDX va) + 4 * PTX va) else 0)"
  by (simp add: pte_of_def has_tab_def tab_def Let_def)

text \<open>Setting an entry of a table changes the translation of one page only.\<close>

lemma set_pte:
  assumes ok: "pgdir_ok e m d" and has: "has_tab m d (PDX va)"
    and m'_def: "m' = store32 m (tab m d (PDX va) + 4 * PTX va) w"
  shows "\<And>i. i < 1024 \<Longrightarrow> load32 m' (d + 4 * i) = load32 m (d + 4 * i)"
    "pgdir_ok e m' d" "tabs m' d = tabs m d"
    "pte_of m' d va' = (if vpn va' = vpn va then w else pte_of m d va')"
proof -
  let ?t = "tab m d (PDX va)"
  have t: "usable_page e ?t" "?t \<noteq> d" and d: "usable_page e d"
    using pgdir_okD [OF ok] has PDX_less by blast+
  show l: "load32 m' (d + 4 * i) = load32 m (d + 4 * i)" if "i < 1024" for i
    unfolding m'_def using that t d PTX_less
    by (subst load_ent_store) (auto simp: usable_aligned)
  have h: "has_tab m' d i = has_tab m d i" "tab m' d i = tab m d i" if "i < 1024" for i
    using l [OF that] by (simp_all add: has_tab_def tab_def)
  show "tabs m' d = tabs m d" using h unfolding tabs_def by (intro Collect_cong ex_cong1) auto
  show "pgdir_ok e m' d" using ok h by (simp add: pgdir_ok_def)
  show "pte_of m' d va' = (if vpn va' = vpn va then w else pte_of m d va')"
  proof (cases "has_tab m d (PDX va')")
    case True
    then have t': "usable_page e (tab m d (PDX va'))" using pgdir_okD [OF ok] PDX_less by blast
    have "tab m d (PDX va') = ?t \<longleftrightarrow> PDX va' = PDX va"
      using pgdir_okD(4) [OF ok PDX_less PDX_less True has] by auto
    then have "(?t = tab m d (PDX va') \<and> PTX va = PTX va') \<longleftrightarrow> vpn va' = vpn va"
      by (metis vpn_eq)
    moreover have "pte_of m' d va' = load32 m' (tab m d (PDX va') + 4 * PTX va')"
      using True h [OF PDX_less] by (simp add: pte_of_tab)
    moreover have "load32 m' (tab m d (PDX va') + 4 * PTX va') =
        (if ?t = tab m d (PDX va') \<and> PTX va = PTX va' then w else load32 m (tab m d (PDX va') + 4 * PTX va'))"
      unfolding m'_def by (rule load_ent_store) (use t t' PTX_less usable_aligned in blast)+
    ultimately show ?thesis using True by (simp add: pte_of_tab)
  next
    case False
    then have "vpn va' \<noteq> vpn va" using has by (metis vpn_eq)
    then show ?thesis using False h [OF PDX_less] by (simp add: pte_of_tab)
  qed
qed

lemma store_ent_frame:
  fixes p i :: u32
  assumes "unat p mod 4096 = 0" "i < 1024" "4096 \<le> unat (a - p)"
  shows "store32 m (p + 4 * i) w a = m a"
proof (rule store32_frame, rule ccontr)
  define k where "k = unat (a - (p + 4 * i))"
  assume "\<not> 4 \<le> unat (a - (p + 4 * i))"
  then have "k < 4" by (simp add: k_def)
  moreover have "a = p + 4 * i + of_nat k" by (simp add: k_def)
  ultimately show False using ent_in_page [OF assms(1,2), of k] assms(3) by simp
qed

text \<open>Giving a directory a new, empty table leaves the translation of every address as it was.\<close>

lemma new_tab:
  assumes ok: "pgdir_ok e m d" and no: "\<not> has_tab m d (PDX va)" and x: "usable_page e x" "x \<notin> insert d (tabs m d)"
    and m'_def: "m' = store32 (memset m x 0 PGSIZE) (d + 4 * PDX va) (V2P x OR PTE_P OR PTE_W OR PTE_U)"
  shows "has_tab m' d (PDX va)" "tab m' d (PDX va) = x" "pgdir_ok e m' d" "tabs m' d = insert x (tabs m d)"
    "pte_of m' d va' = pte_of m d va'"
    "4096 \<le> unat (a - d) \<Longrightarrow> 4096 \<le> unat (a - x) \<Longrightarrow> m' a = m a"
proof -
  let ?w = "V2P x OR PTE_P OR PTE_W OR PTE_U" and ?m = "memset m x 0 PGSIZE"
  have d: "usable_page e d" using pgdir_okD [OF ok] by blast
  have al: "unat d mod 4096 = 0" "unat x mod 4096 = 0" using d x(1) by (simp_all add: usable_aligned)
  have "?w = V2P x OR (PTE_W OR PTE_U) OR PTE_P" by (simp add: ac_simps)
  then have w: "?w AND PTE_P \<noteq> 0" "P2V (PTE_ADDR ?w) = x"
    using pte_pack [OF aligned_V2P [OF al(2)], of "PTE_W OR PTE_U"] by (simp_all add: PTE_W_def PTE_U_def)
  have off: "4096 \<le> unat (a - x) \<Longrightarrow> ?m a = m a" for a by (simp add: memset_page)
  have l: "load32 m' (d + 4 * i) = (if i = PDX va then ?w else load32 m (d + 4 * i))" if "i < 1024" for i
    unfolding m'_def using that x(2) load_ent_other [OF al(2,1) that _ off]
    by (subst load_ent_store [OF al(1) PDX_less al(1) that]) auto
  have h: "has_tab m' d i \<longleftrightarrow> i = PDX va \<or> has_tab m d i"
    "tab m' d i = (if i = PDX va then x else tab m d i)" if "i < 1024" for i
    using l [OF that] w by (auto simp: has_tab_def tab_def)
  show "has_tab m' d (PDX va)" "tab m' d (PDX va) = x" using h [OF PDX_less] by simp_all
  have new: "x \<noteq> tab m d i" if "i < 1024" "has_tab m d i" for i using x(2) that by (auto simp: tabs_def)
  show "pgdir_ok e m' d"
    unfolding pgdir_ok_def
  proof (intro conjI allI impI)
    fix i j
    assume "i < (1024 :: u32)" "j < (1024 :: u32)" "has_tab m' d i \<and> has_tab m' d j \<and> tab m' d i = tab m' d j"
    then show "i = j" using h new no pgdir_okD(4) [OF ok] by (metis (full_types))
  qed (use d x h pgdir_okD [OF ok] in auto)
  show "tabs m' d = insert x (tabs m d)"
  proof (intro set_eqI iffI)
    fix v assume "v \<in> tabs m' d"
    then show "v \<in> insert x (tabs m d)" using h by (auto simp: tabs_def split: if_splits)
  next
    fix v assume "v \<in> insert x (tabs m d)"
    then show "v \<in> tabs m' d"
      unfolding tabs_def using h no PDX_less [of va] by (auto split: if_splits) metis+
  qed
  show "pte_of m' d va' = pte_of m d va'"
  proof (cases "has_tab m d (PDX va')")
    case True
    then have ne: "PDX va' \<noteq> PDX va" using no by auto
    let ?t = "tab m d (PDX va')"
    have t: "unat ?t mod 4096 = 0" "?t \<noteq> d" "?t \<noteq> x"
      using pgdir_okD [OF ok] True PDX_less new usable_aligned by blast+
    then have "load32 m' (?t + 4 * PTX va') = load32 ?m (?t + 4 * PTX va')"
      unfolding m'_def by (subst load_ent_store [OF al(1) PDX_less t(1) PTX_less]) auto
    also have "\<dots> = load32 m (?t + 4 * PTX va')"
      by (rule load_ent_other [OF al(2) t(1) PTX_less t(3)]) (rule off)
    finally show ?thesis using True h [OF PDX_less, of va'] ne by (simp add: pte_of_tab)
  next
    case False
    have "load32 m' (x + 4 * PTX va') = load32 ?m (x + 4 * PTX va')"
      unfolding m'_def using x(2) by (subst load_ent_store [OF al(1) PDX_less al(2) PTX_less]) auto
    also have "\<dots> = 0" by (rule load_ent_zeroed [OF al(2) PTX_less])
    finally show ?thesis using False h [OF PDX_less, of va'] by (auto simp: pte_of_tab)
  qed
  show "4096 \<le> unat (a - d) \<Longrightarrow> 4096 \<le> unat (a - x) \<Longrightarrow> m' a = m a"
    unfolding m'_def by (simp add: store_ent_frame [OF al(1) PDX_less] off)
qed

section \<open>mappages\<close>

text \<open>
  What an operation on the address space \<open>d\<close> may do to the rest: it takes pages off the free list \<open>xs\<close>, uses them as
  tables, and changes memory in the directory, in its tables and in those pages only.
\<close>

definition page_same :: "mem \<Rightarrow> mem \<Rightarrow> u32 \<Rightarrow> bool" where
  "page_same m m' v \<longleftrightarrow> (\<forall>i<4096. m' (v + of_nat i) = m (v + of_nat i))"

definition vm_step :: "u32 \<Rightarrow> u32 list \<Rightarrow> u32 list \<Rightarrow> 'z kmem_scheme \<Rightarrow> 'z kmem_scheme \<Rightarrow> bool" where
  "vm_step d xs ys s t \<longleftrightarrow> vm_ok t d ys \<and> suffix ys xs
     \<and> tabs (mem t) d = tabs (mem s) d \<union> (set xs - set ys)
     \<and> t = s\<lparr>mem := mem t, freelist := freelist t\<rparr>
     \<and> (\<forall>v. unat v mod 4096 = 0 \<longrightarrow> v \<notin> insert d (tabs (mem s) d) \<union> (set xs - set ys) \<longrightarrow> page_same (mem s) (mem t) v)"

lemma vm_ok_distinct: "vm_ok s d xs \<Longrightarrow> distinct xs"
  by (simp add: vm_ok_def free_list_def)

lemma page_same_refl [simp]: "page_same m m v"
  by (simp add: page_same_def)

lemma vm_step_refl: "vm_ok s d xs \<Longrightarrow> vm_step d xs xs s s"
  by (simp add: vm_step_def)

lemma vm_step_same:
  "vm_step d xs ys s t \<Longrightarrow> unat v mod 4096 = 0 \<Longrightarrow> v \<notin> insert d (tabs (mem s) d) \<union> (set xs - set ys) \<Longrightarrow>
   page_same (mem s) (mem t) v"
  by (simp add: vm_step_def)

lemma vm_step_trans:
  assumes "vm_step d xs ys s t" "vm_step d ys zs t u"
  shows "vm_step d xs zs s u"
proof -
  have su: "suffix zs xs" "set zs \<subseteq> set ys" "set ys \<subseteq> set xs"
    using assms by (auto simp: vm_step_def intro: suffix_order.trans dest: set_mono_suffix)
  have tt: "tabs (mem t) d = tabs (mem s) d \<union> (set xs - set ys)"
    "tabs (mem u) d = tabs (mem t) d \<union> (set ys - set zs)"
    using assms by (simp_all add: vm_step_def)
  have "page_same (mem s) (mem u) v"
    if "unat v mod 4096 = 0" "v \<notin> insert d (tabs (mem s) d) \<union> (set xs - set zs)" for v
  proof -
    have "page_same (mem s) (mem t) v" by (rule vm_step_same [OF assms(1) that(1)]) (use that(2) su in auto)
    moreover have "page_same (mem t) (mem u) v" by (rule vm_step_same [OF assms(2) that(1)]) (use that(2) su tt in auto)
    ultimately show ?thesis by (simp add: page_same_def)
  qed
  moreover have "tabs (mem u) d = tabs (mem s) d \<union> (set xs - set zs)" using tt su by blast
  moreover have "u = s\<lparr>mem := mem u, freelist := freelist u\<rparr>"
  proof -
    have t: "t = s\<lparr>mem := mem t, freelist := freelist t\<rparr>" and u: "u = t\<lparr>mem := mem u, freelist := freelist u\<rparr>"
      using assms by (simp_all add: vm_step_def)
    have "t\<lparr>mem := a, freelist := b\<rparr> = s\<lparr>mem := a, freelist := b\<rparr>" for a b by (subst t) simp
    with u show ?thesis by simp
  qed
  moreover have "vm_ok u d zs" using assms(2) by (simp add: vm_step_def)
  ultimately show ?thesis using su(1) unfolding vm_step_def by blast
qed

lemma page_sameI:
  assumes "unat v mod 4096 = 0" "\<And>w. w \<in> W \<Longrightarrow> unat w mod 4096 = 0" "v \<notin> W"
    and "\<And>a. (\<And>w. w \<in> W \<Longrightarrow> 4096 \<le> unat (a - w)) \<Longrightarrow> m' a = m a"
  shows "page_same m m' v"
  unfolding page_same_def
proof (intro allI impI)
  fix i :: nat
  assume "i < 4096"
  show "m' (v + of_nat i) = m (v + of_nat i)"
  proof (rule assms(4))
    fix w assume "w \<in> W"
    then show "4096 \<le> unat (v + of_nat i - w)" using page_disjoint [OF assms(2,1) _ \<open>i < 4096\<close>, of w] assms(3) by auto
  qed
qed

lemma list_at_pages:
  assumes "list_at m p xs" "\<forall>x\<in>set xs. unat x mod 4096 = 0 \<and> page_same m m' x"
  shows "list_at m' p xs"
  using assms
proof (induction xs arbitrary: p)
  case (Cons x xs)
  then have "load32 m' x = load32 m x" by (auto intro!: load32_cong simp: page_same_def)
  with Cons show ?case by auto
qed simp

text \<open>Finding the entry of an address, with the table it needs.\<close>

lemma walkpgdir_alloc:
  assumes ok: "vm_ok s d xs"
  shows "(\<exists>t ys. walkpgdir d va True s = Ret (tab (mem t) d (PDX va) + 4 * PTX va) t \<and> has_tab (mem t) d (PDX va)
      \<and> vm_step d xs ys s t \<and> (\<forall>va'. pte_of (mem t) d va' = pte_of (mem s) d va'))
    \<or> (walkpgdir d va True s = Ret 0 s \<and> xs = [])"
proof (cases "has_tab (mem s) d (PDX va)")
  case True
  then have "walkpgdir d va True s = Ret (tab (mem s) d (PDX va) + 4 * PTX va) s"
    by (simp add: walkpgdir_def Let_def seq_apply has_tab_def tab_def)
  then show ?thesis using True vm_step_refl [OF ok] by blast
next
  case no: False
  have fl: "free_list s xs" and pd: "pgdir_ok (kend s) (mem s) d" using ok by (simp_all add: vm_ok_def)
  show ?thesis
  proof (cases xs)
    case Nil
    then have "kalloc s = Ret 0 s" using kalloc_apply [OF fl] by simp
    then show ?thesis using no Nil by (simp add: walkpgdir_def Let_def seq_apply has_tab_def)
  next
    case (Cons x ys)
    have x: "usable_page (kend s) x" "x \<notin> insert d (tabs (mem s) d)" "x \<notin> set ys"
      using ok Cons by (auto simp: vm_ok_def free_list_def)
    define m' where "m' = store32 (memset (mem s) x 0 PGSIZE) (d + 4 * PDX va) (V2P x OR PTE_P OR PTE_W OR PTE_U)"
    note nt = new_tab [OF pd no x(1,2) m'_def]
    define t where "t = s\<lparr>freelist := load32 (mem s) x, mem := m'\<rparr>"
    have w: "walkpgdir d va True s = Ret (x + 4 * PTX va) t"
      using no usable_nonzero [OF x(1)] kalloc_apply [OF fl] Cons
      by (simp add: walkpgdir_def Let_def seq_apply has_tab_def upd_mem_def t_def m'_def)
    have al: "unat w mod 4096 = 0" if "w \<in> {d, x}" for w
      using that x(1) pgdir_okD(1) [OF pd] by (auto simp: usable_aligned)
    have same: "page_same (mem s) (mem t) v" if "unat v mod 4096 = 0" "v \<notin> {d, x}" for v
      using that nt(6) by (intro page_sameI [where W = "{d, x}"]) (auto simp: t_def al)
    have "list_at (mem s) (load32 (mem s) x) ys" using fl Cons by (auto simp: free_list_def)
    then have "list_at (mem t) (load32 (mem s) x) ys"
    proof (rule list_at_pages)
      show "\<forall>v\<in>set ys. unat v mod 4096 = 0 \<and> page_same (mem s) (mem t) v"
      proof
        fix v assume "v \<in> set ys"
        then have "usable_page (kend s) v" "v \<notin> {d, x}" using ok Cons x(3) by (auto simp: vm_ok_def free_list_def)
        then show "unat v mod 4096 = 0 \<and> page_same (mem s) (mem t) v"
          using same [of v] usable_aligned [of "kend s" v] by simp
      qed
    qed
    then have "vm_ok t d ys"
      using fl ok Cons nt(3,4) x(3) by (auto simp: vm_ok_def free_list_def t_def)
    then have "vm_step d xs ys s t"
      unfolding vm_step_def
    proof (intro conjI allI impI)
      fix v
      assume "unat v mod 4096 = 0" "v \<notin> insert d (tabs (mem s) d) \<union> (set xs - set ys)"
      then show "page_same (mem s) (mem t) v" using x(3) Cons by (intro same) auto
    qed (use Cons nt(4) x(3) in \<open>auto simp: t_def suffix_ConsI\<close>)
    then show ?thesis using w nt(1,2,5) by (auto simp: t_def)
  qed
qed

text \<open>The words \<open>mappages\<close> writes: consecutive physical pages with the same permissions.\<close>

definition mapped_pte :: "u32 \<Rightarrow> u32 \<Rightarrow> u32 \<Rightarrow> u32 \<Rightarrow> u32" where
  "mapped_pte a pa fl va = (pa + of_nat (4096 * (vpn va - vpn a))) OR fl OR PTE_P"

lemma vpn_page:
  assumes "unat a mod 4096 = 0" "unat a + 4096 * k < 2 ^ 32"
  shows "vpn (a + of_nat (4096 * k)) = vpn a + k"
proof -
  have "unat (a + of_nat (4096 * k)) = unat a + 4096 * k" using assms(2) unat_add_nat [of a "4096 * k"] by simp
  then show ?thesis by (simp add: vpn_def)
qed

lemma store_pte_step:
  assumes ok: "vm_ok s d xs" and has: "has_tab (mem s) d (PDX va)"
    and t: "t = s\<lparr>mem := store32 (mem s) (tab (mem s) d (PDX va) + 4 * PTX va) w\<rparr>"
  shows "vm_step d xs xs s t" "pte_of (mem t) d va' = (if vpn va' = vpn va then w else pte_of (mem s) d va')"
proof -
  let ?t = "tab (mem s) d (PDX va)"
  have pd: "pgdir_ok (kend s) (mem s) d" and fl: "free_list s xs" using ok by (simp_all add: vm_ok_def)
  have u: "usable_page (kend s) ?t" by (rule pgdir_okD(2) [OF pd PDX_less has])
  have mt: "mem t = store32 (mem s) (?t + 4 * PTX va) w" by (simp add: t)
  note sp = set_pte [OF pd has mt]
  show "pte_of (mem t) d va' = (if vpn va' = vpn va then w else pte_of (mem s) d va')" by (rule sp(4))
  have same: "page_same (mem s) (mem t) v" if "unat v mod 4096 = 0" "v \<noteq> ?t" for v
    using that usable_aligned [OF u] store_ent_frame [OF usable_aligned [OF u] PTX_less]
    by (intro page_sameI [where W = "{?t}"]) (auto simp: mt)
  have tin: "?t \<in> tabs (mem s) d" using has PDX_less by (auto simp: tabs_def)
  have "list_at (mem t) (freelist s) xs"
  proof (rule list_at_pages)
    show "list_at (mem s) (freelist s) xs" using fl by (simp add: free_list_def)
    show "\<forall>x\<in>set xs. unat x mod 4096 = 0 \<and> page_same (mem s) (mem t) x"
    proof
      fix x assume "x \<in> set xs"
      then have "usable_page (kend s) x" "x \<noteq> ?t" using fl ok tin by (auto simp: free_list_def vm_ok_def)
      then show "unat x mod 4096 = 0 \<and> page_same (mem s) (mem t) x"
        using same [of x] usable_aligned [of "kend s" x] by simp
    qed
  qed
  then have "vm_ok t d xs" using ok sp(2,3) by (auto simp: vm_ok_def free_list_def t)
  then show "vm_step d xs xs s t"
    unfolding vm_step_def
  proof (intro conjI allI impI)
    fix v
    assume "unat v mod 4096 = 0" "v \<notin> insert d (tabs (mem s) d) \<union> (set xs - set xs)"
    then show "page_same (mem s) (mem t) v" using tin by (intro same) auto
  qed (use sp(3) in \<open>auto simp: t\<close>)
qed

lemma map_one:
  fixes s :: "'z kmem_scheme"
  assumes ok: "vm_ok s d xs" and free: "pte_of (mem s) d a AND PTE_P = 0"
  shows "(\<exists>u ys. vm_step d xs ys s u
      \<and> (\<forall>va. pte_of (mem u) d va = (if vpn va = vpn a then pa OR fl OR PTE_P else pte_of (mem s) d va))
      \<and> (\<forall>n. mappages_loop d a pa fl n s =
           (case n of 0 \<Rightarrow> Ret 0 u | Suc n' \<Rightarrow> mappages_loop d (a + PGSIZE) (pa + PGSIZE) fl n' u)))
    \<or> (xs = [] \<and> (\<forall>n. mappages_loop d a pa fl n s = Ret (- 1) s))"
  using walkpgdir_alloc [OF ok, of a]
proof (elim disjE exE conjE)
  fix t :: "'z kmem_scheme" and ys
  let ?p = "tab (mem t) d (PDX a) + 4 * PTX a"
  assume w: "walkpgdir d a True s = Ret ?p t" "has_tab (mem t) d (PDX a)" "vm_step d xs ys s t"
    "\<forall>va'. pte_of (mem t) d va' = pte_of (mem s) d va'"
  have okt: "vm_ok t d ys" using w(3) by (simp add: vm_step_def)
  then have "usable_page (kend t) (tab (mem t) d (PDX a))"
    using pgdir_okD(2) [OF _ PDX_less w(2)] by (simp add: vm_ok_def)
  then have "unat ?p \<noteq> 0"
    using unat_ent [OF usable_aligned PTX_less] usable_nonzero by (auto simp: unat_eq_zero)
  then have nz: "?p \<noteq> 0" by auto
  define u where "u = t\<lparr>mem := store32 (mem t) ?p (pa OR fl OR PTE_P)\<rparr>"
  note sp = store_pte_step [OF okt w(2) u_def]
  have e: "load32 (mem t) ?p = pte_of (mem s) d a" using w(2) spec [OF w(4), of a] by (simp add: pte_of_tab [of "mem t"])
  have "mappages_loop d a pa fl n s =
      (case n of 0 \<Rightarrow> Ret 0 u | Suc n' \<Rightarrow> mappages_loop d (a + PGSIZE) (pa + PGSIZE) fl n' u)" for n
    using nz free e
    by (subst mappages_loop.simps) (simp add: seq_apply w(1) upd_mem_def u_def split: nat.splits)
  moreover have "vm_step d xs ys s u" by (rule vm_step_trans [OF w(3) sp(1)])
  ultimately show ?thesis using sp(2) w(4) by auto
next
  assume "walkpgdir d a True s = Ret 0 s" "xs = []"
  then have "xs = [] \<and> (\<forall>n. mappages_loop d a pa fl n s = Ret (- 1) s)"
    by (auto simp: mappages_loop.simps [of d a] seq_apply)
  then show ?thesis ..
qed

lemma mappages_loop_ok:
  assumes "vm_ok s d xs" "unat a mod 4096 = 0" "unat a + 4096 * n < 2 ^ 32"
    and "\<And>va. vpn a \<le> vpn va \<Longrightarrow> vpn va \<le> vpn a + n \<Longrightarrow> pte_of (mem s) d va AND PTE_P = 0"
  shows "returns (mappages_loop d a pa fl n s) (\<lambda>r t. \<exists>ys. vm_step d xs ys s t
    \<and> (\<forall>va. vpn va < vpn a \<or> vpn a + n < vpn va \<longrightarrow> pte_of (mem t) d va = pte_of (mem s) d va)
    \<and> (r = 0 \<and> (\<forall>va. vpn a \<le> vpn va \<and> vpn va \<le> vpn a + n \<longrightarrow> pte_of (mem t) d va = mapped_pte a pa fl va)
       \<or> r = - 1 \<and> ys = []))"
  using assms
proof (induction n arbitrary: s a pa xs)
  case (0 s a pa xs)
  have "pte_of (mem s) d a AND PTE_P = 0" by (rule "0.prems"(4)) simp_all
  from map_one [OF "0.prems"(1) this, of pa fl] show ?case
    using vm_step_refl [OF "0.prems"(1)] by (auto simp: mapped_pte_def)
next
  case (Suc n s a pa xs)
  have a1: "unat (a + PGSIZE) = unat a + 4096"
    using Suc.prems(3) unat_add_nat [of a 4096] by (simp add: PGSIZE_def)
  have v1: "vpn (a + PGSIZE) = Suc (vpn a)" by (simp add: vpn_def a1)
  have "pte_of (mem s) d a AND PTE_P = 0" by (rule Suc.prems(4)) simp_all
  from map_one [OF Suc.prems(1) this, of pa fl] show ?case
  proof (elim disjE exE conjE)
    fix u ys
    assume u: "vm_step d xs ys s u"
      "\<forall>va. pte_of (mem u) d va = (if vpn va = vpn a then pa OR fl OR PTE_P else pte_of (mem s) d va)"
      "\<forall>n. mappages_loop d a pa fl n s =
         (case n of 0 \<Rightarrow> Ret 0 u | Suc n' \<Rightarrow> mappages_loop d (a + PGSIZE) (pa + PGSIZE) fl n' u)"
    have oku: "vm_ok u d ys" using u(1) by (simp add: vm_step_def)
    have al: "unat (a + PGSIZE) mod 4096 = 0" "unat (a + PGSIZE) + 4096 * n < 2 ^ 32"
      using Suc.prems(2,3) by (simp_all add: a1)
    have fr: "pte_of (mem u) d va AND PTE_P = 0" if "vpn (a + PGSIZE) \<le> vpn va" "vpn va \<le> vpn (a + PGSIZE) + n" for va
      using that Suc.prems(4) [of va] u(2) v1 by simp
    from Suc.IH [OF oku al fr, of "pa + PGSIZE"]
    have "returns (mappages_loop d a pa fl (Suc n) s) (\<lambda>r t. \<exists>zs. vm_step d ys zs u t
      \<and> (\<forall>va. vpn va < Suc (vpn a) \<or> Suc (vpn a) + n < vpn va \<longrightarrow> pte_of (mem t) d va = pte_of (mem u) d va)
      \<and> (r = 0 \<and> (\<forall>va. Suc (vpn a) \<le> vpn va \<and> vpn va \<le> Suc (vpn a) + n \<longrightarrow>
            pte_of (mem t) d va = mapped_pte (a + PGSIZE) (pa + PGSIZE) fl va)
         \<or> r = - 1 \<and> zs = []))"
      using u(3) v1 by simp
    then show ?case
    proof (rule returns_mono, elim exE conjE)
      fix r t zs
      assume t: "vm_step d ys zs u t"
        "\<forall>va. vpn va < Suc (vpn a) \<or> Suc (vpn a) + n < vpn va \<longrightarrow> pte_of (mem t) d va = pte_of (mem u) d va"
        "r = 0 \<and> (\<forall>va. Suc (vpn a) \<le> vpn va \<and> vpn va \<le> Suc (vpn a) + n \<longrightarrow>
            pte_of (mem t) d va = mapped_pte (a + PGSIZE) (pa + PGSIZE) fl va) \<or> r = - 1 \<and> zs = []"
      have "mapped_pte (a + PGSIZE) (pa + PGSIZE) fl va = mapped_pte a pa fl va" if "Suc (vpn a) \<le> vpn va" for va
      proof -
        have e: "vpn va - vpn a = Suc (vpn va - Suc (vpn a))" using that by simp
        show ?thesis unfolding mapped_pte_def v1 e by (simp add: PGSIZE_def add.assoc)
      qed
      moreover have "mapped_pte a pa fl va = pa OR fl OR PTE_P" if "vpn va = vpn a" for va
        using that by (simp add: mapped_pte_def)
      ultimately have "r = 0 \<and> (\<forall>va. vpn a \<le> vpn va \<and> vpn va \<le> vpn a + Suc n \<longrightarrow>
            pte_of (mem t) d va = mapped_pte a pa fl va) \<or> r = - 1 \<and> zs = []"
        using t(2,3) u(2) by (metis Suc_leI add_Suc add_Suc_right le_neq_implies_less lessI)
      moreover have "vm_step d xs zs s t" by (rule vm_step_trans [OF u(1) t(1)])
      moreover have "\<forall>va. vpn va < vpn a \<or> vpn a + Suc n < vpn va \<longrightarrow> pte_of (mem t) d va = pte_of (mem s) d va"
        using t(2) u(2) by auto
      ultimately show "\<exists>ys. vm_step d xs ys s t
        \<and> (\<forall>va. vpn va < vpn a \<or> vpn a + Suc n < vpn va \<longrightarrow> pte_of (mem t) d va = pte_of (mem s) d va)
        \<and> (r = 0 \<and> (\<forall>va. vpn a \<le> vpn va \<and> vpn va \<le> vpn a + Suc n \<longrightarrow> pte_of (mem t) d va = mapped_pte a pa fl va)
           \<or> r = - 1 \<and> ys = [])" by blast
    qed
  next
    assume "xs = []" "\<forall>n. mappages_loop d a pa fl n s = Ret (- 1) s"
    then show ?case using vm_step_refl [OF Suc.prems(1)] by auto
  qed
qed

lemma vpn_PGROUNDDOWN [simp]: "vpn (PGROUNDDOWN a) = vpn a"
  by (simp add: vpn_def unat_PGROUNDDOWN)

lemma mappages_ok:
  assumes ok: "vm_ok s d xs" and sz: "sz \<noteq> 0" "unat va + unat sz \<le> 2 ^ 32"
    and free: "\<forall>a. vpn va \<le> vpn a \<and> vpn a \<le> vpn (va + sz - 1) \<longrightarrow> pte_of (mem s) d a AND PTE_P = 0"
  shows "returns (mappages d va sz pa fl s) (\<lambda>r t. \<exists>ys. vm_step d xs ys s t
    \<and> (\<forall>a. vpn a < vpn va \<or> vpn (va + sz - 1) < vpn a \<longrightarrow> pte_of (mem t) d a = pte_of (mem s) d a)
    \<and> (r = 0 \<and> (\<forall>a. vpn va \<le> vpn a \<and> vpn a \<le> vpn (va + sz - 1) \<longrightarrow> pte_of (mem t) d a = mapped_pte va pa fl a)
       \<or> r = - 1 \<and> ys = []))"
proof -
  let ?a = "PGROUNDDOWN va" and ?l = "PGROUNDDOWN (va + sz - 1)"
  have "unat (sz - 1) = unat sz - 1" using sz(1) by (simp add: unat_minus_one)
  then have s1: "unat (va + (sz - 1)) = unat va + (unat sz - 1)"
    using sz unat_add_nat [of va "unat (sz - 1)"] unat_gt_0 [of sz] by simp
  have vl: "vpn (va + sz - 1) = (unat va + (unat sz - 1)) div 4096"
    using s1 by (simp add: vpn_def add_diff_eq [symmetric])
  then have le: "vpn va \<le> vpn (va + sz - 1)" by (simp add: vpn_def div_le_mono)
  define n where "n = vpn (va + sz - 1) - vpn va"
  have l: "unat ?l = 4096 * vpn (va + sz - 1)" "unat ?a = 4096 * vpn va"
    by (simp_all add: unat_PGROUNDDOWN vpn_def mult.commute)
  then have "unat (?l - ?a) = 4096 * n"
    using le by (simp add: unat_sub word_le_nat_alt n_def diff_mult_distrib2)
  then have m: "mappages d va sz pa fl s = mappages_loop d ?a pa fl n s" by (simp add: mappages_def Let_def)
  have "unat ?a + 4096 * n = unat ?l" using l le by (simp add: n_def diff_mult_distrib2)
  then have al: "unat ?a mod 4096 = 0" "unat ?a + 4096 * n < 2 ^ 32" using l u32_bound [of ?l] by simp_all
  have n: "vpn va + n = vpn (va + sz - 1)" using le by (simp add: n_def)
  have "mapped_pte ?a pa fl = mapped_pte va pa fl" by (simp add: mapped_pte_def fun_eq_iff)
  then show ?thesis
    unfolding m using mappages_loop_ok [OF ok al, of pa fl] free n by simp
qed

text \<open>A page that is already mapped is never mapped again.\<close>

lemma mappages_remap:
  assumes "vm_ok s d xs" "pte_of (mem s) d va AND PTE_P \<noteq> 0"
  shows "mappages d va sz pa fl s = Panic ''remap''"
proof -
  let ?a = "PGROUNDDOWN va"
  have v: "PDX ?a = PDX va" "PTX ?a = PTX va" using vpn_eq [of ?a va] by simp_all
  then have has: "has_tab (mem s) d (PDX ?a)" using assms(2) by (auto simp: pte_of_tab split: if_splits)
  then have pd: "usable_page (kend s) (tab (mem s) d (PDX ?a))"
    using pgdir_okD(2) [OF _ PDX_less has] assms(1) by (simp add: vm_ok_def)
  have "unat (tab (mem s) d (PDX ?a) + 4 * PTX ?a) \<noteq> 0"
    using unat_ent [OF usable_aligned [OF pd] PTX_less] usable_nonzero [OF pd] by (auto simp: unat_eq_zero)
  then have "tab (mem s) d (PDX ?a) + 4 * PTX ?a \<noteq> 0" by auto
  moreover have "walkpgdir d ?a True s = Ret (tab (mem s) d (PDX ?a) + 4 * PTX ?a) s"
    using has by (simp add: walkpgdir_def Let_def seq_apply has_tab_def tab_def)
  moreover have "load32 (mem s) (tab (mem s) d (PDX ?a) + 4 * PTX ?a) = pte_of (mem s) d va"
    using has v by (simp add: pte_of_tab)
  ultimately show ?thesis
    using assms(2) by (simp add: mappages_def Let_def mappages_loop.simps [of d ?a] seq_apply)
qed

lemma finite_tabs: "finite (tabs m d)" "card (tabs m d) \<le> 1024"
proof -
  have i: "{i :: u32. i < 1024} = of_nat ` {..<1024}"
  proof (intro set_eqI iffI)
    fix i :: u32
    assume "i \<in> {i. i < 1024}"
    then have "unat i < 1024" by (simp add: word_less_nat_alt)
    then show "i \<in> of_nat ` {..<1024}" by (intro image_eqI [of _ _ "unat i"]) auto
  qed (auto simp: word_less_nat_alt unat_of_nat_small)
  then have "finite {i :: u32. i < 1024}" "card {i :: u32. i < 1024} \<le> 1024"
    using card_image_le [of "{..<1024 :: nat}" "of_nat :: nat \<Rightarrow> u32"] by simp_all
  moreover have "tabs m d \<subseteq> tab m d ` {i. i < 1024}" by (auto simp: tabs_def)
  ultimately show "finite (tabs m d)" "card (tabs m d) \<le> 1024"
    using card_mono [of "tab m d ` {i. i < 1024}" "tabs m d"] card_image_le [of "{i :: u32. i < 1024}" "tab m d"]
      finite_subset [of "tabs m d" "tab m d ` {i. i < 1024}"] by simp_all
qed

text \<open>An address space has at most 1024 tables, so with more free pages than that \<open>mappages\<close> cannot fail.\<close>

lemma vm_step_room:
  assumes ok: "vm_ok s d xs" and st: "vm_step d xs ys s t"
  shows "length xs \<le> length ys + 1024"
proof -
  obtain zs where zs: "xs = zs @ ys" using st by (auto simp: vm_step_def suffix_def)
  have di: "distinct xs" by (rule vm_ok_distinct [OF ok])
  then have "set zs \<subseteq> tabs (mem t) d" using st zs by (auto simp: vm_step_def)
  then have "card (set zs) \<le> 1024" using finite_tabs card_mono order_trans by metis
  then show ?thesis using di zs by (simp add: distinct_card)
qed

section \<open>The kernel part of an address space\<close>

definition krange :: "kmap \<Rightarrow> nat set" where
  "krange k = {vpn (k_virt k) .. vpn (k_virt k + (phys_end k - phys_start k) - 1)}"

text \<open>The regions of a table are not empty, do not run past the end of the address space and do not meet.\<close>

fun kmaps_ok :: "nat set \<Rightarrow> kmap list \<Rightarrow> bool" where
  "kmaps_ok B [] \<longleftrightarrow> True"
| "kmaps_ok B (k # ks) \<longleftrightarrow> phys_end k \<noteq> phys_start k \<and> unat (k_virt k) + unat (phys_end k - phys_start k) \<le> 2 ^ 32
     \<and> krange k \<inter> B = {} \<and> kmaps_ok (B \<union> krange k) ks"

lemma kmaps_ok_disjoint: "kmaps_ok B ks \<Longrightarrow> k \<in> set ks \<Longrightarrow> krange k \<inter> B = {}"
  by (induction ks arbitrary: B) auto

definition maps_region :: "mem \<Rightarrow> u32 \<Rightarrow> kmap \<Rightarrow> bool" where
  "maps_region m d k \<longleftrightarrow> (\<forall>a. vpn a \<in> krange k \<longrightarrow> pte_of m d a = mapped_pte (k_virt k) (phys_start k) (k_perm k) a)"

lemma map_all_ok:
  assumes "vm_ok s0 d xs0" "length xs0 > 1024" "vm_step d xs0 xs s0 s" "kmaps_ok B ks"
    and "\<forall>a. pte_of (mem s) d a AND PTE_P \<noteq> 0 \<longrightarrow> vpn a \<in> B"
  shows "returns (map_all d ks s) (\<lambda>r t. r \<and> (\<exists>ys. vm_step d xs0 ys s0 t)
    \<and> (\<forall>k\<in>set ks. maps_region (mem t) d k)
    \<and> (\<forall>a. vpn a \<notin> \<Union> (krange ` set ks) \<longrightarrow> pte_of (mem t) d a = pte_of (mem s) d a))"
  using assms(3-5)
proof (induction ks arbitrary: s xs B)
  case Nil
  then show ?case by auto
next
  case (Cons k ks)
  have oks: "vm_ok s d xs" using Cons.prems(1) by (simp add: vm_step_def)
  let ?sz = "phys_end k - phys_start k"
  have k: "?sz \<noteq> 0" "unat (k_virt k) + unat ?sz \<le> 2 ^ 32" "krange k \<inter> B = {}" "kmaps_ok (B \<union> krange k) ks"
    using Cons.prems(2) by simp_all
  have free: "\<forall>a. vpn (k_virt k) \<le> vpn a \<and> vpn a \<le> vpn (k_virt k + ?sz - 1) \<longrightarrow> pte_of (mem s) d a AND PTE_P = 0"
  proof (intro allI impI)
    fix a
    assume "vpn (k_virt k) \<le> vpn a \<and> vpn a \<le> vpn (k_virt k + ?sz - 1)"
    then show "pte_of (mem s) d a AND PTE_P = 0" using Cons.prems(3) k(3) by (auto simp: krange_def)
  qed
  obtain r t ys where t: "mappages d (k_virt k) ?sz (phys_start k) (k_perm k) s = Ret r t" "vm_step d xs ys s t"
    "\<forall>a. vpn a < vpn (k_virt k) \<or> vpn (k_virt k + ?sz - 1) < vpn a \<longrightarrow> pte_of (mem t) d a = pte_of (mem s) d a"
    "r = 0 \<and> (\<forall>a. vpn (k_virt k) \<le> vpn a \<and> vpn a \<le> vpn (k_virt k + ?sz - 1) \<longrightarrow>
        pte_of (mem t) d a = mapped_pte (k_virt k) (phys_start k) (k_perm k) a) \<or> r = - 1 \<and> ys = []"
    using mappages_ok [OF oks k(1,2) free, of "phys_start k" "k_perm k"] by (elim returnsE exE conjE) blast
  have st: "vm_step d xs0 ys s0 t" by (rule vm_step_trans [OF Cons.prems(1) t(2)])
  have "ys \<noteq> []" using vm_step_room [OF assms(1) st] assms(2) by auto
  then have r: "r = 0" and in_k: "maps_region (mem t) d k" using t(4) by (auto simp: maps_region_def krange_def)
  have out: "pte_of (mem t) d a = pte_of (mem s) d a" if "vpn a \<notin> krange k" for a
    using t(3) that by (auto simp: krange_def)
  have B: "\<forall>a. pte_of (mem t) d a AND PTE_P \<noteq> 0 \<longrightarrow> vpn a \<in> B \<union> krange k"
    using out Cons.prems(3) by (metis Un_iff)
  have keep: "maps_region m d k" if "\<forall>a. vpn a \<notin> \<Union> (krange ` set ks) \<longrightarrow> pte_of m d a = pte_of (mem t) d a" for m
  proof -
    have "krange k \<inter> krange k' = {}" if "k' \<in> set ks" for k' using kmaps_ok_disjoint [OF k(4) that] by auto
    then show ?thesis using in_k that by (fastforce simp: maps_region_def)
  qed
  have "map_all d (k # ks) s = map_all d ks t" by (simp add: seq_apply t(1) r)
  with Cons.IH [OF st k(4) B] show ?case
    by (elim returnsE) (use keep out in auto)
qed

definition kernel_layout :: "u32 \<Rightarrow> gpu \<Rightarrow> bool" where
  "kernel_layout dat g \<longleftrightarrow> unat dat mod 4096 = 0 \<and> KERNLINK < dat \<and> dat < P2V PHYSTOP
     \<and> unat (vram_size g) mod 4096 = 0 \<and> 0 < vram_size g \<and> vram_size g \<le> 0x2E000000"

lemma krange_eq:
  assumes "unat (k_virt k) = 4096 * p" "unat (phys_end k - phys_start k) = 4096 * n" "0 < n" "p + n \<le> 1048576"
  shows "krange k = {p ..< p + n}" "phys_end k \<noteq> phys_start k"
    "unat (k_virt k) + unat (phys_end k - phys_start k) \<le> 2 ^ 32"
proof -
  let ?sz = "phys_end k - phys_start k"
  show "unat (k_virt k) + unat ?sz \<le> 2 ^ 32" using assms by simp
  show ne: "phys_end k \<noteq> phys_start k" using assms(2,3) by auto
  have "unat (?sz - 1) = 4096 * n - 1" using assms(2,3) by (subst unat_minus_one) (auto simp: unat_eq_zero)
  then have "unat (k_virt k + (?sz - 1)) = 4096 * p + (4096 * n - 1)"
    using assms(1,3,4) by (subst unat_plus) simp_all
  moreover have "(4096 * p + (4096 * n - 1)) div 4096 = p + n - 1" using assms(3) by (cases n) simp_all
  ultimately show "krange k = {p ..< p + n}"
    using assms(1,3) by (auto simp: krange_def vpn_def add_diff_eq [symmetric])
qed

lemma kmap_table_ok:
  assumes "kernel_layout dat g"
  shows "kmaps_ok {} (kmap_table dat g)" "\<forall>k\<in>set (kmap_table dat g). krange k \<subseteq> {vpn KERNBASE ..}"
proof -
  obtain q where q: "unat dat = 4096 * q" "0x80100 < q" "q < 0xA0000"
    using assms by (auto simp: kernel_layout_def word_less_nat_alt const_defs P2V_def mod_eq_0_iff_dvd elim!: dvdE)
  obtain w where w: "unat (vram_size g) = 4096 * w" "0 < w" "w \<le> 0x2E000"
    using assms by (auto simp: kernel_layout_def word_less_nat_alt word_le_nat_alt const_defs mod_eq_0_iff_dvd elim!: dvdE)
  have dat: "dat = of_nat (4096 * q)" by (subst q(1) [symmetric]) simp
  have vr: "vram_size g = of_nat (4096 * w)" by (subst w(1) [symmetric]) simp
  have sub: "unat (of_nat a - of_nat b :: u32) = a - b" if "b \<le> a" "a < 2 ^ 32" for a b
    using that by (simp add: of_nat_diff [symmetric] unat_of_nat_small del: of_nat_diff)
  let ?k = "\<lambda>i. kmap_table dat g ! i"
  have "unat (k_virt (?k 0)) = 4096 * (0x80000)" "unat (phys_end (?k 0) - phys_start (?k 0)) = 4096 * (0x100)"
    "0 < (0x100 :: nat)" "0x80000 + (0x100 :: nat) \<le> 1048576"
    by (simp_all add: kmap_table_def const_defs)
  note k0 = krange_eq [OF this]
  have s1: "unat (V2P dat - V2P KERNLINK) = 4096 * (q - 0x80100)"
    using q sub [where b = "0x80100000" and a = "4096 * q"] by (simp add: V2P_def const_defs dat diff_mult_distrib2)
  have "unat (k_virt (?k 1)) = 4096 * (0x80100)" "unat (phys_end (?k 1) - phys_start (?k 1)) = 4096 * (q - 0x80100)"
    "0 < q - 0x80100" "0x80100 + (q - 0x80100) \<le> 1048576"
    using q s1 by (simp_all add: kmap_table_def const_defs)
  note k1 = krange_eq [OF this]
  have s2: "unat (PHYSTOP - V2P dat) = 4096 * (0xA0000 - q)"
    using q sub [where b = "4096 * q" and a = "0xA0000000"] by (simp add: V2P_def const_defs dat diff_mult_distrib2)
  have "unat (k_virt (?k 2)) = 4096 * (q)" "unat (phys_end (?k 2) - phys_start (?k 2)) = 4096 * (0xA0000 - q)"
    "0 < 0xA0000 - q" "q + (0xA0000 - q) \<le> 1048576"
    using q s2 by (simp_all add: kmap_table_def)
  note k2 = krange_eq [OF this]
  have s3: "unat (DEVSPACE - vram_size g) = 4096 * (0xFE000 - w)"
    using w sub [where b = "4096 * w" and a = "0xFE000000"] by (simp add: const_defs vr diff_mult_distrib2)
  have "unat (k_virt (?k 3)) = 4096 * (0xFE000 - w)" "unat (phys_end (?k 3) - phys_start (?k 3)) = 4096 * (w)"
    "0 < w" "0xFE000 - w + (w) \<le> 1048576"
    using w s3 by (simp_all add: kmap_table_def)
  note k3 = krange_eq [OF this]
  have "unat (k_virt (?k 4)) = 4096 * (0xC0000)" "unat (phys_end (?k 4) - phys_start (?k 4)) = 4096 * (0x10000)"
    "0 < (0x10000 :: nat)" "0xC0000 + (0x10000 :: nat) \<le> 1048576"
    by (simp_all add: kmap_table_def const_defs)
  note k4 = krange_eq [OF this]
  have "unat (k_virt (?k 5)) = 4096 * (0xFE000)" "unat (phys_end (?k 5) - phys_start (?k 5)) = 4096 * (0x2000)"
    "0 < (0x2000 :: nat)" "0xFE000 + (0x2000 :: nat) \<le> 1048576"
    by (simp_all add: kmap_table_def const_defs)
  note k5 = krange_eq [OF this]
  have l: "kmap_table dat g = [?k 0, ?k 1, ?k 2, ?k 3, ?k 4, ?k 5]" by (simp add: kmap_table_def)
  show "kmaps_ok {} (kmap_table dat g)"
    by (subst l) (use k0 k1 k2 k3 k4 k5 q w in auto)
  show "\<forall>k\<in>set (kmap_table dat g). krange k \<subseteq> {vpn KERNBASE ..}"
    by (subst l) (use k0(1) k1(1) k2(1) k3(1) k4(1) k5(1) q w in \<open>auto simp: vpn_def const_defs\<close>)
qed

lemma page_same_fresh:
  assumes "usable_page e x" "\<And>a. 4096 \<le> unat (a - x) \<Longrightarrow> m' a = m a" "unat v mod 4096 = 0" "v \<noteq> x"
  shows "page_same m m' v"
  using assms by (intro page_sameI [where W = "{x}"]) (auto simp: usable_aligned)

text \<open>A page just taken off the free list may be written.\<close>

lemma free_list_fresh:
  assumes fl: "free_list s (x # xs)" and m': "\<And>a. 4096 \<le> unat (a - x) \<Longrightarrow> m' a = mem s a"
  shows "free_list (s\<lparr>freelist := load32 (mem s) x, mem := m'\<rparr>) xs"
proof -
  have x: "usable_page (kend s) x" "x \<notin> set xs" using fl by (auto simp: free_list_def)
  have "list_at m' (load32 (mem s) x) xs"
  proof (rule list_at_pages)
    show "list_at (mem s) (load32 (mem s) x) xs" using fl by (auto simp: free_list_def)
    show "\<forall>v\<in>set xs. unat v mod 4096 = 0 \<and> page_same (mem s) m' v"
    proof
      fix v assume "v \<in> set xs"
      then have "usable_page (kend s) v" "v \<noteq> x" using fl x by (auto simp: free_list_def)
      then show "unat v mod 4096 = 0 \<and> page_same (mem s) m' v"
        using page_same_fresh [OF x(1) m'] usable_aligned [of "kend s" v] by simp
    qed
  qed
  then show ?thesis using fl by (auto simp: free_list_def)
qed

lemma empty_pgdir:
  assumes "usable_page e d"
  shows "pgdir_ok e (memset m d 0 PGSIZE) d" "tabs (memset m d 0 PGSIZE) d = {}" "pte_of (memset m d 0 PGSIZE) d a = 0"
proof -
  have "load32 (memset m d 0 PGSIZE) (d + 4 * i) = 0" if "i < 1024" for i
    using load_ent_zeroed [OF usable_aligned [OF assms] that] .
  then have no: "\<not> has_tab (memset m d 0 PGSIZE) d i" if "i < 1024" for i using that by (simp add: has_tab_def)
  show "pgdir_ok e (memset m d 0 PGSIZE) d" "tabs (memset m d 0 PGSIZE) d = {}" "pte_of (memset m d 0 PGSIZE) d a = 0"
    using assms no PDX_less by (auto simp: pgdir_ok_def tabs_def pte_of_tab)
qed

lemma setupkvm_ok:
  fixes s :: "'z kvm_scheme"
  assumes fl: "free_list s (d # xs)" and room: "length xs > 1024" and lay: "kernel_layout (kdata s) (gpu s)"
  shows "returns (setupkvm s) (\<lambda>r t. r = d \<and> t = s\<lparr>mem := mem t, freelist := freelist t\<rparr>
    \<and> (\<exists>ys. vm_ok t d ys \<and> suffix ys xs \<and> tabs (mem t) d = set xs - set ys)
    \<and> (\<forall>v. unat v mod 4096 = 0 \<and> v \<notin> set (d # xs) \<longrightarrow> page_same (mem s) (mem t) v)
    \<and> (\<forall>k\<in>set (kmap_table (kdata s) (gpu s)). maps_region (mem t) d k)
    \<and> (\<forall>a. vpn a < vpn KERNBASE \<longrightarrow> pte_of (mem t) d a = 0))"
proof -
  let ?ks = "kmap_table (kdata s) (gpu s)"
  define s1 where "s1 = s\<lparr>freelist := load32 (mem s) d, mem := memset (mem s) d 0 PGSIZE\<rparr>"
  have d: "usable_page (kend s) d" "d \<notin> set xs" using fl by (auto simp: free_list_def)
  have off: "4096 \<le> unat (a - d) \<Longrightarrow> memset (mem s) d 0 PGSIZE a = mem s a" for a by (simp add: memset_page)
  note e = empty_pgdir [OF d(1), of "mem s"]
  have ok1: "vm_ok s1 d xs"
    using free_list_fresh [OF fl off] e(1,2) d(2) by (auto simp: vm_ok_def s1_def)
  have zero: "pte_of (mem s1) d a = 0" for a using e(3) by (simp add: s1_def)
  have low: "vpn a \<notin> \<Union> (krange ` set ?ks)" if "vpn a < vpn KERNBASE" for a
    using kmap_table_ok(2) [OF lay] that by fastforce
  have none: "\<forall>a. pte_of (mem s1) d a AND PTE_P \<noteq> 0 \<longrightarrow> vpn a \<in> {}" using zero by simp
  obtain t ys where t: "map_all d ?ks s1 = Ret True t" "vm_step d xs ys s1 t" "\<forall>k\<in>set ?ks. maps_region (mem t) d k"
    "\<forall>a. vpn a \<notin> \<Union> (krange ` set ?ks) \<longrightarrow> pte_of (mem t) d a = pte_of (mem s1) d a"
    using map_all_ok [OF ok1 room vm_step_refl [OF ok1] kmap_table_ok(1) [OF lay] none]
    by (elim returnsE) auto
  have "setupkvm s = Ret d t"
    using usable_nonzero [OF d(1)] kalloc_apply [OF fl] t(1)
    by (simp add: setupkvm_def seq_apply upd_mem_def s1_def P2V_def const_defs)
  moreover have "page_same (mem s) (mem t) v" if "unat v mod 4096 = 0" "v \<notin> set (d # xs)" for v
  proof -
    have "page_same (mem s) (mem s1) v"
      using page_same_fresh [OF d(1) off that(1)] that(2) by (simp add: s1_def)
    moreover have "page_same (mem s1) (mem t) v"
      using e(2) that by (intro vm_step_same [OF t(2)]) (auto simp: s1_def)
    ultimately show ?thesis by (simp add: page_same_def)
  qed
  moreover have "t = s\<lparr>mem := mem t, freelist := freelist t\<rparr>"
  proof -
    have "t = s1\<lparr>mem := mem t, freelist := freelist t\<rparr>" using t(2) by (simp add: vm_step_def)
    then show ?thesis by (simp add: s1_def)
  qed
  moreover have "vm_ok t d ys" "suffix ys xs" "tabs (mem t) d = set xs - set ys"
    using t(2) e(2) by (simp_all add: vm_step_def s1_def)
  ultimately show ?thesis using t(3,4) low zero by auto
qed

end
