(* ===== verification/Copyuvm.thy ===== *)
theory Copyuvm
  imports Paging
begin

unbundle bit_operations_syntax

text \<open>
  The copy of an address space \<open>fork\<close> makes (\<open>copyuvm\<close> of \<^verbatim>\<open>vm.c\<close>).
\<close>

section \<open>Copying an address space\<close>

definition frame :: "mem \<Rightarrow> u32 \<Rightarrow> u32 \<Rightarrow> u32" where
  "frame m d a = P2V (PTE_ADDR (pte_of m d a))"

definition user_ok :: "'z kmem_scheme \<Rightarrow> u32 \<Rightarrow> u32 \<Rightarrow> bool" where
  "user_ok s d sz \<longleftrightarrow> pgdir_ok (kend s) (mem s) d
     \<and> (\<forall>a < sz. pte_of (mem s) d a AND PTE_P \<noteq> 0 \<and> usable_page (kend s) (frame (mem s) d a))"

definition space :: "mem \<Rightarrow> u32 \<Rightarrow> u32 \<Rightarrow> u32 set" where
  "space m d sz = insert d (tabs m d) \<union> {frame m d a | a. a < sz}"

lemma load_ent_same:
  fixes p i :: u32
  assumes "page_same m m' p" "unat p mod 4096 = 0" "i < 1024"
  shows "load32 m' (p + 4 * i) = load32 m (p + 4 * i)"
proof (rule load32_cong)
  fix k :: nat
  assume "k < 4"
  have i: "unat i < 1024" using assms(3) by (simp add: word_less_nat_alt)
  then have "m' (p + of_nat (4 * unat i + k)) = m (p + of_nat (4 * unat i + k))"
    using assms(1) \<open>k < 4\<close> unfolding page_same_def by (elim allE [where x = "4 * unat i + k"]) simp
  moreover have "p + of_nat (4 * unat i + k) = p + 4 * i + of_nat k" by (simp add: add.assoc)
  ultimately show "m' (p + 4 * i + of_nat k) = m (p + 4 * i + of_nat k)" by (simp only:)
qed

text \<open>An address space is not affected by what happens to other pages.\<close>

lemma pgdir_cong:
  assumes ok: "pgdir_ok e m d" and same: "\<And>v. v \<in> insert d (tabs m d) \<Longrightarrow> page_same m m' v"
  shows "pgdir_ok e m' d" "tabs m' d = tabs m d" "pte_of m' d a = pte_of m d a"
proof -
  have l: "load32 m' (d + 4 * i) = load32 m (d + 4 * i)" if "i < 1024" for i
    using same [of d] usable_aligned [OF pgdir_okD(1) [OF ok]] that by (intro load_ent_same) auto
  have h: "has_tab m' d i = has_tab m d i" "tab m' d i = tab m d i" if "i < 1024" for i
    using l [OF that] by (simp_all add: has_tab_def tab_def)
  show "tabs m' d = tabs m d" using h unfolding tabs_def by (intro Collect_cong ex_cong1) auto
  show "pgdir_ok e m' d" using ok h by (simp add: pgdir_ok_def)
  show "pte_of m' d a = pte_of m d a"
  proof (cases "has_tab m d (PDX a)")
    case True
    then have "tab m d (PDX a) \<in> tabs m d" using PDX_less by (auto simp: tabs_def)
    then have "load32 m' (tab m d (PDX a) + 4 * PTX a) = load32 m (tab m d (PDX a) + 4 * PTX a)"
      using same usable_aligned [OF pgdir_okD(2) [OF ok PDX_less True]] PTX_less by (intro load_ent_same) auto
    then show ?thesis using True h [OF PDX_less] by (simp add: pte_of_tab)
  next
    case False
    then show ?thesis using h [OF PDX_less] by (simp add: pte_of_tab)
  qed
qed

lemma vm_step_card:
  assumes ok: "vm_ok s d xs" and st: "vm_step d xs ys s t"
  shows "card (tabs (mem t) d) = card (tabs (mem s) d) + (length xs - length ys)" "length ys \<le> length xs"
proof -
  obtain zs where zs: "xs = zs @ ys" using st by (auto simp: vm_step_def suffix_def)
  then show "length ys \<le> length xs" by simp
  have di: "distinct zs" "set xs - set ys = set zs" using vm_ok_distinct [OF ok] zs by auto
  moreover have "tabs (mem s) d \<inter> set zs = {}" using ok zs by (auto simp: vm_ok_def)
  ultimately show "card (tabs (mem t) d) = card (tabs (mem s) d) + (length xs - length ys)"
    using st zs finite_tabs by (simp add: vm_step_def card_Un_disjoint distinct_card)
qed

text \<open>
  The state of the copy \<open>d\<close> of the address space \<open>p\<close> of \<open>s\<close> after \<open>j\<close> pages; \<open>xs\<close> are the free pages it is made of, \<open>ys\<close> those that are left.
\<close>

definition copied :: "'z kmem_scheme \<Rightarrow> u32 \<Rightarrow> u32 \<Rightarrow> u32 list \<Rightarrow> nat \<Rightarrow> u32 list \<Rightarrow> 'z kmem_scheme \<Rightarrow> bool" where
  "copied s p d xs j ys t \<longleftrightarrow> vm_ok t d ys \<and> suffix ys xs \<and> tabs (mem t) d \<subseteq> set xs \<and> t = s\<lparr>mem := mem t, freelist := freelist t\<rparr>
     \<and> length xs \<le> length ys + card (tabs (mem t) d) + j
     \<and> (\<forall>v. unat v mod 4096 = 0 \<and> v \<notin> set (d # xs) \<longrightarrow> page_same (mem s) (mem t) v)
     \<and> (\<forall>a. vpn a < j \<longrightarrow> frame (mem t) d a \<in> set xs - set ys \<and> frame (mem t) d a \<notin> tabs (mem t) d
          \<and> pte_of (mem t) d a = V2P (frame (mem t) d a) OR PTE_FLAGS (pte_of (mem s) p a) OR PTE_P
          \<and> (\<forall>i<4096. mem t (frame (mem t) d a + of_nat i) = mem s (frame (mem s) p a + of_nat i)))
     \<and> (\<forall>a b. vpn a < j \<and> vpn b < j \<and> frame (mem t) d a = frame (mem t) d b \<longrightarrow> vpn a = vpn b)
     \<and> (\<forall>a. j \<le> vpn a \<and> vpn a < vpn KERNBASE \<longrightarrow> pte_of (mem t) d a AND PTE_P = 0)"

lemma memmove_page:
  assumes "usable_page e x" "usable_page e y"
  shows "i < 4096 \<Longrightarrow> memmove m x y PGSIZE (x + of_nat i) = m (y + of_nat i)"
    "4096 \<le> unat (a - x) \<Longrightarrow> memmove m x y PGSIZE a = m a"
proof -
  have b: "unat v + unat PGSIZE < 2 ^ 32" if "usable_page e v" for v
  proof -
    have "unat (V2P v) < 0x20000000" using that by (simp add: usable_page_def word_less_nat_alt const_defs)
    moreover have "unat v \<le> unat (V2P v) + unat KERNBASE"
      using unat_plus [of "V2P v" KERNBASE] calculation by (simp add: V2P_def const_defs)
    ultimately show ?thesis by (simp add: const_defs)
  qed
  note mm = memmove_apply [OF b [OF assms(2)] b [OF assms(1)], of m]
  show "i < 4096 \<Longrightarrow> memmove m x y PGSIZE (x + of_nat i) = m (y + of_nat i)"
    using mm [of "x + of_nat i"] by (simp add: word_less_nat_alt PGSIZE_def unat_of_nat_small)
  show "4096 \<le> unat (a - x) \<Longrightarrow> memmove m x y PGSIZE a = m a"
    using mm [of a] by (simp add: word_less_nat_alt PGSIZE_def)
qed

lemma copiedD:
  assumes "copied s p d xs j ys t"
  shows "vm_ok t d ys" "suffix ys xs" "t = s\<lparr>mem := mem t, freelist := freelist t\<rparr>"
    "length xs \<le> length ys + card (tabs (mem t) d) + j"
    "unat v mod 4096 = 0 \<Longrightarrow> v \<notin> set (d # xs) \<Longrightarrow> page_same (mem s) (mem t) v"
    "vpn a < j \<Longrightarrow> frame (mem t) d a \<in> set xs - set ys" "vpn a < j \<Longrightarrow> frame (mem t) d a \<notin> tabs (mem t) d"
    "vpn a < j \<Longrightarrow> pte_of (mem t) d a = V2P (frame (mem t) d a) OR PTE_FLAGS (pte_of (mem s) p a) OR PTE_P"
    "vpn a < j \<Longrightarrow> i < 4096 \<Longrightarrow> mem t (frame (mem t) d a + of_nat i) = mem s (frame (mem s) p a + of_nat i)"
    "vpn a < j \<Longrightarrow> vpn b < j \<Longrightarrow> frame (mem t) d a = frame (mem t) d b \<Longrightarrow> vpn a = vpn b"
    "j \<le> vpn a \<Longrightarrow> vpn a < vpn KERNBASE \<Longrightarrow> pte_of (mem t) d a AND PTE_P = 0"
    "tabs (mem t) d \<subseteq> set xs"
  using assms unfolding copied_def by simp_all

lemma copied_source:
  assumes c: "copied s p d xs j ys t" and u: "user_ok s p sz" and dj: "space (mem s) p sz \<inter> set (d # xs) = {}" and a: "a < sz"
  shows "walkpgdir p a False t = Ret (tab (mem s) p (PDX a) + 4 * PTX a) t" "tab (mem s) p (PDX a) + 4 * PTX a \<noteq> 0"
    "load32 (mem t) (tab (mem s) p (PDX a) + 4 * PTX a) = pte_of (mem s) p a"
    "page_same (mem s) (mem t) (frame (mem s) p a)" "pte_of (mem t) p a = pte_of (mem s) p a"
proof -
  have ok: "pgdir_ok (kend s) (mem s) p" and pr: "pte_of (mem s) p a AND PTE_P \<noteq> 0"
    and fr: "usable_page (kend s) (frame (mem s) p a)" using u a by (auto simp: user_ok_def)
  have ht: "has_tab (mem s) p (PDX a)" using pr by (auto simp: pte_of_tab split: if_splits)
  have same: "page_same (mem s) (mem t) v" if "unat v mod 4096 = 0" "v \<in> space (mem s) p sz" for v
    using that dj by (intro copiedD(5) [OF c]) auto
  have tabs: "page_same (mem s) (mem t) v" if v: "v \<in> insert p (tabs (mem s) p)" for v
  proof (rule same)
    show "v \<in> space (mem s) p sz" using v by (auto simp: space_def)
    show "unat v mod 4096 = 0" using v usable_aligned pgdir_okD [OF ok] by (auto simp: tabs_def)
  qed
  have l: "load32 (mem t) (p + 4 * PDX a) = load32 (mem s) (p + 4 * PDX a)"
    using tabs usable_aligned [OF pgdir_okD(1) [OF ok]] PDX_less by (intro load_ent_same) auto
  show "walkpgdir p a False t = Ret (tab (mem s) p (PDX a) + 4 * PTX a) t"
    using ht l by (simp add: walkpgdir_def Let_def seq_apply has_tab_def tab_def)
  have ut: "usable_page (kend s) (tab (mem s) p (PDX a))" using pgdir_okD(2) [OF ok PDX_less ht] .
  show "tab (mem s) p (PDX a) + 4 * PTX a \<noteq> 0"
    using unat_ent [OF usable_aligned [OF ut] PTX_less, of a] usable_nonzero [OF ut]
    by (metis add_eq_0_iff_both_eq_0 unat_0 unat_eq_zero)
  show "pte_of (mem t) p a = pte_of (mem s) p a" using pgdir_cong(3) [OF ok tabs] .
  then show "load32 (mem t) (tab (mem s) p (PDX a) + 4 * PTX a) = pte_of (mem s) p a"
    using ht l by (simp add: pte_of_tab has_tab_def tab_def)
  show "page_same (mem s) (mem t) (frame (mem s) p a)"
    by (rule same [OF usable_aligned [OF fr]]) (use a in \<open>auto simp: space_def\<close>)
qed

lemma pte_of_vpn: "vpn a = vpn b \<Longrightarrow> pte_of m d a = pte_of m d b" "vpn a = vpn b \<Longrightarrow> frame m d a = frame m d b"
  using vpn_eq [of a b] by (auto simp: pte_of_tab frame_def)

lemma PTE_FLAGS_less: "PTE_FLAGS e < 4096"
proof -
  have "PTE_FLAGS e = take_bit 12 e" by (simp add: PTE_FLAGS_def take_bit_eq_mask mask_eq_exp_minus_1)
  then show ?thesis by (simp add: word_less_nat_alt take_bit_eq_mod unat_mod)
qed

lemma frame_aligned: "unat (frame m d a) mod 4096 = 0"
proof -
  have "take_bit 12 (PTE_ADDR e) = 0" for e
    by (rule bit_eqI) (auto simp: PTE_ADDR_def bit_simps)
  then have "unat (PTE_ADDR e) mod 4096 = 0" for e by (simp add: aligned_take_bit)
  moreover have "unat (P2V v) mod 4096 = (unat v + unat KERNBASE) mod 4096" for v
    using unat_add_mod [of 4096 v KERNBASE] by (simp add: P2V_def)
  moreover have "unat KERNBASE = 4096 * 524288" by (simp add: KERNBASE_def)
  ultimately show ?thesis unfolding frame_def by (metis mod_mult_self2)
qed

lemma fresh_page:
  fixes t :: "'z kmem_scheme"
  assumes ok: "vm_ok t d (x # ys)" and y: "usable_page (kend t) y"
  defines "u \<equiv> t\<lparr>freelist := load32 (mem t) x, mem := memmove (mem t) x y PGSIZE\<rparr>"
  shows "vm_ok u d ys" "tabs (mem u) d = tabs (mem t) d" "pte_of (mem u) d a = pte_of (mem t) d a"
    "unat v mod 4096 = 0 \<Longrightarrow> v \<noteq> x \<Longrightarrow> page_same (mem t) (mem u) v"
    "i < 4096 \<Longrightarrow> mem u (x + of_nat i) = mem t (y + of_nat i)"
proof -
  have fl: "free_list t (x # ys)" and pd: "pgdir_ok (kend t) (mem t) d" and dj: "insert d (tabs (mem t) d) \<inter> set (x # ys) = {}"
    using ok by (auto simp: vm_ok_def)
  have x: "usable_page (kend t) x" using fl by (auto simp: free_list_def)
  note mm = memmove_page [OF x y, of _ "mem t"]
  show ps: "page_same (mem t) (mem u) v" if "unat v mod 4096 = 0" "v \<noteq> x" for v
    using page_same_fresh [OF x mm(2) that] by (simp add: u_def)
  have same: "page_same (mem t) (mem u) v" if "v \<in> insert d (tabs (mem t) d)" for v
    using that dj usable_aligned pgdir_okD [OF pd] by (intro ps) (auto simp: tabs_def)
  note pg = pgdir_cong [OF pd same]
  show "tabs (mem u) d = tabs (mem t) d" "pte_of (mem u) d a = pte_of (mem t) d a" by (rule pg; assumption)+
  have "free_list u ys" unfolding u_def by (rule free_list_fresh [OF fl mm(2)])
  then show "vm_ok u d ys" using pg(1,2) dj by (simp add: vm_ok_def u_def)
  show "i < 4096 \<Longrightarrow> mem u (x + of_nat i) = mem t (y + of_nat i)" using mm(1) by (simp add: u_def)
qed

text \<open>One more page: a fresh page with the contents of the source's, mapped where the source has it.\<close>

lemma copied_Suc:
  fixes s t t' :: "'z kmem_scheme"
  assumes c: "copied s p d xs (vpn a) (x # ys) t" and d: "d \<notin> set xs" and y: "usable_page (kend t) (frame (mem s) p a)"
    and src: "page_same (mem s) (mem t) (frame (mem s) p a)"
  defines "u \<equiv> t\<lparr>freelist := load32 (mem t) x, mem := memmove (mem t) x (frame (mem s) p a) PGSIZE\<rparr>"
  assumes st: "vm_step d ys zs u t'" and old: "\<And>b. vpn b \<noteq> vpn a \<Longrightarrow> pte_of (mem t') d b = pte_of (mem u) d b"
    and new: "\<And>b. vpn b = vpn a \<Longrightarrow> pte_of (mem t') d b = V2P x OR PTE_FLAGS (pte_of (mem s) p a) OR PTE_P"
  shows "copied s p d xs (Suc (vpn a)) zs t'"
proof -
  note C = copiedD [OF c] and F = fresh_page [OF C(1) y, folded u_def]
  have xys: "set (x # ys) \<subseteq> set xs" "distinct (x # ys)" "set zs \<subseteq> set ys"
    using set_mono_suffix [OF C(2)] vm_ok_distinct [OF C(1)] st by (auto simp: vm_step_def dest: set_mono_suffix)
  have dj: "insert d (tabs (mem t) d) \<inter> set (x # ys) = {}" using C(1) by (simp add: vm_ok_def)
  have T: "tabs (mem t') d = tabs (mem t) d \<union> (set ys - set zs)" using st F(2) by (simp add: vm_step_def)
  have x: "unat x mod 4096 = 0" using C(1) usable_aligned by (auto simp: vm_ok_def free_list_def)
  have same: "page_same (mem u) (mem t') v" if "unat v mod 4096 = 0" "v \<notin> insert d (tabs (mem t) d) \<union> (set ys - set zs)" for v
    using st that F(2) by (simp add: vm_step_def)
  have fx: "frame (mem t') d b = x" if "vpn b = vpn a" for b
    using new [OF that] pte_pack(1) [OF aligned_V2P [OF x] PTE_FLAGS_less] by (simp add: frame_def)
  have fo: "frame (mem t') d b = frame (mem t) d b" if "vpn b \<noteq> vpn a" for b
    using old [OF that] F(3) by (simp add: frame_def)
  have cx: "mem t' (x + of_nat i) = mem s (frame (mem s) p b + of_nat i)" if "vpn b = vpn a" "i < 4096" for b i
  proof -
    have "mem t' (x + of_nat i) = mem u (x + of_nat i)"
      using same [OF x] dj xys that by (simp add: page_same_def)
    then show ?thesis using F(5) [OF that(2)] src that pte_of_vpn(2) [OF that(1)] by (simp add: page_same_def)
  qed
  have co: "mem t' (frame (mem t) d b + of_nat i) = mem s (frame (mem s) p b + of_nat i)" if b: "vpn b < vpn a" "i < 4096" for b i
  proof -
    have "page_same (mem t) (mem u) (frame (mem t) d b)" using C(6) [OF b(1)] by (intro F(4) frame_aligned) auto
    moreover have "page_same (mem u) (mem t') (frame (mem t) d b)"
      using C(6,7) [OF b(1)] d xys by (intro same frame_aligned) auto
    ultimately show ?thesis using C(9) [OF b] b by (simp add: page_same_def)
  qed
  have frx: "frame (mem t') d b \<in> set xs - set zs" "frame (mem t') d b \<notin> tabs (mem t') d"
    and pte: "pte_of (mem t') d b = V2P (frame (mem t') d b) OR PTE_FLAGS (pte_of (mem s) p b) OR PTE_P"
    if "vpn b < Suc (vpn a)" for b
  proof -
    have "vpn b = vpn a \<or> vpn b < vpn a \<and> vpn b \<noteq> vpn a" using that by auto
    then show "frame (mem t') d b \<in> set xs - set zs" "frame (mem t') d b \<notin> tabs (mem t') d"
      "pte_of (mem t') d b = V2P (frame (mem t') d b) OR PTE_FLAGS (pte_of (mem s) p b) OR PTE_P"
      using fx [of b] fo [of b] xys dj C(6-8) [of b] new [of b] old [of b] F(3) [of b] pte_of_vpn [of b a]
      by (auto simp: T)
  qed
  have cont: "mem t' (frame (mem t') d b + of_nat i) = mem s (frame (mem s) p b + of_nat i)"
    if "vpn b < Suc (vpn a)" "i < 4096" for b i
    using that cx [of b i] co [of b i] fx [of b] fo [of b] by (cases "vpn b = vpn a") auto
  have inj: "vpn b = vpn b'" if "vpn b < Suc (vpn a)" "vpn b' < Suc (vpn a)" "frame (mem t') d b = frame (mem t') d b'" for b b'
    using that fx fo C(6) C(10) [of b b'] by (cases "vpn b = vpn a"; cases "vpn b' = vpn a") force+
  have "t' = u\<lparr>mem := mem t', freelist := freelist t'\<rparr>" using st by (simp add: vm_step_def)
  also have "\<dots> = t\<lparr>mem := mem t', freelist := freelist t'\<rparr>" by (simp add: u_def)
  also have "\<dots> = s\<lparr>mem := mem t', freelist := freelist t'\<rparr>" by (subst C(3)) simp
  finally have t': "t' = s\<lparr>mem := mem t', freelist := freelist t'\<rparr>" .
  have sub: "tabs (mem t') d \<subseteq> set xs" using C(12) xys T by auto
  have out: "page_same (mem s) (mem t') v" if v: "unat v mod 4096 = 0" "v \<notin> set (d # xs)" for v
  proof -
    have "page_same (mem t) (mem u) v" "page_same (mem u) (mem t') v"
      using v xys T sub by (auto intro!: F(4) same)
    then show ?thesis using C(5) [OF v] by (simp add: page_same_def)
  qed
  have len: "length xs \<le> length zs + card (tabs (mem t') d) + Suc (vpn a)"
    using C(4) vm_step_card [OF F(1) st] F(2) by simp
  have unm: "pte_of (mem t') d b AND PTE_P = 0" if "Suc (vpn a) \<le> vpn b" "vpn b < vpn KERNBASE" for b
    using C(11) [of b] old [of b] F(3) that by simp
  show ?thesis
    unfolding copied_def using st frx pte cont inj t' sub out len unm C(2)
    by (auto simp: vm_step_def intro: suffix_order.trans suffix_ConsD)
qed

lemma page_start: "4096 * j < 2 ^ 32 \<Longrightarrow> unat (of_nat (4096 * j) :: u32) = 4096 * j"
  by (simp only: unat_of_nat_small)

lemma copyuvm_step:
  fixes s t :: "'z kmem_scheme" and j :: nat
  defines "a \<equiv> of_nat (4096 * j) :: u32"
  assumes c: "copied s p d xs j ys t" and u: "user_ok s p sz" and dj: "space (mem s) p sz \<inter> set (d # xs) = {}" and d: "d \<notin> set xs"
    and j: "4096 * j < unat sz" and sz: "sz \<le> KERNBASE" and room: "length xs > 1025 + j"
  shows "\<exists>zs t'. copied s p d xs (Suc j) zs t'
    \<and> copyuvm_loop p d sz a t = copyuvm_loop p d sz (of_nat (4096 * Suc j)) t'"
proof -
  note C = copiedD [OF c]
  have szb: "unat sz \<le> 2147483648" using sz by (simp add: word_le_nat_alt KERNBASE_def)
  have ua: "unat a = 4096 * j" using j u32_bound [of sz] unfolding a_def by (intro page_start) simp
  have va: "vpn a = j" using ua by (simp add: vpn_def)
  have asz: "a < sz" using j ua by (simp add: word_less_nat_alt)
  note S = copied_source [OF c u dj asz]
  have pr: "pte_of (mem s) p a AND PTE_P \<noteq> 0" and y: "usable_page (kend s) (frame (mem s) p a)" using u asz by (auto simp: user_ok_def)
  have "card (tabs (mem t) d) \<le> 1024" by (rule finite_tabs)
  then obtain x zs where ys: "ys = x # zs" using C(4) room by (cases ys) auto
  define w where "w = t\<lparr>freelist := load32 (mem t) x, mem := memmove (mem t) x (frame (mem s) p a) PGSIZE\<rparr>"
  have "kend t = kend s" by (subst C(3)) simp
  then have y': "usable_page (kend t) (frame (mem s) p a)" using y by simp
  note F = fresh_page [OF C(1) [unfolded ys] y', folded w_def]
  have x0: "x \<noteq> 0" using C(1) ys usable_nonzero by (auto simp: vm_ok_def free_list_def)
  have k: "kalloc t = Ret x (t\<lparr>freelist := load32 (mem t) x\<rparr>)" using kalloc_apply [of t "x # zs"] C(1) ys by (simp add: vm_ok_def)
  have nx: "a + PGSIZE = of_nat (4096 * Suc j)" by (simp add: a_def PGSIZE_def)
  have lt: "a < a + PGSIZE" using unat_plus [of a PGSIZE] j szb ua by (simp add: word_less_nat_alt PGSIZE_def)
  have un: "unat (a + PGSIZE - 1) = 4096 * j + 4095"
    using unat_plus [of a 4095] j szb ua by (simp add: PGSIZE_def add.commute [of 4095 a])
  have vl: "vpn (a + PGSIZE - 1) = j" using un by (simp add: vpn_def)
  have kb: "vpn KERNBASE = 524288" by (simp add: vpn_def KERNBASE_def)
  have run: "copyuvm_loop p d sz a t = seq (mappages d a PGSIZE (V2P x) (PTE_FLAGS (pte_of (mem s) p a))) (\<lambda>r.
      if r < 0 then ret False else copyuvm_loop p d sz (of_nat (4096 * Suc j))) w"
    using S(1-3) pr k x0 asz lt
    by (subst copyuvm_loop.simps) (simp add: seq_apply Let_def upd_mem_def w_def frame_def nx cong: if_cong)
  have m: "returns (mappages d a PGSIZE (V2P x) (PTE_FLAGS (pte_of (mem s) p a)) w) (\<lambda>r t'. \<exists>qs. vm_step d zs qs w t'
    \<and> (\<forall>b. vpn b < vpn a \<or> vpn (a + PGSIZE - 1) < vpn b \<longrightarrow> pte_of (mem t') d b = pte_of (mem w) d b)
    \<and> (r = 0 \<and> (\<forall>b. vpn a \<le> vpn b \<and> vpn b \<le> vpn (a + PGSIZE - 1)
          \<longrightarrow> pte_of (mem t') d b = mapped_pte a (V2P x) (PTE_FLAGS (pte_of (mem s) p a)) b)
       \<or> r = - 1 \<and> qs = []))"
  proof (rule mappages_ok [OF F(1)])
    show "unat a + unat PGSIZE \<le> 2 ^ 32" using ua j szb by (simp add: PGSIZE_def)
    show "\<forall>b. vpn a \<le> vpn b \<and> vpn b \<le> vpn (a + PGSIZE - 1) \<longrightarrow> pte_of (mem w) d b AND PTE_P = 0"
      using C(11) F(3) va vl kb j szb by auto
  qed (simp add: PGSIZE_def)
  then obtain r t' qs where m: "mappages d a PGSIZE (V2P x) (PTE_FLAGS (pte_of (mem s) p a)) w = Ret r t'"
    and st: "vm_step d zs qs w t'" and old: "\<forall>b. vpn b < j \<or> j < vpn b \<longrightarrow> pte_of (mem t') d b = pte_of (mem w) d b"
    and rr: "r = 0 \<and> (\<forall>b. j \<le> vpn b \<and> vpn b \<le> j
        \<longrightarrow> pte_of (mem t') d b = mapped_pte a (V2P x) (PTE_FLAGS (pte_of (mem s) p a)) b) \<or> r = - 1 \<and> qs = []"
    unfolding va vl by (elim returnsE exE conjE)
  have old: "pte_of (mem t') d b = pte_of (mem w) d b" if "vpn b \<noteq> vpn a" for b
    using old that va by (auto simp: nat_neq_iff)
  have "card (tabs (mem t') d) \<le> 1024" by (rule finite_tabs)
  then have "qs \<noteq> []" using vm_step_card [OF F(1) st] F(2) C(4) ys room by auto
  then have r: "r = 0" and new: "\<And>b. vpn b = vpn a \<Longrightarrow> pte_of (mem t') d b = V2P x OR PTE_FLAGS (pte_of (mem s) p a) OR PTE_P"
    using rr va by (auto simp: mapped_pte_def)
  have "copied s p d xs (Suc (vpn a)) qs t'"
    by (rule copied_Suc [OF _ d y' S(4) st [unfolded w_def] old [unfolded w_def] new]) (use c va ys in simp_all)
  then show ?thesis using run m r va by (auto simp: seq_apply)
qed

lemma less_pages: "j < (n + 4095) div 4096 \<longleftrightarrow> 4096 * j < (n :: nat)"
proof -
  have "j < (n + 4095) div 4096 \<longleftrightarrow> Suc j * 4096 \<le> n + 4095"
    by (simp only: Suc_le_eq [symmetric] less_eq_div_iff_mult_less_eq zero_less_numeral)
  then show ?thesis by auto
qed

lemma copyuvm_loop_ok:
  fixes s t :: "'z kmem_scheme"
  assumes c: "copied s p d xs j ys t" and u: "user_ok s p sz" and dj: "space (mem s) p sz \<inter> set (d # xs) = {}" and d: "d \<notin> set xs"
    and sz: "sz \<le> KERNBASE" and room: "length xs > 1025 + (unat sz + 4095) div 4096" and j: "j \<le> (unat sz + 4095) div 4096"
  shows "returns (copyuvm_loop p d sz (of_nat (4096 * j)) t) (\<lambda>ok t'. ok \<and> (\<exists>zs. copied s p d xs ((unat sz + 4095) div 4096) zs t'))"
  using c j
proof (induction "(unat sz + 4095) div 4096 - j" arbitrary: j ys t)
  case 0
  have e: "j = (unat sz + 4095) div 4096" using 0 by simp
  then have "4096 * j \<le> unat sz + 4095" by simp
  then have ua: "unat (of_nat (4096 * j) :: u32) = 4096 * j" using sz by (intro page_start) (simp add: word_le_nat_alt KERNBASE_def)
  have "\<not> (of_nat (4096 * j) :: u32) < sz" unfolding word_less_nat_alt ua less_pages [symmetric] using e by simp
  then show ?case using 0(2) e by (subst copyuvm_loop.simps) (auto simp: returns_def)
next
  case (Suc n)
  then have j: "4096 * j < unat sz" unfolding less_pages [symmetric] by simp
  obtain zs t' where c': "copied s p d xs (Suc j) zs t'"
    and run: "copyuvm_loop p d sz (of_nat (4096 * j)) t = copyuvm_loop p d sz (of_nat (4096 * Suc j)) t'"
    using copyuvm_step [OF Suc(3) u dj d j sz] Suc(2,4) room by auto
  show ?case unfolding run by (rule Suc(1)) (use c' Suc(2) in auto)
qed

lemma copied_0:
  fixes s t :: "'z kmem_scheme"
  assumes "vm_ok t d ys" "suffix ys xs" "tabs (mem t) d = set xs - set ys" "t = s\<lparr>mem := mem t, freelist := freelist t\<rparr>" "distinct xs"
    and "\<forall>v. unat v mod 4096 = 0 \<and> v \<notin> set (d # xs) \<longrightarrow> page_same (mem s) (mem t) v"
    and "\<forall>a. vpn a < vpn KERNBASE \<longrightarrow> pte_of (mem t) d a = 0"
  shows "copied s p d xs 0 ys t"
proof -
  obtain zs where zs: "xs = zs @ ys" using assms(2) by (auto simp: suffix_def)
  then have "set xs - set ys = set zs" using assms(5) by auto
  then have "length xs \<le> length ys + card (tabs (mem t) d)" using assms(3,5) zs by (simp add: distinct_card)
  then show ?thesis using assms by (auto simp: copied_def)
qed

text \<open>The byte of the address space at \<open>a\<close>, seen through the page table.\<close>

lemma translate_frame: "translate m d a = (if pte_of m d a AND PTE_P = 0 then None else Some (frame m d a + (a AND 0xFFF)))"
  by (simp add: translate_def frame_def Let_def)

lemma page_offset: "\<exists>i<4096. a AND 0xFFF = (of_nat i :: u32)"
proof (intro exI conjI)
  have "a AND 0xFFF < 4096" using PTE_FLAGS_less [of a] by (simp add: PTE_FLAGS_def)
  then show "unat (a AND 0xFFF) < 4096" by (simp add: word_less_nat_alt)
qed simp

text \<open>What \<open>copyuvm\<close> promises of a copy \<open>d\<close> made in the step from \<open>s\<close> to \<open>t\<close>.\<close>

definition same_contents :: "mem \<Rightarrow> u32 \<Rightarrow> mem \<Rightarrow> u32 \<Rightarrow> u32 \<Rightarrow> bool" where
  "same_contents m p m' d sz \<longleftrightarrow> (\<forall>a < sz. \<exists>k k'. translate m p a = Some k \<and> translate m' d a = Some k' \<and> m' k' = m k)"

lemma copied_all:
  fixes s t :: "'z kmem_scheme"
  assumes c: "copied s p d xs ((unat sz + 4095) div 4096) ys t" and u: "user_ok s p sz"
    and dj: "space (mem s) p sz \<inter> set (d # xs) = {}"
  shows "same_contents (mem s) p (mem t) d sz" "same_contents (mem s) p (mem t) p sz"
    "\<forall>a b. a < sz \<and> b < sz \<longrightarrow> translate (mem t) d a \<noteq> translate (mem t) p b"
    "\<forall>a < sz. PTE_FLAGS (pte_of (mem t) d a) = PTE_FLAGS (pte_of (mem s) p a)"
proof -
  note C = copiedD [OF c] and S = copied_source [OF c u dj]
  have n: "vpn a < (unat sz + 4095) div 4096" if "a < sz" for a
  proof -
    have "4096 * vpn a \<le> unat a" by (simp add: vpn_def)
    then show ?thesis using that unfolding less_pages word_less_nat_alt by simp
  qed
  have pr: "pte_of (mem s) p a AND PTE_P \<noteq> 0" if "a < sz" for a using u that by (simp add: user_ok_def)
  have fp: "frame (mem t) p a = frame (mem s) p a" if "a < sz" for a using S(5) [OF that] by (simp add: frame_def)
  have tp: "translate (mem s) p a = Some (frame (mem s) p a + (a AND 0xFFF))"
    "translate (mem t) p a = Some (frame (mem s) p a + (a AND 0xFFF))" if "a < sz" for a
    using pr [OF that] S(5) [OF that] fp [OF that] by (simp_all add: translate_frame)
  have pd: "pte_of (mem t) d a AND PTE_P \<noteq> 0" "PTE_FLAGS (pte_of (mem t) d a) = PTE_FLAGS (pte_of (mem s) p a) OR PTE_P" if "a < sz" for a
    using pte_pack(2,3) [OF aligned_V2P [OF frame_aligned] PTE_FLAGS_less] C(8) [OF n [OF that]] by metis+
  have td: "translate (mem t) d a = Some (frame (mem t) d a + (a AND 0xFFF))" if "a < sz" for a
    using pd(1) [OF that] by (simp add: translate_frame)
  show "same_contents (mem s) p (mem t) d sz"
    unfolding same_contents_def using tp(1) td C(9) [OF n] page_offset by metis
  show "same_contents (mem s) p (mem t) p sz"
    unfolding same_contents_def using tp S(4) page_offset unfolding page_same_def by metis
  have "PTE_FLAGS e OR PTE_P = PTE_FLAGS e" if "e AND PTE_P \<noteq> 0" for e
  proof -
    have "bit e 0" using that by (simp add: PTE_P_def and_one_eq odd_iff_mod_2_eq_one bit_0)
    then show ?thesis by (intro bit_eqI) (auto simp: PTE_FLAGS_def PTE_P_def bit_simps bit_1_iff)
  qed
  then show "\<forall>a < sz. PTE_FLAGS (pte_of (mem t) d a) = PTE_FLAGS (pte_of (mem s) p a)" using pd(2) pr by simp
  have "frame (mem t) d a + (a AND 0xFFF) \<noteq> frame (mem s) p b + (b AND 0xFFF)" if "a < sz" "b < sz" for a b
  proof
    assume eq: "frame (mem t) d a + (a AND 0xFFF) = frame (mem s) p b + (b AND 0xFFF)"
    obtain i j where ij: "i < 4096" "a AND 0xFFF = of_nat i" "j < 4096" "b AND 0xFFF = of_nat j" using page_offset by metis
    have "frame (mem t) d a \<noteq> frame (mem s) p b"
      using C(6) [OF n [OF that(1)]] dj that(2) by (auto simp: space_def)
    then have "4096 \<le> unat (frame (mem t) d a + of_nat i - frame (mem s) p b)"
      by (intro page_disjoint frame_aligned ij) auto
    moreover have "frame (mem t) d a + of_nat i - frame (mem s) p b = of_nat j" using eq ij by simp
    ultimately show False using ij(3) by (simp add: unat_of_nat_small)
  qed
  then show "\<forall>a b. a < sz \<and> b < sz \<longrightarrow> translate (mem t) d a \<noteq> translate (mem t) p b"
    using tp(2) td by simp
qed

lemma copyuvm_ok:
  fixes s :: "'z kvm_scheme"
  assumes fl: "free_list s (d # xs)" and lay: "kernel_layout (kdata s) (gpu s)" and u: "user_ok s p sz" and sz: "sz \<le> KERNBASE"
    and dj: "space (mem s) p sz \<inter> set (d # xs) = {}" and room: "length xs > 1025 + (unat sz + 4095) div 4096"
  shows "returns (copyuvm p sz s) (\<lambda>r t. r = d \<and> (\<exists>ys. copied s p d xs ((unat sz + 4095) div 4096) ys t))"
proof -
  have d: "d \<notin> set xs" "distinct xs" "d \<noteq> 0" using fl usable_nonzero by (auto simp: free_list_def)
  obtain t ys where k: "setupkvm s = Ret d t" and c: "copied s p d xs 0 ys t"
  proof -
    have "length xs > 1024" using room by simp
    from setupkvm_ok [OF fl this lay] show thesis
      by (elim returnsE conjE exE) (rule that; (blast intro: copied_0 d(2))?)
  qed
  have "returns (copyuvm_loop p d sz (of_nat (4096 * 0)) t) (\<lambda>ok t'. ok \<and> (\<exists>zs. copied s p d xs ((unat sz + 4095) div 4096) zs t'))"
    by (rule copyuvm_loop_ok [OF c u dj d(1) sz room]) simp
  then show ?thesis using d(3) k by (auto simp: copyuvm_def seq_apply elim!: returnsE)
qed

section \<open>A machine with one process\<close>

text \<open>A list of pages linked through their first words, as \<open>kfree\<close> leaves it.\<close>

fun link_pages :: "u32 list \<Rightarrow> mem \<Rightarrow> mem" where
  "link_pages [] m = m"
| "link_pages (x # xs) m = store32 (link_pages xs m) x (case xs of [] \<Rightarrow> 0 | y # _ \<Rightarrow> y)"

definition page_run :: "nat \<Rightarrow> u32 list" where
  "page_run n = map (\<lambda>k. of_nat (0x80400000 + 4096 * k)) [0 ..< n]"

definition demo_pages :: "u32 list" where
  "demo_pages = page_run 1100"

definition demo_user :: mem where
  "demo_user = store32 (store32 (\<lambda>a. if a = 0x80302001 then 65 else 0) 0x80301000 0x302007) 0x80300000 0x301007"

definition demo_vm :: kvm where
  "demo_vm = kfile.extend
     (demo_pipe\<lparr>mem := link_pages demo_pages demo_user, freelist := 0x80400000, kend := 0x80200000,
        gpu := (gpu demo_pipe)\<lparr>vram_size := 0x400000\<rparr>\<rparr>)
     (kvm.fields 0 0x80108000 0 (\<lambda>_. SEG 0 0 0 0) 0 0 0 0 0)"

lemma link_pages_ok:
  assumes "distinct xs" "\<forall>x\<in>set xs. unat x mod 4096 = 0 \<and> x \<noteq> 0"
  shows "list_at (link_pages xs m) (case xs of [] \<Rightarrow> 0 | y # _ \<Rightarrow> y) xs"
  using assms
proof (induction xs)
  case (Cons x xs)
  have "list_at (link_pages (x # xs) m) (case xs of [] \<Rightarrow> 0 | y # _ \<Rightarrow> y) xs"
  proof (rule list_at_frame [OF Cons.IH])
    show "link_pages (x # xs) m a = link_pages xs m a" if "4096 \<le> unat (a - x)" for a
      using that by (simp add: store32_frame)
  qed (use Cons.prems in auto)
  then show ?case using Cons.prems by simp
qed simp

lemma link_pages_other:
  assumes "unat v mod 4096 = 0" "\<forall>x\<in>set xs. unat x mod 4096 = 0" "v \<notin> set xs" "i < 4096"
  shows "link_pages xs m (v + of_nat i) = m (v + of_nat i)"
  using assms
proof (induction xs)
  case (Cons x xs)
  then have "4096 \<le> unat (v + of_nat i - x)" by (intro page_disjoint) auto
  with Cons show ?case by (simp add: store32_frame)
qed simp

lemma page_run_ok:
  assumes "n \<le> 1100"
  shows "distinct (page_run n)"
    "x \<in> set (page_run n) \<Longrightarrow> unat x mod 4096 = 0 \<and> 0x80400000 \<le> unat x \<and> unat x < 0x80400000 + 4096 * n"
proof -
  have un: "unat (of_nat (0x80400000 + 4096 * k) :: u32) = 0x80400000 + 4096 * k" if "k < n" for k
    using that assms by (intro unat_of_nat_small) simp
  show "x \<in> set (page_run n) \<Longrightarrow> unat x mod 4096 = 0 \<and> 0x80400000 \<le> unat x \<and> unat x < 0x80400000 + 4096 * n"
    using un by (auto simp: page_run_def mod_add_eq [symmetric] simp del: of_nat_add of_nat_mult)
  have "inj_on (\<lambda>k. of_nat (0x80400000 + 4096 * k) :: u32) {0 ..< n}"
    by (rule inj_onI) (drule arg_cong [where f = unat], use un in \<open>simp del: of_nat_add of_nat_mult\<close>)
  then show "distinct (page_run n)" by (simp add: page_run_def distinct_map)
qed

lemma page_run_Cons: "0 < n \<Longrightarrow> page_run n = 0x80400000 # tl (page_run n)"
  by (simp add: page_run_def upt_conv_Cons)

lemmas demo_pages_ok = page_run_ok [of 1100, folded demo_pages_def, simplified] page_run_Cons [of 1100, folded demo_pages_def, simplified]

lemma demo_vm_sel:
  "mem demo_vm = link_pages demo_pages demo_user" "freelist demo_vm = 0x80400000" "kend demo_vm = 0x80200000"
  "held demo_vm = {}" "kdata demo_vm = 0x80108000" "vram_size (gpu demo_vm) = 0x400000"
  by (simp_all add: demo_vm_def kfile.defs kvm.defs demo_pipe_sel)

lemma demo_free: "free_list demo_vm (0x80400000 # tl demo_pages)"
proof -
  have al: "\<forall>x\<in>set demo_pages. unat x mod 4096 = 0 \<and> x \<noteq> 0" using demo_pages_ok(2) by fastforce
  have "usable_page 0x80200000 x" if "x \<in> set demo_pages" for x
  proof -
    have "unat (x - KERNBASE) = unat x - unat KERNBASE"
      using demo_pages_ok(2) [OF that] by (simp add: unat_sub word_le_nat_alt KERNBASE_def)
    then have "V2P x < PHYSTOP" using demo_pages_ok(2) [OF that] by (simp add: V2P_def word_less_nat_alt const_defs) linarith
    moreover have "x mod PGSIZE = 0" using demo_pages_ok(2) [OF that] unfolding aligned_unat by simp
    ultimately show ?thesis using demo_pages_ok(2) [OF that] by (simp add: usable_page_def word_le_nat_alt)
  qed
  moreover have "(case demo_pages of [] \<Rightarrow> 0 | y # _ \<Rightarrow> y) = 0x80400000" by (subst demo_pages_ok(3)) simp
  ultimately show ?thesis
    using link_pages_ok [OF demo_pages_ok(1) al, of demo_user] demo_pages_ok(1)
    unfolding demo_pages_ok(3) [symmetric] free_list_def demo_vm_sel by simp
qed

lemma demo_page:
  assumes "unat v mod 4096 = 0" "unat v < 0x80400000" "i < 4096"
  shows "mem demo_vm (v + of_nat i) = demo_user (v + of_nat i)"
proof -
  have "v \<notin> set demo_pages" "\<forall>x\<in>set demo_pages. unat x mod 4096 = 0"
    using assms(2) demo_pages_ok(2) by fastforce+
  then show ?thesis unfolding demo_vm_sel using assms by (intro link_pages_other)
qed

lemma demo_entries:
  assumes "i < 1024"
  shows "load32 (mem demo_vm) (0x80300000 + 4 * i) = (if i = 0 then 0x301007 else 0)"
    "load32 (mem demo_vm) (0x80301000 + 4 * i) = (if i = 0 then 0x302007 else 0)"
proof -
  let ?m = "\<lambda>a. if a = 0x80302001 then 65 else 0 :: u8"
  have z: "load32 ?m (q + 4 * i) = 0" if "q = 0x80300000 \<or> q = 0x80301000" for q
  proof -
    have "load32 ?m (q + 4 * i) = load32 (\<lambda>_. 0) (q + 4 * i)"
    proof (rule load32_cong)
      fix k :: nat
      assume "k < 4"
      then have "4 \<le> unat (q + 4 * i + of_nat k - (0x80302000 + 4 * 0))"
        using that assms by (intro ent_far) auto
      moreover have "unat (0x80302001 - (0x80302000 + 4 * 0) :: u32) = 1" by simp
      ultimately show "?m (q + 4 * i + of_nat k) = 0" by auto
    qed
    also have "\<dots> = 0" by (simp add: load32_def le32_of_def)
    finally show ?thesis .
  qed
  have l: "load32 (mem demo_vm) (q + 4 * i) = load32 demo_user (q + 4 * i)" if "q = 0x80300000 \<or> q = 0x80301000" for q
    using that assms demo_page by (intro load_ent_same) (auto simp: page_same_def)
  have D: "demo_user = store32 (store32 ?m (0x80301000 + 4 * 0) 0x302007) (0x80300000 + 4 * 0) 0x301007"
    by (simp add: demo_user_def)
  show "load32 (mem demo_vm) (0x80300000 + 4 * i) = (if i = 0 then 0x301007 else 0)"
    "load32 (mem demo_vm) (0x80301000 + 4 * i) = (if i = 0 then 0x302007 else 0)"
    using assms by (simp_all add: l z D load_ent_store del: mult_zero_right)
qed

lemma demo_tabs:
  "has_tab (mem demo_vm) 0x80300000 i \<Longrightarrow> i < 1024 \<Longrightarrow> i = 0" "has_tab (mem demo_vm) 0x80300000 0"
  "tab (mem demo_vm) 0x80300000 0 = 0x80301000" "tabs (mem demo_vm) 0x80300000 = {0x80301000}"
proof -
  show h: "has_tab (mem demo_vm) 0x80300000 i \<Longrightarrow> i < 1024 \<Longrightarrow> i = 0" for i
    using demo_entries(1) [of i] by (auto simp: has_tab_def split: if_splits)
  have e0: "load32 (mem demo_vm) 0x80300000 = 0x301007" using demo_entries(1) [of 0] by simp
  then show h0: "has_tab (mem demo_vm) 0x80300000 0" "tab (mem demo_vm) 0x80300000 0 = 0x80301000"
    by (simp_all add: has_tab_def tab_def PTE_P_def PTE_ADDR_def P2V_def KERNBASE_def)
  then show "tabs (mem demo_vm) 0x80300000 = {0x80301000}" using h by (force simp: tabs_def)
qed

lemma demo_user_ok: "user_ok demo_vm 0x80300000 4096" "space (mem demo_vm) 0x80300000 4096 \<inter> set demo_pages = {}"
proof -
  have z: "PDX a = 0" "PTX a = 0" if "a < 4096" for a
    using that unat_PDX [of a] unat_PTX [of a] by (simp_all add: word_less_nat_alt unat_eq_zero)
  have e: "load32 (mem demo_vm) 0x80301000 = 0x302007" using demo_entries(2) [of 0] by simp
  have p: "pte_of (mem demo_vm) 0x80300000 a = 0x302007" if "a < 4096" for a
    using demo_tabs(2,3) e by (simp add: pte_of_tab z [OF that])
  then have f: "frame (mem demo_vm) 0x80300000 a = 0x80302000" if "a < 4096" for a
    using that by (simp add: frame_def PTE_ADDR_def P2V_def KERNBASE_def)
  have "tab (mem demo_vm) 0x80300000 i = 0x80301000" "i = 0" if "i < 1024" "has_tab (mem demo_vm) 0x80300000 i" for i
    using demo_tabs that by metis+
  then have "pgdir_ok 0x80200000 (mem demo_vm) 0x80300000"
    unfolding pgdir_ok_def by (auto simp: usable_page_def V2P_def const_defs)
  then show "user_ok demo_vm 0x80300000 4096"
    unfolding user_ok_def demo_vm_sel(3) by (simp add: p f) (simp add: usable_page_def V2P_def const_defs)
  have "space (mem demo_vm) 0x80300000 4096 \<subseteq> {0x80300000, 0x80301000, 0x80302000}"
    using f demo_tabs(4) by (auto simp: space_def)
  then show "space (mem demo_vm) 0x80300000 4096 \<inter> set demo_pages = {}" using demo_pages_ok(2) by fastforce
qed

lemma demo_layout: "kernel_layout (kdata demo_vm) (gpu demo_vm)"
  by (simp add: kernel_layout_def demo_vm_sel P2V_def const_defs)

lemma demo_room: "length (tl demo_pages) = 1099"
  by (simp add: demo_pages_def page_run_def )

section \<open>Address spaces\<close>

text \<open>
  C25. With a page for the directory and 1024 for its tables in the free list, and a kernel image and a video memory that fit the regions of
  \<open>kmap\<close>, \<open>setupkvm\<close> returns a page directory in which every page of every region of \<open>kmap\<close> has an entry with the
  region's physical page and permission, no page below \<open>KERNBASE\<close> is mapped, the unused free pages are still free, and nothing
  outside the pages taken changes.
\<close>

theorem setupkvm_maps_kernel:
  fixes s :: "'z kvm_scheme"
  assumes "free_list s (d # xs)" and "length xs > 1024" and "kernel_layout (kdata s) (gpu s)"
  shows "returns (setupkvm s) (\<lambda>r t. r = d \<and> t = s\<lparr>mem := mem t, freelist := freelist t\<rparr>
    \<and> (\<forall>k\<in>set (kmap_table (kdata s) (gpu s)). \<forall>a. vpn (k_virt k) \<le> vpn a \<and> vpn a \<le> vpn (k_virt k + (phys_end k - phys_start k) - 1)
         \<longrightarrow> pte_of (mem t) d a = (phys_start k + of_nat (4096 * (vpn a - vpn (k_virt k)))) OR k_perm k OR PTE_P)
    \<and> (\<forall>a < KERNBASE. translate (mem t) d a = None)
    \<and> (\<exists>ys. suffix ys xs \<and> free_list t ys \<and> pgdir_ok (kend t) (mem t) d)
    \<and> (\<forall>v. unat v mod 4096 = 0 \<and> v \<notin> set (d # xs) \<longrightarrow> page_same (mem s) (mem t) v))"
proof (rule returns_mono [OF setupkvm_ok [OF assms]], elim conjE, intro conjI)
  have "vpn a < vpn KERNBASE" if "a < KERNBASE" for a
    using that by (simp add: vpn_def word_less_nat_alt KERNBASE_def less_mult_imp_div_less)
  then show "\<forall>a < KERNBASE. translate (mem t) d a = None" if "\<forall>a. vpn a < vpn KERNBASE \<longrightarrow> pte_of (mem t) d a = 0" for t :: "'z kvm_scheme"
    using that by (simp add: translate_frame)
qed (auto simp: maps_region_def krange_def mapped_pte_def vm_ok_def)

theorem setupkvm_maps_kernel_witness:
  "\<exists>t. setupkvm demo_vm = Ret 0x80400000 t \<and> (\<forall>a < KERNBASE. translate (mem t) 0x80400000 a = None)"
  using setupkvm_maps_kernel [OF demo_free _ demo_layout] demo_room by (auto elim!: returnsE)

text \<open>
  C2. \<open>copyuvm\<close> of an address space \<open>p\<close> of \<open>sz\<close> bytes, with enough free pages: it returns a new page directory in which each of the
  \<open>sz\<close> addresses is mapped with the parent's permissions to a byte of the parent's value; parent and child share no byte; and the parent's own
  memory reads as before.
\<close>

theorem copyuvm_copies_memory:
  fixes s :: "'z kvm_scheme"
  assumes "free_list s (d # xs)" and "kernel_layout (kdata s) (gpu s)" and "user_ok s p sz" and "sz \<le> KERNBASE"
    and "space (mem s) p sz \<inter> set (d # xs) = {}" and "length xs > 1025 + (unat sz + 4095) div 4096"
  shows "returns (copyuvm p sz s) (\<lambda>r t. r = d \<and> same_contents (mem s) p (mem t) r sz \<and> same_contents (mem s) p (mem t) p sz
    \<and> (\<forall>a b. a < sz \<and> b < sz \<longrightarrow> translate (mem t) r a \<noteq> translate (mem t) p b)
    \<and> (\<forall>a < sz. PTE_FLAGS (pte_of (mem t) r a) = PTE_FLAGS (pte_of (mem s) p a)))"
proof (rule returns_mono [OF copyuvm_ok [OF assms]], elim conjE exE)
  fix r t ys
  assume r: "r = d" and c: "copied s p d xs ((unat sz + 4095) div 4096) ys t"
  show "r = d \<and> same_contents (mem s) p (mem t) r sz \<and> same_contents (mem s) p (mem t) p sz
    \<and> (\<forall>a b. a < sz \<and> b < sz \<longrightarrow> translate (mem t) r a \<noteq> translate (mem t) p b)
    \<and> (\<forall>a < sz. PTE_FLAGS (pte_of (mem t) r a) = PTE_FLAGS (pte_of (mem s) p a))"
    unfolding r by (intro conjI refl copied_all [OF c assms(3,5)])
qed

theorem copyuvm_copies_memory_witness:
  "\<exists>t. copyuvm 0x80300000 4096 demo_vm = Ret 0x80400000 t \<and> same_contents (mem demo_vm) 0x80300000 (mem t) 0x80400000 4096"
proof -
  have "space (mem demo_vm) 0x80300000 4096 \<inter> set (0x80400000 # tl demo_pages) = {}"
    using demo_user_ok(2) demo_pages_ok(3) by metis
  then show ?thesis
    using copyuvm_copies_memory [OF demo_free demo_layout demo_user_ok(1)] demo_room
    by (auto simp: KERNBASE_def elim!: returnsE)
qed

end
