(* ===== verification/Demo.thy ===== *)
theory Demo
  imports Trap Copyuvm
begin

text \<open>
  A concrete machine for the witnesses of the components above the virtual memory: two runnable processes, the first of which runs, with a trap frame of a
  clock interrupt from user mode at 0x8030FFB4.
\<close>

definition demo_procs :: "nat \<Rightarrow> proc" where
  "demo_procs p = (if p < 2
     then zero_proc\<lparr>p_state := (if p = 0 then RUNNING else RUNNABLE), p_kstack := 0x8030F000, p_pgdir := 0x80300000, p_sz := 4096,
            p_pid := of_nat p + 1, p_tf := 0x8030FFB4\<rparr>
     else zero_proc)"

definition demo_tf :: u32 where "demo_tf = 0x8030FFB4"

definition demo_proc :: kproc where
  "demo_proc = kvm.extend
     (demo_vm\<lparr>ptable := demo_procs, curproc := Some 0,
        mem := (mem demo_vm)(demo_tf + TF_trapno := 32, demo_tf + TF_cs := 0x1B)\<rparr>)
     (kproc.fields (Some 1) 3 0 False 0 0 [])"

definition demo_net :: knet where
  "demo_net = kproc.extend demo_proc
     (knet.fields 0xFEBC0000 [0x52, 0x54, 0, 0x12, 0x34, 0x56] [10, 0, 1, 10] 0
        \<lparr>bus_num = 0, device_num = 3, function_num = 0, device_id = 0x100E, vendor_id = 0x8086, base_class = 2, sub_class = 0,
         pci_interface = 0, revision_id = 3, bar0 = 0xFEBC0000, bar1 = 0\<rparr>
        (\<lambda>_. 0) (\<lambda>_. 0) (\<lambda>_. \<lparr>a_ip = [0, 0, 0, 0], a_mac = [0, 0, 0, 0, 0, 0], a_use = 0\<rparr>) 0 0 0 False)"

definition demo_trap :: ktrap where
  "demo_trap = knet.extend demo_net
     (ktrap.fields 0 [] [] (\<lambda>_. SETGATE False 0 0 0) True (\<lambda>_. 0) 0)"

lemma demo_vm_cpu: "lapic demo_vm = 0xFEE00000" "lapic_regs demo_vm = (\<lambda>_. 0)" "ncpu demo_vm = 1" "apicids demo_vm = (\<lambda>_. 0)"
  by (simp_all add: demo_vm_def demo_pipe_def demo_fs_def demo_cons_def kfile.defs kfs.defs kcons.defs kapic.defs klog.defs)

lemma demo_proc_sel:
  "held demo_proc = {}" "ptable demo_proc = demo_procs" "curproc demo_proc = Some 0"
  "mem demo_proc = (mem demo_vm)(demo_tf + TF_trapno := 32, demo_tf + TF_cs := 0x1B)"
  "lapic demo_proc = 0xFEE00000" "lapic_regs demo_proc = (\<lambda>_. 0)" "ncpu demo_proc = 1" "apicids demo_proc = (\<lambda>_. 0)"
  by (simp_all add: demo_proc_def kvm.defs kproc.defs demo_vm_sel demo_vm_cpu)

lemma demo_trap_sel:
  "held demo_trap = {}" "ptable demo_trap = demo_procs" "curproc demo_trap = Some 0" "mem demo_trap = mem demo_proc"
  "lapic demo_trap = 0xFEE00000" "lapic_regs demo_trap = (\<lambda>_. 0)" "ncpu demo_trap = 1" "apicids demo_trap = (\<lambda>_. 0)"
  by (simp_all add: demo_trap_def demo_net_def knet.defs kproc.defs ktrap.defs demo_proc_sel)

lemma demo_stack:
  assumes "i < 4096"
  shows "mem demo_vm (0x8030F000 + of_nat i) = 0"
proof -
  have a: "4096 \<le> unat (0x8030F000 + of_nat i - v)" if "v \<noteq> 0x8030F000" "unat v mod 4096 = 0" for v :: u32
    using assms that by (intro page_disjoint) auto
  have ne: "0x8030F000 + of_nat i \<noteq> (0x80302001 :: u32)"
  proof
    assume e: "0x8030F000 + of_nat i = (0x80302001 :: u32)"
    have "4096 \<le> unat (0x8030F000 + of_nat i - (0x80302000 :: u32))" by (rule a) simp_all
    then show False unfolding e by simp
  qed
  have "mem demo_vm (0x8030F000 + of_nat i) = demo_user (0x8030F000 + of_nat i)"
    using assms by (intro demo_page) auto
  then show ?thesis using a [of "0x80300000"] a [of "0x80301000"] ne by (simp add: demo_user_def store32_frame)
qed

lemma demo_frame:
  "load32 (mem demo_proc) (demo_tf + TF_trapno) = T_IRQ0 + IRQ_TIMER" "load16 (mem demo_proc) (demo_tf + TF_cs) AND 3 = DPL_USER"
proof -
  have z: "mem demo_vm 0x8030FFE5 = 0" "mem demo_vm 0x8030FFE6 = 0" "mem demo_vm 0x8030FFE7 = 0" "mem demo_vm 0x8030FFF1 = 0"
    using demo_stack [of "0xFE5"] demo_stack [of "0xFE6"] demo_stack [of "0xFE7"] demo_stack [of "0xFF1"] by simp_all
  show "load32 (mem demo_proc) (demo_tf + TF_trapno) = T_IRQ0 + IRQ_TIMER" "load16 (mem demo_proc) (demo_tf + TF_cs) AND 3 = DPL_USER"
    by (simp_all add: demo_proc_sel load32_def load16_def le32_of_def demo_tf_def tf_defs z const_defs)
qed

lemma demo_cpuid: "cpuid demo_trap = Ret 0 demo_trap"
  by (simp add: cpuid_def mycpu_index_def lapicid_def seq_apply demo_trap_sel)

end
