(* ===== verification/Scheduling.thy ===== *)
theory Scheduling
  imports Demo
begin

unbundle bit_operations_syntax

text \<open>
  The clock interrupt, the scheduler and \<open>kill\<close> together: a process is made to give up the processor by the clock, every process that can run
  is run in each pass of the scheduler, and a killed process does not get back to user mode.
\<close>

section \<open>Killed processes\<close>

text \<open>\<open>exit\<close> never returns, however often the process is switched to again.\<close>

lemma exit_never_returns: "ensures Q (exit s)"
  unfolding exit_def
  by (rule ensures_seq, rule ensures_seq) (auto intro!: ensures_seq split: option.split simp: panic_def)

section \<open>The clock\<close>

text \<open>The state after the clock interrupt on processor \<open>c\<close>, and the one in which \<open>yield\<close> hands over to the scheduler.\<close>

definition ticked :: "nat \<Rightarrow> 'z ktrap_scheme \<Rightarrow> 'z ktrap_scheme" where
  "ticked c s =
     (let t = (if c = 0 then s\<lparr>ticks := ticks s + 1, ptable := woken ChTicks (ptable s)\<rparr> else s) in
      if lapic t \<noteq> 0 then t\<lparr>lapic_regs := (lapic_regs t)(L_EOI := 0)\<rparr> else t)"

definition yielded :: "nat \<Rightarrow> 'z kbase_scheme \<Rightarrow> 'z kbase_scheme" where
  "yielded p s = s\<lparr>held := {LPtable}, ptable := (ptable s)(p := (ptable s p)\<lparr>p_state := RUNNABLE\<rparr>)\<rparr>"

lemma yield_apply:
  "held s = {} \<Longrightarrow> curproc s = Some p \<Longrightarrow> yield s = Switch (yielded p s) (release LPtable)"
  by (simp add: yield_def seq_apply sched_def swtch_def yielded_def)

lemma timer_tick_apply:
  assumes "held s = {}" "cpuid s = Ret c s"
  shows "seq timer_tick (\<lambda>_. lapiceoi) s = Ret () (ticked c s)"
  using assms by (simp add: timer_tick_def lapiceoi_def lapicw_def seq_apply ticked_def wakeup_apply Let_def)

lemma ticked_sel [simp]:
  "held (ticked c s) = held s" "curproc (ticked c s) = curproc s" "mem (ticked c s) = mem s"
  "p_killed (ptable (ticked c s) p) = p_killed (ptable s p)"
  "p_state (ptable s p) = RUNNING \<Longrightarrow> p_state (ptable (ticked c s) p) = RUNNING"
  by (simp_all add: ticked_def woken_state Let_def)

lemma timer_trap:
  fixes s :: "'z ktrap_scheme"
  assumes "load32 (mem s) (tf + TF_trapno) = T_IRQ0 + IRQ_TIMER" "held s = {}" "cpuid s = Ret c s" "curproc s = Some p"
    "p_state (ptable s p) = RUNNING" "\<not> p_killed (ptable s p)"
  shows "trap tf s = Switch (yielded p (ticked c s)) (seq (release LPtable) (\<lambda>_. exit_if_killed tf))"
proof -
  have "exit_if_killed tf (ticked c s) = Ret () (ticked c s)" using assms by (simp add: exit_if_killed_def seq_apply)
  then show ?thesis
    using assms timer_tick_apply [OF assms(2,3), unfolded seq_def] yield_apply [of "ticked c s" p]
    by (simp add: trap_def seq_def handle_irq_def T_SYSCALL_def T_IRQ0_def IRQ_TIMER_def)
qed

section \<open>The scheduler\<close>

text \<open>What the scheduler needs of a process it switches to.\<close>

definition live_ok :: "'z kbase_scheme \<Rightarrow> bool" where
  "live_ok s \<longleftrightarrow> (\<forall>q<NPROC. p_state (ptable s q) = RUNNABLE \<or> p_state (ptable s q) = RUNNING \<longrightarrow>
     p_kstack (ptable s q) \<noteq> 0 \<and> p_pgdir (ptable s q) \<noteq> 0)"

text \<open>
  A thread of process \<open>p\<close> that goes on giving up the processor: whenever it is switched to it comes back to the scheduler, with only \<open>ptable.lock\<close>
  held and without having taken another process out of the state \<open>RUNNABLE\<close>.
\<close>

definition gives_up :: "nat \<Rightarrow> 'z kvm_scheme \<Rightarrow> 'z kvm_scheme \<Rightarrow> bool" where
  "gives_up p s t \<longleftrightarrow> held t = {LPtable} \<and> live_ok t
     \<and> (\<forall>q. q \<noteq> p \<and> p_state (ptable s q) = RUNNABLE \<longrightarrow> p_state (ptable t q) = RUNNABLE)"

definition switched_to :: "nat \<Rightarrow> 'z kvm_scheme \<Rightarrow> bool" where
  "switched_to p s \<longleftrightarrow> held s = {LPtable} \<and> curproc s = Some p \<and> p_state (ptable s p) = RUNNING \<and> live_ok s"

coinductive yields :: "nat \<Rightarrow> (unit, 'z kvm_scheme) km \<Rightarrow> bool" for p where
  "(\<And>s. switched_to p s \<Longrightarrow> \<exists>t k'. k s = Switch t k' \<and> gives_up p s t \<and> yields p k') \<Longrightarrow> yields p k"

inductive_cases yieldsE: "yields p k"

lemma subseq_sorted_wrt: "subseq xs ys \<Longrightarrow> sorted_wrt R ys \<Longrightarrow> sorted_wrt R xs"
  by (induction rule: list_emb.induct) (auto dest: list_emb_set)

lemma dispatch_apply:
  fixes s :: "'z kvm_scheme"
  assumes "p < NPROC" "p_state (ptable s p) = RUNNABLE" "live_ok s" "held s = {LPtable}"
  shows "\<exists>t. dispatch p s = Ret () t \<and> switched_to p t
    \<and> (\<forall>q. q \<noteq> p \<and> p_state (ptable s q) = RUNNABLE \<longrightarrow> p_state (ptable t q) = RUNNABLE)"
proof -
  have "p_kstack (ptable s p) \<noteq> 0" "p_pgdir (ptable s p) \<noteq> 0" using assms by (auto simp: live_ok_def)
  then show ?thesis using assms by (auto simp: dispatch_def switchuvm_def seq_apply switched_to_def live_ok_def)
qed

lemma switched_back_apply: "switched_back t = Ret () (t\<lparr>cr3 := V2P (kpgdir t), curproc := None\<rparr>)"
  by (simp add: switched_back_def switchkvm_def seq_apply)

lemma scheduler_scan_ok:
  fixes s :: "'z kvm_scheme"
  assumes "\<forall>p<NPROC. yields p (threads p)" "live_ok s" "held s = {LPtable}" "set ps \<subseteq> {..<NPROC}" "distinct ps"
  shows "\<exists>th t trace. scheduler_scan threads ps s = Some (th, t, trace) \<and> subseq trace ps
    \<and> (\<forall>p\<in>set ps. p_state (ptable s p) = RUNNABLE \<longrightarrow> p \<in> set trace)
    \<and> (\<forall>p<NPROC. yields p (th p)) \<and> live_ok t \<and> held t = {LPtable}"
  using assms
proof (induction ps arbitrary: threads s)
  case (Cons p ps)
  show ?case
  proof (cases "p_state (ptable s p) = RUNNABLE")
    case False
    obtain th t trace where "scheduler_scan threads ps s = Some (th, t, trace)" "subseq trace ps"
      "\<forall>p\<in>set ps. p_state (ptable s p) = RUNNABLE \<longrightarrow> p \<in> set trace" "\<forall>p<NPROC. yields p (th p)" "live_ok t" "held t = {LPtable}"
      using Cons.IH [OF Cons.prems(1-3)] Cons.prems(4,5) by auto
    with False show ?thesis by auto
  next
    case True
    obtain s1 where s1: "dispatch p s = Ret () s1" "switched_to p s1"
      "\<forall>q. q \<noteq> p \<and> p_state (ptable s q) = RUNNABLE \<longrightarrow> p_state (ptable s1 q) = RUNNABLE"
      using dispatch_apply [of p s] True Cons.prems by auto
    have "yields p (threads p)" using Cons.prems by auto
    then obtain t k where k: "threads p s1 = Switch t k" "gives_up p s1 t" "yields p k"
      using s1(2) by (blast elim: yieldsE)
    define u where "u = t\<lparr>cr3 := V2P (kpgdir t), curproc := None\<rparr>"
    have "\<exists>th v trace. scheduler_scan (threads(p := k)) ps u = Some (th, v, trace) \<and> subseq trace ps
      \<and> (\<forall>q\<in>set ps. p_state (ptable u q) = RUNNABLE \<longrightarrow> q \<in> set trace)
      \<and> (\<forall>q<NPROC. yields q (th q)) \<and> live_ok v \<and> held v = {LPtable}"
      using Cons.prems k(2,3) by (intro Cons.IH) (auto simp: u_def gives_up_def live_ok_def)
    then obtain th v trace where ih: "scheduler_scan (threads(p := k)) ps u = Some (th, v, trace)" "subseq trace ps"
      "\<forall>q\<in>set ps. p_state (ptable u q) = RUNNABLE \<longrightarrow> q \<in> set trace"
      "\<forall>q<NPROC. yields q (th q)" "live_ok v" "held v = {LPtable}" by blast
    have run: "scheduler_scan threads (p # ps) s = Some (th, v, p # trace)"
      using True s1(1) k(1) ih(1) by (simp add: seq_apply switched_back_apply u_def [symmetric])
    have "\<forall>q\<in>set (p # ps). p_state (ptable s q) = RUNNABLE \<longrightarrow> q \<in> set (p # trace)"
      using ih(3) s1(3) k(2) Cons.prems(5) by (auto simp: u_def gives_up_def)
    then show ?thesis using run ih by auto
  qed
qed auto

lemma scheduler_pass_ok:
  fixes s :: "'z kvm_scheme"
  assumes "\<forall>p<NPROC. yields p (threads p)" "live_ok s" "held s = {}"
  shows "\<exists>th t trace. scheduler_pass threads s = Some (th, t, trace) \<and> subseq trace [0 ..< NPROC]
    \<and> (\<forall>p<NPROC. p_state (ptable s p) = RUNNABLE \<longrightarrow> p \<in> set trace)
    \<and> (\<forall>p<NPROC. yields p (th p)) \<and> live_ok t \<and> held t = {}"
proof -
  let ?s = "s\<lparr>held := {LPtable}\<rparr>"
  have "live_ok ?s" using assms(2) by (simp add: live_ok_def)
  then obtain th t trace where "scheduler_scan threads [0 ..< NPROC] ?s = Some (th, t, trace)" "subseq trace [0 ..< NPROC]"
    "\<forall>p\<in>set [0 ..< NPROC]. p_state (ptable ?s p) = RUNNABLE \<longrightarrow> p \<in> set trace"
    "\<forall>p<NPROC. yields p (th p)" "live_ok t" "held t = {LPtable}"
    using scheduler_scan_ok [OF assms(1), of ?s "[0 ..< NPROC]"] by (auto simp: atLeast0LessThan)
  then show ?thesis using assms by (auto simp: scheduler_pass_def live_ok_def)
qed

lemma scheduler_ok:
  fixes s :: "'z kvm_scheme"
  assumes "\<forall>p<NPROC. yields p (threads p)" "live_ok s" "held s = {}"
  shows "\<exists>th t trace. scheduler n threads s = Some (th, t, trace) \<and> (\<forall>p<NPROC. yields p (th p)) \<and> live_ok t \<and> held t = {}"
  using assms
proof (induction n arbitrary: threads s)
  case (Suc n)
  obtain th t trace where a: "scheduler_pass threads s = Some (th, t, trace)" "\<forall>p<NPROC. yields p (th p)" "live_ok t" "held t = {}"
    using scheduler_pass_ok [OF Suc.prems] by auto
  then show ?case using Suc.IH [OF a(2-4)] by auto
qed auto


text \<open>A thread that does nothing but yield, from where it is switched to.\<close>

definition yield_thread :: "(unit, 'z kvm_scheme) km" where
  "yield_thread = seq (release LPtable) (\<lambda>_. iterate (\<lambda>_. seq yield (\<lambda>_. ret (Inr ()))) ())"

lemma yield_thread_resumes:
  "(\<lambda>u. oiter (\<lambda>_. seq yield (\<lambda>_. ret (Inr ()))) (obind (release LPtable u) (\<lambda>_. ret (Inr ())))) = yield_thread"
proof
  fix u :: "'a kvm_scheme"
  have "seq yield (\<lambda>_. ret (Inr ())) t \<noteq> Ret (Inr b) v" for b and t v :: "'a kvm_scheme"
    by (cases "LPtable \<in> held t"; cases "curproc t")
      (auto simp: yield_def seq_apply sched_def swtch_def panic_def)
  then have "oiter (\<lambda>_. seq yield (\<lambda>_. ret (Inr ()))) (Ret (Inr ()) t) = iterate (\<lambda>_. seq yield (\<lambda>_. ret (Inr ()))) () t"
    for t :: "'a kvm_scheme" by (rule oiter_Inr)
  then show "oiter (\<lambda>_. seq yield (\<lambda>_. ret (Inr ()))) (obind (release LPtable u) (\<lambda>_. ret (Inr ()))) = yield_thread u"
    by (cases "LPtable \<in> held u") (simp_all add: yield_thread_def seq_apply)
qed

lemma yield_thread_yields: "yields p yield_thread"
proof (coinduction rule: yields.coinduct)
  case yields
  have "\<exists>t k'. yield_thread s = Switch t k' \<and> gives_up p s t \<and> k' = yield_thread" if "switched_to p s" for s :: "'a kvm_scheme"
  proof (intro exI conjI)
    let ?s = "s\<lparr>held := {}\<rparr>"
    have "yield_thread s = Switch (yielded p ?s) (\<lambda>u. oiter (\<lambda>_. seq yield (\<lambda>_. ret (Inr ()))) (obind (release LPtable u) (\<lambda>_. ret (Inr ()))))"
      using that by (simp add: switched_to_def yield_thread_def seq_apply iterate_def yield_apply)
    then show "yield_thread s = Switch (yielded p ?s) yield_thread" by (simp only: yield_thread_resumes)
    show "gives_up p s (yielded p ?s)"
      using that by (auto simp: switched_to_def gives_up_def yielded_def live_ok_def)
  qed simp
  then show ?case by blast
qed


section \<open>Traps\<close>

text \<open>
  C24. A trap never takes a killed process back to user mode, and the clock takes the processor away from a process. Whatever other processes
  and the scheduler do while a trap handler is switched out, when it returns the current process is not a killed one on its way to user mode. A clock interrupt
  in a process that is not killed makes it \<open>RUNNABLE\<close> and switches to the scheduler; when the process is switched to again, the handler returns
  at once unless the process was killed meanwhile, in which case it never returns to user mode.
\<close>

theorem trap_preempts_and_kills:
  fixes s :: "'z ktrap_scheme"
  shows "ensures (\<lambda>_ t. \<nexists>p. curproc t = Some p \<and> p_killed (ptable t p) \<and> load16 (mem t) (tf + TF_cs) AND 3 = DPL_USER) (trap tf s)
    \<and> (load32 (mem s) (tf + TF_trapno) = T_IRQ0 + IRQ_TIMER \<and> held s = {} \<and> cpuid s = Ret c s \<and> curproc s = Some p
         \<and> p_state (ptable s p) = RUNNING \<and> \<not> p_killed (ptable s p) \<longrightarrow>
       (\<exists>k. trap tf s = Switch (yielded p (ticked c s)) k
          \<and> (\<forall>u. held u = {LPtable} \<and> curproc u = Some p \<and> \<not> p_killed (ptable u p) \<longrightarrow> k u = Ret () (u\<lparr>held := {}\<rparr>))
          \<and> (\<forall>u. held u = {LPtable} \<and> curproc u = Some p \<and> p_killed (ptable u p) \<and> load16 (mem u) (tf + TF_cs) AND 3 = DPL_USER
               \<longrightarrow> ensures (\<lambda>_ _. False) (k u))))"
  (is "ensures ?Q _ \<and> (?timer \<longrightarrow> ?preempt)")
proof (intro conjI impI)
  have x: "ensures ?Q (exit_if_killed tf u)" for u
    by (auto simp: exit_if_killed_def seq_apply exit_never_returns split: option.split)
  have k: "ensures ?Q (seq cur_killed (\<lambda>k. if k then exit else ret ()) u)" for u
    by (auto simp: cur_killed_def cur_def seq_apply panic_def exit_never_returns split: option.split)
  show "ensures ?Q (trap tf s)" unfolding trap_def by (rule k | rule x | rule ensures_if | rule ensures_seq)+
next
  assume ?timer
  then have "trap tf s = Switch (yielded p (ticked c s)) (seq (release LPtable) (\<lambda>_. exit_if_killed tf))"
    by (intro timer_trap) auto
  then show ?preempt
    by (auto simp: seq_apply exit_if_killed_def exit_never_returns)
qed

theorem trap_preempts_and_kills_witness:
  "\<exists>k. trap demo_tf demo_trap = Switch (yielded 0 (ticked 0 demo_trap)) k"
  using trap_preempts_and_kills [where tf = demo_tf and s = demo_trap and c = 0 and p = 0] demo_frame
  by (auto simp: demo_trap_sel demo_cpuid demo_procs_def zero_proc_def)

end
