(* ===== verification/Freevm.thy ===== *)
theory Freevm
  imports Copyuvm "HOL-Library.Multiset"
begin

unbundle bit_operations_syntax

text \<open>
  Giving an address space back (\<open>freevm\<close> of \<^verbatim>\<open>vm.c\<close>): every page of it is put on the free list, so what \<open>copyuvm\<close> took
  is there again.
\<close>

section \<open>The pages of an address space\<close>

definition umapped :: "mem \<Rightarrow> u32 \<Rightarrow> u32 \<Rightarrow> bool" where
  "umapped m d a \<longleftrightarrow> vpn a < vpn KERNBASE \<and> pte_of m d a AND PTE_P \<noteq> 0"

text \<open>The directory, the tables and the user pages are different pages, none of them free.\<close>

definition owns :: "'z kmem_scheme \<Rightarrow> u32 \<Rightarrow> u32 list \<Rightarrow> bool" where
  "owns s d xs \<longleftrightarrow> vm_ok s d xs
     \<and> (\<forall>a. umapped (mem s) d a \<longrightarrow> usable_page (kend s) (frame (mem s) d a)
          \<and> frame (mem s) d a \<notin> set xs \<union> insert d (tabs (mem s) d))
     \<and> (\<forall>a b. umapped (mem s) d a \<and> umapped (mem s) d b \<and> frame (mem s) d a = frame (mem s) d b \<longrightarrow> vpn a = vpn b)"

lemma ownsD:
  assumes "owns s d xs"
  shows "vm_ok s d xs" "umapped (mem s) d a \<Longrightarrow> usable_page (kend s) (frame (mem s) d a)"
    "umapped (mem s) d a \<Longrightarrow> frame (mem s) d a \<notin> set xs \<union> insert d (tabs (mem s) d)"
    "umapped (mem s) d a \<Longrightarrow> umapped (mem s) d b \<Longrightarrow> frame (mem s) d a = frame (mem s) d b \<Longrightarrow> vpn a = vpn b"
  using assms unfolding owns_def by blast+

definition frames_below :: "mem \<Rightarrow> u32 \<Rightarrow> nat \<Rightarrow> u32 set" where
  "frames_below m d n = {frame m d a | a. umapped m d a \<and> vpn a < n}"

text \<open>After the user pages below page number \<open>n\<close> have been freed.\<close>

definition freed :: "'z kmem_scheme \<Rightarrow> u32 \<Rightarrow> u32 list \<Rightarrow> nat \<Rightarrow> u32 list \<Rightarrow> 'z kmem_scheme \<Rightarrow> bool" where
  "freed s d xs n ys t \<longleftrightarrow> vm_ok t d ys \<and> tabs (mem t) d = tabs (mem s) d
     \<and> set ys = set xs \<union> frames_below (mem s) d n \<and> t = s\<lparr>mem := mem t, freelist := freelist t\<rparr>
     \<and> (\<forall>a. n \<le> vpn a \<longrightarrow> pte_of (mem t) d a = pte_of (mem s) d a)
     \<and> (\<forall>v. unat v mod 4096 = 0 \<and> v \<notin> frames_below (mem s) d n \<union> insert d (tabs (mem s) d) \<longrightarrow> page_same (mem s) (mem t) v)"

lemma freedD:
  assumes "freed s d xs n ys t"
  shows "vm_ok t d ys" "tabs (mem t) d = tabs (mem s) d" "set ys = set xs \<union> frames_below (mem s) d n"
    "t = s\<lparr>mem := mem t, freelist := freelist t\<rparr>" "n \<le> vpn a \<Longrightarrow> pte_of (mem t) d a = pte_of (mem s) d a"
    "unat v mod 4096 = 0 \<Longrightarrow> v \<notin> frames_below (mem s) d n \<union> insert d (tabs (mem s) d) \<Longrightarrow> page_same (mem s) (mem t) v"
  using assms unfolding freed_def by simp_all

lemma kfree_step:
  fixes t :: "'z kmem_scheme"
  assumes ok: "vm_ok t d ys" and f: "usable_page (kend t) f" "f \<notin> set ys \<union> insert d (tabs (mem t) d)"
  shows "\<exists>u. kfree f t = Ret () u \<and> vm_ok u d (f # ys) \<and> tabs (mem u) d = tabs (mem t) d
    \<and> (\<forall>a. pte_of (mem u) d a = pte_of (mem t) d a) \<and> u = t\<lparr>mem := mem u, freelist := freelist u\<rparr>
    \<and> (\<forall>i<1024. load32 (mem u) (d + 4 * i) = load32 (mem t) (d + 4 * i))
    \<and> (\<forall>v. unat v mod 4096 = 0 \<and> v \<noteq> f \<longrightarrow> page_same (mem t) (mem u) v)"
proof -
  have fl: "free_list t ys" and pd: "pgdir_ok (kend t) (mem t) d" and dj: "insert d (tabs (mem t) d) \<inter> set ys = {}"
    using ok by (auto simp: vm_ok_def)
  define u where "u = t\<lparr>mem := store32 (memset (mem t) f 1 PGSIZE) f (freelist t), freelist := f\<rparr>"
  have k: "kfree f t = Ret () u" using fl f by (simp add: kfree_apply free_list_def u_def)
  have fl': "free_list u (f # ys)" using kfree_free_list [OF fl f(1)] f(2) k by simp
  have same: "page_same (mem t) (mem u) v" if "unat v mod 4096 = 0" "v \<noteq> f" for v
    using that kfree_mem_frame by (intro page_same_fresh [OF f(1)]) (auto simp: u_def)
  have "page_same (mem t) (mem u) v" if "v \<in> insert d (tabs (mem t) d)" for v
    using that f(2) usable_aligned pgdir_okD [OF pd] by (intro same) (auto simp: tabs_def)
  note pg = pgdir_cong [OF pd this]
  have "kend u = kend t" by (simp add: u_def)
  then have "vm_ok u d (f # ys)" using fl' pg(1,2) dj f(2) by (simp add: vm_ok_def)
  moreover have "load32 (mem u) (d + 4 * i) = load32 (mem t) (d + 4 * i)" if "i < 1024" for i
    using same [of d] usable_aligned [OF pgdir_okD(1) [OF pd]] f(2) that by (intro load_ent_same) auto
  ultimately show ?thesis using k pg(2,3) same by (intro exI [of _ u]) (auto simp: u_def)
qed

lemma frames_below_Suc:
  "frames_below m d (Suc (vpn a)) = (if umapped m d a then insert (frame m d a) (frames_below m d (vpn a)) else frames_below m d (vpn a))"
  (is "?l = ?r")
proof -
  have e: "umapped m d b = umapped m d a" "frame m d b = frame m d a" if "vpn b = vpn a" for b
    using pte_of_vpn [OF that] that by (simp_all add: umapped_def)
  have "frames_below m d (Suc (vpn a)) = frames_below m d (vpn a) \<union> {frame m d b | b. umapped m d b \<and> vpn b = vpn a}"
    unfolding frames_below_def less_Suc_eq by blast
  also have "{frame m d b | b. umapped m d b \<and> vpn b = vpn a} = (if umapped m d a then {frame m d a} else {})"
    by (rule set_eqI, cases "umapped m d a"; simp only: if_True if_False; use e in blast)
  finally show ?thesis by simp
qed

text \<open>One round of the loop, at a page whose table exists.\<close>

lemma freed_Suc:
  fixes s t :: "'z kmem_scheme"
  assumes own: "owns s d xs" and ke: "KERNBASE < kend s" and fr: "freed s d xs (vpn a) ys t" and a: "vpn a < vpn KERNBASE"
    and has: "has_tab (mem t) d (PDX a)" and e: "e = load32 (mem t) (tab (mem t) d (PDX a) + 4 * PTX a)"
  shows "\<exists>zs u. freed s d xs (Suc (vpn a)) zs u
    \<and> (if e AND PTE_P \<noteq> 0 then
         let pa = PTE_ADDR e in
         if pa = 0 then panic ''kfree''
         else seq (kfree (P2V pa)) (\<lambda>_. upd_mem (\<lambda>m. store32 m (tab (mem t) d (PDX a) + 4 * PTX a) 0))
       else ret ()) t = Ret () u"
proof -
  note F = freedD [OF fr]
  have e': "e = pte_of (mem t) d a" using has by (simp add: e pte_of_tab)
  then have pe: "e = pte_of (mem s) d a" using F(5) [of a] by simp
  show ?thesis
  proof (cases "e AND PTE_P \<noteq> 0")
    case False
    then have "\<not> umapped (mem s) d a" using pe by (simp add: umapped_def)
    then have "freed s d xs (Suc (vpn a)) ys t" using fr by (simp add: freed_def frames_below_Suc)
    then show ?thesis using False by auto
  next
    case True
    define f where "f = frame (mem s) d a"
    have um: "umapped (mem s) d a" using True pe a by (simp add: umapped_def)
    have fe: "P2V (PTE_ADDR e) = f" by (simp add: f_def frame_def pe)
    have "f \<notin> frames_below (mem s) d (vpn a)"
    proof
      assume "f \<in> frames_below (mem s) d (vpn a)"
      then obtain b where b: "umapped (mem s) d b" "vpn b < vpn a" "f = frame (mem s) d b" by (auto simp: frames_below_def)
      show False using ownsD(4) [OF own um b(1)] b(2,3) by (simp add: f_def)
    qed
    then have f: "usable_page (kend s) f" "f \<notin> set ys \<union> insert d (tabs (mem t) d)"
      using ownsD(2,3) [OF own um] F(2,3) unfolding f_def by auto
    have "PTE_ADDR e \<noteq> 0"
    proof
      assume "PTE_ADDR e = 0"
      then have "f = KERNBASE" using fe by (simp add: P2V_def)
      then show False using f(1) ke by (simp add: usable_page_def not_le [symmetric])
    qed
    have kt: "kend t = kend s" by (subst F(4)) simp
    obtain u where u0: "kfree f t = Ret () u" "vm_ok u d (f # ys)" "tabs (mem u) d = tabs (mem t) d"
      "\<forall>a. pte_of (mem u) d a = pte_of (mem t) d a" "u = t\<lparr>mem := mem u, freelist := freelist u\<rparr>"
      "\<forall>i<1024. load32 (mem u) (d + 4 * i) = load32 (mem t) (d + 4 * i)"
      "\<forall>v. unat v mod 4096 = 0 \<and> v \<noteq> f \<longrightarrow> page_same (mem t) (mem u) v"
      using kfree_step [OF F(1) f(1) [folded kt] f(2)] by (elim exE conjE)
    note u = u0 [rule_format]
    have tb: "tab (mem u) d (PDX a) = tab (mem t) d (PDX a)" "has_tab (mem u) d (PDX a)"
      using u(6) [OF PDX_less] has by (simp_all add: tab_def has_tab_def)
    define w where "w = u\<lparr>mem := store32 (mem u) (tab (mem u) d (PDX a) + 4 * PTX a) 0\<rparr>"
    note W = store_pte_step [OF u(2) tb(2) w_def]
    have ww: "vm_ok w d (f # ys)" "tabs (mem w) d = tabs (mem u) d"
      "\<And>v. unat v mod 4096 = 0 \<Longrightarrow> v \<notin> insert d (tabs (mem u) d) \<Longrightarrow> page_same (mem u) (mem w) v"
      using W(1) by (auto simp: vm_step_def)
    have "freed s d xs (Suc (vpn a)) (f # ys) w"
      unfolding freed_def
    proof (intro conjI allI impI)
      show "set (f # ys) = set xs \<union> frames_below (mem s) d (Suc (vpn a))" using F(3) um by (auto simp: frames_below_Suc f_def)
      have "w = t\<lparr>mem := mem w, freelist := freelist w\<rparr>" unfolding w_def by (subst u(5)) simp
      also have "\<dots> = s\<lparr>mem := mem w, freelist := freelist w\<rparr>" by (subst F(4)) simp
      finally show "w = s\<lparr>mem := mem w, freelist := freelist w\<rparr>" .
      show "pte_of (mem w) d b = pte_of (mem s) d b" if "Suc (vpn a) \<le> vpn b" for b
        using that W(2) [of b] u(4) F(5) [of b] by simp
      show "page_same (mem s) (mem w) v"
        if "unat v mod 4096 = 0 \<and> v \<notin> frames_below (mem s) d (Suc (vpn a)) \<union> insert d (tabs (mem s) d)" for v
        using F(6) [of v] u(7) [of v, OF conjI] ww(3) [of v] that u(3) F(2) um by (auto simp: page_same_def frames_below_Suc f_def)
    qed (use ww u(3) F(2) in auto)
    moreover have "seq (kfree (P2V (PTE_ADDR e))) (\<lambda>_. upd_mem (\<lambda>m. store32 m (tab (mem t) d (PDX a) + 4 * PTX a) 0)) t = Ret () w"
      using u(1) fe tb(1) by (simp add: upd_mem_def w_def)
    ultimately show ?thesis using True \<open>PTE_ADDR e \<noteq> 0\<close> by (auto simp: Let_def)
  qed
qed

text \<open>Where there is no table the loop goes on at the next entry of the directory.\<close>

lemma vpn_PDX: "vpn a div 1024 = unat (PDX a)"
  by (simp add: vpn_def unat_PDX div_mult2_eq [symmetric])

lemma freed_skip:
  assumes fr: "freed s d xs (vpn a) ys t" and no: "\<not> has_tab (mem t) d (PDX a)"
  shows "freed s d xs (1024 * (unat (PDX a) + 1)) ys t" "vpn a < 1024 * (unat (PDX a) + 1)"
proof -
  note F = freedD [OF fr]
  show lt: "vpn a < 1024 * (unat (PDX a) + 1)" using vpn_PDX [of a] by simp
  have z: "\<not> umapped (mem s) d b" if "vpn a \<le> vpn b" "vpn b < 1024 * (unat (PDX a) + 1)" for b
  proof -
    have "vpn b div 1024 < unat (PDX a) + 1" by (rule less_mult_imp_div_less) (use that(2) in \<open>simp add: mult.commute\<close>)
    moreover have "vpn a div 1024 \<le> vpn b div 1024" using that(1) by (rule div_le_mono)
    ultimately have "PDX b = PDX a" by (simp add: vpn_PDX word_unat_eq_iff)
    then have "pte_of (mem t) d b = 0" using no by (simp add: pte_of_tab)
    then show ?thesis using F(5) [OF that(1)] by (simp add: umapped_def)
  qed
  have "umapped (mem s) d b \<and> vpn b < 1024 * (unat (PDX a) + 1) \<longleftrightarrow> umapped (mem s) d b \<and> vpn b < vpn a" for b
    using z [of b] lt by (cases "vpn a \<le> vpn b") auto
  then have "frames_below (mem s) d (1024 * (unat (PDX a) + 1)) = frames_below (mem s) d (vpn a)"
    by (simp only: frames_below_def)
  then show "freed s d xs (1024 * (unat (PDX a) + 1)) ys t" using fr lt by (simp add: freed_def)
qed

lemma next_dir:
  shows "PGADDR (PDX a + 1) 0 0 = of_nat (4096 * (1024 * (unat (PDX a) + 1)))"
proof -
  have "PGADDR (PDX a + 1) 0 0 = (PDX a + 1) * 4194304" by (simp add: PGADDR_def push_bit_eq_mult)
  also have "\<dots> = of_nat (4096 * (1024 * (unat (PDX a) + 1)))" by simp
  finally show ?thesis .
qed

lemma dealloc_loop_table:
  assumes "a < oldsz" "walkpgdir pgdir a False t = Ret pte t" "pte \<noteq> 0" "a < a + PGSIZE"
    and run: "(if load32 (mem t) pte AND PTE_P \<noteq> 0 then
         let pa = PTE_ADDR (load32 (mem t) pte) in
         if pa = 0 then panic ''kfree'' else seq (kfree (P2V pa)) (\<lambda>_. upd_mem (\<lambda>m. store32 m pte 0))
        else ret ()) t = Ret () u"
  shows "dealloc_loop pgdir a oldsz t = dealloc_loop pgdir (a + PGSIZE) oldsz u"
  apply (subst dealloc_loop.simps)
  apply (simp only: assms(1) if_True)
  apply (rule trans [OF seq_Ret], rule assms(2))
  apply (simp only: assms(3) if_False)
  apply (rule trans [OF seq_Ret], rule gets_apply)
  apply (rule trans [OF seq_Ret], rule run)
  apply (simp only: assms(4) Let_def if_True)
  done

lemma dealloc_loop_ok:
  fixes s t :: "'z kmem_scheme"
  assumes own: "owns s d xs" and ke: "KERNBASE < kend s" and "freed s d xs n ys t" and "n \<le> 524288"
  shows "returns (dealloc_loop d (of_nat (4096 * n)) KERNBASE t) (\<lambda>_ u. \<exists>zs. freed s d xs 524288 zs u)"
  using assms(3,4)
proof (induction "524288 - n" arbitrary: n ys t rule: less_induct)
  case less
  let ?a = "of_nat (4096 * n) :: u32"
  have un: "unat ?a = 4096 * n" using less.prems(2) by (intro page_start) simp
  then have va: "vpn ?a = n" by (simp add: vpn_def)
  have kb: "unat KERNBASE = 4096 * 524288" "vpn KERNBASE = 524288" by (simp_all add: KERNBASE_def vpn_def)
  show ?case
  proof (cases "n = 524288")
    case True
    then have "\<not> ?a < KERNBASE" using un kb by (simp add: word_less_nat_alt)
    then show ?thesis using less.prems True by (subst dealloc_loop.simps) (auto simp: returns_def)
  next
    case False
    then have n: "n < 524288" using less.prems(2) by simp
    then have lt: "?a < KERNBASE" unfolding word_less_nat_alt un kb by simp
    show ?thesis
    proof (cases "has_tab (mem t) d (PDX ?a)")
      case no: False
      have pd: "unat (PDX ?a) < 512" using n un by (simp add: unat_PDX)
      let ?n = "1024 * (unat (PDX ?a) + 1)"
      note sk = freed_skip [of s d xs ?a ys t, unfolded va, OF less.prems(1) no]
      have un': "unat (of_nat (4096 * ?n) :: u32) = 4096 * ?n" using pd by (intro page_start) simp
      define b where "b = PGADDR (PDX ?a + 1) 0 0"
      have b: "b = of_nat (4096 * ?n)" unfolding b_def by (rule next_dir)
      have "?a < b" unfolding b word_less_nat_alt un un' using sk(2) by simp
      then have "dealloc_loop d ?a KERNBASE t = dealloc_loop d b KERNBASE t"
        using no lt by (subst dealloc_loop.simps)
          (simp add: walkpgdir_def has_tab_def seq_apply Let_def b_def [symmetric] del: of_nat_mult of_nat_add)
      moreover have "?n \<le> 524288" using pd by simp
      ultimately show ?thesis using less.hyps [OF _ sk(1), folded b] sk(2) n by simp
    next
      case has: True
      have ut: "usable_page (kend t) (tab (mem t) d (PDX ?a))"
        using pgdir_okD(2) [OF _ PDX_less has] freedD(1) [OF less.prems(1)] by (auto simp: vm_ok_def)
      then have nz: "tab (mem t) d (PDX ?a) + 4 * PTX ?a \<noteq> 0"
        using unat_ent [OF usable_aligned [OF ut] PTX_less, of ?a] usable_nonzero [OF ut]
        by (metis add_eq_0_iff_both_eq_0 unat_0 unat_eq_zero)
      have w: "walkpgdir d ?a False t = Ret (tab (mem t) d (PDX ?a) + 4 * PTX ?a) t"
        using has by (simp add: walkpgdir_def has_tab_def tab_def seq_apply Let_def)
      obtain zs u where u: "freed s d xs (Suc n) zs u" and run: "(if load32 (mem t) (tab (mem t) d (PDX ?a) + 4 * PTX ?a) AND PTE_P \<noteq> 0 then
         let pa = PTE_ADDR (load32 (mem t) (tab (mem t) d (PDX ?a) + 4 * PTX ?a)) in
         if pa = 0 then panic ''kfree''
         else seq (kfree (P2V pa)) (\<lambda>_. upd_mem (\<lambda>m. store32 m (tab (mem t) d (PDX ?a) + 4 * PTX ?a) 0))
        else ret ()) t = Ret () u"
        using freed_Suc [OF own ke _ _ has refl, unfolded va kb, OF less.prems(1) n] by blast
      have nx: "?a + PGSIZE = of_nat (4096 * Suc n)" by (simp add: PGSIZE_def)
      have un': "unat (of_nat (4096 * Suc n) :: u32) = 4096 * Suc n" using n by (intro page_start) simp
      have "?a < ?a + PGSIZE" unfolding nx word_less_nat_alt un un' by simp
      then have "dealloc_loop d ?a KERNBASE t = dealloc_loop d (of_nat (4096 * Suc n)) KERNBASE u"
        unfolding nx [symmetric] by (rule dealloc_loop_table [OF lt w nz _ run])
      then show ?thesis using less.hyps [OF _ u] n by simp
    qed
  qed
qed

section \<open>The tables and the directory\<close>

text \<open>Pages put on the free list one after the other.\<close>

definition gave :: "'z kmem_scheme \<Rightarrow> u32 list \<Rightarrow> u32 set \<Rightarrow> 'z kmem_scheme \<Rightarrow> bool" where
  "gave s xs P t \<longleftrightarrow> (\<exists>ys. free_list t ys \<and> set ys = set xs \<union> P) \<and> t = s\<lparr>mem := mem t, freelist := freelist t\<rparr>
     \<and> (\<forall>v. unat v mod 4096 = 0 \<and> v \<notin> P \<longrightarrow> page_same (mem s) (mem t) v)"

lemma gave_same: "gave s xs P t \<Longrightarrow> unat v mod 4096 = 0 \<Longrightarrow> v \<notin> P \<Longrightarrow> page_same (mem s) (mem t) v"
  by (simp add: gave_def)

lemma gave_refl: "free_list s xs \<Longrightarrow> gave s xs {} s"
  by (auto simp: gave_def)

lemma record_trans:
  fixes s t u :: "'z kmem_scheme"
  assumes "t = s\<lparr>mem := mem t, freelist := freelist t\<rparr>"
  shows "u = t\<lparr>mem := mem u, freelist := freelist u\<rparr> \<longleftrightarrow> u = s\<lparr>mem := mem u, freelist := freelist u\<rparr>"
  by (subst assms) simp

lemma gave_trans:
  assumes "gave s xs P t" "gave t ys Q u" "set ys = set xs \<union> P"
  shows "gave s xs (P \<union> Q) u"
proof -
  have "t = s\<lparr>mem := mem t, freelist := freelist t\<rparr>" "u = t\<lparr>mem := mem u, freelist := freelist u\<rparr>"
    using assms by (auto simp: gave_def)
  then have "u = s\<lparr>mem := mem u, freelist := freelist u\<rparr>" using record_trans by blast
  then show ?thesis using assms by (auto simp: gave_def page_same_def)
qed

lemma kfree_gave:
  fixes s :: "'z kmem_scheme"
  assumes fl: "free_list s xs" and f: "usable_page (kend s) f" "f \<notin> set xs"
  shows "returns (kfree f s) (\<lambda>_ t. gave s xs {f} t \<and> free_list t (f # xs))"
proof -
  define t where "t = s\<lparr>mem := store32 (memset (mem s) f 1 PGSIZE) f (freelist s), freelist := f\<rparr>"
  have k: "kfree f s = Ret () t" using fl f by (simp add: kfree_apply free_list_def t_def)
  have fl': "free_list t (f # xs)" using kfree_free_list [OF fl f] k by simp
  have "page_same (mem s) (mem t) v" if "unat v mod 4096 = 0" "v \<noteq> f" for v
    using that kfree_mem_frame by (intro page_same_fresh [OF f(1)]) (auto simp: t_def)
  then have "gave s xs {f} t"
    unfolding gave_def using fl' by (intro conjI exI [of _ "f # xs"]) (auto simp: t_def)
  then show ?thesis using k fl' by simp
qed

definition free_table :: "u32 \<Rightarrow> nat \<Rightarrow> (unit, 'z kmem_scheme) km" where
  "free_table d i = seq (gets (\<lambda>s. load32 (mem s) (d + 4 * of_nat i))) (\<lambda>e.
     if e AND PTE_P \<noteq> 0 then kfree (P2V (PTE_ADDR e)) else ret ())"

lemma free_tables:
  fixes s :: "'z kmem_scheme"
  assumes "free_list s xs" "pgdir_ok (kend s) (mem s) d" "set js \<subseteq> {..<1024}" "distinct js"
    and "\<forall>i\<in>set js. has_tab (mem s) d (of_nat i) \<longrightarrow> tab (mem s) d (of_nat i) \<notin> set xs"
  shows "returns (for_each (free_table d) js s)
    (\<lambda>_ t. gave s xs {tab (mem s) d (of_nat i) | i. i \<in> set js \<and> has_tab (mem s) d (of_nat i)} t)"
  using assms
proof (induction js arbitrary: s xs)
  case Nil
  then show ?case by (auto simp: gave_refl)
next
  case (Cons j js)
  have j: "of_nat j < (1024 :: u32)" using Cons.prems(3) by (simp add: word_less_nat_alt unat_of_nat_small)
  show ?case
  proof (cases "has_tab (mem s) d (of_nat j)")
    case False
    then have "free_table d j s = Ret () s" by (simp add: free_table_def seq_apply has_tab_def)
    moreover have "{tab (mem s) d (of_nat i) | i. i \<in> set (j # js) \<and> has_tab (mem s) d (of_nat i)}
      = {tab (mem s) d (of_nat i) | i. i \<in> set js \<and> has_tab (mem s) d (of_nat i)}" using False by auto
    ultimately show ?thesis using Cons.IH [OF Cons.prems(1,2)] Cons.prems(3-5) by simp
  next
    case True
    let ?f = "tab (mem s) d (of_nat j)"
    have f: "usable_page (kend s) ?f" "?f \<notin> set xs" "?f \<noteq> d"
      using pgdir_okD [OF Cons.prems(2)] j True Cons.prems(5) by auto
    obtain t where t: "kfree ?f s = Ret () t" "gave s xs {?f} t" "free_list t (?f # xs)"
      using kfree_gave [OF Cons.prems(1) f(1,2)] by (auto elim!: returnsE)
    have l: "load32 (mem t) (d + 4 * i) = load32 (mem s) (d + 4 * i)" if "i < 1024" for i
      using t(2) f(3) that usable_aligned [OF pgdir_okD(1) [OF Cons.prems(2)]]
      by (intro load_ent_same) (auto simp: gave_def)
    have h: "has_tab (mem t) d i = has_tab (mem s) d i" "tab (mem t) d i = tab (mem s) d i" if "i < 1024" for i
      using l [OF that] by (simp_all add: has_tab_def tab_def)
    have small: "of_nat i < (1024 :: u32)" if "i \<in> set js" for i
      using that Cons.prems(3) by (auto simp: word_less_nat_alt unat_of_nat_small)
    have hs: "has_tab (mem t) d (of_nat i) = has_tab (mem s) d (of_nat i)" "tab (mem t) d (of_nat i) = tab (mem s) d (of_nat i)"
      if "i \<in> set js" for i using h [OF small [OF that]] .
    have te: "t = s\<lparr>mem := mem t, freelist := freelist t\<rparr>" using t(2) by (simp add: gave_def)
    have "kend t = kend s" by (subst te) simp
    then have pd: "pgdir_ok (kend t) (mem t) d" using Cons.prems(2) h by (simp add: pgdir_ok_def)
    have "tab (mem t) d (of_nat i) \<notin> set (?f # xs)" if i: "i \<in> set js" "has_tab (mem t) d (of_nat i)" for i
    proof -
      have "of_nat i \<noteq> (of_nat j :: u32)"
      proof
        assume "of_nat i = (of_nat j :: u32)"
        then have "unat (of_nat i :: u32) = unat (of_nat j :: u32)" by simp
        moreover have "i < 1024" "j < 1024" "i \<noteq> j" using i(1) Cons.prems(3,4) by auto
        ultimately show False by (simp add: unat_of_nat_small)
      qed
      then show ?thesis
        using pgdir_okD(4) [OF Cons.prems(2) small [OF i(1)] j _ True] hs [OF i(1)] i Cons.prems(5) by auto
    qed
    then have "returns (for_each (free_table d) js t)
      (\<lambda>_ u. gave t (?f # xs) {tab (mem t) d (of_nat i) | i. i \<in> set js \<and> has_tab (mem t) d (of_nat i)} u)"
      using Cons.prems(3,4) by (intro Cons.IH t(3) pd) auto
    moreover have "{tab (mem t) d (of_nat i) | i. i \<in> set js \<and> has_tab (mem t) d (of_nat i)}
      = {tab (mem s) d (of_nat i) | i. i \<in> set js \<and> has_tab (mem s) d (of_nat i)}" (is "_ = ?T")
      by (intro Collect_cong ex_cong1) (use hs in auto)
    ultimately have "returns (for_each (free_table d) js t) (\<lambda>_ u. gave t (?f # xs) ?T u)" by simp
    then have "returns (for_each (free_table d) js t) (\<lambda>_ u. gave s xs ({?f} \<union> ?T) u)"
      by (rule returns_mono) (erule gave_trans [OF t(2)], simp)
    moreover have "{tab (mem s) d (of_nat i) | i. i \<in> set (j # js) \<and> has_tab (mem s) d (of_nat i)} = {?f} \<union> ?T" using True by auto
    moreover have "free_table d j s = Ret () t" using True t(1) by (simp add: free_table_def seq_apply has_tab_def tab_def)
    ultimately show ?thesis by simp
  qed
qed

lemma tabs_nat: "{tab m d (of_nat i) | i. i \<in> set [0 ..< NPDENTRIES] \<and> has_tab m d (of_nat i)} = tabs m d"
proof (intro set_eqI iffI)
  fix x
  assume "x \<in> tabs m d"
  then obtain i where i: "i < 1024" "has_tab m d i" "x = tab m d i" by (auto simp: tabs_def)
  then have "unat i \<in> set [0 ..< NPDENTRIES]" by (simp add: word_less_nat_alt NPDENTRIES_def)
  then show "x \<in> {tab m d (of_nat i) | i. i \<in> set [0 ..< NPDENTRIES] \<and> has_tab m d (of_nat i)}"
    using i by (intro CollectI exI [of _ "unat i"]) simp
next
  fix x
  assume "x \<in> {tab m d (of_nat i) | i. i \<in> set [0 ..< NPDENTRIES] \<and> has_tab m d (of_nat i)}"
  then obtain i where i: "i < 1024" "has_tab m d (of_nat i)" "x = tab m d (of_nat i)" by (auto simp: NPDENTRIES_def)
  then have "of_nat i < (1024 :: u32)" by (simp add: word_less_nat_alt unat_of_nat_small)
  then show "x \<in> tabs m d" using i by (auto simp: tabs_def)
qed

lemma freevm_ok:
  fixes s :: "'z kmem_scheme"
  assumes own: "owns s d xs" and ke: "KERNBASE < kend s"
  shows "returns (freevm d s) (\<lambda>_ t. gave s xs (frames_below (mem s) d (vpn KERNBASE) \<union> tabs (mem s) d \<union> {d}) t)"
proof -
  have ok: "vm_ok s d xs" by (rule ownsD(1) [OF own])
  have kb: "vpn KERNBASE = 524288" by (simp add: vpn_def KERNBASE_def)
  have "freed s d xs 0 xs s" using ok by (auto simp: freed_def frames_below_def)
  from dealloc_loop_ok [OF own ke this] obtain t ys where t: "dealloc_loop d (of_nat (4096 * 0)) KERNBASE s = Ret () t"
    and fr: "freed s d xs 524288 ys t" by (auto elim!: returnsE)
  note F = freedD [OF fr]
  have pd: "pgdir_ok (kend t) (mem t) d" and fl: "free_list t ys" and dj: "insert d (tabs (mem t) d) \<inter> set ys = {}"
    using F(1) by (simp_all add: vm_ok_def)
  have d0: "d \<noteq> 0" by (rule usable_nonzero [OF pgdir_okD(1) [OF pd]])
  have "returns (for_each (free_table d) [0 ..< NPDENTRIES] t) (\<lambda>_ u. gave t ys (tabs (mem t) d) u)"
    unfolding tabs_nat [symmetric]
  proof (rule free_tables [OF fl pd])
    have "tab (mem t) d (of_nat i) \<in> tabs (mem t) d" if "i \<in> set [0 ..< NPDENTRIES]" "has_tab (mem t) d (of_nat i)" for i
      using that tabs_nat [of "mem t" d] by blast
    then show "\<forall>i\<in>set [0 ..< NPDENTRIES]. has_tab (mem t) d (of_nat i) \<longrightarrow> tab (mem t) d (of_nat i) \<notin> set ys" using dj by blast
  qed (auto simp: NPDENTRIES_def)
  then obtain u where u: "for_each (free_table d) [0 ..< NPDENTRIES] t = Ret () u" "gave t ys (tabs (mem t) d) u"
    by (auto elim!: returnsE)
  then obtain zs where zs: "free_list u zs" "set zs = set ys \<union> tabs (mem t) d" by (auto simp: gave_def)
  have ue: "u = t\<lparr>mem := mem u, freelist := freelist u\<rparr>" using u(2) by (simp add: gave_def)
  have "d \<notin> tabs (mem t) d"
  proof
    assume "d \<in> tabs (mem t) d"
    then obtain i where "i < 1024" "has_tab (mem t) d i" "tab (mem t) d i = d" unfolding tabs_def by force
    then show False using pgdir_okD(3) [OF pd] by metis
  qed
  then have dn: "d \<notin> set zs" using zs(2) dj by auto
  have "kend u = kend t" by (subst ue) simp
  then obtain v where v: "kfree d u = Ret () v" "gave u zs {d} v"
    using kfree_gave [OF zs(1) _ dn] pgdir_okD(1) [OF pd] by (auto elim!: returnsE)
  have "freevm d s = Ret () v"
    using d0 t u(1) v(1) unfolding free_table_def by (simp add: freevm_def deallocuvm_def PGROUNDUP_def KERNBASE_def PGSIZE_def seq_apply)
  moreover have "gave t ys (tabs (mem t) d \<union> {d}) v" by (rule gave_trans [OF u(2) v(2) zs(2)])
  then have "gave s xs (frames_below (mem s) d 524288 \<union> tabs (mem s) d \<union> {d}) v"
    using F(2,3,6) record_trans [OF F(4)] by (auto simp: gave_def page_same_def)
  ultimately show ?thesis by (simp add: kb)
qed

section \<open>Copying and freeing\<close>

lemma copied_mapped:
  assumes c: "copied s p d xs n ys t" and n: "n \<le> vpn KERNBASE"
  shows "umapped (mem t) d a \<longleftrightarrow> vpn a < n"
proof (cases "vpn a < n")
  case True
  then have "pte_of (mem t) d a AND PTE_P \<noteq> 0"
    using copiedD(8) [OF c True] pte_pack(2) [OF aligned_V2P [OF frame_aligned] PTE_FLAGS_less] by metis
  then show ?thesis using True n by (simp add: umapped_def)
next
  case False
  then show ?thesis using copiedD(11) [OF c, of a] by (auto simp: umapped_def)
qed

lemma copied_owns:
  assumes c: "copied s p d xs n ys t" and n: "n \<le> vpn KERNBASE" and fl: "free_list s (d # xs)"
  shows "owns t d ys"
proof -
  note C = copiedD [OF c] and m = copied_mapped [OF c n]
  have "kend t = kend s" by (subst C(3)) simp
  then have "usable_page (kend t) (frame (mem t) d a)" "frame (mem t) d a \<noteq> d" if "vpn a < n" for a
    using C(6) [OF that] fl by (auto simp: free_list_def)
  then show ?thesis using C(1) C(6,7) C(10) unfolding owns_def m by auto
qed

lemma copied_frames:
  assumes c: "copied s p d xs n ys t" and n: "n \<le> vpn KERNBASE"
  shows "card (frames_below (mem t) d (vpn KERNBASE)) = n" "finite (frames_below (mem t) d (vpn KERNBASE))"
proof -
  note C = copiedD [OF c] and m = copied_mapped [OF c n]
  have kb: "vpn KERNBASE = 524288" by (simp add: vpn_def KERNBASE_def)
  let ?a = "\<lambda>k. of_nat (4096 * k) :: u32"
  have v: "vpn (?a k) = k" if "k < n" for k
  proof -
    have "unat (?a k) = 4096 * k" using that n kb by (intro page_start) simp
    then show ?thesis by (simp add: vpn_def)
  qed
  have eq: "frames_below (mem t) d (vpn KERNBASE) = (\<lambda>k. frame (mem t) d (?a k)) ` {..<n}"
  proof (intro set_eqI iffI)
    fix x
    assume "x \<in> frames_below (mem t) d (vpn KERNBASE)"
    then obtain b where b: "vpn b < n" "x = frame (mem t) d b" unfolding frames_below_def m by auto
    then have "x = frame (mem t) d (?a (vpn b))" using pte_of_vpn(2) [of b "?a (vpn b)"] v by simp
    then show "x \<in> (\<lambda>k. frame (mem t) d (?a k)) ` {..<n}" using b(1) by blast
  next
    fix x
    assume "x \<in> (\<lambda>k. frame (mem t) d (?a k)) ` {..<n}"
    then show "x \<in> frames_below (mem t) d (vpn KERNBASE)" unfolding frames_below_def m using v n by force
  qed
  have "inj_on (\<lambda>k. frame (mem t) d (?a k)) {..<n}"
    by (rule inj_onI) (metis C(10) v lessThan_iff)
  then show "card (frames_below (mem t) d (vpn KERNBASE)) = n" unfolding eq by (simp add: card_image)
  show "finite (frames_below (mem t) d (vpn KERNBASE))" unfolding eq by simp
qed

lemma copied_all_pages:
  assumes c: "copied s p d xs n ys t" and n: "n \<le> vpn KERNBASE" and di: "distinct xs"
  shows "set ys \<union> (frames_below (mem t) d (vpn KERNBASE) \<union> tabs (mem t) d) = set xs"
proof -
  note C = copiedD [OF c] and m = copied_mapped [OF c n] and fr = copied_frames [OF c n]
  let ?F = "frames_below (mem t) d (vpn KERNBASE)" and ?T = "tabs (mem t) d"
  have F: "?F \<subseteq> set xs - set ys" "?F \<inter> ?T = {}" unfolding frames_below_def m using C(6,7) by auto
  have Y: "set ys \<subseteq> set xs" "distinct ys" using set_mono_suffix [OF C(2)] vm_ok_distinct [OF C(1)] by auto
  have T: "?T \<subseteq> set xs" "?T \<inter> set ys = {}" using C(1,12) by (auto simp: vm_ok_def)
  have "card (set ys \<union> (?F \<union> ?T)) = card (set ys) + card (?F \<union> ?T)"
    using F T fr(2) finite_tabs(1) [of "mem t" d] by (intro card_Un_disjoint) auto
  also have "card (?F \<union> ?T) = n + card ?T"
    using F(2) fr finite_tabs(1) [of "mem t" d] by (simp add: card_Un_disjoint)
  finally have "card (set xs) \<le> card (set ys \<union> (?F \<union> ?T))"
    using C(4) Y(2) di by (simp add: distinct_card)
  then show ?thesis using F(1) Y(1) T(1) by (intro card_seteq) auto
qed

text \<open>
  C15. No page is lost: after \<open>copyuvm\<close> has made a copy of an address space and \<open>freevm\<close> has freed the copy, the free list holds each page it
  held before exactly once and no other, and no page outside it has changed.
\<close>

theorem copyuvm_freevm_restores:
  fixes s :: "'z kvm_scheme"
  assumes "free_list s (d # xs)" and "kernel_layout (kdata s) (gpu s)" and "user_ok s p sz" and "sz \<le> KERNBASE"
    and "space (mem s) p sz \<inter> set (d # xs) = {}" and "length xs > 1025 + (unat sz + 4095) div 4096" and "KERNBASE < kend s"
  shows "returns (seq (copyuvm p sz) freevm s) (\<lambda>_ t. (\<exists>ys. free_list t ys \<and> mset ys = mset (d # xs))
    \<and> (\<forall>v. unat v mod 4096 = 0 \<and> v \<notin> set (d # xs) \<longrightarrow> page_same (mem s) (mem t) v))"
proof -
  let ?n = "(unat sz + 4095) div 4096"
  have "unat sz \<le> 4096 * 524288" using assms(4) by (simp add: word_le_nat_alt KERNBASE_def)
  then have "\<not> 524288 < ?n" unfolding less_pages by simp
  then have n: "?n \<le> vpn KERNBASE" by (simp add: vpn_def KERNBASE_def)
  obtain t ys where k: "copyuvm p sz s = Ret d t" and c: "copied s p d xs ?n ys t"
    using copyuvm_ok [OF assms(1-6)] by (auto elim!: returnsE)
  note C = copiedD [OF c]
  have "kend t = kend s" by (subst C(3)) simp
  then obtain u where u: "freevm d t = Ret () u"
    and g: "gave t ys (frames_below (mem t) d (vpn KERNBASE) \<union> tabs (mem t) d \<union> {d}) u"
    using freevm_ok [OF copied_owns [OF c n assms(1)]] assms(7) by (auto elim!: returnsE)
  have di: "distinct (d # xs)" using assms(1) by (simp add: free_list_def)
  then have all: "set ys \<union> (frames_below (mem t) d (vpn KERNBASE) \<union> tabs (mem t) d) = set xs"
    using copied_all_pages [OF c n] by simp
  then obtain zs where zs: "free_list u zs" "set zs = set (d # xs)" using g by (auto simp: gave_def)
  then have "mset zs = mset (d # xs)" using di by (metis free_list_def set_eq_iff_mset_eq_distinct)
  moreover have "page_same (mem s) (mem u) v" if "unat v mod 4096 = 0 \<and> v \<notin> set (d # xs)" for v
  proof -
    have "page_same (mem t) (mem u) v" by (rule gave_same [OF g]) (use that all in auto)
    then show ?thesis using C(5) [of v] that by (simp add: page_same_def)
  qed
  ultimately show ?thesis using k u zs(1) by auto
qed

theorem copyuvm_freevm_restores_witness:
  "\<exists>t. seq (copyuvm 0x80300000 4096) freevm demo_vm = Ret () t \<and> (\<exists>ys. free_list t ys \<and> mset ys = mset demo_pages)"
proof -
  have "space (mem demo_vm) 0x80300000 4096 \<inter> set (0x80400000 # tl demo_pages) = {}"
    using demo_user_ok(2) demo_pages_ok(3) by metis
  then have "returns (seq (copyuvm 0x80300000 4096) freevm demo_vm)
      (\<lambda>_ t. (\<exists>ys. free_list t ys \<and> mset ys = mset (0x80400000 # tl demo_pages))
        \<and> (\<forall>v. unat v mod 4096 = 0 \<and> v \<notin> set (0x80400000 # tl demo_pages) \<longrightarrow> page_same (mem demo_vm) (mem t) v))"
    using demo_room by (intro copyuvm_freevm_restores [OF demo_free demo_layout demo_user_ok(1)]) (auto simp: KERNBASE_def demo_vm_sel)
  then show ?thesis unfolding demo_pages_ok(3) [symmetric] by (auto elim!: returnsE)
qed

end
