(* ===== verification/Waiting.thy ===== *)
theory Waiting
  imports Freevm Demo
begin

unbundle bit_operations_syntax

text \<open>
  The end of a process (\<open>wait\<close> and \<open>kill\<close> of \<^verbatim>\<open>proc.c\<close>).
\<close>

section \<open>Reaping a zombie\<close>

text \<open>The pages of a process that has ended: kernel stack, user pages, page tables and directory.\<close>

definition proc_pages :: "'z kmem_scheme \<Rightarrow> nat \<Rightarrow> u32 set" where
  "proc_pages s c = (let x = ptable s c in
     {p_kstack x} \<union> (frames_below (mem s) (p_pgdir x) (vpn KERNBASE) \<union> tabs (mem s) (p_pgdir x) \<union> {p_pgdir x}))"

definition reapable :: "'z kmem_scheme \<Rightarrow> nat \<Rightarrow> u32 list \<Rightarrow> bool" where
  "reapable s c xs \<longleftrightarrow> owns s (p_pgdir (ptable s c)) xs \<and> KERNBASE < kend s \<and> usable_page (kend s) (p_kstack (ptable s c))
     \<and> p_kstack (ptable s c) \<notin> set xs \<union> (frames_below (mem s) (p_pgdir (ptable s c)) (vpn KERNBASE)
          \<union> tabs (mem s) (p_pgdir (ptable s c)) \<union> {p_pgdir (ptable s c)})"

text \<open>The entry of a reaped process.\<close>

definition unused_entry :: "proc \<Rightarrow> proc" where
  "unused_entry x = x\<lparr>p_kstack := 0, p_pid := 0, p_parent := None, p_name := (p_name x)[0 := 0], p_killed := False, p_state := UNUSED\<rparr>"

lemma owns_cong:
  fixes s t :: "'z kmem_scheme"
  assumes own: "owns s d xs" and k: "gave s xs {f} t" "free_list t (f # xs)"
    and f: "f \<notin> frames_below (mem s) d (vpn KERNBASE) \<union> tabs (mem s) d \<union> {d}"
  shows "owns t d (f # xs)" "frames_below (mem t) d n = frames_below (mem s) d n" "tabs (mem t) d = tabs (mem s) d"
proof -
  have pd: "pgdir_ok (kend s) (mem s) d" using ownsD(1) [OF own] by (simp add: vm_ok_def)
  have te: "t = s\<lparr>mem := mem t, freelist := freelist t\<rparr>" using k(1) by (simp add: gave_def)
  have ke: "kend t = kend s" by (subst te) simp
  have "page_same (mem s) (mem t) v" if "v \<in> insert d (tabs (mem s) d)" for v
    using that f usable_aligned pgdir_okD [OF pd] by (intro gave_same [OF k(1)]) (auto simp: tabs_def)
  note pg = pgdir_cong [OF pd this]
  show tb: "tabs (mem t) d = tabs (mem s) d" by (rule pg(2))
  have fr: "frame (mem t) d a = frame (mem s) d a" "umapped (mem t) d a = umapped (mem s) d a" for a
    using pg(3) by (simp_all add: frame_def umapped_def)
  then show "frames_below (mem t) d n = frames_below (mem s) d n" by (simp add: frames_below_def)
  have "frame (mem s) d a \<noteq> f" if "umapped (mem s) d a" for a
    using f that by (auto simp: frames_below_def umapped_def)
  moreover have "vm_ok t d (f # xs)" using ownsD(1) [OF own] pg(1) tb ke k(2) f by (auto simp: vm_ok_def)
  ultimately show "owns t d (f # xs)" using own unfolding owns_def fr tb ke by auto
qed

lemma owns_ptable: "owns (s\<lparr>ptable := pt\<rparr>) d xs = owns s d xs"
  by (simp add: owns_def vm_ok_def free_list_def)

lemma reap_ok:
  fixes s :: "'z kproc_scheme"
  assumes r: "reapable s c xs" and h: "held s = {LPtable}"
  shows "returns (reap c s) (\<lambda>r t. r = sint (p_pid (ptable s c)) \<and> held t = {} \<and> curproc t = curproc s
    \<and> ptable t = (ptable s)(c := unused_entry (ptable s c))
    \<and> (\<exists>ys. free_list t ys \<and> set ys = set xs \<union> proc_pages s c))"
proof -
  let ?x = "ptable s c" let ?d = "p_pgdir ?x" and ?k = "p_kstack ?x"
  have own: "owns s ?d xs" and ke: "KERNBASE < kend s" and k: "usable_page (kend s) ?k" "?k \<notin> set xs"
    "?k \<notin> frames_below (mem s) ?d (vpn KERNBASE) \<union> tabs (mem s) ?d \<union> {?d}"
    using r by (auto simp: reapable_def)
  have fl: "free_list s xs" using ownsD(1) [OF own] by (simp add: vm_ok_def)
  obtain t where t: "kfree ?k s = Ret () t" "gave s xs {?k} t" "free_list t (?k # xs)"
    using kfree_gave [OF fl k(1,2)] by (auto elim!: returnsE)
  have te: "t = s\<lparr>mem := mem t, freelist := freelist t\<rparr>" using t(2) by (simp add: gave_def)
  have tsel: "kend t = kend s" "ptable t = ptable s" "curproc t = curproc s" "held t = held s" by (subst te, simp)+
  note oc = owns_cong [OF own t(2,3) k(3)]
  define t2 where "t2 = t\<lparr>ptable := (ptable s)(c := ?x\<lparr>p_kstack := 0\<rparr>)\<rparr>"
  have t2: "owns t2 ?d (?k # xs)" "KERNBASE < kend t2" "mem t2 = mem t"
    using oc(1) ke tsel by (simp_all add: t2_def owns_ptable)
  obtain u where u: "freevm ?d t2 = Ret () u"
    "gave t2 (?k # xs) (frames_below (mem s) ?d (vpn KERNBASE) \<union> tabs (mem s) ?d \<union> {?d}) u"
    using freevm_ok [OF t2(1,2)] unfolding t2(3) oc(2,3) by (auto elim!: returnsE)
  have ue: "u = t2\<lparr>mem := mem u, freelist := freelist u\<rparr>" using u(2) by (simp add: gave_def)
  have usel: "ptable u = (ptable s)(c := ?x\<lparr>p_kstack := 0\<rparr>)" "held u = {LPtable}" "curproc u = curproc s"
    by (subst ue, simp add: t2_def tsel h)+
  obtain ys where ys: "free_list u ys" "set ys = set (?k # xs) \<union> (frames_below (mem s) ?d (vpn KERNBASE) \<union> tabs (mem s) ?d \<union> {?d})"
    using u(2) by (auto simp: gave_def)
  have "free_list (u\<lparr>ptable := pt, held := {}\<rparr>) ys" for pt using ys(1) by (simp add: free_list_def)
  moreover have "set ys = set xs \<union> proc_pages s c" using ys(2) by (auto simp: proc_pages_def Let_def)
  ultimately show ?thesis
    using t(1) u(1) usel tsel by (auto simp: reap_def seq_apply t2_def [symmetric] unused_entry_def)
qed

section \<open>wait\<close>

definition zombie_child :: "'z kbase_scheme \<Rightarrow> nat \<Rightarrow> nat \<Rightarrow> bool" where
  "zombie_child s p c \<longleftrightarrow> p_parent (ptable s c) = Some p \<and> p_state (ptable s c) = ZOMBIE"

definition wait_body :: "nat \<Rightarrow> unit \<Rightarrow> (int + unit, 'z kproc_scheme) km" where
  "wait_body p = (\<lambda>_.
       seq (gets (\<lambda>s. find (\<lambda>c. p_parent (ptable s c) = Some p \<and> p_state (ptable s c) = ZOMBIE) [0 ..< NPROC])) (\<lambda>z.
       case z of
         Some c \<Rightarrow> seq (reap c) (\<lambda>pid. ret (Inl pid))
       | None \<Rightarrow>
           seq (gets (\<lambda>s. \<exists>c<NPROC. p_parent (ptable s c) = Some p)) (\<lambda>havekids.
           seq (gets (\<lambda>s. p_killed (ptable s p))) (\<lambda>killed.
           if \<not> havekids \<or> killed then
             seq (release LPtable) (\<lambda>_.
             ret (Inl (- 1)))
           else
             seq (sleep (ChProc p) LPtable) (\<lambda>_.
             ret (Inr ()))))))"

lemma wait_iterate:
  fixes s :: "'z kproc_scheme"
  assumes "held s = {}" "curproc s = Some p"
  shows "wait s = iterate (wait_body p) () (s\<lparr>held := {LPtable}\<rparr>)"
proof -
  have eq: "(wait :: (int, 'z kproc_scheme) km) = seq myproc (\<lambda>mp. case mp of None \<Rightarrow> panic ''trap'' | Some p \<Rightarrow>
     seq (acquire LPtable) (\<lambda>_. iterate (wait_body p) ()))"
    unfolding wait_def wait_body_def ..
  show ?thesis by (subst eq) (simp add: seq_apply assms)
qed

lemma obind_Inl: "obind x (\<lambda>r. ret (Inl r)) \<noteq> Ret (Inr b) t"
  by (cases x) auto

lemma wait_body_leaves: "held s = {LPtable} \<Longrightarrow> curproc s = Some p \<Longrightarrow> wait_body p () s \<noteq> Ret (Inr b) t"
  by (auto simp: wait_body_def seq_apply sleep_apply obind_Inl split: option.split)

lemma wait_sleeps:
  fixes s :: "'z kproc_scheme"
  assumes s: "held s = {}" "curproc s = Some p" and no: "\<And>c. c < NPROC \<Longrightarrow> \<not> zombie_child s p c"
    and kid: "c < NPROC" "p_parent (ptable s c) = Some p" and nk: "\<not> p_killed (ptable s p)"
  shows "\<exists>k. wait s = Switch (asleep p (ChProc p) (s\<lparr>held := {LPtable}\<rparr>)) k
    \<and> (\<forall>u. held u = {LPtable} \<and> curproc u = Some p \<longrightarrow> k u = wait ((awake p u)\<lparr>held := {}\<rparr>))"
proof -
  have "find (\<lambda>c. p_parent (ptable s c) = Some p \<and> p_state (ptable s c) = ZOMBIE) [0 ..< NPROC] = None"
    using no by (auto simp: find_None_iff zombie_child_def)
  then have "wait s = Switch (asleep p (ChProc p) (s\<lparr>held := {LPtable}\<rparr>)) (\<lambda>u. oiter (wait_body p) (Ret (Inr ()) (awake p u)))"
    using s kid nk unfolding wait_iterate [OF s] iterate_def by (subst wait_body_def) (auto simp: seq_apply sleep_apply)
  moreover have "oiter (wait_body p) (Ret (Inr ()) (awake p u)) = wait ((awake p u)\<lparr>held := {}\<rparr>)"
    if "held u = {LPtable}" "curproc u = Some p" for u
  proof -
    have a: "held (awake p u) = {LPtable}" "curproc (awake p u) = Some p" using that by (simp_all add: awake_def)
    then show ?thesis using oiter_Inr [of "wait_body p" "()" "awake p u", OF wait_body_leaves [OF a]] wait_iterate [of "(awake p u)\<lparr>held := {}\<rparr>" p] by simp
  qed
  ultimately show ?thesis by auto
qed

text \<open>
  C5. \<open>wait\<close> called by process \<open>p\<close>. With a child that has ended, it returns the process number of the first one in the table,
  whose entry is \<open>UNUSED\<close> afterwards, and every page of that process (kernel stack, user pages, page tables, page directory) is on the free list.
  Without any child, or killed and with none that has ended, it returns -1 and changes nothing. Otherwise it sleeps until an exiting child
  wakes it, and looks again when it is switched to.
\<close>

theorem wait_reaps_or_sleeps:
  fixes s :: "'z kproc_scheme"
  assumes "held s = {}" and "curproc s = Some p"
  shows "(\<forall>c xs. find (zombie_child s p) [0 ..< NPROC] = Some c \<and> reapable s c xs \<longrightarrow>
       returns (wait s) (\<lambda>r t. r = sint (p_pid (ptable s c)) \<and> held t = {} \<and> curproc t = Some p
         \<and> ptable t = (ptable s)(c := unused_entry (ptable s c))
         \<and> (\<exists>ys. free_list t ys \<and> set ys = set xs \<union> proc_pages s c)))
    \<and> ((\<forall>c<NPROC. \<not> zombie_child s p c) \<longrightarrow>
       (if (\<forall>c<NPROC. p_parent (ptable s c) \<noteq> Some p) \<or> p_killed (ptable s p) then wait s = Ret (- 1) s
        else \<exists>k. wait s = Switch (asleep p (ChProc p) (s\<lparr>held := {LPtable}\<rparr>)) k
          \<and> (\<forall>u. held u = {LPtable} \<and> curproc u = Some p \<longrightarrow> k u = wait ((awake p u)\<lparr>held := {}\<rparr>))))"
proof (intro conjI allI impI)
  fix c xs
  let ?s = "s\<lparr>held := {LPtable}\<rparr>"
  assume *: "find (zombie_child s p) [0 ..< NPROC] = Some c \<and> reapable s c xs"
  have pp: "proc_pages ?s c = proc_pages s c" by (simp add: proc_pages_def)
  have "reapable ?s c xs" using * assms(1) by (simp add: reapable_def owns_def vm_ok_def free_list_def)
  from reap_ok [OF this] obtain t ys where t: "reap c ?s = Ret (sint (p_pid (ptable s c))) t" "held t = {}" "curproc t = Some p"
    "ptable t = (ptable s)(c := unused_entry (ptable s c))" "free_list t ys" "set ys = set xs \<union> proc_pages s c"
    using assms by (auto elim!: returnsE simp: pp)
  have "find (\<lambda>c. p_parent (ptable s c) = Some p \<and> p_state (ptable s c) = ZOMBIE) [0 ..< NPROC] = Some c"
    using * by (simp add: zombie_child_def [abs_def])
  then have "wait s = Ret (sint (p_pid (ptable s c))) t"
    using t(1) unfolding wait_iterate [OF assms] iterate_def by (subst wait_body_def) (simp add: seq_apply)
  then show "returns (wait s) (\<lambda>r t. r = sint (p_pid (ptable s c)) \<and> held t = {} \<and> curproc t = Some p
    \<and> ptable t = (ptable s)(c := unused_entry (ptable s c)) \<and> (\<exists>ys. free_list t ys \<and> set ys = set xs \<union> proc_pages s c))"
    using t(2-) by auto
next
  assume no: "\<forall>c<NPROC. \<not> zombie_child s p c"
  have f: "find (\<lambda>c. p_parent (ptable s c) = Some p \<and> p_state (ptable s c) = ZOMBIE) [0 ..< NPROC] = None"
    using no by (auto simp: find_None_iff zombie_child_def)
  show "if (\<forall>c<NPROC. p_parent (ptable s c) \<noteq> Some p) \<or> p_killed (ptable s p) then wait s = Ret (- 1) s
        else \<exists>k. wait s = Switch (asleep p (ChProc p) (s\<lparr>held := {LPtable}\<rparr>)) k
          \<and> (\<forall>u. held u = {LPtable} \<and> curproc u = Some p \<longrightarrow> k u = wait ((awake p u)\<lparr>held := {}\<rparr>))"
  proof (cases "(\<forall>c<NPROC. p_parent (ptable s c) \<noteq> Some p) \<or> p_killed (ptable s p)")
    case True
    then have "wait s = Ret (- 1) s"
      using assms f unfolding wait_iterate [OF assms] iterate_def by (subst wait_body_def) (auto simp: seq_apply)
    then show ?thesis using True by simp
  next
    case False
    then show ?thesis using wait_sleeps [OF assms] no by (auto simp only: if_False)
  qed
qed

definition demo_zombie :: kproc where
  "demo_zombie = demo_proc\<lparr>mem := mem demo_vm,
     ptable := demo_procs(1 := (demo_procs 1)\<lparr>p_state := ZOMBIE, p_parent := Some 0\<rparr>)\<rparr>"

lemma demo_zombie_sel:
  "held demo_zombie = {}" "curproc demo_zombie = Some 0" "mem demo_zombie = mem demo_vm" "kend demo_zombie = 0x80200000"
  "ptable demo_zombie = demo_procs(1 := (demo_procs 1)\<lparr>p_state := ZOMBIE, p_parent := Some 0\<rparr>)"
  "freelist demo_zombie = freelist demo_vm"
  by (simp_all add: demo_zombie_def demo_proc_sel) (simp_all add: demo_proc_def kvm.defs kproc.defs demo_vm_sel)

lemma demo_zombie_mapped:
  assumes "umapped (mem demo_vm) 0x80300000 a"
  shows "vpn a = 0" "frame (mem demo_vm) 0x80300000 a = 0x80302000"
proof -
  have "has_tab (mem demo_vm) 0x80300000 (PDX a)" using assms by (auto simp: umapped_def pte_of_tab split: if_splits)
  then have z: "PDX a = 0" by (rule demo_tabs(1)) (rule PDX_less)
  then have p: "pte_of (mem demo_vm) 0x80300000 a = (if PTX a = 0 then 0x302007 else 0)"
    using demo_tabs(2,3) demo_entries(2) [OF PTX_less, of a] by (simp add: pte_of_tab)
  then have "PTX a = 0" using assms by (auto simp: umapped_def split: if_splits)
  then show "frame (mem demo_vm) 0x80300000 a = 0x80302000" using p by (simp add: frame_def PTE_ADDR_def P2V_def KERNBASE_def)
  have "PDX (0 :: u32) = 0" "PTX (0 :: u32) = 0" by (simp_all add: PDX_def PTX_def)
  then have "vpn a = vpn 0" using vpn_eq [of a 0] z \<open>PTX a = 0\<close> by simp
  then show "vpn a = 0" by (simp add: vpn_def)
qed

lemma demo_reapable: "reapable demo_zombie 1 demo_pages"
proof -
  have fl: "free_list demo_zombie demo_pages"
    using demo_free unfolding demo_pages_ok(3) [symmetric] by (simp add: free_list_def demo_zombie_sel demo_vm_sel)
  have pd: "pgdir_ok 0x80200000 (mem demo_vm) 0x80300000" using demo_user_ok(1) by (simp add: user_ok_def demo_vm_sel)
  have out: "0x80300000 \<notin> set demo_pages" "0x80301000 \<notin> set demo_pages" "0x80302000 \<notin> set demo_pages" "0x8030F000 \<notin> set demo_pages"
    using demo_pages_ok(2) by fastforce+
  have f: "frames_below (mem demo_vm) 0x80300000 n \<subseteq> {0x80302000}" for n using demo_zombie_mapped(2) by (auto simp: frames_below_def)
  have "owns demo_zombie 0x80300000 demo_pages"
    unfolding owns_def vm_ok_def demo_zombie_sel
    using fl pd out demo_zombie_mapped demo_tabs(4) by (auto simp: usable_page_def V2P_def const_defs)
  then show ?thesis
    using out f [of "vpn KERNBASE"] demo_tabs(4)
    by (auto simp: reapable_def demo_zombie_sel demo_procs_def zero_proc_def usable_page_def V2P_def const_defs)
qed

theorem wait_reaps_or_sleeps_witness:
  "\<exists>t. wait demo_zombie = Ret 2 t \<and> p_state (ptable t 1) = UNUSED"
proof -
  have "find (zombie_child demo_zombie 0) [0 ..< NPROC] = Some 1"
    by (simp add: zombie_child_def [abs_def] demo_zombie_sel demo_procs_def zero_proc_def NPROC_def upt_conv_Cons)
  then show ?thesis
    using wait_reaps_or_sleeps [of demo_zombie 0] demo_reapable
    by (auto simp: demo_zombie_sel demo_procs_def unused_entry_def elim!: returnsE)
qed

end
