(* ===== verification/Argsafe.thy ===== *)
theory Argsafe
  imports Demo
begin

unbundle bit_operations_syntax

text \<open>
  System call arguments are safe (\<open>fetchint\<close>, \<open>fetchstr\<close>, \<open>argint\<close>, \<open>argptr\<close>, \<open>argstr\<close> of \<^verbatim>\<open>syscall.c\<close>): whatever a process
  puts on its stack, the kernel looks only at memory of the process.
\<close>

definition umem :: "'z kmem_scheme \<Rightarrow> u32 \<Rightarrow> u8" where
  "umem s a = mem s (the (translate (mem s) (cur_pgdir s) a))"

text \<open>A string of the process at \<open>a\<close>: the bytes and the NUL that ends it are below \<open>sz\<close>.\<close>

definition ustring :: "'z kmem_scheme \<Rightarrow> u32 \<Rightarrow> u32 \<Rightarrow> u8 list \<Rightarrow> bool" where
  "ustring s sz a bs \<longleftrightarrow> 0 \<notin> set bs \<and> unat a + length bs < unat sz
     \<and> map (\<lambda>k. umem s (a + of_nat k)) [0 ..< Suc (length bs)] = bs @ [0]"

lemma uload8_ok:
  assumes "user_ok s (cur_pgdir s) sz" "a < sz"
  shows "uload8 a s = Ret (umem s a) s"
proof -
  have "pte_of (mem s) (cur_pgdir s) a AND PTE_P \<noteq> 0" using assms by (simp add: user_ok_def)
  then show ?thesis by (simp add: uload8_def seq_apply umem_def translate_frame)
qed

lemma uload32_ok:
  assumes "user_ok s (cur_pgdir s) sz" "unat a + 4 \<le> unat sz"
  shows "uload32 a s = Ret (le32_of (umem s a) (umem s (a + 1)) (umem s (a + 2)) (umem s (a + 3))) s"
proof -
  have "a + of_nat k < sz" if "k < 4" for k
  proof -
    have "unat (a + of_nat k) = unat a + k" using assms(2) that u32_bound [of sz] by (intro unat_add_nat) simp
    then show ?thesis using assms(2) that by (simp add: word_less_nat_alt)
  qed
  from this [of 0] this [of 1] this [of 2] this [of 3] have "a < sz" "a + 1 < sz" "a + 2 < sz" "a + 3 < sz" by simp_all
  then show ?thesis using uload8_ok [OF assms(1)] by (simp add: uload32_def seq_apply)
qed

lemma uloads_ok:
  assumes "user_ok s (cur_pgdir s) sz" "unat a + n \<le> unat sz"
  shows "uloads a n s = Ret (map (\<lambda>k. umem s (a + of_nat k)) [0 ..< n]) s"
  using assms(2)
proof (induction n arbitrary: a)
  case (Suc n)
  have un: "unat (a + 1) = unat a + 1" if "n > 0"
    using Suc.prems u32_bound [of sz] unat_add_nat [of a 1] that by simp
  have "a < sz" using Suc.prems by (simp add: word_less_nat_alt)
  moreover have "uloads (a + 1) n s = Ret (map (\<lambda>k. umem s (a + 1 + of_nat k)) [0 ..< n]) s"
    using Suc.IH [of "a + 1"] Suc.prems un by (cases "n = 0") auto
  moreover have "map (\<lambda>k. umem s (a + of_nat k)) [0 ..< Suc n] = umem s a # map (\<lambda>k. umem s (a + 1 + of_nat k)) [0 ..< n]"
    by (simp add: upt_conv_Cons map_Suc_upt [symmetric] comp_def add.assoc del: upt_Suc)
  ultimately show ?case using uload8_ok [OF assms(1), of a] by (simp add: seq_apply)
qed simp

lemma fetchint_ok:
  assumes "curproc s = Some p" "user_ok s (p_pgdir (ptable s p)) (p_sz (ptable s p))" "p_sz (ptable s p) \<le> KERNBASE"
  shows "fetchint a s = Ret (if unat a + 4 \<le> unat (p_sz (ptable s p))
    then Some (le32_of (umem s a) (umem s (a + 1)) (umem s (a + 2)) (umem s (a + 3))) else None) s"
proof -
  let ?sz = "p_sz (ptable s p)"
  have sz: "cur_sz s = Ret ?sz s" using assms(1) by (simp add: cur_sz_def cur_def seq_apply)
  have pg: "cur_pgdir s = p_pgdir (ptable s p)" using assms(1) by (simp add: cur_pgdir_def)
  have b: "unat ?sz \<le> 2147483648" using assms(3) by (simp add: word_le_nat_alt KERNBASE_def)
  have "(a \<ge> ?sz \<or> a + 4 > ?sz) \<longleftrightarrow> \<not> unat a + 4 \<le> unat ?sz"
  proof (cases "a < ?sz")
    case True
    then have "unat (a + 4) = unat a + 4" using b unat_plus [of a 4] by (simp add: word_less_nat_alt)
    then show ?thesis using True by (auto simp: word_less_nat_alt word_le_nat_alt)
  qed (auto simp: word_less_nat_alt word_le_nat_alt)
  then show ?thesis using assms(2) uload32_ok [of s ?sz a] sz by (simp add: fetchint_def seq_apply pg)
qed

lemma umem_Cons:
  "map (\<lambda>k. umem s (a + of_nat k)) [0 ..< Suc n] = umem s a # map (\<lambda>k. umem s (a + 1 + of_nat k)) [0 ..< n]"
  by (simp add: upt_conv_Cons map_Suc_upt [symmetric] comp_def add.assoc del: upt_Suc)

lemma fetchstr_loop_ok:
  assumes "user_ok s (cur_pgdir s) sz"
  shows "returns (fetchstr_loop a sz s) (\<lambda>r t. t = s \<and>
    (case r of Some bs \<Rightarrow> ustring s sz a bs | None \<Rightarrow> \<forall>k. unat a + k < unat sz \<longrightarrow> umem s (a + of_nat k) \<noteq> 0))"
proof (induction "unat sz - unat a" arbitrary: a rule: less_induct)
  case less
  show ?case
  proof (cases "a < sz")
    case False
    then show ?thesis by (subst fetchstr_loop.simps) (auto simp: word_less_nat_alt)
  next
    case True
    then have un: "unat (a + 1) = unat a + 1" using u32_bound [of sz] unat_add_nat [of a 1] by (simp add: word_less_nat_alt)
    have l: "uload8 a s = Ret (umem s a) s" by (rule uload8_ok [OF assms True])
    show ?thesis
    proof (cases "umem s a = 0")
      case zero: True
      then have "ustring s sz a []" using True by (simp add: ustring_def word_less_nat_alt)
      then show ?thesis using True l zero by (subst fetchstr_loop.simps) (simp add: seq_apply)
    next
      case nz: False
      have "returns (fetchstr_loop (a + 1) sz s) (\<lambda>r t. t = s \<and>
        (case r of Some bs \<Rightarrow> ustring s sz (a + 1) bs | None \<Rightarrow> \<forall>k. unat (a + 1) + k < unat sz \<longrightarrow> umem s (a + 1 + of_nat k) \<noteq> 0))"
        using True un by (intro less) (simp add: word_less_nat_alt)
      then obtain r where r: "fetchstr_loop (a + 1) sz s = Ret r s"
        "case r of Some bs \<Rightarrow> ustring s sz (a + 1) bs | None \<Rightarrow> \<forall>k. unat (a + 1) + k < unat sz \<longrightarrow> umem s (a + 1 + of_nat k) \<noteq> 0"
        by (auto elim!: returnsE)
      have "case map_option ((#) (umem s a)) r of Some bs \<Rightarrow> ustring s sz a bs
        | None \<Rightarrow> \<forall>k. unat a + k < unat sz \<longrightarrow> umem s (a + of_nat k) \<noteq> 0"
      proof (cases r)
        case None
        have "umem s (a + of_nat k) \<noteq> 0" if "unat a + k < unat sz" for k
          using r(2) None nz that un by (cases k) (auto simp: add.assoc)
        then show ?thesis using None by simp
      next
        case (Some bs)
        then show ?thesis using r(2) nz un umem_Cons [of s a "Suc (length bs)"] by (simp add: ustring_def del: upt_Suc)
      qed
      then show ?thesis using True l nz r(1) by (subst fetchstr_loop.simps) (simp add: seq_apply)
    qed
  qed
qed



end
