(* ===== verification/Arptable.thy ===== *)
theory Arptable
  imports Demo
begin

text \<open>
  The table of the address resolution protocol (\<open>arp_table_search\<close>, \<open>arp_table_update\<close>) as a map from addresses of machines to addresses of
  cards, and what happens to it when it is full.
\<close>

section \<open>The search\<close>

lemma arp_search_loop_find:
  "arp_search_loop tbl ip i n emp =
     (case find (\<lambda>k. a_ip (tbl k) = ip) [i ..< i + n] of Some k \<Rightarrow> int k
      | None \<Rightarrow> if emp = 1 then (case find (\<lambda>k. a_use (tbl k) = 0) [i ..< i + n] of Some k \<Rightarrow> - int k - 1 | None \<Rightarrow> 0) else emp - 1)"
proof (induction n arbitrary: i emp)
  case (Suc n)
  have u: "[i ..< i + Suc n] = i # [Suc i ..< Suc i + n]" by (simp add: upt_rec [of i] del: upt_Suc)
  show ?case unfolding u arp_search_loop.simps Suc.IH [of "Suc i"] by (simp split: option.split del: upt_Suc)
qed simp

definition arp_find :: "(arp_entry \<Rightarrow> bool) \<Rightarrow> (nat \<Rightarrow> arp_entry) \<Rightarrow> nat option" where
  "arp_find P tbl = find (\<lambda>k. P (tbl k)) [0 ..< ARP_TABLE_MAX]"

lemma arp_table_search_find:
  "arp_table_search tbl ip =
     (case arp_find (\<lambda>e. a_ip e = ip) tbl of Some k \<Rightarrow> int k
      | None \<Rightarrow> (case arp_find (\<lambda>e. a_use e = 0) tbl of Some k \<Rightarrow> - int k - 1 | None \<Rightarrow> 0))"
  by (simp add: arp_table_search_def arp_search_loop_find arp_find_def split: option.split)

lemma arp_find_Some: "arp_find P tbl = Some k \<Longrightarrow> k < ARP_TABLE_MAX \<and> P (tbl k)"
  by (auto simp: arp_find_def find_Some_iff)

lemma arp_find_None: "arp_find P tbl = None \<longleftrightarrow> (\<forall>k < ARP_TABLE_MAX. \<not> P (tbl k))"
  by (auto simp: arp_find_def find_None_iff)

section \<open>The table as a map\<close>

definition no_ip :: "u8 list" where
  "no_ip = [0, 0, 0, 0]"

text \<open>The entries not in use are zero, and no address has two entries.\<close>

definition arp_ok :: "(nat \<Rightarrow> arp_entry) \<Rightarrow> bool" where
  "arp_ok tbl \<longleftrightarrow> (\<forall>i < ARP_TABLE_MAX. a_use (tbl i) = 0 \<longleftrightarrow> a_ip (tbl i) = no_ip)
     \<and> (\<forall>i < ARP_TABLE_MAX. \<forall>j < ARP_TABLE_MAX. a_use (tbl i) \<noteq> 0 \<and> a_ip (tbl i) = a_ip (tbl j) \<longrightarrow> i = j)"

definition arp_lookup :: "(nat \<Rightarrow> arp_entry) \<Rightarrow> u8 list \<Rightarrow> u8 list option" where
  "arp_lookup tbl ip = (case arp_find (\<lambda>e. a_use e \<noteq> 0 \<and> a_ip e = ip) tbl of Some k \<Rightarrow> Some (a_mac (tbl k)) | None \<Rightarrow> None)"

lemma arp_lookup_entry:
  assumes "arp_ok tbl" "k < ARP_TABLE_MAX" "a_use (tbl k) \<noteq> 0"
  shows "arp_lookup tbl (a_ip (tbl k)) = Some (a_mac (tbl k))"
proof -
  obtain j where j: "arp_find (\<lambda>e. a_use e \<noteq> 0 \<and> a_ip e = a_ip (tbl k)) tbl = Some j"
    using assms by (cases "arp_find (\<lambda>e. a_use e \<noteq> 0 \<and> a_ip e = a_ip (tbl k)) tbl") (auto simp: arp_find_None)
  then have "j = k" using arp_find_Some [OF j] assms unfolding arp_ok_def by metis
  then show ?thesis using j by (simp add: arp_lookup_def)
qed

lemma arp_lookup_none:
  "arp_lookup tbl ip = None \<longleftrightarrow> (\<forall>k < ARP_TABLE_MAX. a_use (tbl k) = 0 \<or> a_ip (tbl k) \<noteq> ip)"
  unfolding arp_lookup_def by (auto split: option.split simp: arp_find_None dest: arp_find_Some)

text \<open>A change of one entry changes the map at the address the entry then has.\<close>

lemma arp_lookup_upd:
  assumes ok: "arp_ok tbl" and ok': "arp_ok (tbl(k := e))" and k: "k < ARP_TABLE_MAX" and e: "a_use e \<noteq> 0"
    and old: "a_use (tbl k) = 0 \<or> a_ip (tbl k) = a_ip e"
  shows "arp_lookup (tbl(k := e)) = (arp_lookup tbl)(a_ip e \<mapsto> a_mac e)"
proof
  fix ip
  let ?t = "tbl(k := e)"
  consider "ip = a_ip e" | j where "ip \<noteq> a_ip e" "j < ARP_TABLE_MAX" "a_use (tbl j) \<noteq> 0" "a_ip (tbl j) = ip"
    | "ip \<noteq> a_ip e" "arp_lookup tbl ip = None" using arp_lookup_none [of tbl ip] by metis
  then show "arp_lookup ?t ip = ((arp_lookup tbl)(a_ip e \<mapsto> a_mac e)) ip"
  proof cases
    case 1
    then show ?thesis using arp_lookup_entry [OF ok' k] e by simp
  next
    case 2
    then have "j \<noteq> k" using old by auto
    then show ?thesis using 2 arp_lookup_entry [OF ok, of j] arp_lookup_entry [OF ok', of j] by simp
  next
    case 3
    then have "arp_lookup ?t ip = None" using arp_lookup_none [of ?t] arp_lookup_none [of tbl] by auto
    then show ?thesis using 3 by simp
  qed
qed

lemma arp_ok_upd:
  assumes ok: "arp_ok tbl" and k: "k < ARP_TABLE_MAX" and e: "a_use e \<noteq> 0" "a_ip e \<noteq> no_ip"
    and u: "\<And>j. j < ARP_TABLE_MAX \<Longrightarrow> a_ip (tbl j) = a_ip e \<Longrightarrow> j = k"
  shows "arp_ok (tbl(k := e))"
proof -
  have 1: "a_use (tbl i) = 0 \<longleftrightarrow> a_ip (tbl i) = no_ip" if "i < ARP_TABLE_MAX" for i using ok that by (simp add: arp_ok_def)
  have 2: "i = j" if "i < ARP_TABLE_MAX" "j < ARP_TABLE_MAX" "a_use (tbl i) \<noteq> 0" "a_ip (tbl i) = a_ip (tbl j)" for i j
    using ok that by (simp add: arp_ok_def)
  show ?thesis unfolding arp_ok_def
  proof (intro conjI allI impI)
    show "a_use ((tbl(k := e)) i) = 0 \<longleftrightarrow> a_ip ((tbl(k := e)) i) = no_ip" if "i < ARP_TABLE_MAX" for i using 1 [OF that] e by simp
    show "i = j" if ij: "i < ARP_TABLE_MAX" "j < ARP_TABLE_MAX"
      and h: "a_use ((tbl(k := e)) i) \<noteq> 0 \<and> a_ip ((tbl(k := e)) i) = a_ip ((tbl(k := e)) j)" for i j
    proof -
      consider "i = k" "j = k" | "i = k" "j \<noteq> k" | "i \<noteq> k" "j = k" | "i \<noteq> k" "j \<noteq> k" by blast
      then show ?thesis
      proof cases
        case 2
        then show ?thesis using h u [OF ij(2)] by simp
      next
        case 3
        then show ?thesis using h u [OF ij(1)] by simp
      next
        case 4
        then show ?thesis using h 2 [OF ij] by simp
      qed simp
    qed
  qed
qed

text \<open>
  C34. The table of card addresses is a map. As long as it is well formed (no address of a machine twice, unused entries zero), the update for a
  packet from a machine binds that machine's address to the address of its card and leaves all other bindings as they were, whether the machine had an
  entry or takes the first free one, and the table stays well formed. When the table is full and the machine has no entry, the search gives 0, the same answer as
  for a machine found in the first entry, and the update overwrites the card of the machine in the first entry, which is not the sender.
\<close>

theorem arp_table_is_map:
  assumes "arp_ok tbl" "ip \<noteq> no_ip"
  shows "arp_ok (arp_table_enter tbl ip mac)
    \<and> arp_lookup (arp_table_enter tbl ip mac)
      = (if arp_lookup tbl ip = None \<and> (\<forall>k < ARP_TABLE_MAX. a_use (tbl k) \<noteq> 0)
         then (arp_lookup tbl)(a_ip (tbl 0) \<mapsto> mac) else (arp_lookup tbl)(ip \<mapsto> mac))"
proof -
  have M: "0 < ARP_TABLE_MAX" by (simp add: const_defs)
  have use: "a_use (tbl k) \<noteq> 0 \<longleftrightarrow> a_ip (tbl k) \<noteq> no_ip" if "k < ARP_TABLE_MAX" for k using assms(1) that by (simp add: arp_ok_def)
  have uniq: "j = k" if "j < ARP_TABLE_MAX" "k < ARP_TABLE_MAX" "a_ip (tbl j) = a_ip (tbl k)" "a_use (tbl k) \<noteq> 0" for j k
    using assms(1) that by (simp add: arp_ok_def)
  have upd: "arp_ok (tbl(k := e)) \<and> arp_lookup (tbl(k := e)) = (arp_lookup tbl)(a_ip e \<mapsto> a_mac e)"
    if "k < ARP_TABLE_MAX" "a_use e \<noteq> 0" "a_ip e \<noteq> no_ip" "a_use (tbl k) = 0 \<or> a_ip (tbl k) = a_ip e"
       "\<And>j. j < ARP_TABLE_MAX \<Longrightarrow> a_ip (tbl j) = a_ip e \<Longrightarrow> j = k" for k e
  proof -
    have "arp_ok (tbl(k := e))" using that(1-3,5) by (rule arp_ok_upd [OF assms(1)])
    then show ?thesis using arp_lookup_upd [OF assms(1) _ that(1,2,4)] by simp
  qed
  have mac: "arp_ok (tbl(k := (tbl k)\<lparr>a_mac := mac\<rparr>))
    \<and> arp_lookup (tbl(k := (tbl k)\<lparr>a_mac := mac\<rparr>)) = (arp_lookup tbl)(a_ip (tbl k) \<mapsto> mac)"
    if k: "k < ARP_TABLE_MAX" "a_use (tbl k) \<noteq> 0" for k
  proof -
    let ?e = "(tbl k)\<lparr>a_mac := mac\<rparr>"
    have "a_use ?e \<noteq> 0" "a_ip ?e \<noteq> no_ip" "a_use (tbl k) = 0 \<or> a_ip (tbl k) = a_ip ?e" using k use by simp_all
    moreover have "j = k" if "j < ARP_TABLE_MAX" "a_ip (tbl j) = a_ip ?e" for j using that by (intro uniq k) simp_all
    ultimately show ?thesis using upd [OF k(1), of ?e] by simp
  qed
  show ?thesis
  proof (cases "arp_find (\<lambda>e. a_ip e = ip) tbl")
    case (Some k)
    have k: "k < ARP_TABLE_MAX" "a_ip (tbl k) = ip" using arp_find_Some [OF Some] by simp_all
    then have n: "a_use (tbl k) \<noteq> 0" using assms(2) use by simp
    have e: "arp_table_enter tbl ip mac = tbl(k := (tbl k)\<lparr>a_mac := mac\<rparr>)"
      by (simp add: arp_table_enter_def arp_table_search_find Some Let_def)
    have "\<not> (a_use (tbl k) = 0 \<or> a_ip (tbl k) \<noteq> ip)" using k n by simp
    then have "arp_lookup tbl ip \<noteq> None" using k(1) unfolding arp_lookup_none by blast
    then show ?thesis using mac [OF k(1) n] unfolding e k(2) by auto
  next
    case none: None
    then have a: "a_ip (tbl j) \<noteq> ip" if "j < ARP_TABLE_MAX" for j using that by (simp add: arp_find_None)
    then have l: "arp_lookup tbl ip = None" by (simp add: arp_lookup_none)
    show ?thesis
    proof (cases "arp_find (\<lambda>e. a_use e = 0) tbl")
      case (Some k)
      have k: "k < ARP_TABLE_MAX" "a_use (tbl k) = 0" using arp_find_Some [OF Some] by simp_all
      have e: "arp_table_enter tbl ip mac = tbl(k := \<lparr>a_ip = ip, a_mac = mac, a_use = 1\<rparr>)"
        by (simp add: arp_table_enter_def arp_table_search_find none Some Let_def)
      have "arp_ok (tbl(k := \<lparr>a_ip = ip, a_mac = mac, a_use = 1\<rparr>))
        \<and> arp_lookup (tbl(k := \<lparr>a_ip = ip, a_mac = mac, a_use = 1\<rparr>)) = (arp_lookup tbl)(ip \<mapsto> mac)"
      proof -
        define e where "e = \<lparr>a_ip = ip, a_mac = mac, a_use = 1\<rparr>"
        have s: "a_ip e = ip" "a_mac e = mac" "a_use e = 1" by (simp_all add: e_def)
        have "arp_ok (tbl(k := e)) \<and> arp_lookup (tbl(k := e)) = (arp_lookup tbl)(a_ip e \<mapsto> a_mac e)"
          by (rule upd [OF k(1)]) (simp_all add: s k(2) assms(2) a)
        then show ?thesis unfolding s unfolding e_def .
      qed
      moreover have "(\<forall>k < ARP_TABLE_MAX. a_use (tbl k) \<noteq> 0) = False" using k by blast
      ultimately show ?thesis unfolding e by (simp only: if_False HOL.simp_thms)
    next
      case None
      then have f: "\<forall>k < ARP_TABLE_MAX. a_use (tbl k) \<noteq> 0" by (simp add: arp_find_None)
      have z: "a_use (tbl 0) \<noteq> 0" using f M by simp
      have e: "arp_table_enter tbl ip mac = tbl(0 := (tbl 0)\<lparr>a_mac := mac\<rparr>)"
        by (simp add: arp_table_enter_def arp_table_search_find none None Let_def)
      show ?thesis using mac [OF M z] l f unfolding e by simp
    qed
  qed
qed

lemma arp_table_is_map_witness:
  "arp_lookup (arp_table_enter (arp_table demo_net) [10, 0, 1, 1] [1, 2, 3, 4, 5, 6]) [10, 0, 1, 1] = Some [1, 2, 3, 4, 5, 6]"
proof -
  have t: "arp_table demo_net = (\<lambda>_. \<lparr>a_ip = [0, 0, 0, 0], a_mac = [0, 0, 0, 0, 0, 0], a_use = 0\<rparr>)"
    by (simp add: demo_net_def kproc.defs knet.defs)
  have "arp_ok (arp_table demo_net)" by (simp add: arp_ok_def t no_ip_def)
  then have m: "arp_lookup (arp_table_enter (arp_table demo_net) [10, 0, 1, 1] [1, 2, 3, 4, 5, 6])
    = (if arp_lookup (arp_table demo_net) [10, 0, 1, 1] = None \<and> (\<forall>k < ARP_TABLE_MAX. a_use (arp_table demo_net k) \<noteq> 0)
       then (arp_lookup (arp_table demo_net))(a_ip (arp_table demo_net 0) \<mapsto> [1, 2, 3, 4, 5, 6])
       else (arp_lookup (arp_table demo_net))([10, 0, 1, 1] \<mapsto> [1, 2, 3, 4, 5, 6]))"
    by (intro conjunct2 [OF arp_table_is_map]) (simp_all add: no_ip_def)
  have "0 < ARP_TABLE_MAX" "a_use (arp_table demo_net 0) = 0" by (simp_all add: t const_defs)
  then have "(\<forall>k < ARP_TABLE_MAX. a_use (arp_table demo_net k) \<noteq> 0) = False" by blast
  then show ?thesis unfolding m by (simp only: if_False HOL.simp_thms fun_upd_same)
qed

end
