(* ===== verification/Checksum.thy ===== *)
theory Checksum
  imports Demo
begin

unbundle bit_operations_syntax

text \<open>
  The checksums of the replies (\<open>ipv4_chksum\<close>, \<open>icmp_chksum\<close>): the loop with the end-around carry computes the ones' complement sum, and a packet with
  the checksum in place verifies.
\<close>

section \<open>Ones' complement addition\<close>

definition oc_add :: "u32 \<Rightarrow> u32 \<Rightarrow> u32" where
  "oc_add c x = (let s = c + x in if s > 0xFFFF then (s AND 0xFFFF) + 1 else s)"

lemma oc_add_props:
  assumes "unat c \<le> 0xFFFF" "unat x \<le> 0xFFFF"
  shows "unat (oc_add c x) \<le> 0xFFFF" "unat (oc_add c x) mod 65535 = (unat c + unat x) mod 65535"
    "unat (oc_add c x) = 0 \<longleftrightarrow> unat c = 0 \<and> unat x = 0"
proof -
  have s: "unat (c + x) = unat c + unat x" using assms by (subst unat_plus) auto
  have "s AND 0xFFFF = take_bit 16 s" for s :: u32 by (simp add: take_bit_eq_mask mask_eq_exp_minus_1)
  then have a: "unat (s AND 0xFFFF) = unat s mod 65536" for s :: u32 by (simp add: take_bit_eq_mod unat_mod)
  have v: "unat (oc_add c x) = (if unat c + unat x > 0xFFFF then unat c + unat x - 65535 else unat c + unat x)"
  proof (cases "unat c + unat x > 0xFFFF")
    case True
    then have m: "(unat c + unat x) mod 65536 = unat c + unat x - 65536" using assms by (simp add: mod_if)
    have "unat ((c + x AND 0xFFFF) + 1) = unat (c + x AND 0xFFFF) + 1"
      using a [of "c + x"] unat_add_nat [of "c + x AND 0xFFFF" 1] by simp
    then show ?thesis using True m a [of "c + x"] s by (simp add: oc_add_def Let_def word_less_nat_alt)
  qed (use s in \<open>simp add: oc_add_def Let_def word_less_nat_alt\<close>)
  show "unat (oc_add c x) \<le> 0xFFFF" "unat (oc_add c x) = 0 \<longleftrightarrow> unat c = 0 \<and> unat x = 0" using v assms by auto
  show "unat (oc_add c x) mod 65535 = (unat c + unat x) mod 65535" using v by (auto simp: mod_if)
qed

section \<open>The checksum loop\<close>

text \<open>The sum of \<open>n\<close> big-endian half words, as a number.\<close>

fun sum16 :: "mem \<Rightarrow> u32 \<Rightarrow> nat \<Rightarrow> nat" where
  "sum16 m a 0 = 0"
| "sum16 m a (Suc n) = unat (be16 m a) + sum16 m (a + 2) n"

lemma be16_bound: "unat (be16 m a) \<le> 0xFFFF" "unat (be16 m a) = 256 * unat (m a) + unat (m (a + 1))"
proof -
  have lt: "unat b < 256" for b :: u8 by (rule less_le_trans [OF unsigned_less]) simp
  have u: "unat (ucast b :: u32) = unat b" "unat b < 256" for b :: u8
    using lt [of b] by (simp_all add: unsigned_ucast_eq take_bit_nat_eq_self)
  have "push_bit 8 (ucast (m a)) = (of_nat (256 * unat (m a)) :: u32)" by (simp add: push_bit_eq_mult mult.commute)
  then have "unat (push_bit 8 (ucast (m a)) :: u32) = 256 * unat (m a)"
    using u(2) [of "m a"] by (simp add: unat_of_nat_small del: of_nat_mult)
  then show e: "unat (be16 m a) = 256 * unat (m a) + unat (m (a + 1))"
    unfolding be16_def using u [of "m a"] u [of "m (a + 1)"] by (subst unat_plus) auto
  show "unat (be16 m a) \<le> 0xFFFF" unfolding e using u(2) [of "m a"] u(2) [of "m (a + 1)"] by simp
qed

lemma chk_loop_sum:
  assumes "unat acc \<le> 0xFFFF"
  shows "unat (chk_loop m a n acc) \<le> 0xFFFF"
    "unat (chk_loop m a n acc) mod 65535 = (unat acc + sum16 m a n) mod 65535"
    "unat (chk_loop m a n acc) = 0 \<longleftrightarrow> unat acc = 0 \<and> sum16 m a n = 0"
proof -
  have "unat (chk_loop m a n acc) \<le> 0xFFFF \<and> unat (chk_loop m a n acc) mod 65535 = (unat acc + sum16 m a n) mod 65535
    \<and> (unat (chk_loop m a n acc) = 0 \<longleftrightarrow> unat acc = 0 \<and> sum16 m a n = 0)"
    using assms
  proof (induction n arbitrary: a acc)
    case (Suc n)
    note o = oc_add_props [OF Suc.prems be16_bound(1) [of m a]]
    have "chk_loop m a (Suc n) acc = chk_loop m (a + 2) n (oc_add acc (be16 m a))" by (simp add: oc_add_def Let_def)
    moreover have "(unat (oc_add acc (be16 m a)) + sum16 m (a + 2) n) mod 65535 = (unat acc + sum16 m a (Suc n)) mod 65535"
    proof -
      have "(unat (oc_add acc (be16 m a)) + sum16 m (a + 2) n) mod 65535 = (unat (oc_add acc (be16 m a)) mod 65535 + sum16 m (a + 2) n) mod 65535"
        by (simp only: mod_add_left_eq)
      also have "\<dots> = (unat acc + unat (be16 m a) + sum16 m (a + 2) n) mod 65535" by (simp only: o(2) mod_add_left_eq)
      finally show ?thesis by (simp add: add.assoc)
    qed
    ultimately show ?case using Suc.IH [OF o(1), of "a + 2"] o(3) by (simp del: chk_loop.simps) 
  qed simp
  then show "unat (chk_loop m a n acc) \<le> 0xFFFF"
    "unat (chk_loop m a n acc) mod 65535 = (unat acc + sum16 m a n) mod 65535"
    "unat (chk_loop m a n acc) = 0 \<longleftrightarrow> unat acc = 0 \<and> sum16 m a n = 0" by auto
qed

lemma complement16: "unat c \<le> 0xFFFF \<Longrightarrow> unat (ucast (NOT c) :: u16) = 0xFFFF - unat (c :: u32)"
proof -
  assume c: "unat c \<le> 0xFFFF"
  have "ucast (NOT c) = (NOT (ucast c) :: u16)" by (rule bit_word_eqI) (simp add: bit_simps)
  moreover have "unat (NOT w :: u16) = 0xFFFF - unat w" for w :: u16
  proof -
    have "NOT w = - 1 - w" by (simp add: not_eq_complement)
    moreover have "unat (- 1 - w) = unat (- 1 :: u16) - unat w" by (rule unat_sub) simp
    ultimately show ?thesis by (simp add: unsigned_minus_1_eq_mask mask_eq_exp_minus_1)
  qed
  moreover have "unat (ucast c :: u16) = unat c" using c by (simp add: unsigned_ucast_eq take_bit_nat_eq_self)
  ultimately show ?thesis by simp
qed

section \<open>Storing the checksum\<close>

lemma set_half_offset:
  fixes a :: u32
  assumes "i + 1 < 2 ^ 32" "j < 2 ^ 32"
  shows "set_half m (a + of_nat i) w (a + of_nat j) = (if j = i then lo8 w else if j = i + 1 then hi8 w else m (a + of_nat j))"
proof -
  have "a + of_nat i + 1 = a + of_nat (i + 1)" by (simp add: add.assoc)
  then show ?thesis using assms offset_eq [of j i a] offset_eq [of j "i + 1" a] by (simp add: set_half_def del: of_nat_add of_nat_Suc)
qed

lemma unat_halves: "unat (lo8 w) = unat w mod 256" "unat (hi8 w) = unat w div 256" for w :: u16
proof -
  have lt: "unat w < 65536" by (rule less_le_trans [OF unsigned_less]) simp
  show "unat (lo8 w) = unat w mod 256" by (simp add: lo8_def unsigned_ucast_eq take_bit_eq_mod)
  have "unat (drop_bit 8 w) = unat w div 256" by (simp add: drop_bit_eq_div unat_div)
  then show "unat (hi8 w) = unat w div 256" using lt by (simp add: hi8_def unsigned_ucast_eq take_bit_eq_mod)
qed

lemma swap_half: "256 * unat (lo8 (H2N_ushort c)) + unat (hi8 (H2N_ushort c)) = unat c"
proof -
  have lt: "unat c < 65536" by (rule less_le_trans [OF unsigned_less]) simp
  have "c AND 0xFF = take_bit 8 c" by (simp add: take_bit_eq_mask mask_eq_exp_minus_1)
  then have a: "unat (c AND 0xFF) = unat c mod 256" by (simp add: take_bit_eq_mod unat_mod)
  have "push_bit 8 (c AND 0xFF) = (of_nat (256 * (unat c mod 256)) :: u16)" unfolding a [symmetric] by (simp add: push_bit_eq_mult mult.commute)
  then have p: "unat (push_bit 8 (c AND 0xFF)) = 256 * (unat c mod 256)"
    by (simp add: unsigned_of_nat take_bit_nat_eq_self del: of_nat_mult)
  have d: "unat (drop_bit 8 c) = unat c div 256" by (simp add: drop_bit_eq_div unat_div)
  have "unat (H2N_ushort c) = 256 * (unat c mod 256) + unat c div 256"
    unfolding H2N_ushort_def unat_word_ariths using p d lt by auto
  then show ?thesis using lt unfolding unat_halves by simp
qed

lemma sum16_sum: "sum16 m a n = (\<Sum>i<n. unat (be16 m (a + of_nat (2 * i))))"
  by (induction n arbitrary: a) (simp_all add: sum.lessThan_Suc_shift add.assoc del: sum.lessThan_Suc)

lemma sum16_field:
  assumes "j < n" "2 * n < 2 ^ 32"
  shows "sum16 (set_half m (a + of_nat (2 * j)) (H2N_ushort c)) a n = sum16 (set_half m (a + of_nat (2 * j)) 0) a n + unat c"
proof -
  let ?m = "\<lambda>w. set_half m (a + of_nat (2 * j)) w"
  have b: "unat (be16 (?m w) (a + of_nat (2 * i))) = (if i = j then 256 * unat (lo8 w) + unat (hi8 w) else unat (be16 m (a + of_nat (2 * i))))"
    if "i < n" for i w
  proof -
    have e: "a + of_nat (2 * i) + 1 = a + of_nat (2 * i + 1)" by (simp add: add.assoc)
    show ?thesis unfolding be16_bound(2) e using that assms
      by (simp add: set_half_offset del: of_nat_add of_nat_mult of_nat_Suc)
  qed
  have s: "sum16 (?m w) a n = 256 * unat (lo8 w) + unat (hi8 w) + (\<Sum>i\<in>{..<n} - {j}. unat (be16 m (a + of_nat (2 * i))))" for w
  proof -
    have "sum16 (?m w) a n = (\<Sum>i<n. if i = j then 256 * unat (lo8 w) + unat (hi8 w) else unat (be16 m (a + of_nat (2 * i))))"
      unfolding sum16_sum using b by (intro sum.cong) (auto simp del: of_nat_mult)
    also have "\<dots> = 256 * unat (lo8 w) + unat (hi8 w) + (\<Sum>i\<in>{..<n} - {j}. unat (be16 m (a + of_nat (2 * i))))"
      using assms(1) by (subst sum.remove [of _ j]) auto
    finally show ?thesis .
  qed
  show ?thesis unfolding s swap_half by (simp add: lo8_def hi8_def)
qed

text \<open>With the complement of its sum stored in a field that was zero, a block sums to zero.\<close>

lemma checksum_verifies:
  assumes j: "j < n" "2 * n < 2 ^ 32" and m0: "m0 = set_half m (a + of_nat (2 * j)) 0"
    and m1: "m1 = set_half m0 (a + of_nat (2 * j)) (H2N_ushort (ucast (NOT (chk_loop m0 a n 0))))"
  shows "chk_loop m1 a n 0 = 0xFFFF" "sum16 m1 a n mod 65535 = 0"
proof -
  let ?c = "chk_loop m0 a n 0"
  have mm: "m1 = set_half m (a + of_nat (2 * j)) (H2N_ushort (ucast (NOT ?c)))" by (simp add: m1 m0 set_half_def fun_upd_twist)
  note k = chk_loop_sum [of 0 m0 a n, simplified] and k1 = chk_loop_sum [of 0 m1 a n, simplified]
  have s: "sum16 m1 a n = sum16 m0 a n + (0xFFFF - unat ?c)" using sum16_field [OF j, of m a] k(1) unfolding mm by (simp add: complement16 m0)
  have "(sum16 m0 a n + (0xFFFF - unat ?c)) mod 65535 = (unat ?c + (0xFFFF - unat ?c)) mod 65535"
    using k(2) by (metis mod_add_left_eq)
  also have "\<dots> = 0" using k(1) by simp
  finally show z: "sum16 m1 a n mod 65535 = 0" using s by simp
  have "sum16 m1 a n \<noteq> 0" using s k(1,3) by auto
  then have "unat (chk_loop m1 a n 0) \<noteq> 0" using k1(3) by simp
  moreover have "unat (chk_loop m1 a n 0) mod 65535 = 0" using k1(2) z by simp
  ultimately have "unat (chk_loop m1 a n 0) = 0xFFFF" using k1(1) by (auto simp: mod_eq_0_iff_dvd dvd_def)
  then show "chk_loop m1 a n 0 = 0xFFFF" by (simp add: word_unat_eq_iff)
qed

section \<open>Fields of a packet\<close>

lemma put_bytes_offset:
  fixes a :: u32
  assumes "i + length bs \<le> 2 ^ 32" "j < 2 ^ 32"
  shows "put_bytes m (a + of_nat i) bs (a + of_nat j) = (if i \<le> j \<and> j < i + length bs then bs ! (j - i) else m (a + of_nat j))"
  using assms
proof (induction bs arbitrary: m i)
  case (Cons b bs)
  have e: "a + of_nat i + 1 = a + of_nat (Suc i)" by simp
  have o: "a + of_nat j = a + of_nat i \<longleftrightarrow> j = i" using Cons.prems by (intro offset_eq) auto
  show ?case using Cons.prems Cons.IH [of "Suc i"] o
    by (simp add: e nth_Cons' Suc_le_eq del: of_nat_Suc)
qed auto

lemma chk_loop_cong:
  assumes "\<And>i. i < 2 * n \<Longrightarrow> m' (a + of_nat i) = m (a + of_nat i)"
  shows "chk_loop m' a n acc = chk_loop m a n acc"
  using assms
proof (induction n arbitrary: a acc)
  case (Suc n)
  have "m' (a + 2 + of_nat i) = m (a + 2 + of_nat i)" if "i < 2 * n" for i
    using Suc.prems [of "i + 2"] that by (simp add: ac_simps)
  note IH = Suc.IH [of "a + 2", OF this]
  have "be16 m' a = be16 m a" using Suc.prems [of 0] Suc.prems [of 1] by (simp add: be16_def)
  then show ?case by (simp add: IH Let_def)
qed simp

section \<open>The echo reply\<close>

definition off :: "u32 \<Rightarrow> nat \<Rightarrow> u32" where
  "off a j = a + of_nat j"

lemma off_simps:
  "i < 2 ^ 32 \<Longrightarrow> j < 2 ^ 32 \<Longrightarrow> off a i = off a j \<longleftrightarrow> i = j"
  "i + 1 < 2 ^ 32 \<Longrightarrow> j < 2 ^ 32 \<Longrightarrow>
    set_half m (off a i) w (off a j) = (if j = i then lo8 w else if j = i + 1 then hi8 w else m (off a j))"
  "i + length bs \<le> 2 ^ 32 \<Longrightarrow> j < 2 ^ 32 \<Longrightarrow>
    put_bytes m (off a i) bs (off a j) = (if i \<le> j \<and> j < i + length bs then bs ! (j - i) else m (off a j))"
  unfolding off_def by (rule offset_eq set_half_offset put_bytes_offset; assumption)+

lemma off_intro: "a + numeral k = off a (numeral k)" "a + 1 = off a 1" "off a i + numeral k = off a (i + numeral k)" "off a i + 1 = off a (i + 1)"
  by (simp_all add: off_def add.assoc)

lemma mem_at_nth: "j < n \<Longrightarrow> mem_at m a n ! j = m (off a j)"
  by (simp add: mem_at_def off_def)

lemma length_mem_at [simp]: "length (mem_at m a n) = n"
  by (simp add: mem_at_def)

lemma mem_at_eqI: "length xs = n \<Longrightarrow> (\<And>j. j < n \<Longrightarrow> m (off a j) = xs ! j) \<Longrightarrow> mem_at m a n = xs"
  by (rule nth_equalityI) (simp_all add: mem_at_nth)

lemma half_bytes: "lo8 (half m a) = m a" "hi8 (half m a) = m (a + 1)"
  by (simp_all add: half_def)

text \<open>The header before its checksum, with the addresses as offsets.\<close>

definition header_fields :: "mem \<Rightarrow> u32 \<Rightarrow> u16 \<Rightarrow> u16 \<Rightarrow> u16 \<Rightarrow> u8 \<Rightarrow> u8 list \<Rightarrow> u8 list \<Rightarrow> mem" where
  "header_fields m a len pid fragment protocol src dst =
     (let m1 = m(off a 0 := 0x45, off a 1 := 0); m2 = set_half m1 (off a 2) (H2N_ushort len); m3 = set_half m2 (off a 4) pid;
          m4 = set_half m3 (off a 6) (H2N_ushort fragment); m5 = m4(off a 8 := 255, off a 9 := protocol)
      in put_bytes (put_bytes m5 (off a 12) src) (off a 16) dst)"

lemma header_fields_at:
  assumes "length src = 4" "length dst = 4"
  shows "header_fields m a len pid fragment protocol src dst (off a 0) = 0x45"
    "header_fields m a len pid fragment protocol src dst (off a 9) = protocol"
    "\<lbrakk>12 \<le> j; j < 20\<rbrakk> \<Longrightarrow> header_fields m a len pid fragment protocol src dst (off a j) = (src @ dst) ! (j - 12)"
    "\<lbrakk>20 \<le> j; j < 2 ^ 32\<rbrakk> \<Longrightarrow> header_fields m a len pid fragment protocol src dst (off a j) = m (off a j)"
  using assms by (simp_all add: header_fields_def Let_def off_simps nth_append) arith+

lemma ipv4_header_fields:
  fixes m :: mem and a :: u32 and len pid fragment :: u16 and protocol :: u8
  assumes "length src = 4" "length dst = 4"
  defines "m8 \<equiv> set_half (header_fields m a len pid fragment protocol src dst) (off a 10) 0"
  shows "ipv4_header m a len pid fragment protocol src dst
    = set_half m8 (off a 10) (H2N_ushort (ucast (NOT (chk_loop m8 a 10 0))))"
proof -
  have "m8 (off a 0) = 0x45" unfolding m8_def using assms(1,2) by (simp add: off_simps header_fields_at)
  then show ?thesis by (simp add: ipv4_header_def m8_def header_fields_def ipv4_chksum_def Let_def off_def)
qed

lemma ipv4_header_verifies:
  assumes "length src = 4" "length dst = 4"
  shows "chk_loop (ipv4_header m a len pid fragment protocol src dst) a 10 0 = 0xFFFF"
  by (rule checksum_verifies [of 5 10, OF _ _ refl]) (simp_all add: ipv4_header_fields [OF assms] off_def)

lemma ipv4_header_at:
  assumes "length src = 4" "length dst = 4"
  shows "ipv4_header m a len pid fragment protocol src dst (off a 0) = 0x45"
    "ipv4_header m a len pid fragment protocol src dst (off a 9) = protocol"
    "\<lbrakk>12 \<le> j; j < 20\<rbrakk> \<Longrightarrow> ipv4_header m a len pid fragment protocol src dst (off a j) = (src @ dst) ! (j - 12)"
    "\<lbrakk>20 \<le> j; j < 2 ^ 32\<rbrakk> \<Longrightarrow> ipv4_header m a len pid fragment protocol src dst (off a j) = m (off a j)"
  unfolding ipv4_header_fields [OF assms] using assms by (simp_all add: off_simps header_fields_at)

lemma eth_header_at:
  assumes "length dst = 6" "length src = 6" "j < 2 ^ 32"
  shows "eth_header m a dst src t0 t1 (off a j) = (if j < 14 then (dst @ src @ [t0, t1]) ! j else m (off a j))"
proof -
  have e: "eth_header m a dst src t0 t1 = put_bytes (put_bytes (m(off a 12 := t0, off a 13 := t1)) (off a 0) dst) (off a 6) src"
    by (simp add: eth_header_def off_def)
  have "j < 6 \<or> 6 \<le> j \<and> j < 12 \<or> j = 12 \<or> j = 13 \<or> 14 \<le> j" by arith
  then show ?thesis unfolding e using assms by (elim disjE) (simp_all add: off_simps nth_append, arith)
qed

text \<open>The message after the header, before its checksum: an echo reply with the rest of the request.\<close>

definition echo_fields :: "mem \<Rightarrow> u32 \<Rightarrow> u16 \<Rightarrow> u16 \<Rightarrow> u8 list \<Rightarrow> u8 list \<Rightarrow> mem" where
  "echo_fields m a eid sq ts bs =
     (let m3 = m(off a 34 := 0, off a 35 := 0); m4 = set_half m3 (off a 38) eid; m5 = set_half m4 (off a 40) sq
      in put_bytes (put_bytes m5 (off a 42) ts) (off a 50) bs)"

definition echo_message :: "mem \<Rightarrow> u32 \<Rightarrow> u16 \<Rightarrow> u16 \<Rightarrow> u8 list \<Rightarrow> u8 list \<Rightarrow> mem" where
  "echo_message m a eid sq ts bs =
     (let m8 = set_half (echo_fields m a eid sq ts bs) (off a 36) 0
      in set_half m8 (off a 36) (H2N_ushort (ucast (NOT (chk_loop m8 (off a 34) 32 0)))))"

lemma echo_message_at:
  assumes "length ts = 8" "length bs = 48"
  shows "j < 34 \<Longrightarrow> echo_message m a eid sq ts bs (off a j) = m (off a j)"
    "\<lbrakk>34 \<le> j; j < 36\<rbrakk> \<Longrightarrow> echo_message m a eid sq ts bs (off a j) = 0"
    "\<lbrakk>38 \<le> j; j < 98\<rbrakk> \<Longrightarrow> echo_message m a eid sq ts bs (off a j) = ([lo8 eid, hi8 eid, lo8 sq, hi8 sq] @ ts @ bs) ! (j - 38)"
    "\<lbrakk>98 \<le> j; j < 2 ^ 32\<rbrakk> \<Longrightarrow> echo_message m a eid sq ts bs (off a j) = m (off a j)"
proof -
  show "echo_message m a eid sq ts bs (off a j) = m (off a j)" if "j < 34"
    using assms that by (simp add: echo_message_def echo_fields_def Let_def off_simps)
  show "echo_message m a eid sq ts bs (off a j) = m (off a j)" if "98 \<le> j" "j < 2 ^ 32"
    using assms that by (simp add: echo_message_def echo_fields_def Let_def off_simps)
  show "echo_message m a eid sq ts bs (off a j) = 0" if "34 \<le> j" "j < 36"
    using assms that by (simp add: echo_message_def echo_fields_def Let_def off_simps)
  show "echo_message m a eid sq ts bs (off a j) = ([lo8 eid, hi8 eid, lo8 sq, hi8 sq] @ ts @ bs) ! (j - 38)" if "38 \<le> j" "j < 98"
  proof (cases "j < 42")
    case True
    then have "j \<in> {38, 39, 40, 41}" using that by auto
    then show ?thesis using assms by (auto simp: echo_message_def echo_fields_def Let_def off_simps)
  next
    case False
    then have "\<not> j - 38 < 4" using that by simp
    then show ?thesis using assms that False by (simp add: echo_message_def echo_fields_def Let_def off_simps nth_append) arith
  qed
qed

lemma echo_message_verifies: "chk_loop (echo_message m a eid sq ts bs) (off a 34) 32 0 = 0xFFFF"
  by (rule checksum_verifies [of 1 32, OF _ _ refl]) (simp_all add: echo_message_def Let_def off_def add.assoc)

lemma icmp_reply_pkt_create_mem:
  fixes s :: "'z knet_scheme" and recv send :: u32
  defines "icmp_recv \<equiv> recv + 14 + ucast (mem s (recv + 14) AND 0xF) * 4"
  defines "m1 \<equiv> eth_header (mem s) send (mem_at (mem s) (recv + 6) 6) (mac_addr s) 8 0"
  defines "m2 \<equiv> ipv4_header m1 (off send 14) 84 (send_id s) 0x4000 1 (my_ip s) (mem_at (mem s) (recv + 26) 4)"
  shows "icmp_reply_pkt_create recv send s = Ret 98 (s\<lparr>mem := echo_message m2 send (half (mem s) (icmp_recv + 4))
    (half (mem s) (icmp_recv + 6)) (mem_at (mem s) (icmp_recv + 8) 8) (mem_at (mem s) (icmp_recv + 16) 48), send_id := send_id s + 1\<rparr>)"
  unfolding icmp_recv_def m1_def m2_def
  by (simp add: icmp_reply_pkt_create_def seq_apply Let_def const_defs echo_message_def echo_fields_def icmp_chksum_def off_def add.assoc)

lemma request_bytes:
  "j < 60 \<Longrightarrow> ([lo8 (half m (a + 4)), hi8 (half m (a + 4)), lo8 (half m (a + 6)), hi8 (half m (a + 6))] @ mem_at m (a + 8) 8 @ mem_at m (a + 16) 48) ! j
    = mem_at m (a + 4) 60 ! j"
proof -
  assume j: "j < 60"
  show ?thesis
  proof (cases "j < 4")
    case True
    then have "j \<in> {0, 1, 2, 3}" by auto
    then show ?thesis by (auto simp: mem_at_nth half_bytes off_def ac_simps)
  next
    case False
    have o: "off (a + numeral k) i = off a (numeral k + i)" for k i by (simp add: off_def add.assoc)
    have l: "([p, q, r, t] @ zs) ! j = zs ! (j - 4)" for p q r t and zs :: "u8 list" using False by (simp add: nth_append numeral_eq_Suc)
    show ?thesis
    proof (cases "j < 12")
      case True
      then have "8 + (j - 4) = 4 + j" "j - 4 < 8" using False by simp_all
      then show ?thesis unfolding l using False j by (simp add: nth_append mem_at_nth o)
    next
      case ge: False
      then have "16 + (j - 12) = 4 + j" "\<not> j - 4 < 8" "j - 4 - 8 = j - 12" using False by simp_all
      then show ?thesis unfolding l using False j by (simp add: nth_append mem_at_nth o)
    qed
  qed
qed

text \<open>
  C35. The reply to an echo request is a packet of 98 bytes that goes back to the sender of the request and that verifies. It has the request's source as the
  destination of the frame and of the datagram, the machine's own addresses as the sources, type and code zero, and everything of the request after its
  checksum: identifier, sequence number, time stamp and data. Both checksums are right: the ones' complement sums of the header and of the
  message are zero (the sums of the big-endian half words are divisible by 65535), and so the checksum functions of the code give zero on
  the finished packet. Nothing is written behind the packet, and the identification counter advances.
\<close>

theorem icmp_reply_verifies:
  fixes s :: "'z knet_scheme" and recv send :: u32
  assumes "length (mac_addr s) = 6" "length (my_ip s) = 4"
  shows "\<exists>t. icmp_reply_pkt_create recv send s = Ret 98 t
    \<and> mem_at (mem t) send 14 = mem_at (mem s) (recv + 6) 6 @ mac_addr s @ [0x08, 0x00]
    \<and> mem t (off send 14) = 0x45 \<and> mem t (off send 23) = IPV4_TYPE_ICMP
    \<and> mem_at (mem t) (off send 26) 8 = my_ip s @ mem_at (mem s) (recv + 26) 4
    \<and> mem_at (mem t) (off send 34) 2 = [ICMP_TYPE_ECHO_REPLY, 0]
    \<and> mem_at (mem t) (off send 38) 60 = mem_at (mem s) (recv + 14 + ucast (mem s (recv + 14) AND 0xF) * 4 + 4) 60
    \<and> sum16 (mem t) (off send 14) 10 mod 65535 = 0 \<and> sum16 (mem t) (off send 34) 32 mod 65535 = 0
    \<and> ipv4_chksum (mem t) (off send 14) = 0 \<and> icmp_chksum (mem t) (off send 34) = 0
    \<and> (\<forall>j. 98 \<le> j \<and> j < 2 ^ 32 \<longrightarrow> mem t (off send j) = mem s (off send j))
    \<and> send_id t = send_id s + 1"
proof -
  define r where "r = recv + 14 + ucast (mem s (recv + 14) AND 0xF) * 4"
  define m1 where "m1 = eth_header (mem s) send (mem_at (mem s) (recv + 6) 6) (mac_addr s) 8 0"
  define m2 where "m2 = ipv4_header m1 (off send 14) 84 (send_id s) 0x4000 1 (my_ip s) (mem_at (mem s) (recv + 26) 4)"
  define m3 where "m3 = echo_message m2 send (half (mem s) (r + 4)) (half (mem s) (r + 6)) (mem_at (mem s) (r + 8) 8) (mem_at (mem s) (r + 16) 48)"
  have c: "icmp_reply_pkt_create recv send s = Ret 98 (s\<lparr>mem := m3, send_id := send_id s + 1\<rparr>)"
    unfolding icmp_reply_pkt_create_mem m3_def m2_def m1_def r_def ..
  have o: "off (off send i) j = off send (i + j)" for i j by (simp add: off_def add.assoc)
  have e: "m1 (off send j) = (if j < 14 then (mem_at (mem s) (recv + 6) 6 @ mac_addr s @ [0x08, 0x00]) ! j else mem s (off send j))" if "j < 2 ^ 32" for j
    using eth_header_at [OF _ assms(1) that, of "mem_at (mem s) (recv + 6) 6"] unfolding m1_def by simp
  have l: "length (mem_at (mem s) (recv + 26) 4) = 4" "length (mem_at (mem s) (r + 8) 8) = 8" "length (mem_at (mem s) (r + 16) 48) = 48" by simp_all
  note h = ipv4_header_at [OF assms(2) l(1), where m = m1 and a = "off send 14" and len = 84 and pid = "send_id s" and fragment = "0x4000" and protocol = 1, folded m2_def, unfolded o]
  note w = echo_message_at [OF l(2,3), where m = m2 and a = send and eid = "half (mem s) (r + 4)" and sq = "half (mem s) (r + 6)", folded m3_def]
  have b: "m2 (off send j) = m1 (off send j)" if "j < 14" for j
  proof -
    have "off send (14 + (2 ^ 32 - 14 + j)) = off send j" by (simp add: off_def)
    then show ?thesis using h(4) [of "2 ^ 32 - 14 + j"] that by simp
  qed
  have 1: "mem_at m3 send 14 = mem_at (mem s) (recv + 6) 6 @ mac_addr s @ [0x08, 0x00]"
    using assms(1) by (intro mem_at_eqI) (simp_all add: w b e)
  have 2: "m3 (off send 14) = 0x45" "m3 (off send 23) = 1" using h(1,2) by (simp_all add: w)
  have 3: "mem_at m3 (off send 26) 8 = my_ip s @ mem_at (mem s) (recv + 26) 4"
    using assms(2) h(3) [of "12 + _"] by (intro mem_at_eqI) (simp_all add: w o)
  have 4: "mem_at m3 (off send 34) 2 = [0, 0]" by (intro mem_at_eqI) (simp_all add: w o nth_Cons')
  have 5: "mem_at m3 (off send 38) 60 = mem_at (mem s) (r + 4) 60"
    by (intro mem_at_eqI) (simp_all add: w o request_bytes del: append_Cons)
  have "chk_loop m3 (off send 14) 10 0 = chk_loop m2 (off send 14) 10 0"
    by (rule chk_loop_cong) (simp add: w o flip: off_def)
  then have 6: "chk_loop m3 (off send 14) 10 0 = 0xFFFF" using ipv4_header_verifies [OF assms(2) l(1)] by (simp add: m2_def)
  have 7: "chk_loop m3 (off send 34) 32 0 = 0xFFFF" unfolding m3_def by (rule echo_message_verifies)
  have 8: "m3 (off send j) = mem s (off send j)" if "98 \<le> j" "j < 2 ^ 32" for j using that h(4) [of "j - 14"] by (simp add: w e)
  have z: "sum16 m3 a n mod 65535 = 0" if "chk_loop m3 a n 0 = 0xFFFF" for a n using chk_loop_sum(2) [of 0 m3 a n] that by simp
  show ?thesis unfolding c r_def [symmetric] using 1 2 3 4 5 6 7 8 z [OF 6] z [OF 7] by (simp add: const_defs ipv4_chksum_def icmp_chksum_def)
qed

lemma icmp_reply_verifies_witness:
  "\<exists>t. icmp_reply_pkt_create 0x80001000 0x80002000 demo_net = Ret 98 t \<and> sum16 (mem t) (off 0x80002000 34) 32 mod 65535 = 0"
  using icmp_reply_verifies [of demo_net "0x80001000" "0x80002000"]
  by (auto simp: demo_net_def kproc.defs knet.defs)

end
