(* ===== verification/Madt.thy ===== *)
theory Madt
  imports Checksum
begin

text \<open>
  The search for processors (\<open>mpinit_uefi\<close>) on the table of the firmware, which is a list of records with a type and a length each.
\<close>

section \<open>Records\<close>

definition madt_known :: "u8 list \<Rightarrow> bool" where
  "madt_known b \<longleftrightarrow> b ! 0 \<in> {0, 1, 2, 4, 5}"

text \<open>A record of the table: its second byte is its length; a record of type 5 has twelve bytes.\<close>

definition madt_rec_ok :: "u8 list \<Rightarrow> bool" where
  "madt_rec_ok b \<longleftrightarrow> 4 \<le> length b \<and> length b < 256 \<and> b ! 1 = of_nat (length b) \<and> (b ! 0 = 5 \<longrightarrow> length b = 12)"

definition madt_add :: "u8 list \<Rightarrow> madt_info \<Rightarrow> madt_info" where
  "madt_add b x =
     (if b ! 0 = 0 then (if m_ncpu x < NCPU then x\<lparr>m_apicids := (m_apicids x)(m_ncpu x := b ! 3), m_ncpu := m_ncpu x + 1\<rparr> else x)
      else if b ! 0 = 1 then x\<lparr>m_ioapicid := b ! 2\<rparr> else x)"

lemma madt_record_ok:
  assumes b: "madt_rec_ok b" and m: "\<And>k. k < length b \<Longrightarrow> m (madt + of_nat (i + k)) = b ! k"
  shows "madt_record m madt (of_nat i) x = (if madt_known b then (of_nat (i + length b), madt_add b x) else (of_nat i, x))"
proof -
  have l: "4 \<le> length b" "length b < 256" "b ! 1 = of_nat (length b)" "b ! 0 = 5 \<Longrightarrow> length b = 12" using b by (auto simp: madt_rec_ok_def)
  have n: "m (madt + of_nat i) = b ! 0" "m (madt + of_nat i + 1) = b ! 1" "m (madt + of_nat i + 2) = b ! 2" "m (madt + of_nat i + 3) = b ! 3"
    using m [of 0, OF less_le_trans [OF _ l(1)]] m [of 1] m [of 2] m [of 3] l(1) by (simp_all add: ac_simps)
  have "(ucast (b ! 1) :: u32) = of_nat (length b)"
    unfolding l(3) using l(2) by (simp add: word_unat_eq_iff unsigned_ucast_eq unsigned_of_nat take_bit_nat_eq_self)
  then show ?thesis using l(4) n by (auto simp: madt_record_def Let_def madt_known_def madt_add_def)
qed

lemma madt_scan_stuck:
  assumes "i < len" "madt_record m madt i x = (i, x)"
  shows "madt_scan m madt len i x = None"
proof -
  have "\<not> (i < len \<and> madt_record m madt i x = (i, x))" if "madt_scan m madt len i x = Some y" for y
    using that
    by (rule madt_scan.raw_induct [where P = "\<lambda>m madt len i x y. \<not> (i < len \<and> madt_record m madt i x = (i, x))"
          and xa = "((((m, madt), len), i), x)", unfolded prod.case, rotated]) (auto split: if_splits)
  then show ?thesis using assms by (cases "madt_scan m madt len i x") auto
qed

lemma madt_scan_records:
  assumes "\<forall>b \<in> set rs. madt_rec_ok b" "i + length (concat rs) < 2 ^ 32"
    "\<And>k. k < length (concat rs) \<Longrightarrow> m (madt + of_nat (i + k)) = concat rs ! k"
  shows "madt_scan m madt (of_nat (i + length (concat rs))) (of_nat i) x
    = (if \<forall>b \<in> set rs. madt_known b then Some (fold madt_add rs x) else None)"
  using assms
proof (induction rs arbitrary: i x)
  case Nil
  then show ?case by (simp add: madt_scan.simps)
next
  case (Cons b rs)
  let ?n = "i + length (concat (b # rs))"
  have b: "madt_rec_ok b" "0 < length b" using Cons.prems(1) by (auto simp: madt_rec_ok_def)
  have lt: "of_nat i < (of_nat ?n :: u32)" using Cons.prems(2) b(2) by (simp add: word_less_nat_alt unsigned_of_nat take_bit_nat_eq_self del: of_nat_add)
  have r: "madt_record m madt (of_nat i) x = (if madt_known b then (of_nat (i + length b), madt_add b x) else (of_nat i, x))"
    using Cons.prems(3) by (intro madt_record_ok [OF b(1)]) (simp add: nth_append)
  show ?case
  proof (cases "madt_known b")
    case True
    have "m (madt + of_nat (i + length b + k)) = concat rs ! k" if "k < length (concat rs)" for k
      using Cons.prems(3) [of "length b + k"] that by (simp add: nth_append add.assoc)
    then have "madt_scan m madt (of_nat (i + length b + length (concat rs))) (of_nat (i + length b)) (madt_add b x)
      = (if \<forall>b \<in> set rs. madt_known b then Some (fold madt_add rs (madt_add b x)) else None)"
      using Cons.prems(1,2) by (intro Cons.IH) auto
    then show ?thesis using lt r True by (subst madt_scan.simps) (simp add: add.assoc)
  next
    case False
    then show ?thesis using madt_scan_stuck [OF lt] r by simp
  qed
qed

section \<open>What the scan collects\<close>

definition madt_cpus :: "u8 list list \<Rightarrow> u8 list" where
  "madt_cpus rs = map (\<lambda>b. b ! 3) (filter (\<lambda>b. b ! 0 = 0) rs)"

definition madt_ioapic :: "u8 list list \<Rightarrow> u8 \<Rightarrow> u8" where
  "madt_ioapic rs d = last (d # map (\<lambda>b. b ! 2) (filter (\<lambda>b. b ! 0 = 1) rs))"

lemma fold_madt_add:
  assumes "m_ncpu x = 0"
  shows "m_ncpu (fold madt_add rs x) = min NCPU (length (madt_cpus rs))
    \<and> (\<forall>i < min NCPU (length (madt_cpus rs)). m_apicids (fold madt_add rs x) i = madt_cpus rs ! i)
    \<and> m_ioapicid (fold madt_add rs x) = madt_ioapic rs (m_ioapicid x)"
proof (induction rs rule: rev_induct)
  case (snoc b rs)
  then show ?case
    by (cases "length (madt_cpus rs) < NCPU") (auto simp: madt_add_def madt_cpus_def madt_ioapic_def nth_append)
qed (simp add: assms madt_cpus_def madt_ioapic_def)

section \<open>The search for processors\<close>

text \<open>The table of the firmware is in memory: its header of 44 bytes, with the length of the whole, and its records.\<close>

definition madt_at :: "mem \<Rightarrow> u32 \<Rightarrow> u8 list list \<Rightarrow> bool" where
  "madt_at m madt rs \<longleftrightarrow> (\<forall>b \<in> set rs. madt_rec_ok b) \<and> 44 + length (concat rs) < 2 ^ 32
     \<and> load32 m (madt + 4) = of_nat (44 + length (concat rs))
     \<and> list_all (\<lambda>k. m (madt + of_nat (44 + k)) = concat rs ! k) [0 ..< length (concat rs)]"

text \<open>
  C36. The search for processors ends exactly on tables of known records. For every table of well-formed records it returns when each record has one of
  the types 0, 1, 2, 4 and 5; then the number of processors is the number of records of type 0, at most \<open>NCPU\<close>, the processors have the
  identifiers of these records in their order, the I/O controller is that of the last record of type 1, and the address of the local controllers is that
  of the header. When there is a record of any other type, which the firmware is free to have, the search never ends.
\<close>

theorem mpinit_uefi_finds_processors:
  fixes s :: "'z kapic_scheme"
  assumes "madt_at (mem s) (P2V (load32 (mem s) (P2V BOOTPARAM + 8))) rs"
  shows "if \<forall>b \<in> set rs. madt_known b
    then \<exists>t. mpinit_uefi s = Ret () t \<and> ncpu t = min NCPU (length (madt_cpus rs))
      \<and> (\<forall>i < ncpu t. apicids t i = madt_cpus rs ! i) \<and> ioapicid t = madt_ioapic rs (ioapicid s)
      \<and> lapic t = load32 (mem s) (P2V (load32 (mem s) (P2V BOOTPARAM + 8)) + 36) \<and> mem t = mem s
    else \<exists>t. mpinit_uefi s = forever t"
proof -
  let ?madt = "P2V (load32 (mem s) (P2V BOOTPARAM + 8))"
  let ?x = "\<lparr>m_ncpu = 0, m_apicids = apicids s, m_ioapicid = ioapicid s\<rparr>"
  have "madt_scan (mem s) ?madt (of_nat (44 + length (concat rs))) (of_nat 44) ?x = (if \<forall>b \<in> set rs. madt_known b then Some (fold madt_add rs ?x) else None)"
    using assms by (intro madt_scan_records) (auto simp: madt_at_def list_all_iff)
  moreover have "load32 (mem s) (?madt + 4) = of_nat (44 + length (concat rs))" using assms by (simp add: madt_at_def)
  ultimately have "madt_scan (mem s) ?madt (load32 (mem s) (?madt + 4)) 44 ?x = (if \<forall>b \<in> set rs. madt_known b then Some (fold madt_add rs ?x) else None)"
    by simp
  then show ?thesis using fold_madt_add [of ?x rs] by (auto simp: mpinit_uefi_def Let_def)
qed

text \<open>A table with two processors and a controller, and one with a record of type 9 (an x2APIC).\<close>

definition demo_madt :: "u8 list list" where
  "demo_madt = [[0, 8, 0, 0, 1, 0, 0, 0], [0, 8, 1, 1, 1, 0, 0, 0], [1, 12, 2, 0, 0, 0, 192, 254, 0, 0, 0, 0]]"

definition demo_x2apic :: "u8 list list" where
  "demo_x2apic = [[0, 8, 0, 0, 1, 0, 0, 0], [9, 16, 0, 0, 1, 0, 0, 0, 1, 0, 0, 0, 0, 0, 0, 0]]"

definition demo_table :: "u8 list list \<Rightarrow> mem" where
  "demo_table rs = put_bytes (store32 (store32 (\<lambda>_. 0) (P2V BOOTPARAM + 8) 0x7000) (P2V 0x7000 + 4) (of_nat (44 + length (concat rs))))
     (P2V 0x7000 + 44) (concat rs)"

lemma demo_table_at:
  assumes "\<forall>b \<in> set rs. madt_rec_ok b" "length (concat rs) < 1000"
  shows "load32 (demo_table rs) (P2V BOOTPARAM + 8) = 0x7000" "madt_at (demo_table rs) (P2V 0x7000) rs"
proof -
  let ?m = "store32 (store32 (\<lambda>_. 0) (P2V BOOTPARAM + 8) 0x7000) (P2V 0x7000 + 4) (of_nat (44 + length (concat rs)))"
  have at: "demo_table rs (P2V 0x7000 + of_nat j) = (if 44 \<le> j \<and> j < 44 + length (concat rs) then concat rs ! (j - 44) else ?m (P2V 0x7000 + of_nat j))"
    if "j < 2 ^ 32" for j
    using put_bytes_offset [of 44 "concat rs" j ?m "P2V 0x7000"] that assms(2) by (simp add: demo_table_def)
  have far: "demo_table rs (P2V BOOTPARAM + 8 + of_nat i) = ?m (P2V BOOTPARAM + 8 + of_nat i)" if "i < 4" for i
    using at [of "0x49008 + i"] that assms(2) by (simp add: P2V_def const_defs)
  have "load32 ?m (P2V BOOTPARAM + 8) = 0x7000"
    by (simp add: load32_def store32_def P2V_def const_defs)
  then show "load32 (demo_table rs) (P2V BOOTPARAM + 8) = 0x7000" using load32_cong [of "demo_table rs" "P2V BOOTPARAM + 8" ?m] far by simp
  have "demo_table rs (P2V 0x7000 + 4 + of_nat i) = ?m (P2V 0x7000 + 4 + of_nat i)" if "i < 4" for i
    using at [of "4 + i"] that by (simp add: add.assoc)
  then have "load32 (demo_table rs) (P2V 0x7000 + 4) = of_nat (44 + length (concat rs))" using load32_cong [of "demo_table rs" "P2V 0x7000 + 4" ?m] by simp
  moreover have "demo_table rs (P2V 0x7000 + of_nat (44 + k)) = concat rs ! k" if "k < length (concat rs)" for k
    using at [of "44 + k"] that assms(2) by simp
  ultimately show "madt_at (demo_table rs) (P2V 0x7000) rs" using assms by (simp add: madt_at_def list_all_iff)
qed

lemma mpinit_uefi_finds_processors_witness:
  "(\<exists>t. mpinit_uefi (demo_net\<lparr>mem := demo_table demo_madt\<rparr>) = Ret () t \<and> ncpu t = 2 \<and> apicids t 1 = 1 \<and> ioapicid t = 2)
   \<and> (\<exists>t. mpinit_uefi (demo_net\<lparr>mem := demo_table demo_x2apic\<rparr>) = forever t)"
proof
  have ok: "\<forall>b \<in> set demo_madt. madt_rec_ok b" "length (concat demo_madt) < 1000" "\<forall>b \<in> set demo_x2apic. madt_rec_ok b" "length (concat demo_x2apic) < 1000"
    by (simp_all add: demo_madt_def demo_x2apic_def madt_rec_ok_def)
  show "\<exists>t. mpinit_uefi (demo_net\<lparr>mem := demo_table demo_madt\<rparr>) = Ret () t \<and> ncpu t = 2 \<and> apicids t 1 = 1 \<and> ioapicid t = 2"
    using mpinit_uefi_finds_processors [of "demo_net\<lparr>mem := demo_table demo_madt\<rparr>" demo_madt] demo_table_at [OF ok(1,2)]
    by (auto simp: demo_madt_def madt_known_def madt_cpus_def madt_ioapic_def NCPU_def)
  show "\<exists>t. mpinit_uefi (demo_net\<lparr>mem := demo_table demo_x2apic\<rparr>) = forever t"
    using mpinit_uefi_finds_processors [of "demo_net\<lparr>mem := demo_table demo_x2apic\<rparr>" demo_x2apic] demo_table_at [OF ok(3,4)]
    by (simp add: demo_x2apic_def madt_known_def)
qed

end
