(* ===== verification/Ulib.thy ===== *)
theory Ulib
  imports Console
begin

unbundle bit_operations_syntax

text \<open>
  The library of the user programs (\<open>ulib.c\<close>, \<open>printf.c\<close>). A function that scans to a NUL may run on when there is none, so the scans are partial:
  not returning is \<open>None\<close>. Standard input is the list of the bytes still to be read; what is written to a descriptor is returned as the
  list of its bytes, one for each call of \<open>write\<close> by \<open>putc\<close>.

  Shown: what the string functions compute on NUL-terminated strings, that \<open>gets\<close> stays inside its buffer, and that \<open>atoi\<close> reads back the numbers \<open>printf\<close> writes.
\<close>

section \<open>Strings (ulib.c)\<close>

partial_function (option) u_strcpy :: "mem \<Rightarrow> u32 \<Rightarrow> u32 \<Rightarrow> mem option" where
  "u_strcpy m s t = (let m' = m(s := m t) in if m t \<noteq> 0 then u_strcpy m' (s + 1) (t + 1) else Some m')"

partial_function (option) u_strcmp :: "mem \<Rightarrow> u32 \<Rightarrow> u32 \<Rightarrow> int option" where
  "u_strcmp m p q = (if m p \<noteq> 0 \<and> m p = m q then u_strcmp m (p + 1) (q + 1) else Some (uint (m p) - uint (m q)))"

partial_function (option) u_strlen_from :: "mem \<Rightarrow> u32 \<Rightarrow> nat \<Rightarrow> nat option" where
  "u_strlen_from m s n = (if m (s + of_nat n) \<noteq> 0 then u_strlen_from m s (Suc n) else Some n)"

definition u_strlen :: "mem \<Rightarrow> u32 \<Rightarrow> nat option" where
  "u_strlen m s = u_strlen_from m s 0"

definition u_memset :: "mem \<Rightarrow> u32 \<Rightarrow> u32 \<Rightarrow> u32 \<Rightarrow> mem" where
  "u_memset m dst c n = stosb m dst (ucast c) (unat n)"

text \<open>The result 0 is \<open>Some None\<close>.\<close>

partial_function (option) strchr :: "mem \<Rightarrow> u32 \<Rightarrow> u8 \<Rightarrow> u32 option option" where
  "strchr m s c = (if m s = 0 then Some None else if m s = c then Some (Some s) else strchr m (s + 1) c)"

text \<open>\<open>gets\<close>: the loop from index \<open>i\<close> on, with the input still to be read; it gives the memory, the index where it stops and the input left.\<close>

fun gets_loop :: "mem \<Rightarrow> u32 \<Rightarrow> int \<Rightarrow> u8 list \<Rightarrow> nat \<Rightarrow> mem \<times> nat \<times> u8 list" where
  "gets_loop m buf mx [] i = (m, i, [])"
| "gets_loop m buf mx (c # inp) i =
     (if int i + 1 < mx then
        let m' = m(buf + of_nat i := c) in
        if c = 10 \<or> c = 13 then (m', i + 1, inp) else gets_loop m' buf mx inp (i + 1)
      else (m, i, c # inp))"

definition u_gets :: "mem \<Rightarrow> u32 \<Rightarrow> int \<Rightarrow> u8 list \<Rightarrow> mem \<times> u8 list" where
  "u_gets m buf mx inp = (case gets_loop m buf mx inp 0 of (m', i, inp') \<Rightarrow> (m'(buf + of_nat i := 0), inp'))"

partial_function (option) atoi_loop :: "mem \<Rightarrow> u32 \<Rightarrow> u32 \<Rightarrow> u32 option" where
  "atoi_loop m s n = (if 48 \<le> m s \<and> m s \<le> 57 then atoi_loop m (s + 1) (n * 10 + ucast (m s) - 48) else Some n)"

definition atoi :: "mem \<Rightarrow> u32 \<Rightarrow> u32 option" where
  "atoi m s = atoi_loop m s 0"

text \<open>The user library's \<open>memmove\<close> always copies upwards.\<close>

definition u_memmove :: "mem \<Rightarrow> u32 \<Rightarrow> u32 \<Rightarrow> int \<Rightarrow> mem" where
  "u_memmove m vdst vsrc n = copy_up m vdst vsrc (nat n)"

section \<open>Formatted output (printf.c)\<close>

definition u_digits :: "u8 list" where
  "u_digits = bytes ''0123456789ABCDEF''"

function u_digits_loop :: "u32 \<Rightarrow> u32 \<Rightarrow> u8 list" where
  "u_digits_loop x base = (u_digits ! unat (x mod base)) #
     (if base \<le> 1 \<or> x div base = 0 then [] else u_digits_loop (x div base) base)"
  by auto
termination
proof (relation "measure (\<lambda>(x, base). unat x)")
  fix x base :: u32
  assume a: "\<not> (base \<le> 1 \<or> x div base = 0)"
  then have "1 < unat base" "unat x div unat base \<noteq> 0"
    by (auto simp: word_le_nat_alt unat_div word_unat_eq_iff)
  then have "unat x div unat base < unat x" by (intro div_less_dividend) (auto intro: ccontr)
  then show "((x div base, base), (x, base)) \<in> measure (\<lambda>(x, base). unat x)"
    by (simp add: unat_div)
qed simp

declare u_digits_loop.simps [simp del]

text \<open>\<open>buf\<close> in the order of its indices, and what is written.\<close>

definition u_printint_buf :: "u32 \<Rightarrow> u32 \<Rightarrow> bool \<Rightarrow> u8 list" where
  "u_printint_buf xx base sg =
     (let neg = sg \<and> sint xx < 0; x = (if neg then - xx else xx)
      in u_digits_loop x base @ (if neg then [45] else []))"

definition u_printint :: "u32 \<Rightarrow> u32 \<Rightarrow> bool \<Rightarrow> u8 list" where
  "u_printint xx base sg = rev (u_printint_buf xx base sg)"

text \<open>
  The loop of \<open>printf\<close> with the flag \<open>state\<close>. An argument of the wrong kind or a missing one is undefined in C (\<open>None\<close>).
\<close>

fun u_printf_loop :: "u8 list \<Rightarrow> bool \<Rightarrow> carg list \<Rightarrow> u8 list option" where
  "u_printf_loop [] state args = Some []"
| "u_printf_loop (c # fmt) state args =
     (if \<not> state then
        if c = 37 then u_printf_loop fmt True args
        else map_option (Cons c) (u_printf_loop fmt False args)
      else if c = 100 then
        (case args of CInt x # as \<Rightarrow> map_option (append (u_printint x 10 True)) (u_printf_loop fmt False as) | _ \<Rightarrow> None)
      else if c = 120 \<or> c = 112 then
        (case args of CInt x # as \<Rightarrow> map_option (append (u_printint x 16 False)) (u_printf_loop fmt False as) | _ \<Rightarrow> None)
      else if c = 115 then
        (case args of
           CStr (Some s) # as \<Rightarrow> map_option (append s) (u_printf_loop fmt False as)
         | CStr None # as \<Rightarrow> map_option (append (bytes ''(null)'')) (u_printf_loop fmt False as)
         | _ \<Rightarrow> None)
      else if c = 99 then
        (case args of CInt x # as \<Rightarrow> map_option (Cons (ucast x)) (u_printf_loop fmt False as) | _ \<Rightarrow> None)
      else if c = 37 then map_option (Cons c) (u_printf_loop fmt False args)
      else map_option (append [37, c]) (u_printf_loop fmt False args))"

definition u_printf :: "string \<Rightarrow> carg list \<Rightarrow> u8 list option" where
  "u_printf fmt args = u_printf_loop (bytes fmt) False args"

section \<open>What the string functions compute\<close>

lemma u_strlen_cstr: "cstr m s xs \<Longrightarrow> u_strlen m s = Some (length xs)"
proof -
  have "cstr m (s + of_nat n) ys \<Longrightarrow> u_strlen_from m s n = Some (n + length ys)" for n ys
  proof (induction ys arbitrary: n)
    case (Cons y ys)
    then have "u_strlen_from m s (Suc n) = Some (Suc n + length ys)" by (intro Cons.IH) (simp add: algebra_simps)
    with Cons.prems show ?case by (subst u_strlen_from.simps) simp
  qed (simp add: u_strlen_from.simps)
  from this [of 0 xs] show "cstr m s xs \<Longrightarrow> u_strlen m s = Some (length xs)" by (simp add: u_strlen_def)
qed

lemma u_strcmp_cstr:
  assumes "cstr m p xs" "cstr m q ys"
  shows "\<exists>r. u_strcmp m p q = Some r \<and> (r = 0 \<longleftrightarrow> xs = ys)"
  using assms
proof (induction xs arbitrary: p q ys)
  case Nil
  then show ?case by (cases ys) (auto simp: u_strcmp.simps uint_0_iff)
next
  case (Cons x xs)
  show ?case
  proof (cases "\<exists>ys'. ys = x # ys'")
    case True
    then obtain ys' where "ys = x # ys'" ..
    then show ?thesis using Cons.prems Cons.IH [of "p + 1" "q + 1" ys'] by (subst u_strcmp.simps) auto
  next
    case False
    then have "m p \<noteq> m q" using Cons.prems by (cases ys) auto
    then have "u_strcmp m p q = Some (uint (m p) - uint (m q))" "uint (m p) \<noteq> uint (m q)" by (simp_all add: u_strcmp.simps word_uint_eq_iff)
    then show ?thesis using False by auto
  qed
qed

lemma strchr_cstr:
  assumes "cstr m s xs" "c \<noteq> 0"
  shows "strchr m s c = Some (if c \<in> set xs then Some (s + of_nat (length (takeWhile (\<lambda>x. x \<noteq> c) xs))) else None)"
  using assms(1)
proof (induction xs arbitrary: s)
  case (Cons x xs)
  then have "strchr m (s + 1) c = Some (if c \<in> set xs then Some (s + 1 + of_nat (length (takeWhile (\<lambda>x. x \<noteq> c) xs))) else None)" by simp
  with Cons.prems show ?case by (subst strchr.simps) (auto simp: algebra_simps)
qed (simp add: strchr.simps)

text \<open>A line of input for a buffer of \<open>mx\<close> bytes: up to a newline or carriage return, the end of the input or what fits.\<close>

definition newline :: "u8 \<Rightarrow> bool" where
  "newline c \<longleftrightarrow> c = 10 \<or> c = 13"

fun input_line :: "nat \<Rightarrow> u8 list \<Rightarrow> u8 list" where
  "input_line 0 inp = []"
| "input_line (Suc n) [] = []"
| "input_line (Suc n) (c # inp) = c # (if newline c then [] else input_line n inp)"

lemma length_input_line: "length (input_line n inp) \<le> n"
  by (induction n inp rule: input_line.induct) auto

lemma gets_loop_ok:
  assumes "i + n < 2 ^ 31" "mx = int (i + n + 1)" "gets_loop m buf mx inp i = (m', j, inp')"
  shows "j = i + length (input_line n inp) \<and> inp = input_line n inp @ inp'
    \<and> (\<forall>k < 2 ^ 32. m' (buf + of_nat k) = (if i \<le> k \<and> k < j then input_line n inp ! (k - i) else m (buf + of_nat k)))"
  using assms
proof (induction inp arbitrary: m i n)
  case Nil
  then show ?case by (cases n) auto
next
  case (Cons c inp)
  show ?case
  proof (cases n)
    case 0
    then show ?thesis using Cons.prems by auto
  next
    case (Suc n')
    let ?m = "m(buf + of_nat i := c)"
    have o: "?m (buf + of_nat k) = (if k = i then c else m (buf + of_nat k))" if "k < 2 ^ 32" for k
      using offset_eq [OF that, of i buf] Cons.prems(1) by simp
    show ?thesis
    proof (cases "newline c")
      case True
      then show ?thesis using Cons.prems Suc o by (auto simp: newline_def)
    next
      case False
      then have "gets_loop ?m buf mx inp (Suc i) = (m', j, inp')" using Cons.prems Suc by (simp add: newline_def)
      note IH = Cons.IH [OF _ _ this, of n']
      show ?thesis using IH Cons.prems Suc False o by (auto simp: nth_Cons' Suc_le_eq)
    qed
  qed
qed

text \<open>\<open>gets\<close> takes a line from the input, stores it with a NUL behind it, and writes to no other address.\<close>

lemma u_gets_ok:
  fixes inp :: "u8 list" and mx :: int
  assumes "0 < mx" "mx \<le> 2 ^ 31"
  defines "l \<equiv> input_line (nat mx - 1) inp"
  shows "\<exists>m'. u_gets m buf mx inp = (m', drop (length l) inp) \<and> int (length l) < mx
    \<and> (\<forall>k < 2 ^ 32. m' (buf + of_nat k) = (if k < length l then l ! k else if k = length l then 0 else m (buf + of_nat k)))"
proof -
  obtain m' j inp' where g: "gets_loop m buf mx inp 0 = (m', j, inp')" by (cases "gets_loop m buf mx inp 0") auto
  have k: "j = length l" "inp = l @ inp'" "\<And>k. k < 2 ^ 32 \<Longrightarrow> m' (buf + of_nat k) = (if k < j then l ! k else m (buf + of_nat k))"
    using gets_loop_ok [of 0 "nat mx - 1" mx m buf inp m' j inp'] assms(1,2) g by (auto simp: l_def)
  have b: "length l \<le> nat mx - 1" unfolding l_def by (rule length_input_line)
  then have len: "length l < 2 ^ 32" using assms(1,2) by simp
  have "(m'(buf + of_nat j := 0)) (buf + of_nat k) = (if k < length l then l ! k else if k = length l then 0 else m (buf + of_nat k))" if "k < 2 ^ 32" for k
    using k(1) k(3) [OF that] offset_eq [OF that len, of buf] by simp
  moreover have "u_gets m buf mx inp = (m'(buf + of_nat j := 0), drop (length l) inp)" using g k(2) by (simp add: u_gets_def)
  moreover have "int (length l) < mx" using b assms(1) by linarith
  ultimately show ?thesis by blast
qed

section \<open>Numbers\<close>

definition atoi_step :: "u8 \<Rightarrow> u32 \<Rightarrow> u32" where
  "atoi_step d n = n * 10 + ucast d - 48"

lemma atoi_loop_digits:
  assumes "cstr m s (ds @ rest)" "\<forall>d \<in> set ds. 48 \<le> d \<and> d \<le> 57" "rest = [] \<or> \<not> (48 \<le> hd rest \<and> hd rest \<le> 57)"
  shows "atoi_loop m s n = Some (fold atoi_step ds n)"
  using assms(1,2)
proof (induction ds arbitrary: s n)
  case Nil
  have "\<not> (48 \<le> m s \<and> m s \<le> 57)"
  proof (cases rest)
    case Nil
    then show ?thesis using \<open>cstr m s ([] @ rest)\<close> by (simp add: word_le_nat_alt)
  next
    case (Cons r rs)
    then show ?thesis using \<open>cstr m s ([] @ rest)\<close> assms(3) by simp
  qed
  then show ?case by (subst atoi_loop.simps) auto
next
  case (Cons d ds)
  have "atoi_loop m s n = atoi_loop m (s + 1) (atoi_step d n)" using Cons.prems by (subst atoi_loop.simps) (simp add: atoi_step_def)
  then show ?case using Cons by simp
qed

lemma u_digits_nth: "n < 10 \<Longrightarrow> u_digits ! n = of_nat (48 + n)"
proof -
  assume "n < 10"
  then have "n \<in> set [0 ..< 10]" by simp
  moreover have "list_all (\<lambda>n. u_digits ! n = of_nat (48 + n)) [0 ..< 10]" by code_simp
  ultimately show ?thesis by (simp only: list_all_iff)
qed

lemma u_digits_loop_10:
  "fold atoi_step (rev (u_digits_loop x 10)) 0 = x \<and> (\<forall>d \<in> set (u_digits_loop x 10). 48 \<le> d \<and> d \<le> 57)"
proof (induction x "10 :: u32" rule: u_digits_loop.induct)
  case (1 x)
  let ?d = "u_digits ! unat (x mod 10)"
  have ten: "\<not> (10 :: u32) \<le> 1" by (simp add: word_le_nat_alt)
  have lt: "unat (x mod 10) < 10" by (simp add: unat_mod)
  have d: "?d = of_nat (48 + unat (x mod 10))" by (rule u_digits_nth [OF lt])
  have u: "unat ?d = 48 + unat (x mod 10)" using lt unfolding d by (simp add: unsigned_of_nat take_bit_nat_eq_self del: of_nat_add)
  have r: "48 \<le> ?d \<and> ?d \<le> 57" using u lt by (simp add: word_le_nat_alt)
  have c: "ucast ?d = (48 + x mod 10 :: u32)"
  proof -
    have "(ucast ?d :: u32) = of_nat (unat ?d)" by simp
    also have "\<dots> = 48 + x mod 10" unfolding u by simp
    finally show ?thesis .
  qed
  have s: "atoi_step ?d (x div 10) = x" unfolding atoi_step_def c by (simp add: div_mult_mod_eq)
  show ?case
  proof (cases "x div 10 = 0")
    case True
    then show ?thesis using s r by (subst (1 2) u_digits_loop.simps) simp
  next
    case False
    then have "fold atoi_step (rev (u_digits_loop (x div 10) 10)) 0 = x div 10 \<and> (\<forall>d \<in> set (u_digits_loop (x div 10) 10). 48 \<le> d \<and> d \<le> 57)"
      using "1.hyps" ten by simp
    then show ?thesis using s r False ten by (subst (1 2) u_digits_loop.simps) auto
  qed
qed

lemma length_u_digits_loop:
  assumes "10 \<le> unat base" "unat x < 10 ^ Suc k"
  shows "length (u_digits_loop x base) \<le> Suc k"
  using assms(2)
proof (induction k arbitrary: x)
  case 0
  then have "unat x div unat base = 0" using assms(1) by simp
  then have "x div base = 0" by (simp add: word_unat_eq_iff unat_div)
  then show ?case by (subst u_digits_loop.simps) simp
next
  case (Suc k)
  have "unat x div unat base \<le> unat x div 10" using assms(1) by (intro div_le_mono2) simp_all
  then have "unat (x div base) < 10 ^ Suc k" using Suc.prems by (simp add: unat_div)
  note IH = Suc.IH [OF this]
  show ?case using IH by (subst u_digits_loop.simps) simp
qed

text \<open>
  C40. What \<open>printf\<close> writes for \<open>%d\<close> is read back by \<open>atoi\<close>. For every number that is not negative, \<open>atoi\<close> of the printed
  digits is the number; the printed text of a negative number starts with a sign, which \<open>atoi\<close> does not know, so that it reads as 0. In both cases, and
  for \<open>%x\<close>, the digits and the sign fit in the 16 bytes of the buffer of \<open>printint\<close>.
\<close>

theorem printf_atoi_roundtrip:
  fixes x :: u32
  assumes "cstr m s txt" "u_printf ''%d'' [CInt x] = Some txt"
  shows "atoi m s = Some (if 0 \<le> sint x then x else 0)
    \<and> length (u_printint_buf x 10 True) \<le> 16 \<and> length (u_printint_buf x 16 False) \<le> 16"
proof -
  have t: "txt = u_printint x 10 True" using assms(2) by (simp add: u_printf_def bytes_def of_char_def)
  have len: "length (u_digits_loop y b) \<le> 10" if "10 \<le> unat b" for y b :: u32
    using length_u_digits_loop [OF that, of y 9] u32_bound [of y] by simp
  have l: "length (u_printint_buf x 10 True) \<le> 16" "length (u_printint_buf x 16 False) \<le> 16"
    using len [of 10 x] len [of 10 "- x"] len [of 16 x] by (simp_all add: u_printint_buf_def Let_def)
  have "atoi m s = Some (if 0 \<le> sint x then x else 0)"
  proof (cases "0 \<le> sint x")
    case True
    then have "txt = rev (u_digits_loop x 10) @ []" by (simp add: t u_printint_def u_printint_buf_def)
    with assms(1) have "cstr m s (rev (u_digits_loop x 10) @ [])" by simp
    then have "atoi_loop m s 0 = Some (fold atoi_step (rev (u_digits_loop x 10)) 0)" using u_digits_loop_10 [of x] by (intro atoi_loop_digits) auto
    then show ?thesis using True u_digits_loop_10 [of x] by (simp add: atoi_def)
  next
    case False
    then have "txt = 45 # rev (u_digits_loop (- x) 10)" by (simp add: t u_printint_def u_printint_buf_def)
    then have "cstr m s ([] @ 45 # rev (u_digits_loop (- x) 10))" using assms(1) by simp
    then have "atoi_loop m s 0 = Some (fold atoi_step [] 0)" by (rule atoi_loop_digits) simp_all
    then show ?thesis using False by (simp add: atoi_def)
  qed
  then show ?thesis using l by simp
qed

theorem printf_atoi_roundtrip_witness:
  "atoi ((\<lambda>_. 0)(0 := 49, 1 := 50)) 0 = Some 12"
proof -
  have "u_printf ''%d'' [CInt 12] = Some [49, 50]" by code_simp
  moreover have "cstr ((\<lambda>_. 0)(0 := 49, 1 := 50)) 0 [49, 50]" by simp
  ultimately show ?thesis using printf_atoi_roundtrip [of "(\<lambda>_. 0)(0 := 49, 1 := 50)" 0 "[49, 50]" 12] by simp
qed

end
