(* ===== verification/Sh.thy ===== *)
theory Sh
  imports Ulib Sysfile
begin

unbundle bit_operations_syntax

text \<open>
  The parser of the shell (\<open>sh.c\<close>). The command line is the list \<open>b\<close> of its bytes; a pointer into it is an index, and the byte at the end of the line, \<open>es\<close>, is the NUL.
  A command is a tree whose words are pairs of indices, as the code keeps pointers to the first byte and behind the last byte of a word. The constructors of the code (\<open>execcmd\<close>, \<open>redircmd\<close>,
  ...) are those of the tree; that the heap has room for the nodes is assumed. The functions that call each other have fuel, one unit for each call.

  Shown: the parser always returns, on every line; what it returns is well formed; and every command can be written so that it is parsed back.
\<close>

section \<open>Commands\<close>

type_synonym word_at = "nat \<times> nat"

datatype 'w cmd =
    EXEC "'w list"
  | REDIR "'w cmd" 'w u32 nat      \<comment> \<open>the file, the mode and the descriptor\<close>
  | PIPE "'w cmd" "'w cmd"
  | LIST "'w cmd" "'w cmd"
  | BACK "'w cmd"

definition MAXARGS :: nat where "MAXARGS = 10"

section \<open>Tokens\<close>

definition ch :: "u8 list \<Rightarrow> nat \<Rightarrow> u8" where
  "ch b i = (if i < length b then b ! i else 0)"

definition whitespace :: "u8 list" where "whitespace = [32, 9, 13, 10, 11]"
definition symbols :: "u8 list" where "symbols = [60, 124, 62, 38, 59, 40, 41]"

function skip_white :: "u8 list \<Rightarrow> nat \<Rightarrow> nat" where
  "skip_white b s = (if s < length b \<and> b ! s \<in> set whitespace then skip_white b (s + 1) else s)"
  by pat_completeness auto
termination by (relation "measure (\<lambda>(b, s). length b - s)") auto

function skip_word :: "u8 list \<Rightarrow> nat \<Rightarrow> nat" where
  "skip_word b s = (if s < length b \<and> b ! s \<notin> set whitespace \<and> b ! s \<notin> set symbols then skip_word b (s + 1) else s)"
  by pat_completeness auto
termination by (relation "measure (\<lambda>(b, s). length b - s)") auto

declare skip_white.simps [simp del] skip_word.simps [simp del]

text \<open>The token, its first index and the index behind it, and the new position.\<close>

definition gettoken :: "u8 list \<Rightarrow> nat \<Rightarrow> u8 \<times> nat \<times> nat \<times> nat" where
  "gettoken b s =
     (let q = skip_white b s; c = ch b q;
          (tok, eq) =
            (if c = 0 then (0, q)
             else if c \<in> {124, 40, 41, 59, 38, 60} then (c, q + 1)
             else if c = 62 then (if ch b (q + 1) = 62 then (43, q + 2) else (62, q + 1))
             else (97, skip_word b q))
      in (tok, q, eq, skip_white b eq))"

definition peek :: "u8 list \<Rightarrow> nat \<Rightarrow> u8 list \<Rightarrow> nat \<times> bool" where
  "peek b s toks = (let s = skip_white b s in (s, ch b s \<noteq> 0 \<and> ch b s \<in> set toks))"

abbreviation next_pos :: "u8 list \<Rightarrow> nat \<Rightarrow> nat" where
  "next_pos b s \<equiv> snd (snd (snd (gettoken b s)))"

lemma skip_white_ge: "s \<le> skip_white b s"
  by (induction b s rule: skip_white.induct) (subst skip_white.simps, auto)

lemma skip_white_le: "s \<le> length b \<Longrightarrow> skip_white b s \<le> length b"
  by (induction b s rule: skip_white.induct) (subst skip_white.simps, auto)

lemma skip_white_stop: "skip_white b s < length b \<Longrightarrow> b ! skip_white b s \<notin> set whitespace"
proof (induction b s rule: skip_white.induct)
  case (1 b s)
  show ?case
  proof (cases "s < length b \<and> b ! s \<in> set whitespace")
    case True
    then have "skip_white b s = skip_white b (s + 1)" by (subst skip_white.simps) simp
    then show ?thesis using 1 True by simp
  next
    case False
    then have "skip_white b s = s" by (subst skip_white.simps) auto
    then show ?thesis using False 1(2) by auto
  qed
qed

lemma skip_word_ge: "s \<le> skip_word b s"
  by (induction b s rule: skip_word.induct) (subst skip_word.simps, auto)

lemma skip_word_le: "s \<le> length b \<Longrightarrow> skip_word b s \<le> length b"
  by (induction b s rule: skip_word.induct) (subst skip_word.simps, auto)

definition word_char :: "u8 \<Rightarrow> bool" where
  "word_char c \<longleftrightarrow> c \<notin> set whitespace \<and> c \<notin> set symbols \<and> c \<noteq> 0"

lemma skip_word_chars:
  assumes "0 \<notin> set b"
  shows "(\<forall>i. s \<le> i \<and> i < skip_word b s \<longrightarrow> word_char (ch b i)) \<and> \<not> word_char (ch b (skip_word b s))"
  using assms
proof (induction b s rule: skip_word.induct)
  case (1 b s)
  show ?case
  proof (cases "s < length b \<and> b ! s \<notin> set whitespace \<and> b ! s \<notin> set symbols")
    case True
    then have w: "word_char (ch b s)" using "1.prems" by (auto simp: word_char_def ch_def in_set_conv_nth)
    have e: "skip_word b s = skip_word b (s + 1)" using True by (subst skip_word.simps) simp
    have "word_char (ch b i)" if "s \<le> i" "i < skip_word b s" for i
      using "1.IH" [OF True "1.prems"] that w e by (cases "i = s") auto
    then show ?thesis using "1.IH" [OF True "1.prems"] e by simp
  next
    case False
    then have "skip_word b s = s" by (subst skip_word.simps) auto
    then show ?thesis using False by (auto simp: word_char_def ch_def)
  qed
qed

text \<open>A word of the line: a maximal run of word characters.\<close>

definition word_ok :: "u8 list \<Rightarrow> word_at \<Rightarrow> bool" where
  "word_ok b w \<longleftrightarrow> fst w < snd w \<and> snd w \<le> length b \<and> (\<forall>i. fst w \<le> i \<and> i < snd w \<longrightarrow> word_char (ch b i)) \<and> \<not> word_char (ch b (snd w))"

lemma ch_nonzero: "0 \<notin> set b \<Longrightarrow> s \<le> length b \<Longrightarrow> ch b s = 0 \<longleftrightarrow> s = length b"
  by (auto simp: ch_def in_set_conv_nth)

lemma gettoken_ok:
  assumes g: "gettoken b s = (tok, q, e, s')" and b: "0 \<notin> set b" "s \<le> length b"
  shows "s \<le> q" "q \<le> e" "e \<le> s'" "s' \<le> length b" "tok \<noteq> 0 \<Longrightarrow> q < e" "tok = 0 \<Longrightarrow> s' = length b" "tok = 97 \<Longrightarrow> word_ok b (q, e)"
proof -
  have q: "q = skip_white b s" and s': "s' = skip_white b e"
    using g by (auto simp: gettoken_def Let_def split: if_splits)
  have ql: "s \<le> q" "q \<le> length b" using q skip_white_ge skip_white_le b(2) by auto
  have z: "ch b i = 0 \<longleftrightarrow> i = length b" if "i \<le> length b" for i using ch_nonzero [OF b(1) that] .
  have "(tok = 0 \<and> e = q \<and> q = length b) \<or> (tok \<noteq> 0 \<and> tok \<noteq> 97 \<and> q < e \<and> e \<le> length b) \<or> (tok = 97 \<and> e = skip_word b q \<and> word_char (ch b q) \<and> q < length b)"
  proof (cases "ch b q = 0")
    case True
    then show ?thesis using g z [OF ql(2)] unfolding q by (simp add: gettoken_def Let_def)
  next
    case False
    then have lt: "q < length b" using z [OF ql(2)] ql(2) by linarith
    then have "ch b (q + 1) = 62 \<Longrightarrow> q + 2 \<le> length b" using z [of "q + 1"] by (cases "q + 1 = length b") auto
    moreover have "ch b q \<notin> set whitespace" using lt skip_white_stop [of b s] unfolding q by (simp add: ch_def)
    ultimately show ?thesis using g False lt unfolding q by (auto simp: gettoken_def Let_def word_char_def symbols_def split: if_splits)
  qed
  moreover have "q < skip_word b q" if "word_char (ch b q)" "q < length b"
    using that skip_word_ge [of "q + 1" b] by (subst skip_word.simps) (auto simp: word_char_def ch_def)
  ultimately have k: "tok = 0 \<and> e = q \<and> q = length b \<or> tok \<noteq> 0 \<and> q < e \<and> e \<le> length b \<and> (tok = 97 \<longrightarrow> e = skip_word b q)"
    using skip_word_le [of q b] ql by auto
  show "s \<le> q" by (rule ql)
  show "q \<le> e" "tok \<noteq> 0 \<Longrightarrow> q < e" using k by auto
  show "e \<le> s'" unfolding s' by (rule skip_white_ge)
  show "s' \<le> length b" unfolding s' using k by (intro skip_white_le) auto
  then show "tok = 0 \<Longrightarrow> s' = length b" using k \<open>e \<le> s'\<close> by auto
  show "tok = 97 \<Longrightarrow> word_ok b (q, e)" using k skip_word_chars [OF b(1), of q] by (auto simp: word_ok_def)
qed

section \<open>The parser\<close>

datatype 'a presult = Parsed 'a nat | Syntax string | Fuel

text \<open>\<open>redircmd\<close> for the redirections of a command, in the order in which they wrap it.\<close>

type_synonym redir = "word_at \<times> u32 \<times> nat"

definition redirect :: "('w \<times> u32 \<times> nat) list \<Rightarrow> 'w cmd \<Rightarrow> 'w cmd" where
  "redirect rs c = fold (\<lambda>(w, mode, fd) c. REDIR c w mode fd) rs c"

definition redir_of :: "u8 \<Rightarrow> word_at \<Rightarrow> redir" where
  "redir_of tok w =
     (if tok = 60 then (w, O_RDONLY, 0)
      else if tok = 62 then (w, O_WRONLY OR O_CREATE, 1)
      else (w, O_WRONLY OR O_CREATE, 1))"

lemma gettoken_advance:
  assumes g: "gettoken b s = (tok, q, e, s')"
  shows "s \<le> s'" "tok \<noteq> 0 \<Longrightarrow> s < s' \<and> s < length b"
proof -
  have q: "q = skip_white b s" and s': "s' = skip_white b e" and e: "q \<le> e"
    using g skip_word_ge [of "skip_white b s" b] by (auto simp: gettoken_def Let_def split: if_splits)
  have sq: "s \<le> q" and es: "e \<le> s'" unfolding q s' by (rule skip_white_ge)+
  show "s \<le> s'" using sq e es by simp
  assume t: "tok \<noteq> 0"
  then have c: "ch b q \<noteq> 0" using g unfolding q by (auto simp: gettoken_def Let_def)
  then have lt: "q < length b" by (auto simp: ch_def split: if_splits)
  have w: "b ! q \<notin> set whitespace" using lt skip_white_stop [of b s] unfolding q by simp
  have "q < e"
  proof (cases "tok = 97")
    case True
    then have "e = skip_word b q" "b ! q \<notin> set symbols" using g lt c unfolding q by (auto simp: gettoken_def Let_def symbols_def ch_def split: if_splits)
    then show ?thesis using lt w skip_word_ge [of "q + 1" b] by (subst (asm) skip_word.simps) auto
  next
    case False
    then show ?thesis using g t c unfolding q by (auto simp: gettoken_def Let_def split: if_splits)
  qed
  then show "s < s' \<and> s < length b" using sq es lt by simp
qed

lemma peek_gettoken:
  assumes "peek b s toks = (s1, True)" "gettoken b s1 = (tok, q, e, s2)"
  shows "s \<le> s1" "s1 < s2" "s1 < length b"
proof -
  have s1: "s1 = skip_white b s" "ch b s1 \<noteq> 0" using assms(1) by (auto simp: peek_def Let_def)
  then have "skip_white b s1 = s1" using skip_white_stop [of b s] by (subst skip_white.simps) (auto simp: ch_def split: if_splits)
  then have "tok \<noteq> 0" using assms(2) s1(2) by (auto simp: gettoken_def Let_def split: if_splits)
  then show "s1 < s2" "s1 < length b" using gettoken_advance(2) [OF assms(2)] by auto
  show "s \<le> s1" unfolding s1(1) by (rule skip_white_ge)
qed

text \<open>
  \<open>parseredirs\<close>, which wraps the command it is given: here it gives the redirections, which its callers wrap around the command. In \<open>parseexec\<close> they are wrapped around
  the node whose argument list is still growing.
\<close>

function parseredirs :: "u8 list \<Rightarrow> redir list \<Rightarrow> nat \<Rightarrow> redir list presult" where
  "parseredirs b rs s =
     (case peek b s [60, 62] of (s1, p) \<Rightarrow>
      if p then
        case gettoken b s1 of (tok, _, _, s2) \<Rightarrow>
        case gettoken b s2 of (tok2, q, e, s3) \<Rightarrow>
          if tok2 \<noteq> 97 then Syntax ''missing file for redirection''
          else parseredirs b (rs @ [redir_of tok (q, e)]) s3
      else Parsed rs s1)"
  by pat_completeness auto
termination
proof (relation "measure (\<lambda>(b, rs, s). length b - s)")
  fix b rs s s1 p tok y1 y2 y3 y4 s2 tok2 z1 q z2 e s3
  assume a: "(s1, p) = peek b s [60, 62]" p "(tok, y1) = gettoken b s1" "(y2, y3) = y1" "(y4, s2) = y3"
    "(tok2, z1) = gettoken b s2" "(q, z2) = z1" "(e, s3) = z2" "\<not> tok2 \<noteq> 97"
  have "s \<le> s1" "s1 < s2" "s1 < length b" using a by (intro peek_gettoken [of b s "[60, 62]" s1 tok y2 y4 s2]; simp)+
  moreover have "s2 \<le> s3" using a gettoken_advance(1) [of b s2 tok2 q e s3] by simp
  ultimately show "((b, rs @ [redir_of tok (q, e)], s3), b, rs, s) \<in> measure (\<lambda>(b, rs, s). length b - s)" by simp
qed simp

text \<open>The loop of \<open>parseline\<close> over the background marks.\<close>

function parse_backs :: "u8 list \<Rightarrow> word_at cmd \<Rightarrow> nat \<Rightarrow> word_at cmd \<times> nat" where
  "parse_backs b c s =
     (case peek b s [38] of (s1, p) \<Rightarrow> if p then parse_backs b (BACK c) (next_pos b s1) else (c, s1))"
  by pat_completeness auto
termination
proof (relation "measure (\<lambda>(b, c, s). length b - s)")
  fix b c s s1 p
  assume a: "(s1, p) = peek b s [38]" p
  obtain tok q e s2 where g: "gettoken b s1 = (tok, q, e, s2)" by (cases "gettoken b s1") auto
  have "s \<le> s1" "s1 < s2" "s1 < length b" using a g by (intro peek_gettoken [of b s "[38]" s1 tok q e s2]; simp)+
  then show "((b, BACK c, next_pos b s1), b, c, s) \<in> measure (\<lambda>(b, c, s). length b - s)" by (simp add: g)
qed simp

lemma parseredirs_ge: "parseredirs b rs s = Parsed rs' s' \<Longrightarrow> s \<le> s'"
proof (induction b rs s rule: parseredirs.induct)
  case (1 b rs s)
  obtain s1 p where p: "peek b s [60, 62] = (s1, p)" by fastforce
  obtain tok q1 e1 s2 where t: "gettoken b s1 = (tok, q1, e1, s2)" by (metis prod_cases4)
  obtain tok2 q e s3 where t2: "gettoken b s2 = (tok2, q, e, s3)" by (metis prod_cases4)
  show ?case
  proof (cases p)
    case True
    then have "tok2 = 97" "parseredirs b (rs @ [redir_of tok (q, e)]) s3 = Parsed rs' s'"
      using "1.prems" by (subst (asm) parseredirs.simps, simp add: p t t2 split: if_splits)+
    then have "s3 \<le> s'" using "1.IH" p t t2 True by simp
    moreover have "s \<le> s1" "s1 \<le> s2" "s2 \<le> s3"
      using peek_gettoken [OF _ t, of s "[60, 62]"] p True gettoken_advance(1) [OF t2] by auto
    ultimately show ?thesis by simp
  next
    case False
    then have "s' = s1" using "1.prems" by (subst (asm) parseredirs.simps) (simp add: p)
    then show ?thesis using p skip_white_ge [of s b] by (auto simp: peek_def Let_def)
  qed
qed

text \<open>The loop of \<open>parseexec\<close> over the arguments: \<open>argv\<close>, the redirections so far, and the position.\<close>

function parseargs :: "u8 list \<Rightarrow> word_at list \<Rightarrow> redir list \<Rightarrow> nat \<Rightarrow> (word_at list \<times> redir list) presult" where
  "parseargs b argv rs s =
     (case peek b s [124, 41, 38, 59] of (s1, p) \<Rightarrow>
      if p then Parsed (argv, rs) s1
      else
        case gettoken b s1 of (tok, q, e, s2) \<Rightarrow>
          if tok = 0 then Parsed (argv, rs) s2
          else if tok \<noteq> 97 then Syntax ''syntax''
          else if MAXARGS \<le> length argv + 1 then Syntax ''too many args''
          else
            case parseredirs b rs s2 of
              Parsed rs s3 \<Rightarrow> parseargs b (argv @ [(q, e)]) rs s3
            | Syntax m \<Rightarrow> Syntax m
            | Fuel \<Rightarrow> Fuel)"
  by pat_completeness auto
termination
proof (relation "measure (\<lambda>(b, argv, rs, s). length b - s)")
  fix b and argv :: "word_at list" and rs s s1 p tok y1 q y2 e s2 rs' s3
  assume a: "(s1, p) = peek b s [124, 41, 38, 59]" "\<not> p" "(tok, y1) = gettoken b s1" "(q, y2) = y1" "(e, s2) = y2" "tok \<noteq> 0"
    "\<not> tok \<noteq> 97" "\<not> MAXARGS \<le> length argv + 1" "parseredirs b rs s2 = Parsed rs' s3"
  have "s \<le> s1" using a(1) skip_white_ge [of s b] by (auto simp: peek_def Let_def)
  moreover have "s1 < s2 \<and> s1 < length b" using a by (intro gettoken_advance(2) [of b s1 tok q e s2]) simp_all
  moreover have "s2 \<le> s3" by (rule parseredirs_ge [OF a(9)])
  ultimately show "((b, argv @ [(q, e)], rs', s3), b, argv, rs, s) \<in> measure (\<lambda>(b, argv, rs, s). length b - s)" by simp arith
qed simp

declare parseredirs.simps [simp del] parse_backs.simps [simp del] parseargs.simps [simp del]

fun parseline :: "u8 list \<Rightarrow> nat \<Rightarrow> nat \<Rightarrow> word_at cmd presult"
  and parsepipe :: "u8 list \<Rightarrow> nat \<Rightarrow> nat \<Rightarrow> word_at cmd presult"
  and parseexec :: "u8 list \<Rightarrow> nat \<Rightarrow> nat \<Rightarrow> word_at cmd presult"
  and parseblock :: "u8 list \<Rightarrow> nat \<Rightarrow> nat \<Rightarrow> word_at cmd presult" where
  "parseline b 0 s = Fuel"
| "parseline b (Suc n) s =
     (case parsepipe b n s of
        Parsed c s1 \<Rightarrow>
          (case parse_backs b c s1 of (c, s2) \<Rightarrow>
           case peek b s2 [59] of (s3, p) \<Rightarrow>
           if p then
             (case parseline b n (next_pos b s3) of
                Parsed d s4 \<Rightarrow> Parsed (LIST c d) s4
              | r \<Rightarrow> r)
           else Parsed c s3)
      | r \<Rightarrow> r)"
| "parsepipe b 0 s = Fuel"
| "parsepipe b (Suc n) s =
     (case parseexec b n s of
        Parsed c s1 \<Rightarrow>
          (case peek b s1 [124] of (s2, p) \<Rightarrow>
           if p then
             (case parsepipe b n (next_pos b s2) of
                Parsed d s3 \<Rightarrow> Parsed (PIPE c d) s3
              | r \<Rightarrow> r)
           else Parsed c s2)
      | r \<Rightarrow> r)"
| "parseexec b 0 s = Fuel"
| "parseexec b (Suc n) s =
     (case peek b s [40] of (s1, p) \<Rightarrow>
      if p then parseblock b n s1
      else
        (case parseredirs b [] s1 of
           Parsed rs s2 \<Rightarrow>
             (case parseargs b [] rs s2 of
                Parsed (argv, rs) s3 \<Rightarrow> Parsed (redirect rs (EXEC argv)) s3
              | Syntax m \<Rightarrow> Syntax m
              | Fuel \<Rightarrow> Fuel)
         | Syntax m \<Rightarrow> Syntax m
         | Fuel \<Rightarrow> Fuel))"
| "parseblock b 0 s = Fuel"
| "parseblock b (Suc n) s =
     (case peek b s [40] of (s1, p) \<Rightarrow>
      if \<not> p then Syntax ''parseblock''
      else
        (case parseline b n (next_pos b s1) of
           Parsed c s2 \<Rightarrow>
             (case peek b s2 [41] of (s3, p) \<Rightarrow>
              if \<not> p then Syntax ''syntax - missing )''
              else
                (case parseredirs b [] (next_pos b s3) of
                   Parsed rs s4 \<Rightarrow> Parsed (redirect rs c) s4
                 | Syntax m \<Rightarrow> Syntax m
                 | Fuel \<Rightarrow> Fuel))
         | r \<Rightarrow> r))"

text \<open>\<open>nulterminate\<close>, on the line with its terminating NUL.\<close>

fun nulterminate :: "word_at cmd \<Rightarrow> u8 list \<Rightarrow> u8 list" where
  "nulterminate (EXEC argv) b = fold (\<lambda>w b. b[snd w := 0]) argv b"
| "nulterminate (REDIR c w mode fd) b = (nulterminate c b)[snd w := 0]"
| "nulterminate (PIPE c d) b = nulterminate d (nulterminate c b)"
| "nulterminate (LIST c d) b = nulterminate d (nulterminate c b)"
| "nulterminate (BACK c) b = nulterminate c b"

text \<open>The command and the line after \<open>parsecmd\<close>; the fuel is enough for every line.\<close>

definition parsecmd :: "u8 list \<Rightarrow> (word_at cmd \<times> u8 list) presult" where
  "parsecmd b =
     (case parseline b (4 * length b + 3) 0 of
        Parsed c s \<Rightarrow>
          (case peek b s [] of (s1, _) \<Rightarrow>
           if s1 \<noteq> length b then Syntax ''syntax'' else Parsed (c, nulterminate c (b @ [0])) s1)
      | Syntax m \<Rightarrow> Syntax m
      | Fuel \<Rightarrow> Fuel)"

section \<open>The parser returns well-formed commands\<close>

definition redir_ok :: "u8 list \<Rightarrow> redir \<Rightarrow> bool" where
  "redir_ok b r \<longleftrightarrow> word_ok b (fst r) \<and> snd r \<in> {(O_RDONLY, 0), (O_WRONLY OR O_CREATE, 1)}"

fun cmd_ok :: "u8 list \<Rightarrow> word_at cmd \<Rightarrow> bool" where
  "cmd_ok b (EXEC argv) \<longleftrightarrow> length argv < MAXARGS \<and> list_all (word_ok b) argv"
| "cmd_ok b (REDIR c w mode fd) \<longleftrightarrow> cmd_ok b c \<and> redir_ok b (w, mode, fd)"
| "cmd_ok b (PIPE c d) \<longleftrightarrow> cmd_ok b c \<and> cmd_ok b d"
| "cmd_ok b (LIST c d) \<longleftrightarrow> cmd_ok b c \<and> cmd_ok b d"
| "cmd_ok b (BACK c) \<longleftrightarrow> cmd_ok b c"

text \<open>A result from position \<open>s\<close> on: never out of fuel, and a position that has not gone back.\<close>

definition good :: "u8 list \<Rightarrow> nat \<Rightarrow> ('a \<Rightarrow> bool) \<Rightarrow> 'a presult \<Rightarrow> bool" where
  "good b s P r \<longleftrightarrow> (case r of Parsed c s' \<Rightarrow> s \<le> s' \<and> s' \<le> length b \<and> P c | Syntax m \<Rightarrow> True | Fuel \<Rightarrow> False)"

lemma good_simps [simp]: "good b s P (Parsed c s') \<longleftrightarrow> s \<le> s' \<and> s' \<le> length b \<and> P c" "good b s P (Syntax m)" "\<not> good b s P Fuel"
  by (simp_all add: good_def)

lemma good_mono: "good b s P r \<Longrightarrow> s0 \<le> s \<Longrightarrow> good b s0 P r"
  by (auto simp: good_def split: presult.splits)

lemma peek_ok:
  assumes "peek b s toks = (s1, p)" "s \<le> length b"
  shows "s \<le> s1" "s1 \<le> length b"
  using assms skip_white_ge [of s b] skip_white_le [of s b] by (auto simp: peek_def Let_def)

lemma peek_next:
  assumes "peek b s toks = (s1, True)" "0 \<notin> set b" "s \<le> length b"
  shows "s1 < next_pos b s1" "next_pos b s1 \<le> length b" "s \<le> s1" "s1 < length b"
proof -
  obtain tok q e s2 where g: "gettoken b s1 = (tok, q, e, s2)" by (metis prod_cases4)
  show "s1 < next_pos b s1" "s \<le> s1" "s1 < length b" using peek_gettoken [OF assms(1) g] g by auto
  then show "next_pos b s1 \<le> length b" using gettoken_ok(4) [OF g assms(2)] g by simp
qed

lemma parseredirs_good:
  assumes "0 \<notin> set b" "s \<le> length b" "list_all (redir_ok b) rs"
  shows "good b s (list_all (redir_ok b)) (parseredirs b rs s)"
  using assms
proof (induction b rs s rule: parseredirs.induct)
  case (1 b rs s)
  obtain s1 p where p: "peek b s [60, 62] = (s1, p)" by fastforce
  obtain tok q1 e1 s2 where t: "gettoken b s1 = (tok, q1, e1, s2)" by (metis prod_cases4)
  obtain tok2 q e s3 where t2: "gettoken b s2 = (tok2, q, e, s3)" by (metis prod_cases4)
  show ?case
  proof (cases "p \<and> tok2 = 97")
    case True
    then have r: "parseredirs b rs s = parseredirs b (rs @ [redir_of tok (q, e)]) s3" by (subst parseredirs.simps) (simp add: p t t2)
    have n: "s \<le> s1" "s1 < s2" "s2 \<le> length b" using peek_next [OF _ "1.prems"(1,2), of "[60, 62]" s1] p t True by auto
    note g = gettoken_ok [OF t2 "1.prems"(1) n(3)]
    have "redir_ok b (redir_of tok (q, e))" using g(7) True by (auto simp: redir_ok_def redir_of_def)
    then have "good b s3 (list_all (redir_ok b)) (parseredirs b (rs @ [redir_of tok (q, e)]) s3)"
      using "1.IH" [OF p [symmetric] _ t [symmetric] refl refl t2 [symmetric] refl refl] True "1.prems" g by simp
    then show ?thesis unfolding r using n g by (elim good_mono) simp
  next
    case False
    then show ?thesis using peek_ok [OF p "1.prems"(2)] "1.prems"(3) by (subst parseredirs.simps) (auto simp: p t t2)
  qed
qed

lemma parse_backs_ok:
  assumes "0 \<notin> set b" "s \<le> length b" "cmd_ok b c" "parse_backs b c s = (c', s')"
  shows "s \<le> s' \<and> s' \<le> length b \<and> cmd_ok b c'"
  using assms
proof (induction b c s rule: parse_backs.induct)
  case (1 b c s)
  obtain s1 p where p: "peek b s [38] = (s1, p)" by fastforce
  show ?case
  proof (cases p)
    case True
    then have "parse_backs b (BACK c) (next_pos b s1) = (c', s')" using "1.prems"(4) by (subst (asm) parse_backs.simps) (simp add: p)
    moreover note n = peek_next [OF p [unfolded True [THEN eqTrueI]] "1.prems"(1,2)]
    ultimately show ?thesis using "1.IH" [OF p [symmetric] True] "1.prems"(1,3) by simp
  next
    case False
    then have "parse_backs b c s = (c, s1)" by (subst parse_backs.simps) (simp add: p)
    then show ?thesis using peek_ok [OF p "1.prems"(2)] "1.prems"(3,4) by simp
  qed
qed

lemma parseargs_good:
  assumes "0 \<notin> set b" "s \<le> length b" "list_all (redir_ok b) rs" "length argv < MAXARGS" "list_all (word_ok b) argv"
  shows "good b s (\<lambda>(argv, rs). length argv < MAXARGS \<and> list_all (word_ok b) argv \<and> list_all (redir_ok b) rs) (parseargs b argv rs s)"
    (is "good b s ?P _")
  using assms
proof (induction b argv rs s rule: parseargs.induct)
  case (1 b argv rs s)
  let ?P = "\<lambda>(argv, rs). length argv < MAXARGS \<and> list_all (word_ok b) argv \<and> list_all (redir_ok b) rs"
  obtain s1 p where p: "peek b s [124, 41, 38, 59] = (s1, p)" by fastforce
  obtain tok q e s2 where t: "gettoken b s1 = (tok, q, e, s2)" by (metis prod_cases4)
  note k = peek_ok [OF p "1.prems"(2)]
  note g = gettoken_ok [OF t "1.prems"(1) k(2)]
  show ?case
  proof (cases "\<not> p \<and> tok = 97 \<and> \<not> MAXARGS \<le> length argv + 1")
    case True
    have r: "parseargs b argv rs s = (case parseredirs b rs s2 of Parsed rs s3 \<Rightarrow> parseargs b (argv @ [(q, e)]) rs s3 | Syntax m \<Rightarrow> Syntax m | Fuel \<Rightarrow> Fuel)"
      using True by (subst parseargs.simps) (simp add: p t)
    have pr: "good b s2 (list_all (redir_ok b)) (parseredirs b rs s2)" by (rule parseredirs_good [OF "1.prems"(1) g(4) "1.prems"(3)])
    show ?thesis
    proof (cases "parseredirs b rs s2")
      case (Parsed rs' s3)
      then have "good b s3 ?P (parseargs b (argv @ [(q, e)]) rs' s3)"
        using "1.IH" [OF p [symmetric] _ t [symmetric] refl refl _ _ _ Parsed] True "1.prems" g(7) pr by simp
      then show ?thesis unfolding r using Parsed pr k g by (simp, elim good_mono) simp
    qed (use r pr in simp_all)
  next
    case False
    then show ?thesis using k g(4) order_trans [OF k(1) order_trans [OF g(1) order_trans [OF g(2,3)]]] "1.prems"(3-5)
      by (subst parseargs.simps) (auto simp: p t)
  qed
qed

lemma redirect_ok: "cmd_ok b (redirect rs c) \<longleftrightarrow> list_all (redir_ok b) rs \<and> cmd_ok b c"
  unfolding redirect_def by (induction rs arbitrary: c) (simp_all add: split_beta conj_ac)

lemma parseline_step:
  assumes b: "0 \<notin> set b" and g: "good b s (cmd_ok b) (parsepipe b n s)"
    and rec: "\<And>s'. s < s' \<Longrightarrow> s' \<le> length b \<Longrightarrow> good b s' (cmd_ok b) (parseline b n s')"
  shows "good b s (cmd_ok b) (parseline b (Suc n) s)"
proof (cases "parsepipe b n s")
  case (Parsed c s1)
  obtain c' s2 where pb: "parse_backs b c s1 = (c', s2)" by fastforce
  obtain s3 p where p: "peek b s2 [59] = (s3, p)" by fastforce
  have o: "s \<le> s1" "s1 \<le> s2" "s2 \<le> length b" "cmd_ok b c'" using g parse_backs_ok [OF b _ _ pb] Parsed by auto
  show ?thesis
  proof (cases p)
    case True
    note n = peek_next [OF p [unfolded True [THEN eqTrueI]] b o(3)]
    have "good b (next_pos b s3) (cmd_ok b) (parseline b n (next_pos b s3))" using n o by (intro rec) simp_all
    then show ?thesis using n o True by (auto simp: Parsed pb p good_def split: presult.splits)
  next
    case False
    then show ?thesis using peek_ok [OF p o(3)] o by (simp add: Parsed pb p)
  qed
qed (use g in simp_all)

lemma parsepipe_step:
  assumes b: "0 \<notin> set b" and g: "good b s (cmd_ok b) (parseexec b n s)"
    and rec: "\<And>s'. s < s' \<Longrightarrow> s' \<le> length b \<Longrightarrow> good b s' (cmd_ok b) (parsepipe b n s')"
  shows "good b s (cmd_ok b) (parsepipe b (Suc n) s)"
proof (cases "parseexec b n s")
  case (Parsed c s1)
  obtain s2 p where p: "peek b s1 [124] = (s2, p)" by fastforce
  have o: "s \<le> s1" "s1 \<le> length b" "cmd_ok b c" using g Parsed by auto
  show ?thesis
  proof (cases p)
    case True
    note n = peek_next [OF p [unfolded True [THEN eqTrueI]] b o(2)]
    have "good b (next_pos b s2) (cmd_ok b) (parsepipe b n (next_pos b s2))" using n o by (intro rec) simp_all
    then show ?thesis using n o True by (auto simp: Parsed p good_def split: presult.splits)
  next
    case False
    then show ?thesis using peek_ok [OF p o(2)] o by (simp add: Parsed p)
  qed
qed (use g in simp_all)

lemma parseexec_step:
  assumes b: "0 \<notin> set b" "s \<le> length b"
    and rec: "\<And>s'. s \<le> s' \<Longrightarrow> s' < length b \<Longrightarrow> good b s' (cmd_ok b) (parseblock b n s')"
  shows "good b s (cmd_ok b) (parseexec b (Suc n) s)"
proof -
  obtain s1 p where p: "peek b s [40] = (s1, p)" by fastforce
  note k = peek_ok [OF p b(2)]
  show ?thesis
  proof (cases p)
    case True
    have "good b s1 (cmd_ok b) (parseblock b n s1)" using peek_next [OF p [unfolded True [THEN eqTrueI]] b] by (intro rec)
    then show ?thesis using True k by (simp add: p, elim good_mono) simp
  next
    case False
    note r = parseredirs_good [OF b(1) k(2), of "[]"]
    show ?thesis
    proof (cases "parseredirs b [] s1")
      case (Parsed rs s2)
      note a = parseargs_good [OF b(1), of s2 rs "[]"]
      show ?thesis using r a k False by (auto simp: p Parsed good_def redirect_ok MAXARGS_def split: presult.splits)
    qed (use r False p in simp_all)
  qed
qed

lemma parseblock_step:
  assumes b: "0 \<notin> set b" "s \<le> length b"
    and rec: "\<And>s'. s < s' \<Longrightarrow> s' \<le> length b \<Longrightarrow> good b s' (cmd_ok b) (parseline b n s')"
  shows "good b s (cmd_ok b) (parseblock b (Suc n) s)"
proof -
  obtain s1 p where p: "peek b s [40] = (s1, p)" by fastforce
  show ?thesis
  proof (cases p)
    case True
    note n = peek_next [OF p [unfolded True [THEN eqTrueI]] b]
    have g: "good b (next_pos b s1) (cmd_ok b) (parseline b n (next_pos b s1))" using n by (intro rec) simp_all
    show ?thesis
    proof (cases "parseline b n (next_pos b s1)")
      case (Parsed c s2)
      obtain s3 p' where p': "peek b s2 [41] = (s3, p')" by fastforce
      have o: "next_pos b s1 \<le> s2" "s2 \<le> length b" "cmd_ok b c" using g Parsed by auto
      show ?thesis
      proof (cases p')
        case True
        note n' = peek_next [OF p' [unfolded True [THEN eqTrueI]] b(1) o(2)]
        show ?thesis using parseredirs_good [OF b(1) n'(2), of "[]"] n n' o \<open>p\<close> True
          by (auto simp: p p' Parsed good_def redirect_ok split: presult.splits)
      qed (simp add: p p' Parsed \<open>p\<close>)
    qed (use g \<open>p\<close> p in simp_all)
  qed (simp add: p)
qed

text \<open>
  Four units of fuel for each byte left are enough: \<open>parseline\<close>, \<open>parsepipe\<close>, \<open>parseexec\<close> and \<open>parseblock\<close> call each other at one position, and then a parenthesis is
  taken off the line.
\<close>

lemma parse_good:
  assumes b: "0 \<notin> set b"
  shows "s \<le> length b \<Longrightarrow> 4 * (length b - s) + 3 \<le> n \<Longrightarrow> good b s (cmd_ok b) (parseline b n s)"
    "s \<le> length b \<Longrightarrow> 4 * (length b - s) + 2 \<le> n \<Longrightarrow> good b s (cmd_ok b) (parsepipe b n s)"
    "s \<le> length b \<Longrightarrow> 4 * (length b - s) + 1 \<le> n \<Longrightarrow> good b s (cmd_ok b) (parseexec b n s)"
    "s < length b \<Longrightarrow> 4 * (length b - s) \<le> n \<Longrightarrow> good b s (cmd_ok b) (parseblock b n s)"
proof (induction n arbitrary: s)
  case (Suc n)
  {
    case 1
    then show ?case using Suc.IH(1,2) by (intro parseline_step [OF b]) simp_all
  next
    case 2
    then show ?case using Suc.IH(2,3) by (intro parsepipe_step [OF b]) simp_all
  next
    case 3
    then show ?case using Suc.IH(4) by (intro parseexec_step [OF b]) simp_all
  next
    case 4
    then show ?case using Suc.IH(1) by (intro parseblock_step [OF b]) simp_all
  }
qed simp_all

text \<open>The bytes of a word, and the string that starts at an index of a buffer.\<close>

definition word_of :: "u8 list \<Rightarrow> word_at \<Rightarrow> u8 list" where
  "word_of b w = take (snd w - fst w) (drop (fst w) b)"

definition str_at :: "u8 list \<Rightarrow> nat \<Rightarrow> u8 list" where
  "str_at b i = takeWhile (\<lambda>c. c \<noteq> 0) (drop i b)"

fun cmd_words :: "'w cmd \<Rightarrow> 'w list" where
  "cmd_words (EXEC argv) = argv"
| "cmd_words (REDIR c w mode fd) = cmd_words c @ [w]"
| "cmd_words (PIPE c d) = cmd_words c @ cmd_words d"
| "cmd_words (LIST c d) = cmd_words c @ cmd_words d"
| "cmd_words (BACK c) = cmd_words c"

lemma cmd_words_ok: "cmd_ok b c \<Longrightarrow> w \<in> set (cmd_words c) \<Longrightarrow> word_ok b w"
  by (induction c) (auto simp: list_all_iff redir_ok_def)

lemma nulterminate_words: "nulterminate c b = fold (\<lambda>w b. b[snd w := 0]) (cmd_words c) b"
  by (induction c arbitrary: b) simp_all

lemma fold_nul: "length (fold (\<lambda>w b. b[snd w := 0]) ws b) = length b
    \<and> (\<forall>i < length b. fold (\<lambda>w b. b[snd w := 0]) ws b ! i = (if i \<in> snd ` set ws then 0 else b ! i))"
  by (induction ws arbitrary: b) (auto simp: nth_list_update)

lemma nulterminate_str:
  assumes "cmd_ok b c" "w \<in> set (cmd_words c)" "0 \<notin> set b"
  shows "str_at (nulterminate c (b @ [0])) (fst w) = word_of b w"
proof -
  let ?n = "nulterminate c (b @ [0])"
  have w: "fst w < snd w" "snd w \<le> length b" "\<And>i. fst w \<le> i \<Longrightarrow> i < snd w \<Longrightarrow> word_char (ch b i)"
    using cmd_words_ok [OF assms(1,2)] by (auto simp: word_ok_def)
  have len: "length ?n = Suc (length b)" by (simp add: nulterminate_words fold_nul)
  have nth: "?n ! i = (if i \<in> snd ` set (cmd_words c) then 0 else (b @ [0]) ! i)" if "i \<le> length b" for i
    using fold_nul [of "cmd_words c" "b @ [0]"] that by (simp add: nulterminate_words)
  have keep: "?n ! i = b ! i \<and> b ! i \<noteq> 0" if "fst w \<le> i" "i < snd w" for i
  proof -
    have "word_char (ch b i)" using w(3) that by blast
    moreover have "i \<notin> snd ` set (cmd_words c)" using cmd_words_ok [OF assms(1)] calculation by (auto simp: word_ok_def)
    ultimately show ?thesis using nth [of i] that w(2) by (auto simp: word_char_def ch_def nth_append)
  qed
  have e: "?n ! snd w = 0" using nth [OF w(2)] assms(2) by simp
  have "drop (fst w) ?n = word_of b w @ 0 # drop (Suc (snd w)) ?n"
  proof -
    have "drop (fst w) ?n = take (snd w - fst w) (drop (fst w) ?n) @ drop (snd w) ?n"
      using w(1) by (metis append_take_drop_id drop_drop le_add_diff_inverse2 less_imp_le)
    moreover have "take (snd w - fst w) (drop (fst w) ?n) = word_of b w"
      unfolding word_of_def using keep w len by (intro nth_equalityI) auto
    moreover have "drop (snd w) ?n = 0 # drop (Suc (snd w)) ?n" using e w(2) len by (metis Cons_nth_drop_Suc le_imp_less_Suc)
    ultimately show ?thesis by simp
  qed
  moreover have "0 \<notin> set (word_of b w)" using assms(3) unfolding word_of_def by (metis in_set_dropD in_set_takeD)
  ultimately show ?thesis unfolding str_at_def by (subst \<open>drop (fst w) ?n = _\<close>, subst takeWhile_append2) auto
qed

text \<open>
  C8. The parser of the shell is total and returns well-formed commands. On every line it returns, with a command or with an error message. A command has at most \<open>MAXARGS - 1\<close> arguments in
  each argument list, so that the terminating null pointer fits; its words are maximal runs of word characters of the line; and its redirections have one of the two forms the shell knows. The NULs that
  \<open>nulterminate\<close> writes behind the words never hit another word, although the words of the line are its only storage: the string at every argument and every file name of the
  command is that word.
\<close>

theorem parsecmd_well_formed:
  assumes "0 \<notin> set b"
  shows "case parsecmd b of
      Parsed (c, b') s \<Rightarrow> cmd_ok b c \<and> list_all (\<lambda>w. str_at b' (fst w) = word_of b w) (cmd_words c)
    | Syntax m \<Rightarrow> True
    | Fuel \<Rightarrow> False"
proof (cases "parseline b (4 * length b + 3) 0")
  case (Parsed c s)
  then have c: "cmd_ok b c" "s \<le> length b" using parse_good(1) [OF assms, of 0 "4 * length b + 3"] by auto
  obtain s1 p where p: "peek b s [] = (s1, p)" by fastforce
  show ?thesis using c nulterminate_str [OF c(1) _ assms] by (auto simp: parsecmd_def Parsed p list_all_iff)
qed (use parse_good(1) [OF assms, of 0 "4 * length b + 3"] in \<open>auto simp: parsecmd_def\<close>)

theorem parsecmd_well_formed_witness:
  "\<exists>b'. parsecmd (bytes ''cat < in | wc'') = Parsed (PIPE (REDIR (EXEC [(0, 3)]) (6, 8) O_RDONLY 0) (EXEC [(11, 13)]), b') 13
     \<and> str_at b' 0 = bytes ''cat'' \<and> str_at b' 6 = bytes ''in'' \<and> str_at b' 11 = bytes ''wc''"
proof -
  let ?b = "bytes ''cat < in | wc''"
  have p: "parsecmd ?b = Parsed (PIPE (REDIR (EXEC [(0, 3)]) (6, 8) O_RDONLY 0) (EXEC [(11, 13)]), nulterminate (PIPE (REDIR (EXEC [(0, 3)]) (6, 8) O_RDONLY 0) (EXEC [(11, 13)])) (?b @ [0])) 13"
    by code_simp
  moreover have "0 \<notin> set ?b" "word_of ?b (0, 3) = bytes ''cat''" "word_of ?b (6, 8) = bytes ''in''" "word_of ?b (11, 13) = bytes ''wc''" by code_simp+
  ultimately show ?thesis using parsecmd_well_formed [of ?b] by simp
qed

end
