(* ===== verification/Shprint.thy ===== *)
theory Shprint
  imports Sh
begin

text \<open>
  Every command can be written on a line that the parser of the shell turns back into the command. The line has a space behind each token, and parentheses where the grammar
  of the parser needs them.
\<close>

section \<open>Writing a command\<close>

definition show_redir :: "u8 list \<times> u32 \<times> nat \<Rightarrow> u8 list" where
  "show_redir r = (case r of (w, mode, fd) \<Rightarrow> (if fd = 0 then 60 else 62) # 32 # w @ [32])"

definition parens :: "bool \<Rightarrow> u8 list \<Rightarrow> u8 list" where
  "parens p ts = (if p then [40, 32] @ ts @ [41, 32] else ts)"

text \<open>At level 0 as a line, at 1 as a command of a list, at 2 as a pipeline and at 3 as a command of a pipeline.\<close>

fun show_cmd :: "nat \<Rightarrow> u8 list cmd \<Rightarrow> u8 list" where
  "show_cmd l (EXEC ws) = concat (map (\<lambda>w. w @ [32]) ws)"
| "show_cmd l (REDIR c w mode fd) = show_cmd 3 c @ show_redir (w, mode, fd)"
| "show_cmd l (PIPE c d) = parens (3 \<le> l) (show_cmd 3 c @ [124, 32] @ show_cmd 2 d)"
| "show_cmd l (BACK c) = parens (2 \<le> l) (show_cmd 1 c @ [38, 32])"
| "show_cmd l (LIST c d) = parens (1 \<le> l) (show_cmd 1 c @ [59, 32] @ show_cmd 0 d)"

definition valid_word :: "u8 list \<Rightarrow> bool" where
  "valid_word w \<longleftrightarrow> w \<noteq> [] \<and> list_all word_char w"

definition valid_redir :: "u8 list \<times> u32 \<times> nat \<Rightarrow> bool" where
  "valid_redir r \<longleftrightarrow> valid_word (fst r) \<and> snd r \<in> {(O_RDONLY, 0), (O_WRONLY OR O_CREATE, 1)}"

fun valid_cmd :: "u8 list cmd \<Rightarrow> bool" where
  "valid_cmd (EXEC ws) \<longleftrightarrow> length ws < MAXARGS \<and> list_all valid_word ws"
| "valid_cmd (REDIR c w mode fd) \<longleftrightarrow> valid_cmd c \<and> valid_redir (w, mode, fd)"
| "valid_cmd (PIPE c d) \<longleftrightarrow> valid_cmd c \<and> valid_cmd d"
| "valid_cmd (LIST c d) \<longleftrightarrow> valid_cmd c \<and> valid_cmd d"
| "valid_cmd (BACK c) \<longleftrightarrow> valid_cmd c"

section \<open>Tokens of a line\<close>

definition no_white :: "u8 list \<Rightarrow> bool" where
  "no_white ts \<longleftrightarrow> ts = [] \<or> hd ts \<notin> set whitespace"

lemma skip_white_here: "no_white ts \<Longrightarrow> skip_white (pre @ ts) (length pre) = length pre"
  by (subst skip_white.simps) (auto simp: no_white_def nth_append hd_conv_nth)

lemma skip_white_space:
  assumes "no_white ts"
  shows "skip_white (pre @ 32 # ts) (length pre) = Suc (length pre)"
proof -
  have "skip_white (pre @ 32 # ts) (length pre) = skip_white (pre @ 32 # ts) (length pre + 1)"
    by (subst skip_white.simps) (simp add: whitespace_def nth_append)
  also have "\<dots> = Suc (length pre)" using skip_white_here [OF assms, of "pre @ [32]"] by simp
  finally show ?thesis .
qed

lemma ch_here: "ch (pre @ ts) (length pre) = (if ts = [] then 0 else hd ts)"
  by (auto simp: ch_def nth_append hd_conv_nth)

lemma peek_here:
  assumes "no_white ts" "0 \<notin> set ts"
  shows "peek (pre @ ts) (length pre) toks = (length pre, ts \<noteq> [] \<and> hd ts \<in> set toks)"
proof -
  have "ts \<noteq> [] \<Longrightarrow> hd ts \<noteq> 0" using assms(2) by (cases ts) auto
  then show ?thesis by (auto simp: peek_def Let_def skip_white_here [OF assms(1)] ch_here)
qed

lemma skip_word_here:
  assumes "list_all word_char w"
  shows "skip_word (pre @ w @ 32 # ts) (length pre) = length pre + length w"
  using assms
proof (induction w arbitrary: pre)
  case Nil
  then show ?case by (subst skip_word.simps) (simp add: nth_append whitespace_def)
next
  case (Cons c w)
  have "skip_word (pre @ (c # w) @ 32 # ts) (length pre) = skip_word ((pre @ [c]) @ w @ 32 # ts) (length (pre @ [c]))"
    using Cons.prems by (subst skip_word.simps) (simp add: nth_append word_char_def)
  then show ?case using Cons.IH [of "pre @ [c]"] Cons.prems by simp
qed

lemma word_char_hd: "valid_word w \<Longrightarrow> word_char (hd w)"
  by (cases w) (auto simp: valid_word_def)

lemma gettoken_word:
  assumes "valid_word w" "no_white ts"
  shows "gettoken (pre @ w @ 32 # ts) (length pre) = (97, length pre, length pre + length w, length pre + length w + 1)"
proof -
  let ?b = "pre @ w @ 32 # ts"
  have h: "word_char (hd w)" "w \<noteq> []" using word_char_hd [OF assms(1)] assms(1) by (auto simp: valid_word_def)
  then have "no_white (w @ 32 # ts)" by (auto simp: no_white_def word_char_def)
  then have q: "skip_white ?b (length pre) = length pre" by (rule skip_white_here)
  have c: "ch ?b (length pre) = hd w" using h by (simp add: ch_here)
  have e: "skip_word ?b (length pre) = length pre + length w" using assms(1) by (intro skip_word_here) (simp add: valid_word_def)
  have "skip_white ?b (length pre + length w) = length pre + length w + 1" using skip_white_space [OF assms(2), of "pre @ w"] by simp
  then show ?thesis using h(1) by (auto simp: gettoken_def Let_def q c e word_char_def symbols_def)
qed

lemma gettoken_symbol:
  assumes "c \<in> set symbols" "no_white ts"
  shows "gettoken (pre @ c # 32 # ts) (length pre) = (c, length pre, length pre + 1, length pre + 2)"
proof -
  let ?b = "pre @ c # 32 # ts"
  have n: "no_white (c # 32 # ts)" using assms(1) by (auto simp: no_white_def symbols_def whitespace_def)
  have q: "skip_white ?b (length pre) = length pre" by (rule skip_white_here [OF n])
  have d: "ch ?b (length pre) = c" "ch ?b (length pre + 1) = 32" using ch_here [of pre "c # 32 # ts"] ch_here [of "pre @ [c]" "32 # ts"] by simp_all
  have e: "skip_white ?b (length pre + 1) = length pre + 2" using skip_white_space [OF assms(2), of "pre @ [c]"] by simp
  show ?thesis using assms(1) e d(2) by (auto simp: gettoken_def Let_def q d(1) symbols_def)
qed

lemma word_of_here: "word_of (pre @ w @ ts) (length pre, length pre + length w) = w"
  by (simp add: word_of_def)

section \<open>Parsing what was written\<close>

definition redir_words :: "u8 list \<Rightarrow> redir \<Rightarrow> u8 list \<times> u32 \<times> nat" where
  "redir_words b r = (word_of b (fst r), snd r)"

lemma show_redir_eq: "show_redir (w, mode, fd) = (if fd = 0 then 60 else 62) # 32 # w @ [32]"
  by (simp add: show_redir_def)

lemma symbols_eq: "60 \<in> set symbols" "62 \<in> set symbols" "124 \<in> set symbols" "38 \<in> set symbols" "59 \<in> set symbols" "40 \<in> set symbols" "41 \<in> set symbols"
  by (simp_all add: symbols_def)

lemma not_white: "c \<in> set symbols \<Longrightarrow> c \<notin> set whitespace" "word_char c \<Longrightarrow> c \<notin> set whitespace"
  by (auto simp: symbols_def whitespace_def word_char_def)

lemma no_white_simps [simp]: "no_white []" "no_white (c # ts) \<longleftrightarrow> c \<notin> set whitespace" "w \<noteq> [] \<Longrightarrow> no_white (w @ ts) \<longleftrightarrow> hd w \<notin> set whitespace"
  by (auto simp: no_white_def)

lemma no_white_redirs: "no_white post \<Longrightarrow> no_white (concat (map show_redir ars) @ post)"
  by (cases ars) (simp_all add: show_redir_def whitespace_def split: prod.split)

lemma no_white_words:
  assumes "list_all valid_word ws" "no_white post"
  shows "no_white (concat (map (\<lambda>w. w @ [32]) ws) @ post)"
proof (cases ws)
  case (Cons w ws')
  then have "w \<noteq> []" "word_char (hd w)" using assms(1) word_char_hd by (auto simp: valid_word_def)
  then show ?thesis using Cons not_white(2) by simp
qed (simp add: assms(2))

lemma hd_words:
  assumes "ws \<noteq> []" "list_all valid_word ws"
  shows "word_char (hd (concat (map (\<lambda>w. w @ [32]) ws) @ ts))"
  using assms word_char_hd by (cases ws) (auto simp: valid_word_def)

lemma hd_redirs: "ars \<noteq> [] \<Longrightarrow> hd (concat (map show_redir ars) @ ts) \<in> {60, 62}"
  by (cases ars) (auto simp: show_redir_def split: prod.split)

lemma parseredirs_show:
  assumes "list_all valid_redir ars" "no_white post" "\<not> (post \<noteq> [] \<and> hd post \<in> {60, 62})"
    "b = pre @ concat (map show_redir ars) @ post" "0 \<notin> set b"
  shows "\<exists>rs'. parseredirs b rs (length pre) = Parsed (rs @ rs') (length pre + length (concat (map show_redir ars))) \<and> map (redir_words b) rs' = ars"
  using assms(1,4)
proof (induction ars arbitrary: pre rs)
  case Nil
  then have "peek b (length pre) [60, 62] = (length pre, False)" using peek_here [OF assms(2), of pre "[60, 62]"] assms(3,5) by auto
  then show ?case by (subst parseredirs.simps) simp
next
  case (Cons r ars)
  obtain w mode fd where r: "r = (w, mode, fd)" by (cases r) auto
  define c :: u8 where "c = (if fd = 0 then 60 else 62)"
  have w: "valid_word w" "(mode, fd) \<in> {(O_RDONLY, 0), (O_WRONLY OR O_CREATE, 1)}" using Cons.prems(1) r by (auto simp: valid_redir_def)
  let ?rest = "concat (map show_redir ars) @ post"
  have c: "c \<in> set symbols" "c \<in> {60, 62}" "c \<noteq> 0" by (auto simp: c_def symbols_def)
  have b: "b = pre @ c # 32 # (w @ 32 # ?rest)" using Cons.prems(2) by (simp add: r show_redir_eq c_def)
  have nw: "no_white (w @ 32 # ?rest)" using word_char_hd [OF w(1)] w(1) not_white(2) by (simp add: valid_word_def)
  have nr: "no_white ?rest" by (rule no_white_redirs [OF assms(2)])
  have p: "peek b (length pre) [60, 62] = (length pre, True)"
    using peek_here [of "c # 32 # (w @ 32 # ?rest)" pre "[60, 62]"] not_white(1) [OF c(1)] c assms(5) unfolding b by simp
  have t: "gettoken b (length pre) = (c, length pre, length pre + 1, length pre + 2)" unfolding b by (rule gettoken_symbol [OF c(1) nw])
  have t2: "gettoken b (length pre + 2) = (97, length pre + 2, length pre + 2 + length w, length pre + 2 + length w + 1)"
    using gettoken_word [OF w(1) nr, of "pre @ [c, 32]"] unfolding b by simp
  have m: "redir_of c x = (x, mode, fd)" for x using w(2) by (auto simp: redir_of_def c_def)
  let ?q = "(length pre + 2, length pre + 2 + length w)" and ?pre = "pre @ [c, 32] @ w @ [32]"
  have "parseredirs b rs (length pre) = parseredirs b (rs @ [(?q, mode, fd)]) (length ?pre)"
    by (subst parseredirs.simps) (simp add: p t t2 [simplified] m)
  moreover obtain rs' where "parseredirs b (rs @ [(?q, mode, fd)]) (length ?pre)
      = Parsed ((rs @ [(?q, mode, fd)]) @ rs') (length ?pre + length (concat (map show_redir ars)))" "map (redir_words b) rs' = ars"
    using Cons.IH [of ?pre "rs @ [(?q, mode, fd)]"] Cons.prems(1) b by auto
  moreover have "redir_words b (?q, mode, fd) = r" using word_of_here [of "pre @ [c, 32]" w "32 # ?rest"] by (simp add: redir_words_def r b)
  ultimately show ?case by (intro exI [of _ "(?q, mode, fd) # rs'"]) (simp add: r show_redir_eq)
qed

definition ends_args :: "u8 list \<Rightarrow> bool" where
  "ends_args post \<longleftrightarrow> post = [] \<or> hd post \<in> {124, 41, 38, 59}"

lemma ends_args_no: "ends_args post \<Longrightarrow> no_white post \<and> \<not> (post \<noteq> [] \<and> hd post \<in> {60, 62})"
  by (auto simp: ends_args_def no_white_def whitespace_def)

lemma parseargs_stop:
  assumes "ends_args post" "b = pre @ post" "0 \<notin> set b"
  shows "parseargs b argv rs (length pre) = Parsed (argv, rs) (length pre)"
proof -
  have n: "no_white post" using ends_args_no [OF assms(1)] by simp
  have p: "peek b (length pre) [124, 41, 38, 59] = (length pre, post \<noteq> [])"
    using peek_here [OF n, of pre "[124, 41, 38, 59]"] assms by (auto simp: ends_args_def)
  show ?thesis
  proof (cases "post = []")
    case True
    then have "gettoken b (length pre) = (0, length pre, length pre, length pre)"
      using skip_white_here [OF n, of pre] ch_here [of pre post] assms(2) by (simp add: gettoken_def Let_def)
    then show ?thesis using True p by (subst parseargs.simps) simp
  qed (subst parseargs.simps, simp add: p)
qed

lemma parseargs_show:
  assumes "list_all valid_word ws" "ws \<noteq> []" "list_all valid_redir ars" "ends_args post" "length argv + length ws < MAXARGS"
    "b = pre @ concat (map (\<lambda>w. w @ [32]) ws) @ concat (map show_redir ars) @ post" "0 \<notin> set b"
  shows "\<exists>ws' rs'. parseargs b argv rs (length pre) = Parsed (argv @ ws', rs @ rs') (length b - length post)
    \<and> map (word_of b) ws' = ws \<and> map (redir_words b) rs' = ars"
  using assms(1,2,5,6)
proof (induction ws arbitrary: pre argv rs)
  case (Cons w ws)
  let ?rest = "concat (map (\<lambda>w. w @ [32]) ws) @ concat (map show_redir ars) @ post" and ?pre = "pre @ w @ [32]"
  let ?q = "(length pre, length pre + length w)"
  have w: "valid_word w" "word_char (hd w)" "w \<noteq> []" using Cons.prems(1) word_char_hd by (auto simp: valid_word_def)
  have b: "b = pre @ w @ 32 # ?rest" using Cons.prems(4) by simp
  have nr: "no_white ?rest" using ends_args_no [OF assms(4)] Cons.prems(1) by (intro no_white_words no_white_redirs) simp_all
  have "hd w \<notin> {124, 41, 38, 59}" using w(2) by (auto simp: word_char_def symbols_def)
  then have p: "peek b (length pre) [124, 41, 38, 59] = (length pre, False)"
    using peek_here [of "w @ 32 # ?rest" pre "[124, 41, 38, 59]"] w not_white(2) assms(7) unfolding b by simp
  have t: "gettoken b (length pre) = (97, length pre, length pre + length w, length ?pre)" unfolding b using gettoken_word [OF w(1) nr] by simp
  have room: "\<not> MAXARGS \<le> length argv + 1" using Cons.prems(3) by simp
  have step: "parseargs b argv rs (length pre) = (case parseredirs b rs (length ?pre) of
      Parsed rs s3 \<Rightarrow> parseargs b (argv @ [?q]) rs s3 | Syntax m \<Rightarrow> Syntax m | Fuel \<Rightarrow> Fuel)"
    using room by (subst parseargs.simps) (simp add: p t)
  have wq: "word_of b ?q = w" unfolding b by (rule word_of_here)
  show ?case
  proof (cases "ws = []")
    case True
    obtain rs' where r: "parseredirs b rs (length ?pre) = Parsed (rs @ rs') (length ?pre + length (concat (map show_redir ars)))" "map (redir_words b) rs' = ars"
      using parseredirs_show [OF assms(3) _ _ _ assms(7), of post ?pre rs] ends_args_no [OF assms(4)] True b by auto
    have "parseargs b (argv @ [?q]) (rs @ rs') (length (?pre @ concat (map show_redir ars))) = Parsed (argv @ [?q], rs @ rs') (length (?pre @ concat (map show_redir ars)))"
      using True b by (intro parseargs_stop [OF assms(4) _ assms(7)]) simp
    then show ?thesis using step r wq True by (intro exI [of _ "[?q]"] exI [of _ rs']) (simp add: b add.assoc)
  next
    case False
    then have "hd ws \<noteq> []" "word_char (hd (hd ws))" using Cons.prems(1) word_char_hd [of "hd ws"] by (cases ws; simp add: valid_word_def)+
    then have "\<not> (?rest \<noteq> [] \<and> hd ?rest \<in> {60, 62})" using False by (cases ws) (auto simp: word_char_def symbols_def)
    then have r: "parseredirs b rs (length ?pre) = Parsed rs (length ?pre)"
      using parseredirs_show [of "[]" ?rest b ?pre rs] nr assms(7) b by auto
    obtain ws' rs' where "parseargs b (argv @ [?q]) rs (length ?pre) = Parsed ((argv @ [?q]) @ ws', rs @ rs') (length b - length post)"
        "map (word_of b) ws' = ws" "map (redir_words b) rs' = ars"
      using Cons.IH [of "argv @ [?q]" ?pre rs] False Cons.prems(1,3) b by auto
    then show ?thesis using step r wq by (intro exI [of _ "?q # ws'"] exI [of _ rs']) simp
  qed
qed simp

text \<open>
  The parser \<open>p\<close> reads the command \<open>c\<close> from the text \<open>ts\<close>, whatever comes before it, when it is followed by one of the bytes \<open>ends\<close> or the end of the line.
\<close>

definition reads :: "(u8 list \<Rightarrow> nat \<Rightarrow> nat \<Rightarrow> word_at cmd presult) \<Rightarrow> nat \<Rightarrow> u8 set \<Rightarrow> u8 list \<Rightarrow> u8 list cmd \<Rightarrow> bool" where
  "reads p k ends ts c \<longleftrightarrow> (\<forall>b pre post n. b = pre @ ts @ post \<and> 0 \<notin> set b \<and> (post = [] \<or> hd post \<in> ends) \<and> 4 * (length b - length pre) + k \<le> n \<longrightarrow>
     (\<exists>c'. p b n (length pre) = Parsed c' (length pre + length ts) \<and> map_cmd (word_of b) c' = c))"

lemma readsD:
  assumes "reads p k ends ts c" "b = pre @ ts @ post" "0 \<notin> set b" "post = [] \<or> hd post \<in> ends" "4 * (length b - length pre) + k \<le> n"
  obtains c' where "p b n (length pre) = Parsed c' (length pre + length ts)" "map_cmd (word_of b) c' = c"
  using assms unfolding reads_def by blast

lemma readsI:
  assumes "\<And>b pre post n. b = pre @ ts @ post \<Longrightarrow> 0 \<notin> set b \<Longrightarrow> post = [] \<or> hd post \<in> ends \<Longrightarrow> 4 * (length b - length pre) + k \<le> n \<Longrightarrow>
     \<exists>c'. p b n (length pre) = Parsed c' (length pre + length ts) \<and> map_cmd (word_of b) c' = c"
  shows "reads p k ends ts c"
  unfolding reads_def using assms by blast

lemma map_redirect: "map_cmd (word_of b) (redirect rs c) = redirect (map (redir_words b) rs) (map_cmd (word_of b) c)"
  unfolding redirect_def by (induction rs arbitrary: c) (simp_all add: redir_words_def split_beta)

definition reads_line :: "u8 list cmd \<Rightarrow> bool" where
  "reads_line c \<longleftrightarrow> reads parseline 3 {41} (show_cmd 0 c) c"

definition reads_pipe :: "u8 list cmd \<Rightarrow> bool" where
  "reads_pipe c \<longleftrightarrow> reads parsepipe 2 {41, 38, 59} (show_cmd 2 c) c"

definition reads_atom :: "u8 list cmd \<Rightarrow> bool" where
  "reads_atom c \<longleftrightarrow> (\<forall>ars. list_all valid_redir ars \<longrightarrow>
     reads parseexec 1 {124, 41, 38, 59} (show_cmd 3 c @ concat (map show_redir ars)) (redirect ars c))"

text \<open>A command of a list with its background marks, of which the loop in \<open>parseline\<close> may find more behind it.\<close>

definition reads_back :: "u8 list cmd \<Rightarrow> bool" where
  "reads_back c \<longleftrightarrow> (\<forall>b pre post n. b = pre @ show_cmd 1 c @ post \<and> 0 \<notin> set b \<and> (post = [] \<or> hd post \<in> {41, 38, 59}) \<and> 4 * (length b - length pre) + 2 \<le> n \<longrightarrow>
     (\<exists>c0 s1 c'. parsepipe b n (length pre) = Parsed c0 s1
        \<and> parse_backs b c0 s1 = parse_backs b c' (length pre + length (show_cmd 1 c)) \<and> map_cmd (word_of b) c' = c))"

lemma atom_EXEC:
  assumes "valid_cmd (EXEC ws)"
  shows "reads_atom (EXEC ws)"
  unfolding reads_atom_def
proof (intro allI impI readsI)
  fix ars b pre post n
  assume ars: "list_all valid_redir ars" and b: "b = pre @ (show_cmd 3 (EXEC ws) @ concat (map show_redir ars)) @ post" and b0: "0 \<notin> set b"
    and post: "post = [] \<or> hd post \<in> {124, 41, 38, 59}" and n: "4 * (length b - length pre) + 1 \<le> n"
  obtain n' where n': "n = Suc n'" using n by (cases n) auto
  have e: "ends_args post" using post by (simp add: ends_args_def)
  have ws: "length ws < MAXARGS" "list_all valid_word ws" using assms by simp_all
  let ?ws = "concat (map (\<lambda>w. w @ [32]) ws)" and ?rs = "concat (map show_redir ars)"
  have b': "b = pre @ ?ws @ ?rs @ post" using b by simp
  have nw: "no_white (?ws @ ?rs @ post)" using ends_args_no [OF e] ws(2) by (intro no_white_words no_white_redirs) simp_all
  have first: "?ws @ ?rs @ post = [] \<or> hd (?ws @ ?rs @ post) \<noteq> 40"
    using hd_words [OF _ ws(2), of "?rs @ post"] hd_redirs [of ars post] post by (cases "ws = []"; cases "ars = []") (auto simp: word_char_def symbols_def)
  have p: "peek b (length pre) [40] = (length pre, False)" using peek_here [OF nw, of pre "[40]"] b0 first unfolding b' by auto
  show "\<exists>c'. parseexec b n (length pre) = Parsed c' (length pre + length (show_cmd 3 (EXEC ws) @ ?rs)) \<and> map_cmd (word_of b) c' = redirect ars (EXEC ws)"
  proof (cases "ws = []")
    case True
    obtain rs' where r: "parseredirs b [] (length pre) = Parsed rs' (length pre + length ?rs)" "map (redir_words b) rs' = ars"
      using parseredirs_show [OF ars _ _ _ b0, of post pre "[]"] ends_args_no [OF e] True b' by auto
    have "parseargs b [] rs' (length (pre @ ?rs)) = Parsed ([], rs') (length (pre @ ?rs))"
      using True b' by (intro parseargs_stop [OF e _ b0]) simp
    then show ?thesis using p r True by (simp add: n' map_redirect)
  next
    case False
    have "\<not> (?ws @ ?rs @ post \<noteq> [] \<and> hd (?ws @ ?rs @ post) \<in> {60, 62})"
      using hd_words [OF False ws(2), of "?rs @ post"] by (auto simp: word_char_def symbols_def)
    then have r: "parseredirs b [] (length pre) = Parsed [] (length pre)"
      using parseredirs_show [of "[]" "?ws @ ?rs @ post" b pre "[]"] nw b0 b' by auto
    obtain ws' rs' where a: "parseargs b [] [] (length pre) = Parsed (ws', rs') (length b - length post)" "map (word_of b) ws' = ws" "map (redir_words b) rs' = ars"
      using parseargs_show [OF ws(2) False ars e _ b' b0, of "[]" "[]"] ws(1) by auto
    then show ?thesis using p r by (simp add: n' map_redirect b')
  qed
qed

lemma hd_show: "show_cmd l c @ ts \<noteq> [] \<Longrightarrow> no_white ts \<Longrightarrow> valid_cmd c \<Longrightarrow> hd (show_cmd l c @ ts) \<notin> set whitespace"
proof (induction c arbitrary: l ts)
  case (EXEC ws)
  then show ?case using no_white_words [of ws ts] by (auto simp: no_white_def)
next
  case (REDIR c w mode fd)
  then show ?case by (simp add: show_redir_eq whitespace_def)
next
  case (PIPE c d)
  then show ?case using PIPE.IH(1) [of 3 "124 # 32 # show_cmd 2 d @ ts"] by (auto simp: parens_def whitespace_def)
next
  case (LIST c d)
  then show ?case using LIST.IH(1) [of 1 "59 # 32 # show_cmd 0 d @ ts"] by (auto simp: parens_def whitespace_def)
next
  case (BACK c)
  then show ?case using BACK.IH [of 1 "38 # 32 # ts"] by (auto simp: parens_def whitespace_def)
qed

lemma no_white_show: "no_white ts \<Longrightarrow> valid_cmd c \<Longrightarrow> no_white (show_cmd l c @ ts)"
  using hd_show by (auto simp: no_white_def)

lemma peek_symbol:
  assumes "b = pre @ c # 32 # ts" "0 \<notin> set b" "c \<in> set symbols" "no_white ts"
  shows "peek b (length pre) toks = (length pre, c \<in> set toks)" "next_pos b (length pre) = length (pre @ [c, 32])"
  using peek_here [of "c # 32 # ts" pre toks] gettoken_symbol [OF assms(3,4), of pre] not_white(1) [OF assms(3)] assms(1,2) by simp_all

lemma atom_parens:
  assumes line: "reads_line c" and sh: "show_cmd 3 c = parens True (show_cmd 0 c)" and c: "valid_cmd c"
  shows "reads_atom c"
  unfolding reads_atom_def
proof (intro allI impI readsI)
  fix ars b pre post n
  assume ars: "list_all valid_redir ars" and b: "b = pre @ (show_cmd 3 c @ concat (map show_redir ars)) @ post" and b0: "0 \<notin> set b"
    and post: "post = [] \<or> hd post \<in> {124, 41, 38, 59}" and n: "4 * (length b - length pre) + 1 \<le> n"
  let ?rs = "concat (map show_redir ars)" and ?l = "show_cmd 0 c"
  have e: "ends_args post" using post by (simp add: ends_args_def)
  note np = ends_args_no [OF e]
  have b1: "b = pre @ 40 # 32 # (?l @ 41 # 32 # ?rs @ post)" using b by (simp add: sh parens_def)
  have nr: "no_white (?rs @ post)" using np by (intro no_white_redirs) simp
  have nl: "no_white (?l @ 41 # 32 # ?rs @ post)" using c by (intro no_white_show) (simp_all add: whitespace_def)
  note p = peek_symbol [OF b1 b0 symbols_eq(6) nl]
  have "4 * length (40 # 32 # (?l @ 41 # 32 # ?rs @ post)) + 1 \<le> n" using n unfolding b1 by simp
  then obtain n' where n': "n = Suc (Suc n')" "4 * (length b - length (pre @ [40, 32])) + 3 \<le> n'"
    unfolding b1 by (cases n; cases "n - 1") auto
  obtain c' where l: "parseline b n' (length (pre @ [40, 32])) = Parsed c' (length (pre @ [40, 32]) + length ?l)" "map_cmd (word_of b) c' = c"
    using line [unfolded reads_line_def] b1 b0 n'(2) by (elim readsD [of _ _ _ _ _ b "pre @ [40, 32]" "41 # 32 # ?rs @ post" n']) simp_all
  note p' = peek_symbol [of b "pre @ [40, 32] @ ?l" 41 "?rs @ post", OF _ b0 symbols_eq(7) nr]
  obtain rs' where r: "parseredirs b [] (length (pre @ [40, 32] @ ?l @ [41, 32])) = Parsed rs' (length (pre @ [40, 32] @ ?l @ [41, 32]) + length ?rs)"
      "map (redir_words b) rs' = ars"
    using parseredirs_show [OF ars _ _ _ b0, of post "pre @ [40, 32] @ ?l @ [41, 32]" "[]"] np b1 by auto
  have "parseexec b n (length pre) = Parsed (redirect rs' c') (length pre + length (show_cmd 3 c @ ?rs))"
    using p p' l(1) r(1) b1 by (simp add: n'(1) sh parens_def)
  then show "\<exists>c'. parseexec b n (length pre) = Parsed c' (length pre + length (show_cmd 3 c @ ?rs)) \<and> map_cmd (word_of b) c' = redirect ars c"
    using l(2) r(2) by (simp add: map_redirect)
qed

lemma atom_REDIR:
  assumes "reads_atom c" "valid_redir (w, mode, fd)"
  shows "reads_atom (REDIR c w mode fd)"
  unfolding reads_atom_def
proof (intro allI impI)
  fix ars
  assume "list_all valid_redir ars"
  then have "reads parseexec 1 {124, 41, 38, 59} (show_cmd 3 c @ concat (map show_redir ((w, mode, fd) # ars))) (redirect ((w, mode, fd) # ars) c)"
    using assms(1) [unfolded reads_atom_def, THEN spec, THEN mp, of "(w, mode, fd) # ars"] assms(2) by simp
  then show "reads parseexec 1 {124, 41, 38, 59} (show_cmd 3 (REDIR c w mode fd) @ concat (map show_redir ars)) (redirect ars (REDIR c w mode fd))"
    by (simp add: redirect_def)
qed

lemma pipe_atom:
  assumes atom: "reads_atom c" and sh: "show_cmd 2 c = show_cmd 3 c"
  shows "reads_pipe c"
  unfolding reads_pipe_def
proof (intro readsI)
  fix b pre post n
  assume b: "b = pre @ show_cmd 2 c @ post" and b0: "0 \<notin> set b" and post: "post = [] \<or> hd post \<in> {41, 38, 59}" and n: "4 * (length b - length pre) + 2 \<le> n"
  obtain n' where n': "n = Suc n'" "4 * (length b - length pre) + 1 \<le> n'" using n by (cases n) auto
  have "reads parseexec 1 {124, 41, 38, 59} (show_cmd 3 c) c" using atom [unfolded reads_atom_def, THEN spec, THEN mp, of "[]"] by (simp add: redirect_def)
  then obtain c' where e: "parseexec b n' (length pre) = Parsed c' (length pre + length (show_cmd 2 c))" "map_cmd (word_of b) c' = c"
    using b b0 post n'(2) sh by (elim readsD [of _ _ _ _ _ b pre post n']) auto
  have "no_white post" using post by (auto simp: no_white_def whitespace_def)
  then have "peek b (length (pre @ show_cmd 2 c)) [124] = (length (pre @ show_cmd 2 c), False)"
    using peek_here [of post "pre @ show_cmd 2 c" "[124]"] b b0 post by auto
  then show "\<exists>c'. parsepipe b n (length pre) = Parsed c' (length pre + length (show_cmd 2 c)) \<and> map_cmd (word_of b) c' = c" using e by (simp add: n'(1))
qed

lemma pipe_PIPE:
  assumes atom: "reads_atom c" and pipe: "reads_pipe d" and v: "valid_cmd d"
  shows "reads_pipe (PIPE c d)"
  unfolding reads_pipe_def
proof (intro readsI)
  fix b pre post n
  assume b: "b = pre @ show_cmd 2 (PIPE c d) @ post" and b0: "0 \<notin> set b" and post: "post = [] \<or> hd post \<in> {41, 38, 59}" and n: "4 * (length b - length pre) + 2 \<le> n"
  obtain n' where n': "n = Suc n'" "4 * (length b - length pre) + 1 \<le> n'" using n by (cases n) auto
  let ?c = "show_cmd 3 c" and ?d = "show_cmd 2 d"
  have b1: "b = (pre @ ?c) @ 124 # 32 # (?d @ post)" using b by (simp add: parens_def)
  have "reads parseexec 1 {124, 41, 38, 59} ?c c" using atom [unfolded reads_atom_def, THEN spec, THEN mp, of "[]"] by (simp add: redirect_def)
  then obtain c' where e: "parseexec b n' (length pre) = Parsed c' (length pre + length ?c)" "map_cmd (word_of b) c' = c"
    using b1 b0 n'(2) by (elim readsD [of _ _ _ _ _ b pre "124 # 32 # ?d @ post" n']) auto
  have "no_white post" using post by (auto simp: no_white_def whitespace_def)
  then have "no_white (?d @ post)" using v by (intro no_white_show)
  note p = peek_symbol [OF b1 b0 symbols_eq(3) this]
  obtain d' where "parsepipe b n' (length (pre @ ?c @ [124, 32])) = Parsed d' (length (pre @ ?c @ [124, 32]) + length ?d)" "map_cmd (word_of b) d' = d"
    using pipe [unfolded reads_pipe_def] b1 b0 post n'(2) by (elim readsD [of _ _ _ _ _ b "pre @ ?c @ [124, 32]" post n']) auto
  then show "\<exists>c'. parsepipe b n (length pre) = Parsed c' (length pre + length (show_cmd 2 (PIPE c d))) \<and> map_cmd (word_of b) c' = PIPE c d"
    using e p by (simp add: n'(1) parens_def add.assoc)
qed

lemma back_pipe:
  assumes "reads_pipe c" "show_cmd 1 c = show_cmd 2 c"
  shows "reads_back c"
  unfolding reads_back_def
proof (intro allI impI, elim conjE)
  fix b pre post n
  assume "b = pre @ show_cmd 1 c @ post" "0 \<notin> set b" "post = [] \<or> hd post \<in> {41, 38, 59}" "4 * (length b - length pre) + 2 \<le> n"
  then obtain c' where "parsepipe b n (length pre) = Parsed c' (length pre + length (show_cmd 1 c))" "map_cmd (word_of b) c' = c"
    using assms(1) [unfolded reads_pipe_def] assms(2) by (elim readsD [of _ _ _ _ _ b pre post n]) auto
  then show "\<exists>c0 s1 c'. parsepipe b n (length pre) = Parsed c0 s1 \<and> parse_backs b c0 s1 = parse_backs b c' (length pre + length (show_cmd 1 c)) \<and> map_cmd (word_of b) c' = c"
    by blast
qed

lemma back_BACK:
  assumes "reads_back c"
  shows "reads_back (BACK c)"
  unfolding reads_back_def
proof (intro allI impI, elim conjE)
  fix b pre post n
  assume b: "b = pre @ show_cmd 1 (BACK c) @ post" and b0: "0 \<notin> set b" and post: "post = [] \<or> hd post \<in> {41, 38, 59}" and n: "4 * (length b - length pre) + 2 \<le> n"
  have b1: "b = (pre @ show_cmd 1 c) @ 38 # 32 # post" using b by (simp add: parens_def)
  have "no_white post" using post by (auto simp: no_white_def whitespace_def)
  note p = peek_symbol [OF b1 b0 symbols_eq(4) this]
  obtain c0 s1 c' where r: "parsepipe b n (length pre) = Parsed c0 s1"
      "parse_backs b c0 s1 = parse_backs b c' (length pre + length (show_cmd 1 c))" "map_cmd (word_of b) c' = c"
    using assms [unfolded reads_back_def, THEN spec, THEN spec, THEN spec, THEN spec, THEN mp, of b pre "38 # 32 # post" n] b1 b0 n by auto
  have "parse_backs b c' (length pre + length (show_cmd 1 c)) = parse_backs b (BACK c') (length pre + length (show_cmd 1 (BACK c)))"
    using p by (subst parse_backs.simps) (simp add: parens_def)
  then show "\<exists>c0 s1 c'. parsepipe b n (length pre) = Parsed c0 s1 \<and> parse_backs b c0 s1 = parse_backs b c' (length pre + length (show_cmd 1 (BACK c)))
      \<and> map_cmd (word_of b) c' = BACK c"
    using r by (intro exI [of _ c0] exI [of _ s1] exI [of _ "BACK c'"]) simp
qed

lemma parse_backs_stop:
  assumes "b = pre @ post" "0 \<notin> set b" "no_white post" "\<not> (post \<noteq> [] \<and> hd post = 38)"
  shows "parse_backs b c (length pre) = (c, length pre)"
  using peek_here [OF assms(3), of pre "[38]"] assms(1,2,4) by (subst parse_backs.simps) auto

lemma line_back:
  assumes "reads_back c" "show_cmd 0 c = show_cmd 1 c"
  shows "reads_line c"
  unfolding reads_line_def
proof (intro readsI)
  fix b pre post n
  assume b: "b = pre @ show_cmd 0 c @ post" and b0: "0 \<notin> set b" and post: "post = [] \<or> hd post \<in> {41}" and n: "4 * (length b - length pre) + 3 \<le> n"
  obtain n' where n': "n = Suc n'" "4 * (length b - length pre) + 2 \<le> n'" using n by (cases n) auto
  have np: "no_white post" using post by (auto simp: no_white_def whitespace_def)
  obtain c0 s1 c' where r: "parsepipe b n' (length pre) = Parsed c0 s1"
      "parse_backs b c0 s1 = parse_backs b c' (length (pre @ show_cmd 1 c))" "map_cmd (word_of b) c' = c"
    using assms(1) [unfolded reads_back_def, THEN spec, THEN spec, THEN spec, THEN spec, THEN mp, of b pre post n'] b b0 n'(2) post assms(2) by auto
  have "parse_backs b c' (length (pre @ show_cmd 1 c)) = (c', length (pre @ show_cmd 1 c))"
    using b b0 np post assms(2) by (intro parse_backs_stop [of b _ post]) auto
  moreover have "peek b (length (pre @ show_cmd 1 c)) [59] = (length (pre @ show_cmd 1 c), False)"
    using peek_here [OF np, of "pre @ show_cmd 1 c" "[59]"] b b0 post assms(2) by auto
  ultimately show "\<exists>c'. parseline b n (length pre) = Parsed c' (length pre + length (show_cmd 0 c)) \<and> map_cmd (word_of b) c' = c"
    using r by (simp add: n'(1) assms(2))
qed

lemma line_LIST:
  assumes bk: "reads_back c" and line: "reads_line d" and v: "valid_cmd d"
  shows "reads_line (LIST c d)"
  unfolding reads_line_def
proof (intro readsI)
  fix b pre post n
  assume b: "b = pre @ show_cmd 0 (LIST c d) @ post" and b0: "0 \<notin> set b" and post: "post = [] \<or> hd post \<in> {41}" and n: "4 * (length b - length pre) + 3 \<le> n"
  obtain n' where n': "n = Suc n'" "4 * (length b - length pre) + 2 \<le> n'" using n by (cases n) auto
  let ?c = "show_cmd 1 c" and ?d = "show_cmd 0 d"
  have np: "no_white post" using post by (auto simp: no_white_def whitespace_def)
  have b1: "b = (pre @ ?c) @ 59 # 32 # (?d @ post)" using b by (simp add: parens_def)
  note p = peek_symbol [OF b1 b0 symbols_eq(5) no_white_show [OF np v]]
  obtain c0 s1 c' where r: "parsepipe b n' (length pre) = Parsed c0 s1" "parse_backs b c0 s1 = parse_backs b c' (length (pre @ ?c))" "map_cmd (word_of b) c' = c"
    using bk [unfolded reads_back_def, THEN spec, THEN spec, THEN spec, THEN spec, THEN mp, of b pre "59 # 32 # ?d @ post" n'] b1 b0 n'(2) by auto
  have s: "parse_backs b c' (length (pre @ ?c)) = (c', length (pre @ ?c))" using b1 b0 by (intro parse_backs_stop) (auto simp: whitespace_def)
  obtain d' where "parseline b n' (length (pre @ ?c @ [59, 32])) = Parsed d' (length (pre @ ?c @ [59, 32]) + length ?d)" "map_cmd (word_of b) d' = d"
    using line [unfolded reads_line_def] b1 b0 post n'(2) by (elim readsD [of _ _ _ _ _ b "pre @ ?c @ [59, 32]" post n']) auto
  then show "\<exists>c'. parseline b n (length pre) = Parsed c' (length pre + length (show_cmd 0 (LIST c d))) \<and> map_cmd (word_of b) c' = LIST c d"
    using r s p by (simp add: n'(1) parens_def add.assoc)
qed

lemma reads_all:
  "valid_cmd c \<Longrightarrow> reads_line c \<and> reads_back c \<and> reads_pipe c \<and> reads_atom c"
proof (induction c)
  case (EXEC ws)
  then have "reads_atom (EXEC ws)" by (rule atom_EXEC)
  moreover from this have "reads_pipe (EXEC ws)" by (rule pipe_atom) simp
  moreover from this have "reads_back (EXEC ws)" by (rule back_pipe) simp
  moreover from this have "reads_line (EXEC ws)" by (rule line_back) simp
  ultimately show ?case by blast
next
  case (REDIR c w mode fd)
  then have "reads_atom (REDIR c w mode fd)" by (intro atom_REDIR) simp_all
  moreover from this have "reads_pipe (REDIR c w mode fd)" by (rule pipe_atom) simp
  moreover from this have "reads_back (REDIR c w mode fd)" by (rule back_pipe) simp
  moreover from this have "reads_line (REDIR c w mode fd)" by (rule line_back) simp
  ultimately show ?case by blast
next
  case (PIPE c d)
  then have "reads_pipe (PIPE c d)" by (intro pipe_PIPE) simp_all
  moreover from this have "reads_back (PIPE c d)" by (rule back_pipe) (simp add: parens_def)
  moreover from this have "reads_line (PIPE c d)" by (rule line_back) (simp add: parens_def)
  moreover from this have "reads_atom (PIPE c d)" by (rule atom_parens) (use PIPE.prems in \<open>simp_all add: parens_def\<close>)
  ultimately show ?case by blast
next
  case (LIST c d)
  then have "reads_line (LIST c d)" by (intro line_LIST) simp_all
  moreover from this have "reads_atom (LIST c d)" by (rule atom_parens) (use LIST.prems in \<open>simp_all add: parens_def\<close>)
  moreover from this have "reads_pipe (LIST c d)" by (rule pipe_atom) (simp add: parens_def)
  moreover from this have "reads_back (LIST c d)" by (rule back_pipe) (simp add: parens_def)
  ultimately show ?case by blast
next
  case (BACK c)
  then have "reads_back (BACK c)" by (intro back_BACK) simp_all
  moreover from this have "reads_line (BACK c)" by (rule line_back) (simp add: parens_def)
  moreover from this have "reads_atom (BACK c)" by (rule atom_parens) (use BACK.prems in \<open>simp_all add: parens_def\<close>)
  moreover from this have "reads_pipe (BACK c)" by (rule pipe_atom) (simp add: parens_def)
  ultimately show ?case by blast
qed

section \<open>The round trip\<close>

lemma show_no_nul: "valid_cmd c \<Longrightarrow> 0 \<notin> set (show_cmd l c)"
  by (induction c arbitrary: l) (auto simp: parens_def show_redir_eq valid_redir_def valid_word_def word_char_def list_all_iff)

lemma set_cmd_words: "set_cmd c = set (cmd_words c)"
  by (induction c) auto

text \<open>
  C29. Every command of the shell can be typed. For each tree of commands, whatever the nesting of lists, pipelines, background commands, redirections and simple commands, as long as its words are not empty
  and have no white space and no symbol and no argument list is too long, there is a line, with parentheses where the grammar needs them, which the parser accepts to its end and turns into this
  tree: the strings at its words, read after \<open>nulterminate\<close>, are the words of the command.
\<close>

theorem parsecmd_show_roundtrip:
  assumes "valid_cmd c"
  shows "\<exists>c' b'. parsecmd (show_cmd 0 c) = Parsed (c', b') (length (show_cmd 0 c)) \<and> map_cmd (\<lambda>w. str_at b' (fst w)) c' = c"
proof -
  let ?b = "show_cmd 0 c"
  have b0: "0 \<notin> set ?b" by (rule show_no_nul [OF assms])
  have "reads parseline 3 {41} ?b c" using reads_all [OF assms] by (simp add: reads_line_def)
  then obtain c' where p: "parseline ?b (4 * length ?b + 3) (length []) = Parsed c' (length [] + length ?b)" "map_cmd (word_of ?b) c' = c"
    using b0 by (elim readsD [of _ _ _ _ _ ?b "[]" "[]" "4 * length ?b + 3"]) simp_all
  have ok: "cmd_ok ?b c'" using parse_good(1) [OF b0, of 0 "4 * length ?b + 3"] p(1) by simp
  have "map_cmd (\<lambda>w. str_at (nulterminate c' (?b @ [0])) (fst w)) c' = map_cmd (word_of ?b) c'"
    using nulterminate_str [OF ok _ b0] by (intro cmd.map_cong) (auto simp: set_cmd_words)
  moreover have "peek ?b (length ?b) [] = (length ?b, False)" using peek_here [of "[]" ?b "[]"] by simp
  ultimately show ?thesis using p by (simp add: parsecmd_def)
qed

theorem parsecmd_show_roundtrip_witness:
  "\<exists>c' b'. parsecmd (bytes ''( ls ; wc < f ) | a & '') = Parsed (c', b') 22
     \<and> map_cmd (\<lambda>w. str_at b' (fst w)) c'
       = BACK (PIPE (LIST (EXEC [bytes ''ls'']) (REDIR (EXEC [bytes ''wc'']) (bytes ''f'') O_RDONLY 0)) (EXEC [bytes ''a'']))"
proof -
  let ?c = "BACK (PIPE (LIST (EXEC [bytes ''ls'']) (REDIR (EXEC [bytes ''wc'']) (bytes ''f'') O_RDONLY 0)) (EXEC [bytes ''a'']))"
  have "valid_cmd ?c" by code_simp
  moreover have "show_cmd 0 ?c = bytes ''( ls ; wc < f ) | a & ''" by code_simp
  moreover have "length (bytes ''( ls ; wc < f ) | a & '') = 22" by code_simp
  ultimately show ?thesis using parsecmd_show_roundtrip [of ?c] by simp
qed

end
