(* ===== verification/Usys.thy ===== *)
theory Usys
  imports Ulib Sysfile
begin

text \<open>
  User programs as the tree of their system calls: a program returns, exits, or makes a call and goes on with its result. Programs that run forever are infinite trees. Loops whose number of rounds depends on the
  results of calls are built with \<open>uloop\<close>, of which every round makes a call.

  A system call has its arguments as values, and its result has the values the kernel stores through pointers: the descriptors of \<open>pipe\<close>, the bytes of \<open>read\<close>, the structure of \<open>fstat\<close>.

  Here are also the functions of the user library that make system calls, and the runs of a program in a world that answers its calls.
\<close>

section \<open>Programs\<close>

datatype sysc =
    SClose int
  | SOpen "u8 list" u32
  | SRead int nat
  | SWrite int "u8 list"
  | SFstat int
  | SExec "u8 list" "u8 list list"
  | SDup int
  | SPipe
  | SFork
  | SWait
  | SChdir "u8 list"
  | SMknod "u8 list" u16 u16
  | SMkdir "u8 list"
  | SUnlink "u8 list"
  | SLink "u8 list" "u8 list"
  | SKill u32
  | SSleep int

record sysres =
  rv :: int
  fd0 :: int
  fd1 :: int
  data :: "u8 list"
  rstat :: stat

codatatype 'r prog = Return 'r | Exit | Call sysc "sysres \<Rightarrow> 'r prog"

primcorec ubind :: "'a prog \<Rightarrow> ('a \<Rightarrow> 'b prog) \<Rightarrow> 'b prog" where
  "ubind p f = (case p of Return r \<Rightarrow> f r | Exit \<Rightarrow> Exit | Call c k \<Rightarrow> Call c (\<lambda>x. ubind (k x) f))"

lemma ubind_simps [simp]:
  "ubind (Return r) f = f r" "ubind Exit f = Exit" "ubind (Call c k) f = Call c (\<lambda>x. ubind (k x) f)"
  by (subst ubind.code; simp)+

definition sys :: "sysc \<Rightarrow> sysres prog" where
  "sys c = Call c Return"

lemma ubind_sys [simp]: "ubind (sys c) f = Call c f"
  by (simp add: sys_def)

text \<open>A result without anything stored through pointers.\<close>

definition result :: "int \<Rightarrow> sysres" where
  "result r = \<lparr>rv = r, fd0 = 0, fd1 = 0, data = [], rstat = \<lparr>st_type = 0, st_dev = 0, st_ino = 0, st_nlink = 0, st_size = 0\<rparr>\<rparr>"

text \<open>A loop: a round gives the state of the next round (\<open>Inl\<close>) or the result of the loop (\<open>Inr\<close>). A second round that makes no call does not occur in the programs.\<close>

primcorec uloop_from :: "('s \<Rightarrow> ('s + 'r) prog) \<Rightarrow> ('s + 'r) prog \<Rightarrow> 'r prog" where
  "uloop_from body p =
     (case p of
        Return (Inr r) \<Rightarrow> Return r
      | Return (Inl s) \<Rightarrow>
          (case body s of
             Return (Inr r) \<Rightarrow> Return r
           | Return (Inl _) \<Rightarrow> Exit
           | Exit \<Rightarrow> Exit
           | Call c k \<Rightarrow> Call c (\<lambda>x. uloop_from body (k x)))
      | Exit \<Rightarrow> Exit
      | Call c k \<Rightarrow> Call c (\<lambda>x. uloop_from body (k x)))"

definition uloop :: "('s \<Rightarrow> ('s + 'r) prog) \<Rightarrow> 's \<Rightarrow> 'r prog" where
  "uloop body s = uloop_from body (body s)"

lemma uloop_from_simps [simp]:
  "uloop_from body (Return (Inr r)) = Return r" "uloop_from body Exit = Exit" "uloop_from body (Call c k) = Call c (\<lambda>x. uloop_from body (k x))"
  by (subst uloop_from.code; simp)+

lemma uloop_from_round: "(\<And>r. body s \<noteq> Return (Inl r)) \<Longrightarrow> uloop_from body (Return (Inl s)) = uloop body s"
  unfolding uloop_def by (subst (1) uloop_from.code, subst (2) uloop_from.code) (auto split: prog.splits sum.splits)

section \<open>The library (printf.c, ulib.c)\<close>

definition nl :: "string \<Rightarrow> string" where
  "nl s = s @ [CHR 0x0A]"

primrec puts :: "int \<Rightarrow> u8 list \<Rightarrow> unit prog" where
  "puts fd [] = Return ()"
| "puts fd (c # cs) = ubind (sys (SWrite fd [c])) (\<lambda>_. puts fd cs)"

text \<open>\<open>printf\<close>, a call of \<open>write\<close> for each byte. The programs pass the arguments their formats name.\<close>

definition printf :: "int \<Rightarrow> string \<Rightarrow> carg list \<Rightarrow> unit prog" where
  "printf fd fmt args = puts fd (case u_printf fmt args of Some out \<Rightarrow> out | None \<Rightarrow> [])"

text \<open>\<open>gets\<close> with the string it leaves in the buffer.\<close>

definition p_gets :: "int \<Rightarrow> u8 list prog" where
  "p_gets mx = uloop (\<lambda>bs.
     if int (length bs) + 1 < mx then
       ubind (sys (SRead 0 1)) (\<lambda>r.
       if rv r < 1 then Return (Inr bs)
       else let c = hd (data r) in Return (if c = 10 \<or> c = 13 then Inr (bs @ [c]) else Inl (bs @ [c])))
     else Return (Inr bs)) []"

definition u_stat :: "u8 list \<Rightarrow> sysres prog" where
  "u_stat n =
     ubind (sys (SOpen n O_RDONLY)) (\<lambda>r.
     if rv r < 0 then Return (r\<lparr>rv := - 1\<rparr>)
     else
       ubind (sys (SFstat (rv r))) (\<lambda>s.
       ubind (sys (SClose (rv r))) (\<lambda>_. Return s)))"

text \<open>The integer \<open>atoi\<close> makes of a string.\<close>

definition atoi_str :: "u8 list \<Rightarrow> u32" where
  "atoi_str s = fold (\<lambda>c n. n * 10 + ucast c - 48) (takeWhile (\<lambda>c. 48 \<le> c \<and> c \<le> 57) s) 0"

lemma atoi_loop_str: "cstr m a s \<Longrightarrow> atoi_loop m a n = Some (fold (\<lambda>c n. n * 10 + ucast c - 48) (takeWhile (\<lambda>c. 48 \<le> c \<and> c \<le> 57) s) n)"
proof (induction s arbitrary: a n)
  case Nil
  then show ?case by (subst atoi_loop.simps) simp
next
  case (Cons c s)
  then show ?case by (subst atoi_loop.simps) auto
qed

lemma atoi_str: "cstr m a s \<Longrightarrow> atoi m a = Some (atoi_str s)"
  by (simp add: atoi_def atoi_str_def atoi_loop_str)

section \<open>Runs\<close>

text \<open>A program in a world \<open>sem\<close> that answers its calls, for at most \<open>n\<close> calls. The result is \<open>None\<close> while the program is still running, and otherwise what it returned, if it did not exit.\<close>

primrec urunw :: "(sysc \<Rightarrow> 'w \<Rightarrow> sysres \<times> 'w) \<Rightarrow> nat \<Rightarrow> 'r prog \<Rightarrow> 'w \<Rightarrow> ('r option \<times> 'w) option" where
  "urunw sem 0 p w = (case p of Return r \<Rightarrow> Some (Some r, w) | Exit \<Rightarrow> Some (None, w) | Call c k \<Rightarrow> None)"
| "urunw sem (Suc n) p w =
     (case p of
        Return r \<Rightarrow> Some (Some r, w)
      | Exit \<Rightarrow> Some (None, w)
      | Call c k \<Rightarrow> (case sem c w of (r, w') \<Rightarrow> urunw sem n (k r) w'))"

lemma urunw_Return [simp]: "urunw sem n (Return r) w = Some (Some r, w)"
  by (cases n) simp_all

lemma urunw_Exit [simp]: "urunw sem n Exit w = Some (None, w)"
  by (cases n) simp_all

lemma urunw_mono: "urunw sem n p w = Some x \<Longrightarrow> n \<le> m \<Longrightarrow> urunw sem m p w = Some x"
proof (induction n arbitrary: m p w)
  case 0
  then show ?case by (cases p) auto
next
  case (Suc n)
  then obtain m' where "m = Suc m'" "n \<le> m'" by (cases m) auto
  then show ?case using Suc by (cases p) (auto split: prod.splits)
qed

lemma urunw_bind:
  assumes "urunw sem n p w = Some (Some a, w1)" "urunw sem m (f a) w1 = Some res"
  shows "urunw sem (n + m) (ubind p f) w = Some res"
  using assms(1)
proof (induction n arbitrary: p w)
  case 0
  then show ?case using assms(2) by (cases p) auto
next
  case (Suc n)
  show ?case
  proof (cases p)
    case (Return r)
    then show ?thesis using Suc.prems assms(2) urunw_mono [of sem m "f a" w1 res "Suc n + m"] by simp
  next
    case (Call c k)
    then show ?thesis using Suc.prems Suc.IH by (auto split: prod.splits)
  qed (use Suc in auto)
qed

text \<open>Loops of which every round makes a call.\<close>

definition calls :: "('s \<Rightarrow> 'r prog) \<Rightarrow> bool" where
  "calls body \<longleftrightarrow> (\<forall>s. \<exists>c k. body s = Call c k)"

lemma callsD: "calls body \<Longrightarrow> uloop_from body (Return (Inl s)) = uloop body s"
  by (rule uloop_from_round) (metis calls_def prog.distinct(3))

lemma urunw_loop_end:
  assumes "urunw sem n p w = Some (Some (Inr r), w')"
  shows "urunw sem n (uloop_from body p) w = Some (Some r, w')"
  using assms
proof (induction n arbitrary: p w)
  case 0
  then show ?case by (cases p) auto
next
  case (Suc n)
  then show ?case by (cases p) (auto split: prod.splits)
qed

lemma urunw_loop_next:
  assumes "calls body" "urunw sem n p w = Some (Some (Inl s), w')" "urunw sem m (uloop body s) w' = Some res"
  shows "urunw sem (n + m) (uloop_from body p) w = Some res"
  using assms(2)
proof (induction n arbitrary: p w)
  case 0
  then show ?case using assms(3) callsD [OF assms(1)] by (cases p) auto
next
  case (Suc n)
  show ?case
  proof (cases p)
    case (Return r)
    then show ?thesis using Suc.prems assms(3) callsD [OF assms(1)] urunw_mono [of sem m "uloop body s" w' res "Suc n + m"] by simp
  next
    case (Call c k)
    then show ?thesis using Suc by (auto split: prod.splits)
  qed (use Suc in auto)
qed

section \<open>A world of files\<close>

text \<open>The bytes of each descriptor still to be read, and what was written to it.\<close>

record fworld =
  unread :: "int \<Rightarrow> u8 list"
  outs :: "int \<Rightarrow> u8 list"

fun fsem :: "sysc \<Rightarrow> fworld \<Rightarrow> sysres \<times> fworld" where
  "fsem (SRead fd n) w = (let d = take n (unread w fd) in ((result (int (length d)))\<lparr>data := d\<rparr>, w\<lparr>unread := (unread w)(fd := drop n (unread w fd))\<rparr>))"
| "fsem (SWrite fd bs) w = (result (int (length bs)), w\<lparr>outs := (outs w)(fd := outs w fd @ bs)\<rparr>)"
| "fsem c w = (result 0, w)"

lemma result_simps [simp]: "rv (result n) = n"
  by (simp add: result_def)

lemma urunw_puts: "urunw fsem (length bs) (puts fd bs) w = Some (Some (), w\<lparr>outs := (outs w)(fd := outs w fd @ bs)\<rparr>)"
  by (induction bs arbitrary: w) simp_all

section \<open>Programs that never end\<close>

text \<open>For \<open>n\<close> more calls the program neither exits nor returns, whatever results the calls have that \<open>ok\<close> allows.\<close>

primrec alive :: "(sysc \<Rightarrow> sysres \<Rightarrow> bool) \<Rightarrow> nat \<Rightarrow> 'r prog \<Rightarrow> bool" where
  "alive ok 0 p = (\<exists>c k. p = Call c k)"
| "alive ok (Suc n) p = (\<exists>c k. p = Call c k \<and> (\<forall>r. ok c r \<longrightarrow> alive ok n (k r)))"

lemma alive_Call: "alive ok n (Call c k) \<longleftrightarrow> (case n of 0 \<Rightarrow> True | Suc m \<Rightarrow> \<forall>r. ok c r \<longrightarrow> alive ok m (k r))"
  by (cases n) auto

lemma alive_less: "alive ok n p \<Longrightarrow> m \<le> n \<Longrightarrow> alive ok m p"
proof (induction n arbitrary: m p)
  case (Suc n)
  then show ?case by (cases m) auto
qed simp

lemma alive_puts: "alive ok n (f ()) \<Longrightarrow> alive ok n (ubind (puts fd bs) f)"
proof (induction bs arbitrary: n)
  case (Cons b bs)
  have "alive ok m (ubind (puts fd bs) f)" if "n = Suc m" for m using Cons that by (metis alive_less le_SucI order_refl)
  then show ?case by (auto simp: alive_Call split: nat.splits)
qed simp

lemma puts_bind: "ubind (ubind (puts fd bs) f) g = ubind (puts fd bs) (\<lambda>x. ubind (f x) g)"
  by (induction bs) simp_all

lemma puts_loop: "uloop_from body (ubind (puts fd bs) f) = ubind (puts fd bs) (\<lambda>x. uloop_from body (f x))"
  by (induction bs) simp_all

lemma puts_calls: "bs \<noteq> [] \<Longrightarrow> \<exists>c k. ubind (puts fd bs) f = Call c k"
  by (cases bs) simp_all

end
