(* ===== verification/Shrun.thy ===== *)
theory Shrun
  imports Sh Usys
begin

text \<open>
  Running commands: \<open>runcmd\<close> and \<open>main\<close> of \<open>sh.c\<close>, as trees of system calls. What the calls do to the descriptors of a process follows the kernel: a new descriptor is the lowest free one.

  Shown: a pipeline connects the output of its left command to the input of its right command, with no other descriptor of the pipe left open.
\<close>

section \<open>The code of the shell\<close>

definition sh_panic :: "u8 list \<Rightarrow> 'r prog" where
  "sh_panic m = ubind (printf 2 (nl ''%s'') [CStr (Some m)]) (\<lambda>_. Exit)"

definition fork1 :: "int prog" where
  "fork1 = ubind (sys SFork) (\<lambda>r. if rv r = - 1 then sh_panic (bytes ''fork'') else Return (rv r))"

primrec runcmd :: "u8 list cmd \<Rightarrow> 'r prog" where
  "runcmd (EXEC argv) =
     (if argv = [] then Exit
      else
        ubind (sys (SExec (hd argv) argv)) (\<lambda>_.
        ubind (printf 2 (nl ''exec %s failed'') [CStr (Some (hd argv))]) (\<lambda>_. Exit)))"
| "runcmd (REDIR c file mode fd) =
     ubind (sys (SClose (int fd))) (\<lambda>_.
     ubind (sys (SOpen file mode)) (\<lambda>r.
     if rv r < 0 then ubind (printf 2 (nl ''open %s failed'') [CStr (Some file)]) (\<lambda>_. Exit)
     else runcmd c))"
| "runcmd (LIST l r) =
     ubind fork1 (\<lambda>pid.
     if pid = 0 then runcmd l
     else ubind (sys SWait) (\<lambda>_. runcmd r))"
| "runcmd (PIPE l r) =
     ubind (sys SPipe) (\<lambda>p.
     if rv p < 0 then sh_panic (bytes ''pipe'')
     else
       ubind fork1 (\<lambda>pid.
       if pid = 0 then
         ubind (sys (SClose 1)) (\<lambda>_.
         ubind (sys (SDup (fd1 p))) (\<lambda>_.
         ubind (sys (SClose (fd0 p))) (\<lambda>_.
         ubind (sys (SClose (fd1 p))) (\<lambda>_. runcmd l))))
       else
         ubind fork1 (\<lambda>pid.
         if pid = 0 then
           ubind (sys (SClose 0)) (\<lambda>_.
           ubind (sys (SDup (fd0 p))) (\<lambda>_.
           ubind (sys (SClose (fd0 p))) (\<lambda>_.
           ubind (sys (SClose (fd1 p))) (\<lambda>_. runcmd r))))
         else
           ubind (sys (SClose (fd0 p))) (\<lambda>_.
           ubind (sys (SClose (fd1 p))) (\<lambda>_.
           ubind (sys SWait) (\<lambda>_.
           ubind (sys SWait) (\<lambda>_. Exit)))))))"
| "runcmd (BACK c) = ubind fork1 (\<lambda>pid. if pid = 0 then runcmd c else Exit)"

text \<open>What the child of the shell does with a line: it parses and runs it. What the parser leaves over is printed before the error message.\<close>

definition leftovers :: "u8 list \<Rightarrow> nat option" where
  "leftovers b =
     (case parseline b (4 * length b + 3) 0 of
        Parsed c s \<Rightarrow> let s1 = fst (peek b s []) in if s1 \<noteq> length b then Some s1 else None
      | _ \<Rightarrow> None)"

definition run_line :: "u8 list \<Rightarrow> 'r prog" where
  "run_line b =
     (case parsecmd b of
        Parsed (c, b') s \<Rightarrow> runcmd (map_cmd (\<lambda>w. str_at b' (fst w)) c)
      | Syntax m \<Rightarrow>
          ubind (case leftovers b of Some s \<Rightarrow> printf 2 (nl ''leftovers: %s'') [CStr (Some (drop s b))] | None \<Rightarrow> Return ()) (\<lambda>_.
          sh_panic (bytes m))
      | Fuel \<Rightarrow> Exit)"

text \<open>\<open>getcmd\<close> gives the line in the buffer, \<open>None\<close> for \<open>-1\<close>.\<close>

definition getcmd :: "int \<Rightarrow> u8 list option prog" where
  "getcmd nbuf =
     ubind (printf 2 ''$ '' []) (\<lambda>_.
     ubind (p_gets nbuf) (\<lambda>b.
     let l = takeWhile (\<lambda>c. c \<noteq> 0) b in Return (if l = [] then None else Some l)))"

text \<open>\<open>main\<close>: it sees to it that three descriptors are open, then reads and runs lines. A line that starts with \<open>cd\<close> is run by the shell itself, with its last byte cut off.\<close>

definition is_cd :: "u8 list \<Rightarrow> bool" where
  "is_cd b \<longleftrightarrow> ch b 0 = 99 \<and> ch b 1 = 100 \<and> ch b 2 = 32"

definition sh_open :: "unit prog" where
  "sh_open = uloop (\<lambda>_.
     ubind (sys (SOpen (bytes ''console'') O_RDWR)) (\<lambda>r.
     if rv r < 0 then Return (Inr ())
     else if 3 \<le> rv r then ubind (sys (SClose (rv r))) (\<lambda>_. Return (Inr ()))
     else Return (Inl ()))) ()"

definition sh_round :: "(unit + unit) prog" where
  "sh_round =
     ubind (getcmd 100) (\<lambda>l.
     case l of
       None \<Rightarrow> Return (Inr ())
     | Some b \<Rightarrow>
         if is_cd b then
           let d = drop 3 (butlast b) in
           ubind (sys (SChdir d)) (\<lambda>r.
           ubind (if rv r < 0 then printf 2 (nl ''cannot cd %s'') [CStr (Some d)] else Return ()) (\<lambda>_.
           Return (Inl ())))
         else
           ubind fork1 (\<lambda>pid.
           if pid = 0 then run_line b
           else ubind (sys SWait) (\<lambda>_. Return (Inl ()))))"

definition sh_main :: "unit prog" where
  "sh_main = ubind sh_open (\<lambda>_. ubind (uloop (\<lambda>_. sh_round) ()) (\<lambda>_. Exit))"

section \<open>Descriptors\<close>

datatype fobj = PipeR nat | PipeW nat | Other nat

type_synonym fds = "nat \<Rightarrow> fobj option"

definition fd_free :: "fds \<Rightarrow> nat option" where
  "fd_free F = find (\<lambda>i. F i = None) [0 ..< NOFILE]"

text \<open>
  A step of a process with its descriptors, and the process it starts, if any. The system calls on descriptors and \<open>fork\<close>, when they succeed.
\<close>

inductive ustep :: "'r prog \<times> fds \<Rightarrow> ('r prog \<times> fds) list \<Rightarrow> 'r prog \<times> fds \<Rightarrow> bool" where
  u_close: "d < NOFILE \<Longrightarrow> F d \<noteq> None \<Longrightarrow> ustep (Call (SClose (int d)) k, F) [] (k (result 0), F(d := None))"
| u_dup: "d < NOFILE \<Longrightarrow> F d = Some ob \<Longrightarrow> fd_free F = Some j \<Longrightarrow> ustep (Call (SDup (int d)) k, F) [] (k (result (int j)), F(j \<mapsto> ob))"
| u_pipe: "fd_free F = Some i \<Longrightarrow> fd_free (F(i \<mapsto> PipeR n)) = Some j \<Longrightarrow>
    ustep (Call SPipe k, F) [] (k ((result 0)\<lparr>fd0 := int i, fd1 := int j\<rparr>), F(i \<mapsto> PipeR n, j \<mapsto> PipeW n))"
| u_fork: "0 < pid \<Longrightarrow> ustep (Call SFork k, F) [(k (result 0), F)] (k (result pid), F)"

inductive urun :: "'r prog \<times> fds \<Rightarrow> ('r prog \<times> fds) list \<Rightarrow> 'r prog \<times> fds \<Rightarrow> bool" where
  u_refl: "urun x [] x"
| u_step: "ustep x cs y \<Longrightarrow> urun y ds z \<Longrightarrow> urun x (cs @ ds) z"

lemma fd_freeI:
  assumes "i < NOFILE" "F i = None" "\<forall>j < i. F j \<noteq> None"
  shows "fd_free F = Some i"
  unfolding fd_free_def find_Some_iff using assms by (intro exI [of _ i]) auto

lemma fd_freeD: "fd_free F = Some i \<Longrightarrow> i < NOFILE \<and> F i = None"
  by (auto simp: fd_free_def find_Some_iff)

lemma run1: "ustep x [] y \<Longrightarrow> urun y ds z \<Longrightarrow> urun x ds z"
  using u_step [of x "[]"] by simp

lemma run_child: "ustep x [c] y \<Longrightarrow> urun y ds z \<Longrightarrow> urun x (c # ds) z"
  using u_step [of x "[c]"] by simp

text \<open>The child of a pipeline moves its end of the pipe \<open>e\<close> to the descriptor \<open>t\<close>.\<close>

lemma pipe_child:
  assumes t: "t < NOFILE" "F t \<noteq> None" "\<forall>j < t. F j \<noteq> None" and e: "e < NOFILE" "F e = None" and d: "d < NOFILE" "F d = None" "e \<noteq> d"
  shows "urun (Call (SClose (int t)) (\<lambda>_. Call (SDup (int e)) (\<lambda>_. Call (SClose (int d)) (\<lambda>_. Call (SClose (int e)) (\<lambda>_. p)))), F(e \<mapsto> x, d \<mapsto> y)) []
    (p, F(t \<mapsto> x))"
    "urun (Call (SClose (int t)) (\<lambda>_. Call (SDup (int e)) (\<lambda>_. Call (SClose (int e)) (\<lambda>_. Call (SClose (int d)) (\<lambda>_. p)))), F(e \<mapsto> x, d \<mapsto> y)) []
    (p, F(t \<mapsto> x))"
proof -
  let ?F = "F(e \<mapsto> x, d \<mapsto> y)"
  have ne: "e \<noteq> t" "d \<noteq> t" using assms by auto
  have ft: "fd_free (?F(t := None)) = Some t" using t e d ne by (intro fd_freeI) auto
  have bk: "(?F(t := None))(t \<mapsto> x, d := None, e := None) = F(t \<mapsto> x)" "(?F(t := None))(t \<mapsto> x, e := None, d := None) = F(t \<mapsto> x)"
    using e d ne by (auto simp: fun_eq_iff)
  have r: "urun (p, F(t \<mapsto> x)) [] (p, F(t \<mapsto> x))" by (rule u_refl)
  have c: "ustep (Call (SClose (int t)) k, ?F) [] (k (result 0), ?F(t := None))" for k using t ne by (intro u_close) auto
  have dup: "ustep (Call (SDup (int e)) k, ?F(t := None)) [] (k (result (int t)), (?F(t := None))(t \<mapsto> x))" for k
    using e d ne ft by (intro u_dup) auto
  have ce: "F' e \<noteq> None \<Longrightarrow> ustep (Call (SClose (int e)) k, F') [] (k (result 0), F'(e := None))" for k F' using e by (intro u_close)
  have cd: "F' d \<noteq> None \<Longrightarrow> ustep (Call (SClose (int d)) k, F') [] (k (result 0), F'(d := None))" for k F' using d by (intro u_close)
  show "urun (Call (SClose (int t)) (\<lambda>_. Call (SDup (int e)) (\<lambda>_. Call (SClose (int d)) (\<lambda>_. Call (SClose (int e)) (\<lambda>_. p)))), ?F) [] (p, F(t \<mapsto> x))"
    by (rule run1 [OF c], rule run1 [OF dup], rule run1 [OF cd], use ne in simp, rule run1 [OF ce], use ne d in simp, simp only: bk, rule u_refl)
  show "urun (Call (SClose (int t)) (\<lambda>_. Call (SDup (int e)) (\<lambda>_. Call (SClose (int e)) (\<lambda>_. Call (SClose (int d)) (\<lambda>_. p)))), ?F) [] (p, F(t \<mapsto> x))"
    by (rule run1 [OF c], rule run1 [OF dup], rule run1 [OF ce], use ne d in simp, rule run1 [OF cd], use ne d in simp, simp only: bk, rule u_refl)
qed

text \<open>
  C30. The shell connects the commands of a pipeline. When standard input and output are open and two descriptors are free, \<open>runcmd\<close> of a pipeline starts two processes: the left command runs with the write end of a
  new pipe as its standard output, the right command with the read end as its standard input; all their other descriptors are those of the shell, so that neither holds a stray end of the pipe that would keep the reader
  from seeing the end of the input. The shell itself has its descriptors back and waits for both.
\<close>

theorem runcmd_pipe_connects:
  assumes F: "F 0 \<noteq> None" "F 1 \<noteq> None" and i: "fd_free F = Some i" and j: "fd_free (F(i \<mapsto> PipeR n)) = Some j"
  shows "\<exists>cl cr. urun (runcmd (PIPE l r) :: 'r prog, F) [cl, cr] (Call SWait (\<lambda>_. Call SWait (\<lambda>_. Exit)), F)
    \<and> urun cl [] (runcmd l, F(1 \<mapsto> PipeW n)) \<and> urun cr [] (runcmd r, F(0 \<mapsto> PipeR n))"
proof -
  have I: "i < NOFILE" "F i = None" and J: "j < NOFILE" "F j = None" "i \<noteq> j" using fd_freeD [OF i] fd_freeD [OF j] by (auto split: if_splits)
  let ?F = "F(i \<mapsto> PipeR n, j \<mapsto> PipeW n)"
  have tw: "?F = F(j \<mapsto> PipeW n, i \<mapsto> PipeR n)" using J(3) by (auto simp: fun_eq_iff)
  have N: "(1 :: nat) < NOFILE" "(0 :: nat) < NOFILE" by (simp_all add: const_defs)
  define cl :: "'r prog \<times> fds" where "cl = (Call (SClose 1) (\<lambda>_. Call (SDup (int j)) (\<lambda>_. Call (SClose (int i)) (\<lambda>_. Call (SClose (int j)) (\<lambda>_. runcmd l)))), ?F)"
  define cr :: "'r prog \<times> fds" where "cr = (Call (SClose 0) (\<lambda>_. Call (SDup (int i)) (\<lambda>_. Call (SClose (int i)) (\<lambda>_. Call (SClose (int j)) (\<lambda>_. runcmd r)))), ?F)"
  have "urun cl [] (runcmd l, F(1 \<mapsto> PipeW n))"
    using pipe_child(1) [of 1 F j i "runcmd l" "PipeW n" "PipeR n"] F I J N by (simp add: cl_def tw less_Suc_eq)
  moreover have "urun cr [] (runcmd r, F(0 \<mapsto> PipeR n))"
    using pipe_child(2) [of 0 F i j "runcmd r" "PipeR n" "PipeW n"] F I J N by (simp add: cr_def)
  moreover have "urun (runcmd (PIPE l r) :: 'r prog, F) [cl, cr] (Call SWait (\<lambda>_. Call SWait (\<lambda>_. Exit)), F)"
  proof -
    let ?w = "Call SWait (\<lambda>_. Call SWait (\<lambda>_. Exit))"
    let ?p = "Call (SClose (int i)) (\<lambda>_. Call (SClose (int j)) (\<lambda>_. ?w))"
    let ?r = "ubind fork1 (\<lambda>pid. if pid = 0 then fst cr else ?p)"
    have fork: "ustep (ubind fork1 (\<lambda>pid. if pid = 0 then fst c else q), snd c) [c] (q, snd c)" for c q
      using u_fork [of 1 "\<lambda>r. ubind (if rv r = - 1 then sh_panic (bytes ''fork'') else Return (rv r)) (\<lambda>pid. if pid = 0 then fst c else q)" "snd c"]
      by (simp add: fork1_def sys_def result_def)
    obtain k where "(runcmd (PIPE l r) :: 'r prog) = Call SPipe k" "k ((result 0)\<lparr>fd0 := int i, fd1 := int j\<rparr>) = ubind fork1 (\<lambda>pid. if pid = 0 then fst cl else ?r)"
      by (simp add: cl_def cr_def result_def cong: if_cong)
    then have 1: "ustep (runcmd (PIPE l r) :: 'r prog, F) [] (ubind fork1 (\<lambda>pid. if pid = 0 then fst cl else ?r), ?F)"
      using u_pipe [OF i j, of k] by simp
    have 2: "ustep (ubind fork1 (\<lambda>pid. if pid = 0 then fst cl else ?r), ?F) [cl] (?r, ?F)"
      using fork [of cl] by (simp add: cl_def)
    have 3: "ustep (?r, ?F) [cr] (?p, ?F)" using fork [of cr] by (simp add: cr_def)
    have 4: "ustep (?p, ?F) [] (Call (SClose (int j)) (\<lambda>_. ?w), ?F(i := None))" using I J by (intro u_close) auto
    have 5: "ustep (Call (SClose (int j)) (\<lambda>_. ?w), ?F(i := None)) [] (?w, ?F(i := None, j := None))" using I J by (intro u_close) auto
    have 6: "?F(i := None, j := None) = F" using I J by (auto simp: fun_eq_iff)
    show ?thesis
      by (rule run1 [OF 1], rule run_child [OF 2], rule run_child [OF 3], rule run1 [OF 4], rule run1 [OF 5]) (simp only: 6, rule u_refl)
  qed
  ultimately show ?thesis by blast
qed

definition demo_fds :: fds where
  "demo_fds i = (if i < 3 then Some (Other 0) else None)"

theorem runcmd_pipe_connects_witness:
  "\<exists>cl cr. urun (runcmd (PIPE (EXEC [bytes ''ls'']) (EXEC [bytes ''wc''])) :: unit prog, demo_fds) [cl, cr] (Call SWait (\<lambda>_. Call SWait (\<lambda>_. Exit)), demo_fds)
    \<and> urun cl [] (runcmd (EXEC [bytes ''ls'']), demo_fds(1 \<mapsto> PipeW 7)) \<and> urun cr [] (runcmd (EXEC [bytes ''wc'']), demo_fds(0 \<mapsto> PipeR 7))"
proof -
  have "fd_free demo_fds = Some 3" by (rule fd_freeI) (auto simp: demo_fds_def const_defs)
  moreover have "fd_free (demo_fds(3 \<mapsto> PipeR 7)) = Some 4" by (rule fd_freeI) (auto simp: demo_fds_def const_defs)
  ultimately show ?thesis by (intro runcmd_pipe_connects) (simp_all add: demo_fds_def)
qed

end
