(* ===== verification/Grep.thy ===== *)
theory Grep
  imports Ulib
begin

text \<open>
  The programs that read text: \<open>grep.c\<close> and \<open>wc.c\<close>. A NUL-terminated string is the list of its bytes; \<open>re[1]\<close> behind a single
  character is the NUL. A file is read through a parameter \<open>rd\<close>, which for a descriptor and a size gives the bytes read and the new state of the descriptor; no bytes
  stand for the end of the file or an error.

  Shown: the matcher decides the language of its patterns, and \<open>grep\<close> on a file prints exactly the lines that match; \<open>wc\<close> counts lines, words and bytes.
\<close>

section \<open>The matcher (grep.c)\<close>

function matchhere :: "u8 list \<Rightarrow> u8 list \<Rightarrow> bool"
  and matchstar :: "u8 \<Rightarrow> u8 list \<Rightarrow> u8 list \<Rightarrow> bool" where
  "matchhere re ts =
     (case re of
        [] \<Rightarrow> True
      | c # re' \<Rightarrow>
          if re' \<noteq> [] \<and> hd re' = 42 then matchstar c (tl re') ts
          else if c = 36 \<and> re' = [] then ts = []
          else if ts \<noteq> [] \<and> (c = 46 \<or> c = hd ts) then matchhere re' (tl ts)
          else False)"
| "matchstar c re ts =
     (if matchhere re ts then True
      else if ts \<noteq> [] \<and> (hd ts = c \<or> c = 46) then matchstar c re (tl ts)
      else False)"
  by pat_completeness auto
termination
  by (relation "measures [\<lambda>x. case x of Inl (re, ts) \<Rightarrow> 2 * length re | Inr (c, re, ts) \<Rightarrow> 2 * length re + 1,
      \<lambda>x. case x of Inl (re, ts) \<Rightarrow> length ts | Inr (c, re, ts) \<Rightarrow> length ts]") auto

declare matchhere.simps [simp del] matchstar.simps [simp del]

text \<open>The loop of \<open>match\<close> over the starts in the text.\<close>

fun match_from :: "u8 list \<Rightarrow> u8 list \<Rightarrow> bool" where
  "match_from re [] = matchhere re []"
| "match_from re (t # ts) = (if matchhere re (t # ts) then True else match_from re ts)"

definition match :: "u8 list \<Rightarrow> u8 list \<Rightarrow> bool" where
  "match re ts = (if re \<noteq> [] \<and> hd re = 94 then matchhere (tl re) ts else match_from re ts)"

section \<open>The language of a pattern\<close>

datatype piece = One u8 | Star u8

text \<open>The pieces of a pattern, and whether it ends in \<open>$\<close>.\<close>

fun pieces_of :: "u8 list \<Rightarrow> piece list \<times> bool" where
  "pieces_of [] = ([], False)"
| "pieces_of [c] = (if c = 36 then ([], True) else ([One c], False))"
| "pieces_of (c # d # re) =
     (if d = 42 then (case pieces_of re of (ps, e) \<Rightarrow> (Star c # ps, e))
      else (case pieces_of (d # re) of (ps, e) \<Rightarrow> (One c # ps, e)))"

definition fits :: "u8 \<Rightarrow> u8 \<Rightarrow> bool" where
  "fits c x \<longleftrightarrow> c = 46 \<or> c = x"

inductive in_lang :: "piece list \<Rightarrow> u8 list \<Rightarrow> bool" where
  in_Nil: "in_lang [] []"
| in_One: "fits c x \<Longrightarrow> in_lang ps w \<Longrightarrow> in_lang (One c # ps) (x # w)"
| in_Star: "\<forall>x \<in> set v. fits c x \<Longrightarrow> in_lang ps w \<Longrightarrow> in_lang (Star c # ps) (v @ w)"

inductive_cases in_NilE: "in_lang [] w"
inductive_cases in_OneE: "in_lang (One c # ps) w"
inductive_cases in_StarE: "in_lang (Star c # ps) w"

inductive_simps in_Nil_iff: "in_lang [] w"
inductive_simps in_One_iff: "in_lang (One c # ps) w"
inductive_simps in_Star_iff: "in_lang (Star c # ps) w"

text \<open>The pattern matches at the start of the text.\<close>

definition prefix_match :: "piece list \<times> bool \<Rightarrow> u8 list \<Rightarrow> bool" where
  "prefix_match pe ts \<longleftrightarrow> (\<exists>u v. ts = u @ v \<and> in_lang (fst pe) u \<and> (snd pe \<longrightarrow> v = []))"

lemma prefix_match_nil: "prefix_match ([], e) ts \<longleftrightarrow> (e \<longrightarrow> ts = [])"
  by (auto simp: prefix_match_def in_Nil_iff)

lemma prefix_match_one: "prefix_match (One c # ps, e) ts \<longleftrightarrow> ts \<noteq> [] \<and> fits c (hd ts) \<and> prefix_match (ps, e) (tl ts)"
proof (cases ts)
  case Nil
  then show ?thesis by (simp add: prefix_match_def in_One_iff)
next
  case (Cons t ts')
  have "(\<exists>u v. ts = u @ v \<and> in_lang (One c # ps) u \<and> (e \<longrightarrow> v = [])) \<longleftrightarrow> fits c t \<and> (\<exists>u v. ts' = u @ v \<and> in_lang ps u \<and> (e \<longrightarrow> v = []))" (is "?l \<longleftrightarrow> ?r")
  proof
    assume ?l
    then obtain u v where u: "ts = u @ v" "in_lang (One c # ps) u" "e \<longrightarrow> v = []" by blast
    then obtain w where "u = t # w" "fits c t" "in_lang ps w" using Cons by (auto elim: in_OneE)
    then show ?r using u Cons by auto
  next
    assume ?r
    then obtain u v where "ts' = u @ v" "in_lang ps u" "e \<longrightarrow> v = []" "fits c t" by blast
    then show ?l using Cons in_One [of c t ps u] by (intro exI [of _ "t # u"] exI [of _ v]) simp
  qed
  then show ?thesis using Cons by (simp add: prefix_match_def)
qed

lemma prefix_match_star:
  "prefix_match (Star c # ps, e) ts \<longleftrightarrow>
     prefix_match (ps, e) ts \<or> (ts \<noteq> [] \<and> fits c (hd ts) \<and> prefix_match (Star c # ps, e) (tl ts))"
  (is "?L \<longleftrightarrow> ?R")
proof
  assume ?L
  then obtain u r where u: "ts = u @ r" "in_lang (Star c # ps) u" and e: "e \<longrightarrow> r = []" by (auto simp: prefix_match_def)
  then obtain v w where t: "ts = v @ w @ r" and v: "\<forall>x \<in> set v. fits c x" and w: "in_lang ps w" by (auto elim: in_StarE)
  show ?R
  proof (cases v)
    case Nil
    then show ?thesis using t w e by (auto simp: prefix_match_def)
  next
    case (Cons x v')
    then have "in_lang (Star c # ps) (v' @ w)" using v w by (intro in_Star) auto
    moreover have "tl ts = (v' @ w) @ r" "ts \<noteq> []" "fits c (hd ts)" using t v Cons by simp_all
    ultimately show ?thesis using e unfolding prefix_match_def fst_conv snd_conv by blast
  qed
next
  assume ?R
  then show ?L
  proof (elim disjE conjE)
    assume "prefix_match (ps, e) ts"
    then obtain u r where "ts = u @ r" "in_lang ps u" "e \<longrightarrow> r = []" by (auto simp: prefix_match_def)
    moreover from this have "in_lang (Star c # ps) u" using in_Star [of "[]" c ps u] by simp
    ultimately show ?L by (auto simp: prefix_match_def)
  next
    assume a: "ts \<noteq> []" "fits c (hd ts)" "prefix_match (Star c # ps, e) (tl ts)"
    then obtain u r where u: "tl ts = u @ r" "in_lang (Star c # ps) u" "e \<longrightarrow> r = []" by (auto simp: prefix_match_def)
    then obtain v w where t: "tl ts = (v @ w) @ r" "\<forall>x \<in> set v. fits c x" "in_lang ps w" by (auto elim: in_StarE)
    then have "in_lang (Star c # ps) ((hd ts # v) @ w)" using a by (intro in_Star) auto
    moreover have "ts = ((hd ts # v) @ w) @ r" using t(1) a(1) by (cases ts) auto
    ultimately show ?L using u(3) by (metis prefix_match_def fst_conv snd_conv)
  qed
qed

lemma matchhere_lang:
  "matchhere re ts \<longleftrightarrow> prefix_match (pieces_of re) ts"
  "matchstar c re ts \<longleftrightarrow> prefix_match (Star c # fst (pieces_of re), snd (pieces_of re)) ts"
proof (induction re ts and c re ts
    rule: matchhere_matchstar.induct)
  case (1 re ts)
  show ?case
  proof (cases re rule: pieces_of.cases)
    case 1
    then show ?thesis by (simp add: matchhere.simps prefix_match_nil)
  next
    case (2 c)
    then show ?thesis by (auto simp: matchhere.simps prefix_match_nil prefix_match_one fits_def)
  next
    case (3 c d re')
    show ?thesis
    proof (cases "d = 42")
      case True
      then show ?thesis using 1(1) [OF 3] 3 by (subst matchhere.simps) (simp add: split_beta)
    next
      case False
      have "matchhere re ts \<longleftrightarrow> (ts \<noteq> [] \<and> fits c (hd ts) \<and> matchhere (d # re') (tl ts))"
        using False 3 by (subst matchhere.simps) (auto simp: fits_def)
      also have "\<dots> \<longleftrightarrow> (ts \<noteq> [] \<and> fits c (hd ts) \<and> prefix_match (pieces_of (d # re')) (tl ts))"
        using 1(2) [OF 3] False by (auto simp: fits_def)
      also have "\<dots> \<longleftrightarrow> prefix_match (pieces_of re) ts"
        using False 3 by (simp add: prefix_match_one split_beta)
      finally show ?thesis .
    qed
  qed
next
  case (2 c re ts)
  show ?case using 2 by (subst prefix_match_star, subst matchstar.simps) (auto simp: fits_def)
qed

lemma match_from_lang: "match_from re ts \<longleftrightarrow> (\<exists>pre ts'. ts = pre @ ts' \<and> prefix_match (pieces_of re) ts')"
proof (induction ts)
  case (Cons t ts)
  have e: "(\<exists>pre ts'. t # ts = pre @ ts' \<and> P ts') \<longleftrightarrow> P (t # ts) \<or> (\<exists>pre ts'. ts = pre @ ts' \<and> P ts')" for P
  proof
    assume "\<exists>pre ts'. t # ts = pre @ ts' \<and> P ts'"
    then obtain pre ts' where "t # ts = pre @ ts'" "P ts'" by blast
    then show "P (t # ts) \<or> (\<exists>pre ts'. ts = pre @ ts' \<and> P ts')" by (cases pre) auto
  next
    assume "P (t # ts) \<or> (\<exists>pre ts'. ts = pre @ ts' \<and> P ts')"
    then show "\<exists>pre ts'. t # ts = pre @ ts' \<and> P ts'"
    proof
      assume "P (t # ts)"
      then show ?thesis by (intro exI [of _ "[]"] exI [of _ "t # ts"]) simp
    next
      assume "\<exists>pre ts'. ts = pre @ ts' \<and> P ts'"
      then obtain pre ts' where "ts = pre @ ts'" "P ts'" by blast
      then show ?thesis by (intro exI [of _ "t # pre"] exI [of _ ts']) simp
    qed
  qed
  show ?case unfolding e [of "prefix_match (pieces_of re)"] using Cons by (simp add: matchhere_lang)
qed (simp add: matchhere_lang)

text \<open>
  C33. The matcher of \<open>grep\<close> decides the language of its patterns. A pattern is a sequence of characters, where a dot stands for any character and a star behind a character for any number of
  repetitions of it, a caret at the start ties it to the start of the text, and a dollar at the end to the end of the text. \<open>match\<close> holds for a pattern and a text exactly when the text has a part in the
  language of the sequence, with nothing before it under a caret and nothing behind it under a dollar; so the search with its nested loops, which always ends, misses no match.
\<close>

theorem match_decides_language:
  "match re ts \<longleftrightarrow>
     (\<exists>pre u post. ts = pre @ u @ post
        \<and> in_lang (fst (pieces_of (if re \<noteq> [] \<and> hd re = 94 then tl re else re))) u
        \<and> \<not> (re \<noteq> [] \<and> hd re = 94 \<and> pre \<noteq> [])
        \<and> \<not> (snd (pieces_of (if re \<noteq> [] \<and> hd re = 94 then tl re else re)) \<and> post \<noteq> []))"
proof (cases "re \<noteq> [] \<and> hd re = 94")
  case True
  then show ?thesis by (simp add: match_def matchhere_lang prefix_match_def)
next
  case False
  then show ?thesis by (auto simp: match_def match_from_lang prefix_match_def)
qed

section \<open>The loop over the lines (grep.c)\<close>

text \<open>
  The inner loop, on the bytes from \<open>p\<close> on: a line is what \<open>strchr\<close> finds before the next newline, and a match is written with its newline. It gives what is written and the
  bytes behind the last newline. A NUL in the buffer hides the rest from \<open>strchr\<close>.
\<close>

function grep_lines :: "u8 list \<Rightarrow> u8 list \<Rightarrow> u8 list \<times> u8 list" where
  "grep_lines pattern p =
     (if 10 \<in> set (takeWhile (\<lambda>c. c \<noteq> 0) p) then
        let l = takeWhile (\<lambda>c. c \<noteq> 10) p; r = grep_lines pattern (drop (length l + 1) p) in
        ((if match pattern l then l @ [10] else []) @ fst r, snd r)
      else ([], p))"
  by pat_completeness auto
termination
proof (relation "measure (\<lambda>(pattern, p). length p)")
  fix pattern p l :: "u8 list"
  assume "10 \<in> set (takeWhile (\<lambda>c. c \<noteq> 0) p)"
  then have "p \<noteq> []" by auto
  then show "((pattern, drop (length l + 1) p), pattern, p) \<in> measure (\<lambda>(pattern, p). length p)" by simp
qed simp

declare grep_lines.simps [simp del]

definition GREP_BUF :: nat where "GREP_BUF = 1024"

text \<open>The outer loop, with the first \<open>m\<close> bytes of the buffer as the list \<open>buf\<close>.\<close>

partial_function (option) grep :: "('f \<Rightarrow> nat \<Rightarrow> u8 list \<times> 'f) \<Rightarrow> u8 list \<Rightarrow> 'f \<Rightarrow> u8 list \<Rightarrow> u8 list \<Rightarrow> u8 list option" where
  "grep rd pattern fd buf out =
     (case rd fd (GREP_BUF - length buf - 1) of (d, fd') \<Rightarrow>
      if d = [] then Some out
      else
        let b = buf @ d; r = grep_lines pattern b; p = snd r in
        grep rd pattern fd' (if length p = length b then [] else p) (out @ fst r))"

section \<open>Files\<close>

text \<open>Reading a file: the bytes still to be read are the state of the descriptor.\<close>

definition file_read :: "u8 list \<Rightarrow> nat \<Rightarrow> u8 list \<times> u8 list" where
  "file_read f n = (take n f, drop n f)"

definition line_bytes :: "u8 list list \<Rightarrow> u8 list" where
  "line_bytes ls = concat (map (\<lambda>l. l @ [10]) ls)"

lemma grep_lines_complete:
  assumes "\<forall>l \<in> set ls. 10 \<notin> set l \<and> 0 \<notin> set l" "10 \<notin> set r" "0 \<notin> set r"
  shows "grep_lines pattern (line_bytes ls @ r) = (line_bytes (filter (match pattern) ls), r)"
  using assms(1)
proof (induction ls)
  case Nil
  then show ?case using assms(2) by (subst grep_lines.simps) (auto simp: line_bytes_def dest: set_takeWhileD)
next
  case (Cons l ls)
  let ?p = "line_bytes (l # ls) @ r"
  have p: "?p = l @ 10 # (line_bytes ls @ r)" by (simp add: line_bytes_def)
  have "10 \<in> set (takeWhile (\<lambda>c. c \<noteq> 0) ?p)" using Cons.prems unfolding p by (subst takeWhile_append2) auto
  moreover have t: "takeWhile (\<lambda>c. c \<noteq> 10) ?p = l" using Cons.prems unfolding p by (subst takeWhile_append2) auto
  ultimately have "grep_lines pattern ?p = ((if match pattern l then l @ [10] else []) @ fst (grep_lines pattern (line_bytes ls @ r)), snd (grep_lines pattern (line_bytes ls @ r)))"
    by (subst grep_lines.simps) (simp add: Let_def p)
  then show ?case using Cons by (simp add: line_bytes_def)
qed

lemma line_bytes_simps [simp]: "line_bytes [] = []" "line_bytes (l # ls) = l @ 10 # line_bytes ls" "line_bytes (ls @ ks) = line_bytes ls @ line_bytes ks"
  by (simp_all add: line_bytes_def)

text \<open>A part of the file from a start of line on: some whole lines and the start of another.\<close>

lemma prefix_lines:
  assumes "line_bytes ls @ rest = b @ f" "\<forall>l \<in> set ls. 10 \<notin> set l" "10 \<notin> set rest"
  shows "\<exists>ls1 ls2 r. ls = ls1 @ ls2 \<and> b = line_bytes ls1 @ r \<and> 10 \<notin> set r \<and> r @ f = line_bytes ls2 @ rest"
  using assms(1,2)
proof (induction ls arbitrary: b)
  case Nil
  then show ?case using assms(3) by (intro exI [of _ "[]"] exI [of _ b]) auto
next
  case (Cons l ls)
  show ?case
  proof (cases "length b \<le> length l")
    case True
    then have "b = take (length b) l" using arg_cong [OF Cons.prems(1), of "take (length b)"] by simp
    then have "10 \<notin> set b" using Cons.prems(2) by (metis in_set_takeD list.set_intros(1))
    then show ?thesis using Cons.prems(1) by (intro exI [of _ "[]"] exI [of _ "l # ls"] exI [of _ b]) simp
  next
    case False
    have "b = take (length b) (l @ 10 # line_bytes ls @ rest)" using arg_cong [OF Cons.prems(1), of "take (length b)"] by simp
    then obtain b' where b: "b = l @ 10 # b'" using False by (simp add: take_Cons' split: if_splits)
    then have "line_bytes ls @ rest = b' @ f" using Cons.prems(1) by simp
    then obtain ls1 ls2 r where "ls = ls1 @ ls2" "b' = line_bytes ls1 @ r" "10 \<notin> set r" "r @ f = line_bytes ls2 @ rest"
      using Cons.IH [of b'] Cons.prems(2) by auto
    then show ?thesis using b by (intro exI [of _ "l # ls1"] exI [of _ ls2] exI [of _ r]) simp
  qed
qed

definition text_line :: "u8 list \<Rightarrow> bool" where
  "text_line l \<longleftrightarrow> 10 \<notin> set l \<and> 0 \<notin> set l \<and> length l < GREP_BUF - 1"

lemma grep_file:
  assumes "buf @ f = line_bytes ls @ rest" "\<forall>l \<in> set ls. text_line l" "10 \<notin> set rest" "0 \<notin> set rest" "10 \<notin> set buf" "length buf < GREP_BUF - 1"
  shows "grep file_read pattern f buf out = Some (out @ line_bytes (filter (match pattern) ls))"
  using assms
proof (induction "length f" arbitrary: f buf ls rest out rule: less_induct)
  case less
  let ?n = "GREP_BUF - length buf - 1"
  have n: "0 < ?n" using less.prems(6) by simp
  show ?case
  proof (cases "f = []")
    case True
    have "ls = []" using less.prems(1,5) True by (cases ls) auto
    then show ?thesis using True by (subst grep.simps) (simp add: file_read_def)
  next
    case False
    let ?d = "take ?n f" and ?f = "drop ?n f"
    have d: "?d \<noteq> []" using False n by simp
    have no0: "0 \<notin> set (buf @ f)" using less.prems(2,4) unfolding less.prems(1) by (auto simp: line_bytes_def text_line_def)
    have "line_bytes ls @ rest = (buf @ ?d) @ ?f" using less.prems(1) by simp
    then obtain ls1 ls2 r where r: "ls = ls1 @ ls2" "buf @ ?d = line_bytes ls1 @ r" "10 \<notin> set r" "r @ ?f = line_bytes ls2 @ rest"
      using prefix_lines less.prems(2,3) by (metis text_line_def)
    have r0: "0 \<notin> set r" using no0 r(2) by (metis Un_iff append_take_drop_id set_append)
    have g: "grep_lines pattern (buf @ ?d) = (line_bytes (filter (match pattern) ls1), r)"
      unfolding r(2) using less.prems(2) r(1,3) r0 by (intro grep_lines_complete) (auto simp: text_line_def)
    have step: "grep file_read pattern f buf out
      = grep file_read pattern ?f (if length r = length (buf @ ?d) then [] else r) (out @ line_bytes (filter (match pattern) ls1))"
      using d g by (subst grep.simps) (simp add: file_read_def Let_def)
    have lt: "length ?f < length f" unfolding length_drop using False n by (intro diff_less) simp_all
    have lb: "length (buf @ ?d) \<le> GREP_BUF - 1" using less.prems(6) by simp
    show ?thesis
    proof (cases "length r = length (buf @ ?d)")
      case True
      then have "length (line_bytes ls1) = 0" using arg_cong [OF r(2), of length] by simp
      then have ls1: "ls1 = []" by (cases ls1) auto
      have "ls2 = []"
      proof (rule ccontr)
        assume "ls2 \<noteq> []"
        then obtain l ks where l: "ls2 = l # ks" by (cases ls2) auto
        then have len: "length l < GREP_BUF - 1" using less.prems(2) r(1) by (simp add: text_line_def)
        have "length r \<le> length l"
        proof (rule ccontr)
          assume "\<not> length r \<le> length l"
          then have "r ! length l = 10" "length l < length r" using arg_cong [OF r(4), of "\<lambda>xs. xs ! length l"] unfolding l by (simp_all add: nth_append)
          then show False using nth_mem r(3) by metis
        qed
        then have "length (buf @ ?d) < GREP_BUF - 1" using True len by simp
        then have "?f = []" using less.prems(6) by (simp add: min_def split: if_splits)
        then have "10 \<in> set r" using r(4) l by simp
        then show False using r(3) by blast
      qed
      then have "[] @ ?f = line_bytes [] @ ?f" "10 \<notin> set ?f" "0 \<notin> set ?f"
        using r(4) less.prems(3,4) by (auto simp: ls1 dest: in_set_dropD)
      then have "grep file_read pattern ?f [] (out @ line_bytes (filter (match pattern) ls1)) = Some (out @ line_bytes (filter (match pattern) ls1))"
        using less.hyps [OF lt, of "[]" "[]" ?f] by (simp add: GREP_BUF_def)
      then show ?thesis using step True r(1) \<open>ls2 = []\<close> by simp
    next
      case False
      then have "length r < GREP_BUF - 1" using lb r(2) by (metis le_neq_implies_less le_trans length_append le_add2 less_le_trans)
      then have "grep file_read pattern ?f r (out @ line_bytes (filter (match pattern) ls1))
        = Some ((out @ line_bytes (filter (match pattern) ls1)) @ line_bytes (filter (match pattern) ls2))"
        using less.hyps [OF lt r(4)] less.prems(2-4) r(1,3) by simp
      then show ?thesis using step False r(1) by simp
    qed
  qed
qed

text \<open>
  \<open>grep\<close> on a file prints exactly the lines that match. For a file of lines of less than 1023 bytes each, without NULs, wherever the reads, which
  fill the room left in the buffer, cut the file, the program ends and has written the lines that match the pattern, each with its newline, in their order. A last piece of the file without a
  newline, of any length, is never matched and never written.
\<close>

theorem grep_prints_matching_lines:
  assumes "\<forall>l \<in> set ls. text_line l" "10 \<notin> set rest" "0 \<notin> set rest"
  shows "grep file_read pattern (line_bytes ls @ rest) [] [] = Some (line_bytes (filter (match pattern) ls))"
  using grep_file [of "[]" "line_bytes ls @ rest" ls rest pattern "[]"] assms by (simp add: GREP_BUF_def)

theorem grep_prints_matching_lines_witness:
  "grep file_read (bytes ''^a.*c$'') (bytes ''abc'' @ [10] @ bytes ''bac'' @ [10] @ bytes ''ac'' @ [10] @ bytes ''abc'') [] []
    = Some (bytes ''abc'' @ [10] @ bytes ''ac'' @ [10])"
proof -
  let ?ls = "[bytes ''abc'', bytes ''bac'', bytes ''ac'']"
  have "\<forall>l \<in> set ?ls. text_line l" by (simp add: text_line_def bytes_def of_char_def GREP_BUF_def)
  moreover have "10 \<notin> set (bytes ''abc'')" "0 \<notin> set (bytes ''abc'')" by (simp_all add: bytes_def of_char_def)
  moreover have "filter (match (bytes ''^a.*c$'')) ?ls = [bytes ''abc'', bytes ''ac'']" by code_simp
  ultimately show ?thesis using grep_prints_matching_lines [of ?ls "bytes ''abc''" "bytes ''^a.*c$''"] by simp
qed

section \<open>Counting (wc.c)\<close>

text \<open>The body of the inner loop, and the loop over the reads of at most 512 bytes; the result is printed by the caller.\<close>

record wc_counts =
  wc_l :: nat
  wc_w :: nat
  wc_c :: nat
  inword :: bool

definition wc_byte :: "u8 \<Rightarrow> wc_counts \<Rightarrow> wc_counts" where
  "wc_byte b x =
     (let x = x\<lparr>wc_c := wc_c x + 1\<rparr>;
          x = (if b = 10 then x\<lparr>wc_l := wc_l x + 1\<rparr> else x) in
      if b \<in> {32, 13, 9, 10, 11} then x\<lparr>inword := False\<rparr>
      else if \<not> inword x then x\<lparr>wc_w := wc_w x + 1, inword := True\<rparr>
      else x)"

partial_function (option) wc :: "('f \<Rightarrow> nat \<Rightarrow> u8 list \<times> 'f) \<Rightarrow> 'f \<Rightarrow> wc_counts \<Rightarrow> wc_counts option" where
  "wc rd fd x = (case rd fd 512 of (d, fd') \<Rightarrow> if d = [] then Some x else wc rd fd' (fold wc_byte d x))"

text \<open>The words of a text: its positions that are not white space behind the start or white space.\<close>

definition space :: "u8 \<Rightarrow> bool" where
  "space b \<longleftrightarrow> b \<in> {32, 13, 9, 10, 11}"

definition word_starts :: "u8 list \<Rightarrow> nat list" where
  "word_starts bs = filter (\<lambda>i. \<not> space (bs ! i) \<and> (i = 0 \<or> space (bs ! (i - 1)))) [0 ..< length bs]"

lemma wc_bytes:
  assumes "x0 = \<lparr>wc_l = 0, wc_w = 0, wc_c = 0, inword = False\<rparr>"
  shows "fold wc_byte bs x0 = \<lparr>wc_l = length (filter (\<lambda>b. b = 10) bs), wc_w = length (word_starts bs), wc_c = length bs,
    inword = (bs \<noteq> [] \<and> \<not> space (last bs))\<rparr>"
proof (induction bs rule: rev_induct)
  case Nil
  then show ?case using assms by (simp add: word_starts_def)
next
  case (snoc b bs)
  have "filter (\<lambda>i. \<not> space ((bs @ [b]) ! i) \<and> (i = 0 \<or> space ((bs @ [b]) ! (i - 1)))) [0 ..< length bs] = word_starts bs"
    unfolding word_starts_def by (rule filter_cong) (auto simp: nth_append)
  then have "word_starts (bs @ [b]) = word_starts bs @ (if \<not> space b \<and> (bs = [] \<or> space (last bs)) then [length bs] else [])"
    by (cases "bs = []") (auto simp: word_starts_def nth_append last_conv_nth)
  then show ?case using snoc by (auto simp: wc_byte_def Let_def space_def)
qed

text \<open>\<open>wc\<close> ends on every file, and its counts do not depend on how the reads cut the file.\<close>

lemma wc_file: "wc file_read f x = Some (fold wc_byte f x)"
proof (induction "length f" arbitrary: f x rule: less_induct)
  case less
  show ?case
  proof (cases "f = []")
    case True
    then show ?thesis by (subst wc.simps) (simp add: file_read_def)
  next
    case False
    then have "wc file_read f x = wc file_read (drop 512 f) (fold wc_byte (take 512 f) x)" by (subst wc.simps) (simp add: file_read_def)
    also have "\<dots> = Some (fold wc_byte (drop 512 f) (fold wc_byte (take 512 f) x))" using False by (intro less) simp
    also have "\<dots> = Some (fold wc_byte f x)" by (metis append_take_drop_id comp_apply fold_append)
    finally show ?thesis .
  qed
qed

end
