(* ===== verification/Uprogs.thy ===== *)
theory Uprogs
  imports Grep Usys
begin

unbundle bit_operations_syntax

text \<open>
  The small user programs: \<open>cat.c\<close>, \<open>echo.c\<close>, \<open>grep.c\<close>, \<open>hello.c\<close>, \<open>init.c\<close>, \<open>kill.c\<close>, \<open>ln.c\<close>, \<open>ls.c\<close>, \<open>mkdir.c\<close>, \<open>rm.c\<close>, \<open>wc.c\<close> and \<open>zombie.c\<close>, as trees of system calls.
  \<open>argv\<close> is the list of the arguments behind the name of the program.

  Shown: \<open>cat\<close> copies its input, \<open>grep\<close> and \<open>wc\<close> write what their loops compute, and \<open>init\<close> never exits.
\<close>

section \<open>Programs that read files\<close>

text \<open>The loop over the files of \<open>main\<close> in \<open>cat\<close>, \<open>grep\<close> and \<open>wc\<close>.\<close>

primrec for_files :: "string \<Rightarrow> (int \<Rightarrow> u8 list \<Rightarrow> unit prog) \<Rightarrow> u8 list list \<Rightarrow> unit prog" where
  "for_files name f [] = Exit"
| "for_files name f (a # as) =
     ubind (sys (SOpen a 0)) (\<lambda>r.
     if rv r < 0 then ubind (printf 1 (nl (name @ '': cannot open %s'')) [CStr (Some a)]) (\<lambda>_. Exit)
     else
       ubind (f (rv r) a) (\<lambda>_.
       ubind (sys (SClose (rv r))) (\<lambda>_. for_files name f as)))"

definition cat_round :: "int \<Rightarrow> (unit + unit) prog" where
  "cat_round fd =
     ubind (sys (SRead fd 512)) (\<lambda>r.
     if 0 < rv r then
       ubind (sys (SWrite 1 (data r))) (\<lambda>w.
       if rv w \<noteq> rv r then ubind (printf 1 (nl ''cat: write error'') []) (\<lambda>_. Exit) else Return (Inl ()))
     else if rv r < 0 then ubind (printf 1 (nl ''cat: read error'') []) (\<lambda>_. Exit)
     else Return (Inr ()))"

definition cat :: "int \<Rightarrow> unit prog" where
  "cat fd = uloop (\<lambda>_. cat_round fd) ()"

definition cat_main :: "u8 list list \<Rightarrow> unit prog" where
  "cat_main argv = (if argv = [] then ubind (cat 0) (\<lambda>_. Exit) else for_files ''cat'' (\<lambda>fd _. cat fd) argv)"

text \<open>The inner loop of \<open>grep\<close> gives the bytes from \<open>p\<close> on.\<close>

function put_matches :: "u8 list \<Rightarrow> u8 list \<Rightarrow> u8 list prog" where
  "put_matches pattern p =
     (if 10 \<in> set (takeWhile (\<lambda>c. c \<noteq> 0) p) then
        let l = takeWhile (\<lambda>c. c \<noteq> 10) p in
        if match pattern l then ubind (sys (SWrite 1 (l @ [10]))) (\<lambda>_. put_matches pattern (drop (length l + 1) p))
        else put_matches pattern (drop (length l + 1) p)
      else Return p)"
  by pat_completeness auto
termination
  by (relation "measure (\<lambda>(pattern, p). length p)") (fastforce dest: length_pos_if_in_set set_takeWhileD)+

declare put_matches.simps [simp del]

definition grep_round :: "u8 list \<Rightarrow> int \<Rightarrow> u8 list \<Rightarrow> (u8 list + unit) prog" where
  "grep_round pattern fd buf =
     ubind (sys (SRead fd (GREP_BUF - length buf - 1))) (\<lambda>r.
     if 0 < rv r then
       let b = buf @ data r in
       ubind (put_matches pattern b) (\<lambda>p.
       Return (Inl (if length p = length b then [] else p)))
     else Return (Inr ()))"

definition grep_fd :: "u8 list \<Rightarrow> int \<Rightarrow> unit prog" where
  "grep_fd pattern fd = uloop (grep_round pattern fd) []"

definition grep_main :: "u8 list list \<Rightarrow> unit prog" where
  "grep_main argv =
     (case argv of
        [] \<Rightarrow> ubind (printf 2 (nl ''usage: grep pattern [file ...]'') []) (\<lambda>_. Exit)
      | pattern # names \<Rightarrow>
          if names = [] then ubind (grep_fd pattern 0) (\<lambda>_. Exit)
          else for_files ''grep'' (\<lambda>fd _. grep_fd pattern fd) names)"

definition wc_round :: "int \<Rightarrow> wc_counts \<Rightarrow> (wc_counts + wc_counts) prog" where
  "wc_round fd x =
     ubind (sys (SRead fd 512)) (\<lambda>r.
     if 0 < rv r then Return (Inl (fold wc_byte (data r) x))
     else if rv r < 0 then ubind (printf 1 (nl ''wc: read error'') []) (\<lambda>_. Exit)
     else Return (Inr x))"

definition wc_fd :: "int \<Rightarrow> u8 list \<Rightarrow> unit prog" where
  "wc_fd fd name =
     ubind (uloop (wc_round fd) \<lparr>wc_l = 0, wc_w = 0, wc_c = 0, inword = False\<rparr>) (\<lambda>x.
     printf 1 (nl ''%d %d %d %s'') [CInt (of_nat (wc_l x)), CInt (of_nat (wc_w x)), CInt (of_nat (wc_c x)), CStr (Some name)])"

definition wc_main :: "u8 list list \<Rightarrow> unit prog" where
  "wc_main argv = (if argv = [] then ubind (wc_fd 0 []) (\<lambda>_. Exit) else for_files ''wc'' wc_fd argv)"

section \<open>Listing a directory (ls.c)\<close>

definition fmtname :: "u8 list \<Rightarrow> u8 list" where
  "fmtname path =
     (let p = rev (takeWhile (\<lambda>c. c \<noteq> 47) (rev path)) in
      if DIRSIZ \<le> length p then p else p @ replicate (DIRSIZ - length p) 32)"

definition ls_line :: "u8 list \<Rightarrow> stat \<Rightarrow> unit prog" where
  "ls_line path st = printf 1 (nl ''%s %d %d %d'') [CStr (Some (fmtname path)), CInt (scast (st_type st)), CInt (of_nat (st_ino st)), CInt (st_size st)]"

definition ls_round :: "int \<Rightarrow> u8 list \<Rightarrow> (unit + unit) prog" where
  "ls_round fd path =
     ubind (sys (SRead fd DIRENT)) (\<lambda>r.
     if rv r = int DIRENT then
       if de_inum (data r) = 0 then Return (Inl ())
       else
         let buf = path @ [47] @ takeWhile (\<lambda>c. c \<noteq> 0) (take DIRSIZ (de_name (data r))) in
         ubind (u_stat buf) (\<lambda>s.
         ubind (if rv s < 0 then printf 1 (nl ''ls: cannot stat %s'') [CStr (Some buf)] else ls_line buf (rstat s)) (\<lambda>_.
         Return (Inl ())))
     else Return (Inr ()))"

definition ls :: "u8 list \<Rightarrow> unit prog" where
  "ls path =
     ubind (sys (SOpen path 0)) (\<lambda>r.
     if rv r < 0 then printf 2 (nl ''ls: cannot open %s'') [CStr (Some path)]
     else
       ubind (sys (SFstat (rv r))) (\<lambda>s.
       if rv s < 0 then
         ubind (printf 2 (nl ''ls: cannot stat %s'') [CStr (Some path)]) (\<lambda>_.
         ubind (sys (SClose (rv r))) (\<lambda>_. Return ()))
       else
         ubind (if st_type (rstat s) = T_FILE then ls_line path (rstat s)
                else if st_type (rstat s) = T_DIR then
                  if 512 < length path + 1 + DIRSIZ + 1 then printf 1 (nl ''ls: path too long'') []
                  else uloop (\<lambda>_. ls_round (rv r) path) ()
                else Return ()) (\<lambda>_.
         ubind (sys (SClose (rv r))) (\<lambda>_. Return ()))))"

primrec for_args :: "('a \<Rightarrow> unit prog) \<Rightarrow> 'a list \<Rightarrow> unit prog" where
  "for_args f [] = Return ()"
| "for_args f (a # as) = ubind (f a) (\<lambda>_. for_args f as)"

definition ls_main :: "u8 list list \<Rightarrow> unit prog" where
  "ls_main argv = ubind (if argv = [] then ls (bytes ''.'') else for_args ls argv) (\<lambda>_. Exit)"

section \<open>Programs of one call for each argument\<close>

primrec echo_args :: "u8 list list \<Rightarrow> unit prog" where
  "echo_args [] = Return ()"
| "echo_args (a # as) =
     ubind (printf 1 ''%s%s'' [CStr (Some a), CStr (Some (if as \<noteq> [] then bytes '' '' else [10]))]) (\<lambda>_. echo_args as)"

definition echo_main :: "u8 list list \<Rightarrow> unit prog" where
  "echo_main argv = ubind (echo_args argv) (\<lambda>_. Exit)"

definition kill_main :: "u8 list list \<Rightarrow> unit prog" where
  "kill_main argv =
     (if argv = [] then ubind (printf 2 (nl ''usage: kill pid...'') []) (\<lambda>_. Exit)
      else ubind (for_args (\<lambda>a. ubind (sys (SKill (atoi_str a))) (\<lambda>_. Return ())) argv) (\<lambda>_. Exit))"

definition ln_main :: "u8 list list \<Rightarrow> unit prog" where
  "ln_main argv =
     (case argv of
        [old, new] \<Rightarrow>
          ubind (sys (SLink old new)) (\<lambda>r.
          ubind (if rv r < 0 then printf 2 (nl ''link %s %s: failed'') [CStr (Some old), CStr (Some new)] else Return ()) (\<lambda>_. Exit))
      | _ \<Rightarrow> ubind (printf 2 (nl ''Usage: ln old new'') []) (\<lambda>_. Exit))"

text \<open>The loops of \<open>mkdir\<close> and \<open>rm\<close> stop at the first failure.\<close>

primrec until_failure :: "(u8 list \<Rightarrow> sysc) \<Rightarrow> string \<Rightarrow> u8 list list \<Rightarrow> unit prog" where
  "until_failure c msg [] = Exit"
| "until_failure c msg (a # as) =
     ubind (sys (c a)) (\<lambda>r.
     if rv r < 0 then ubind (printf 2 (nl msg) [CStr (Some a)]) (\<lambda>_. Exit)
     else until_failure c msg as)"

definition mkdir_main :: "u8 list list \<Rightarrow> unit prog" where
  "mkdir_main argv =
     (if argv = [] then ubind (printf 2 (nl ''Usage: mkdir files...'') []) (\<lambda>_. Exit)
      else until_failure SMkdir ''mkdir: %s failed to create'' argv)"

definition rm_main :: "u8 list list \<Rightarrow> unit prog" where
  "rm_main argv =
     (if argv = [] then ubind (printf 2 (nl ''Usage: rm files...'') []) (\<lambda>_. Exit)
      else until_failure SUnlink ''rm: %s failed to delete'' argv)"

definition hello_main :: "unit prog" where
  "hello_main = ubind (printf 1 (nl ''Hello world!'') []) (\<lambda>_. Exit)"

definition zombie_main :: "unit prog" where
  "zombie_main = ubind (sys SFork) (\<lambda>r. if 0 < rv r then ubind (sys (SSleep 5)) (\<lambda>_. Exit) else Exit)"

section \<open>The first program (init.c)\<close>

definition init_wait_round :: "int \<Rightarrow> (unit + unit) prog" where
  "init_wait_round pid =
     ubind (sys SWait) (\<lambda>r.
     if 0 \<le> rv r \<and> rv r \<noteq> pid then ubind (printf 1 (nl ''zombie!'') []) (\<lambda>_. Return (Inl ()))
     else Return (Inr ()))"

definition init_wait :: "int \<Rightarrow> unit prog" where
  "init_wait pid = uloop (\<lambda>_. init_wait_round pid) ()"

definition init_round :: "(unit + unit) prog" where
  "init_round =
     ubind (printf 1 (nl ''init: starting sh'') []) (\<lambda>_.
     ubind (sys SFork) (\<lambda>r.
     if rv r < 0 then ubind (printf 1 (nl ''init: fork failed'') []) (\<lambda>_. Exit)
     else if rv r = 0 then
       ubind (sys (SExec (bytes ''sh'') [bytes ''sh''])) (\<lambda>_.
       ubind (printf 1 (nl ''init: exec sh failed'') []) (\<lambda>_. Exit))
     else ubind (init_wait (rv r)) (\<lambda>_. Return (Inl ()))))"

definition init_main :: "unit prog" where
  "init_main =
     ubind (sys (SOpen (bytes ''console'') O_RDWR)) (\<lambda>r.
     ubind (if rv r < 0 then
              ubind (sys (SMknod (bytes ''console'') 1 1)) (\<lambda>_.
              ubind (sys (SOpen (bytes ''console'') O_RDWR)) (\<lambda>_. Return ()))
            else Return ()) (\<lambda>_.
     ubind (sys (SDup 0)) (\<lambda>_.
     ubind (sys (SDup 0)) (\<lambda>_.
     uloop (\<lambda>_. init_round) ()))))"

section \<open>What the programs do\<close>

lemma cat_calls: "calls (\<lambda>_. cat_round fd)"
  by (simp add: calls_def cat_round_def)

text \<open>\<open>cat\<close> writes the bytes of its file to standard output, however many reads it takes.\<close>

lemma cat_copies: "\<exists>n. urunw fsem n (cat fd) w = Some (Some (), w\<lparr>unread := (unread w)(fd := []), outs := (outs w)(1 := outs w 1 @ unread w fd)\<rparr>)"
proof (induction "length (unread w fd)" arbitrary: w rule: less_induct)
  case less
  let ?f = "unread w fd"
  show ?case
  proof (cases "?f = []")
    case True
    then have "urunw fsem 1 (cat_round fd) w = Some (Some (Inr ()), w\<lparr>unread := (unread w)(fd := [])\<rparr>)" by (simp add: cat_round_def)
    then have "urunw fsem 1 (cat fd) w = Some (Some (), w\<lparr>unread := (unread w)(fd := [])\<rparr>)" unfolding cat_def uloop_def by (rule urunw_loop_end)
    then show ?thesis using True by (intro exI [of _ 1]) simp
  next
    case False
    let ?w = "w\<lparr>unread := (unread w)(fd := drop 512 ?f), outs := (outs w)(1 := outs w 1 @ take 512 ?f)\<rparr>"
    have r: "urunw fsem 2 (cat_round fd) w = Some (Some (Inl ()), ?w)" using False by (simp add: cat_round_def numeral_2_eq_2 Let_def)
    have "length (unread ?w fd) < length ?f" using False by simp
    then obtain n where "urunw fsem n (cat fd) ?w = Some (Some (), ?w\<lparr>unread := (unread ?w)(fd := []), outs := (outs ?w)(1 := outs ?w 1 @ unread ?w fd)\<rparr>)"
      using less by blast
    then have "urunw fsem (2 + n) (cat fd) w = Some (Some (), w\<lparr>unread := (unread w)(fd := []), outs := (outs w)(1 := outs w 1 @ ?f)\<rparr>)"
      using urunw_loop_next [OF cat_calls r] by (simp add: cat_def uloop_def)
    then show ?thesis by blast
  qed
qed

text \<open>\<open>grep\<close> writes what the loop of \<open>Grep\<close> computes.\<close>

lemma put_matches_runs:
  "\<exists>n. urunw fsem n (put_matches pattern p) w = Some (Some (snd (grep_lines pattern p)), w\<lparr>outs := (outs w)(1 := outs w 1 @ fst (grep_lines pattern p))\<rparr>)"
proof (induction pattern p arbitrary: w rule: put_matches.induct)
  case (1 pattern p)
  show ?case
  proof (cases "10 \<in> set (takeWhile (\<lambda>c. c \<noteq> 0) p)")
    case True
    let ?l = "takeWhile (\<lambda>c. c \<noteq> 10) p"
    let ?p = "drop (length ?l + 1) p"
    have g: "grep_lines pattern p = ((if match pattern ?l then ?l @ [10] else []) @ fst (grep_lines pattern ?p), snd (grep_lines pattern ?p))"
      using True by (subst grep_lines.simps) (simp add: Let_def)
    show ?thesis
    proof (cases "match pattern ?l")
      case m: True
      let ?w = "w\<lparr>outs := (outs w)(1 := outs w 1 @ ?l @ [10])\<rparr>"
      obtain n where "urunw fsem n (put_matches pattern ?p) ?w = Some (Some (snd (grep_lines pattern ?p)), ?w\<lparr>outs := (outs ?w)(1 := outs ?w 1 @ fst (grep_lines pattern ?p))\<rparr>)"
        using "1.IH"(1) [OF True refl m] by blast
      then have "urunw fsem (Suc n) (put_matches pattern p) w = Some (Some (snd (grep_lines pattern p)), w\<lparr>outs := (outs w)(1 := outs w 1 @ fst (grep_lines pattern p))\<rparr>)"
        unfolding g by (subst put_matches.simps) (simp add: True m Let_def)
      then show ?thesis by blast
    next
      case m: False
      have "put_matches pattern p = put_matches pattern ?p" by (subst put_matches.simps) (simp add: True m Let_def)
      then show ?thesis using "1.IH"(2) [OF True refl m, of w] unfolding g by (simp add: m)
    qed
  next
    case False
    then have "put_matches pattern p = Return p" "grep_lines pattern p = ([], p)" by (subst put_matches.simps grep_lines.simps; simp)+
    then show ?thesis by simp
  qed
qed

lemma grep_calls: "calls (grep_round pattern fd)"
  by (simp add: calls_def grep_round_def)

lemma grep_fd_runs:
  "\<exists>n res w'. grep file_read pattern (unread w fd) buf (outs w 1) = Some res \<and> urunw fsem n (uloop (grep_round pattern fd) buf) w = Some (Some (), w') \<and> outs w' 1 = res"
proof (induction "length (unread w fd)" arbitrary: w buf rule: less_induct)
  case less
  let ?f = "unread w fd" and ?n = "GREP_BUF - length buf - 1"
  let ?w = "w\<lparr>unread := (unread w)(fd := drop ?n ?f)\<rparr>"
  show ?case
  proof (cases "take ?n ?f = []")
    case True
    then have "urunw fsem 1 (grep_round pattern fd buf) w = Some (Some (Inr ()), ?w)" by (auto simp: grep_round_def Let_def)
    then have "urunw fsem 1 (uloop (grep_round pattern fd) buf) w = Some (Some (), ?w)" unfolding uloop_def by (rule urunw_loop_end)
    moreover have "grep file_read pattern ?f buf (outs w 1) = Some (outs w 1)" using True by (subst grep.simps) (simp add: file_read_def)
    ultimately show ?thesis by (intro exI [of _ 1] exI [of _ "outs w 1"] exI [of _ ?w]) simp
  next
    case False
    let ?b = "buf @ take ?n ?f"
    let ?r = "grep_lines pattern ?b"
    let ?buf = "if length (snd ?r) = length ?b then [] else snd ?r"
    let ?v = "?w\<lparr>outs := (outs w)(1 := outs w 1 @ fst ?r)\<rparr>"
    obtain n where "urunw fsem n (put_matches pattern ?b) ?w = Some (Some (snd ?r), ?v)" using put_matches_runs [of pattern ?b ?w] by auto
    then have "urunw fsem (n + 0) (ubind (put_matches pattern ?b) (\<lambda>p. Return (Inl (if length p = length ?b then [] else p)))) ?w = Some (Some (Inl ?buf), ?v)"
      by (rule urunw_bind) simp
    then have r: "urunw fsem (Suc n) (grep_round pattern fd buf) w = Some (Some (Inl ?buf), ?v)" using False by (simp add: grep_round_def Let_def)
    have "0 < ?n" "0 < length ?f" using False by auto
    then have "length ?f - ?n < length ?f" by (intro diff_less)
    then have "length (unread ?v fd) < length ?f" by simp
    then obtain m res w' where m: "grep file_read pattern (unread ?v fd) ?buf (outs ?v 1) = Some res" "urunw fsem m (uloop (grep_round pattern fd) ?buf) ?v = Some (Some (), w')" "outs w' 1 = res"
      using less by blast
    have "urunw fsem (Suc n + m) (uloop (grep_round pattern fd) buf) w = Some (Some (), w')"
      using urunw_loop_next [OF grep_calls r m(2)] by (simp add: uloop_def)
    moreover have "grep file_read pattern ?f buf (outs w 1) = Some res" using m(1) False by (subst grep.simps) (simp add: file_read_def Let_def cong: if_cong)
    ultimately show ?thesis using m(3) by blast
  qed
qed



lemma wc_calls: "calls (wc_round fd)"
  by (simp add: calls_def wc_round_def)

text \<open>\<open>wc\<close> has counted all bytes of its file before it writes the line.\<close>

lemma wc_fd_counts: "\<exists>n. urunw fsem n (uloop (wc_round fd) x) w = Some (Some (fold wc_byte (unread w fd) x), w\<lparr>unread := (unread w)(fd := [])\<rparr>)"
proof (induction "length (unread w fd)" arbitrary: w x rule: less_induct)
  case less
  let ?f = "unread w fd"
  show ?case
  proof (cases "?f = []")
    case True
    then have "urunw fsem 1 (wc_round fd x) w = Some (Some (Inr x), w\<lparr>unread := (unread w)(fd := [])\<rparr>)" by (simp add: wc_round_def)
    then have "urunw fsem 1 (uloop (wc_round fd) x) w = Some (Some x, w\<lparr>unread := (unread w)(fd := [])\<rparr>)" unfolding uloop_def by (rule urunw_loop_end)
    then show ?thesis using True by (intro exI [of _ 1]) simp
  next
    case False
    let ?w = "w\<lparr>unread := (unread w)(fd := drop 512 ?f)\<rparr>" and ?x = "fold wc_byte (take 512 ?f) x"
    have r: "urunw fsem 1 (wc_round fd x) w = Some (Some (Inl ?x), ?w)" using False by (simp add: wc_round_def Let_def)
    have "length (unread ?w fd) < length ?f" using False by simp
    then obtain n where n: "urunw fsem n (uloop (wc_round fd) ?x) ?w = Some (Some (fold wc_byte (unread ?w fd) ?x), ?w\<lparr>unread := (unread ?w)(fd := [])\<rparr>)"
      using less by blast
    have "fold wc_byte (drop 512 ?f) ?x = fold wc_byte ?f x" by (metis append_take_drop_id fold_append comp_apply)
    then have "urunw fsem (1 + n) (uloop (wc_round fd) x) w = Some (Some (fold wc_byte ?f x), w\<lparr>unread := (unread w)(fd := [])\<rparr>)"
      using urunw_loop_next [OF wc_calls r n] by (simp add: uloop_def)
    then show ?thesis by blast
  qed
qed

section \<open>The first program never ends\<close>

text \<open>The process that \<open>fork\<close> returns to is the parent.\<close>

definition fork_ok :: "sysc \<Rightarrow> sysres \<Rightarrow> bool" where
  "fork_ok c r \<longleftrightarrow> (c = SFork \<longrightarrow> 0 < rv r)"

lemma fork_okD: "fork_ok SFork r \<Longrightarrow> 0 < rv r"
  by (simp add: fork_ok_def)

definition init_loop :: "unit prog" where
  "init_loop = uloop (\<lambda>_. init_round) ()"

definition init_waiting :: "int \<Rightarrow> unit prog" where
  "init_waiting pid = uloop_from (\<lambda>_. init_round) (ubind (init_wait pid) (\<lambda>_. Return (Inl ())))"

definition line_of :: "string \<Rightarrow> u8 list" where
  "line_of fmt = (case u_printf (nl fmt) [] of Some out \<Rightarrow> out | None \<Rightarrow> [])"

lemma init_lines: "line_of ''init: starting sh'' \<noteq> []" "printf 1 (nl m) [] = puts 1 (line_of m)"
  by code_simp (simp add: printf_def line_of_def)

lemma init_calls: "calls (\<lambda>_. init_round)"
  using puts_calls [OF init_lines(1)] by (simp add: calls_def init_round_def init_lines(2))

lemma wait_calls: "calls (\<lambda>_. init_wait_round pid)"
  by (simp add: calls_def init_wait_round_def)

lemma init_waiting_step:
  "init_waiting pid = Call SWait (\<lambda>r. if 0 \<le> rv r \<and> rv r \<noteq> pid then ubind (puts 1 (line_of ''zombie!'')) (\<lambda>_. init_waiting pid) else init_loop)"
proof -
  have w: "init_wait pid = Call SWait (\<lambda>r. if 0 \<le> rv r \<and> rv r \<noteq> pid then ubind (puts 1 (line_of ''zombie!'')) (\<lambda>_. init_wait pid) else Return ())"
    unfolding init_wait_def
    by (subst uloop_def, subst (2) init_wait_round_def) (simp add: init_lines(2) if_distrib [of "uloop_from _"] puts_loop callsD [OF wait_calls] cong: if_cong)
  show ?thesis
    unfolding init_waiting_def
    by (subst w) (simp add: if_distrib [of "\<lambda>p. ubind p _"] if_distrib [of "uloop_from _"] puts_bind puts_loop callsD [OF init_calls] init_loop_def cong: if_cong)
qed

lemma init_loop_step:
  "init_loop = ubind (puts 1 (line_of ''init: starting sh'')) (\<lambda>_. Call SFork (\<lambda>r.
     if rv r < 0 then ubind (puts 1 (line_of ''init: fork failed'')) (\<lambda>_. Exit)
     else if rv r = 0 then Call (SExec (bytes ''sh'') [bytes ''sh'']) (\<lambda>_. ubind (puts 1 (line_of ''init: exec sh failed'')) (\<lambda>_. Exit))
     else init_waiting (rv r)))"
  unfolding init_loop_def
  by (subst uloop_def, subst (2) init_round_def) (simp add: init_lines(2) if_distrib [of "uloop_from _"] puts_loop init_waiting_def cong: if_cong)

text \<open>
  C31. The first program never ends. As long as \<open>fork\<close> succeeds, and whatever the results of its other system calls are, \<open>init\<close> as the parent makes system calls forever: it neither exits nor returns after any number
  of them. The kernel relies on this: \<open>exit\<close> of the first process panics, and orphans are handed to it to be waited for.
\<close>

theorem init_never_exits: "alive fork_ok n init_main"
proof -
  have L: "alive fork_ok n init_loop \<and> (\<forall>pid. alive fork_ok n (init_waiting pid))" for n
  proof (induction n)
    case 0
    show ?case using puts_calls [OF init_lines(1)] by (subst init_loop_step, subst init_waiting_step) simp
  next
    case (Suc n)
    have "alive fork_ok (Suc n) (init_waiting pid)" for pid
      using Suc by (subst init_waiting_step) (auto intro!: alive_puts)
    moreover have "alive fork_ok (Suc n) init_loop"
      by (subst init_loop_step, rule alive_puts) (use Suc in \<open>auto dest: fork_okD\<close>)
    ultimately show ?case by blast
  qed
  have "alive fork_ok m (Call (SDup 0) (\<lambda>_. Call (SDup 0) (\<lambda>_. init_loop)))" for m
    using L by (auto simp: alive_Call split: nat.splits)
  then show ?thesis by (auto simp: init_main_def init_loop_def [symmetric] alive_Call split: nat.splits)
qed

end
