(* ===== verification/Umalloc.thy ===== *)
theory Umalloc
  imports Prelude
begin

text \<open>
  The allocator of the user programs (\<open>umalloc.c\<close>). An address is counted in units of a header; a header has a pointer and a size. The free blocks are on a circular list in the order of their addresses,
  which starts and ends at the static header \<open>base\<close>. The heap grows by \<open>sbrk\<close>, which gives the units behind the end of the heap, up to a limit. Sizes in bytes are 32-bit words,
  as in the code: a request of 2 GB or more makes the argument of \<open>sbrk\<close> negative.

  Shown: \<open>malloc\<close> and \<open>free\<close> always return, blocks never overlap, and no unit of the heap is ever lost.
\<close>

section \<open>State\<close>

record uheap =
  hptr :: "nat \<Rightarrow> nat"
  hsize :: "nat \<Rightarrow> nat"
  freep :: nat             \<comment> \<open>0 is the null pointer\<close>
  base :: nat
  hstart :: nat            \<comment> \<open>the first unit of the heap\<close>
  brk :: nat
  brk_max :: nat

definition HEADER :: nat where "HEADER = 8"

definition set_ptr :: "nat \<Rightarrow> nat \<Rightarrow> uheap \<Rightarrow> uheap" where
  "set_ptr a v s = s\<lparr>hptr := (hptr s)(a := v)\<rparr>"

definition set_size :: "nat \<Rightarrow> nat \<Rightarrow> uheap \<Rightarrow> uheap" where
  "set_size a v s = s\<lparr>hsize := (hsize s)(a := v)\<rparr>"

text \<open>
  \<open>sbrk\<close> with a number of bytes: it gives the old end of the heap. The kernel fails when there is no memory up to the new end or the new end is 0, and leaves the end alone when it would be below 0
  (\<open>sys_sbrk\<close> and \<open>growproc\<close>, where the new size wraps around).
\<close>

definition sbrk :: "int \<Rightarrow> uheap \<Rightarrow> nat option \<times> uheap" where
  "sbrk n s =
     (let e = int (brk s) + n div int HEADER in
      if 0 \<le> n then if e \<le> int (brk_max s) then (Some (brk s), s\<lparr>brk := nat e\<rparr>) else (None, s)
      else if e < 0 then (Some (brk s), s)
      else if e = 0 then (None, s)
      else (Some (brk s), s\<lparr>brk := nat e\<rparr>))"

section \<open>The allocator\<close>

partial_function (option) free_find :: "uheap \<Rightarrow> nat \<Rightarrow> nat \<Rightarrow> nat option" where
  "free_find s bp p =
     (if p < bp \<and> bp < hptr s p then Some p
      else if hptr s p \<le> p \<and> (p < bp \<or> bp < hptr s p) then Some p
      else free_find s bp (hptr s p))"

definition free_at :: "nat \<Rightarrow> nat \<Rightarrow> uheap \<Rightarrow> uheap" where
  "free_at bp p s =
     (let s1 = (if bp + hsize s bp = hptr s p
                then set_ptr bp (hptr s (hptr s p)) (set_size bp (hsize s bp + hsize s (hptr s p)) s)
                else set_ptr bp (hptr s p) s);
          s2 = (if p + hsize s1 p = bp
                then set_ptr p (hptr s1 bp) (set_size p (hsize s1 p + hsize s1 bp) s1)
                else set_ptr p bp s1)
      in s2\<lparr>freep := p\<rparr>)"

definition ufree :: "nat \<Rightarrow> uheap \<Rightarrow> uheap option" where
  "ufree ap s = map_option (\<lambda>p. free_at (ap - 1) p s) (free_find s (ap - 1) (freep s))"

text \<open>\<open>morecore\<close>: the result 0 is \<open>Inl\<close>.\<close>

definition morecore :: "nat \<Rightarrow> uheap \<Rightarrow> (uheap + nat \<times> uheap) option" where
  "morecore nu s =
     (let nu = max nu 4096 in
      case sbrk (sint (of_nat (nu * HEADER) :: u32)) s of
        (None, s1) \<Rightarrow> Some (Inl s1)
      | (Some hp, s1) \<Rightarrow> map_option (\<lambda>s2. Inr (freep s2, s2)) (ufree (hp + 1) (set_size hp nu s1)))"

text \<open>The loop of \<open>malloc\<close>; the result is the address given out, or \<open>None\<close> for the null pointer, with the heap.\<close>

definition take_block :: "nat \<Rightarrow> nat \<Rightarrow> nat \<Rightarrow> uheap \<Rightarrow> nat \<times> uheap" where
  "take_block nunits prevp p s =
     (if hsize s p = nunits then (p + 1, (set_ptr prevp (hptr s p) s)\<lparr>freep := prevp\<rparr>)
      else
        let s1 = set_size p (hsize s p - nunits) s; q = p + hsize s1 p in
        (q + 1, (set_size q nunits s1)\<lparr>freep := prevp\<rparr>))"

partial_function (option) malloc_loop :: "nat \<Rightarrow> nat \<Rightarrow> nat \<Rightarrow> uheap \<Rightarrow> (nat option \<times> uheap) option" where
  "malloc_loop nunits prevp p s =
     (if nunits \<le> hsize s p then Some (case take_block nunits prevp p s of (ap, s') \<Rightarrow> (Some ap, s'))
      else if p = freep s then
        Option.bind (morecore nunits s) (\<lambda>r.
        case r of Inl s1 \<Rightarrow> Some (None, s1)
        | Inr (p, s1) \<Rightarrow> malloc_loop nunits p (hptr s1 p) s1)
      else malloc_loop nunits p (hptr s p) s)"

definition nunits_of :: "u32 \<Rightarrow> nat" where
  "nunits_of nbytes = unat ((nbytes + 8 - 1) div 8 + 1)"

definition malloc :: "u32 \<Rightarrow> uheap \<Rightarrow> (nat option \<times> uheap) option" where
  "malloc nbytes s =
     (let s1 = (if freep s = 0 then set_size (base s) 0 ((set_ptr (base s) (base s) s)\<lparr>freep := base s\<rparr>) else s)
      in malloc_loop (nunits_of nbytes) (freep s1) (hptr s1 (freep s1)) s1)"

section \<open>The free list\<close>

definition first :: "nat list \<Rightarrow> nat \<Rightarrow> nat" where
  "first as e = (case as of [] \<Rightarrow> e | a # _ \<Rightarrow> a)"

lemma first_simps [simp]: "first [] e = e" "first (a # as) e = a"
  by (simp_all add: first_def)

fun chain :: "(nat \<Rightarrow> nat) \<Rightarrow> nat list \<Rightarrow> nat \<Rightarrow> bool" where
  "chain f [] e = True"
| "chain f (a # as) e = (f a = first as e \<and> chain f as e)"

lemma chain_append: "chain f (as @ bs) e \<longleftrightarrow> chain f as (first bs e) \<and> chain f bs e"
  by (induction as) (auto simp: first_def split: list.splits)

lemma chain_cong: "(\<And>a. a \<in> set as \<Longrightarrow> f a = g a) \<Longrightarrow> chain f as e = chain g as e"
  by (induction as) auto

definition gaps :: "(nat \<Rightarrow> nat) \<Rightarrow> nat list \<Rightarrow> bool" where
  "gaps sz as \<longleftrightarrow> sorted_wrt (\<lambda>a b. a + sz a < b) as"

definition ring :: "uheap \<Rightarrow> nat list \<Rightarrow> bool" where
  "ring s as \<longleftrightarrow> as \<noteq> [] \<and> hd as = base s \<and> hsize s (base s) = 0 \<and> chain (hptr s) as (base s) \<and> gaps (hsize s) as
     \<and> (\<forall>a \<in> set (tl as). 0 < hsize s a) \<and> freep s \<in> set as \<and> 0 < base s"

definition units :: "(nat \<Rightarrow> nat) \<Rightarrow> nat list \<Rightarrow> nat set" where
  "units sz as = (\<Union>a \<in> set as. {a ..< a + sz a})"

text \<open>The heap with the blocks \<open>A\<close> given out: free and given out blocks are disjoint and together are the heap.\<close>

definition block :: "nat \<times> nat \<Rightarrow> nat set" where
  "block x = {fst x ..< fst x + snd x}"

definition blocks :: "(nat \<times> nat) set \<Rightarrow> nat set" where
  "blocks A = (\<Union>x \<in> A. block x)"

definition apart :: "(nat \<times> nat) set \<Rightarrow> bool" where
  "apart A \<longleftrightarrow> (\<forall>x \<in> A. \<forall>y \<in> A. x \<noteq> y \<longrightarrow> block x \<inter> block y = {})"

definition heap_ok :: "uheap \<Rightarrow> nat list \<Rightarrow> (nat \<times> nat) set \<Rightarrow> bool" where
  "heap_ok s as A \<longleftrightarrow> ring s as \<and> base s < hstart s \<and> hstart s \<le> brk s \<and> units (hsize s) as \<union> blocks A = {hstart s ..< brk s} \<and> units (hsize s) as \<inter> blocks A = {}
     \<and> (\<forall>x \<in> A. 0 < snd x \<and> hsize s (fst x) = snd x) \<and> apart A"

lemma block_start: "0 < snd x \<Longrightarrow> fst x \<in> block x"
  by (simp add: block_def)

lemma blocks_insert: "blocks (insert x A) = block x \<union> blocks A"
  by (simp add: blocks_def)

lemma blocks_remove: "x \<in> A \<Longrightarrow> apart A \<Longrightarrow> block x \<inter> blocks (A - {x}) = {}"
  by (auto simp: blocks_def apart_def)

lemma blocks_split: "x \<in> A \<Longrightarrow> blocks A = block x \<union> blocks (A - {x})"
  by (auto simp: blocks_def)

lemma apart_insert: "apart A \<Longrightarrow> block x \<inter> blocks A = {} \<Longrightarrow> apart (insert x A)"
  unfolding apart_def blocks_def by blast

lemma apart_remove: "apart A \<Longrightarrow> apart (A - X)"
  by (simp add: apart_def)

lemma heapD:
  assumes "heap_ok s as A"
  shows "ring s as" "base s < hstart s" "hstart s \<le> brk s" "units (hsize s) as \<union> blocks A = {hstart s ..< brk s}" "units (hsize s) as \<inter> blocks A = {}" "apart A"
    "x \<in> A \<Longrightarrow> 0 < snd x" "x \<in> A \<Longrightarrow> hsize s (fst x) = snd x"
  using assms by (auto simp: heap_ok_def)

lemma gaps_append: "gaps sz (as @ bs) \<longleftrightarrow> gaps sz as \<and> gaps sz bs \<and> (\<forall>a \<in> set as. \<forall>b \<in> set bs. a + sz a < b)"
  by (simp add: gaps_def sorted_wrt_append)

lemma gaps_Cons: "gaps sz (a # as) \<longleftrightarrow> (\<forall>b \<in> set as. a + sz a < b) \<and> gaps sz as"
  by (simp add: gaps_def)

lemma gaps_cong: "(\<And>a. a \<in> set as \<Longrightarrow> sz a = sz' a) \<Longrightarrow> gaps sz as = gaps sz' as"
  by (induction as) (auto simp: gaps_Cons gaps_def)

lemma gaps_mono: "(\<And>a. a \<in> set as \<Longrightarrow> sz' a \<le> sz a) \<Longrightarrow> gaps sz as \<Longrightarrow> gaps sz' as"
  by (induction as) (fastforce simp: gaps_Cons gaps_def)+

lemma units_simps [simp]: "units sz [] = {}" "units sz (a # as) = {a ..< a + sz a} \<union> units sz as" "units sz (as @ bs) = units sz as \<union> units sz bs"
  by (auto simp: units_def)

lemma units_cong: "(\<And>a. a \<in> set as \<Longrightarrow> sz a = sz' a) \<Longrightarrow> units sz as = units sz' as"
  by (auto simp: units_def)

lemma ring_split:
  assumes r: "ring s as" and bp: "base s < bp" "bp \<notin> set as"
  obtains xs p ys where "as = xs @ p # ys" "p < bp" "\<forall>y \<in> set ys. bp < y"
proof -
  define us ys where "us = takeWhile (\<lambda>a. a < bp) as" and "ys = dropWhile (\<lambda>a. a < bp) as"
  have as: "as = us @ ys" by (simp add: us_def ys_def)
  have "us \<noteq> []" using r bp(1) unfolding us_def by (cases as) (auto simp: ring_def)
  then obtain xs p where us: "us = xs @ [p]" by (metis append_butlast_last_id)
  have "p < bp" using us set_takeWhileD [of p "\<lambda>a. a < bp" as] by (auto simp: us_def [symmetric])
  moreover have "bp < y" if "y \<in> set ys" for y
  proof (cases ys)
    case (Cons b bs)
    then have "\<not> b < bp" using hd_dropWhile [of "\<lambda>a. a < bp" as] by (simp add: ys_def [symmetric])
    moreover have "b \<noteq> bp" using bp(2) as Cons by auto
    moreover have "b \<le> y" using that Cons r unfolding as by (auto simp: ring_def gaps_append gaps_Cons)
    ultimately show ?thesis by simp
  qed (use that in simp)
  ultimately show ?thesis using that [of xs p ys] as us by auto
qed

lemma ring_ptr: "ring s (us @ q # vs) \<Longrightarrow> hptr s q = first vs (base s)"
  by (auto simp: ring_def chain_append)

lemma ring_less: "ring s (us @ q # vs) \<Longrightarrow> v \<in> set vs \<Longrightarrow> q < v"
  by (auto simp: ring_def gaps_append gaps_Cons)

lemma ring_base: "ring s as \<Longrightarrow> a \<in> set as \<Longrightarrow> base s \<le> a"
  by (cases as) (auto simp: ring_def gaps_Cons)

lemma free_find_up:
  assumes "ring s (us @ q # vs @ p # ys)" "p < bp" "\<forall>y \<in> set ys. bp < y"
  shows "free_find s bp q = Some p \<and> free_find s bp p = Some p"
  using assms
proof (induction vs arbitrary: us q)
  case Nil
  have p: "hptr s p = first ys (base s)" using ring_ptr [of s "us @ [q]" p ys] Nil.prems(1) by simp
  have "base s \<le> p" using ring_base [OF Nil.prems(1)] by simp
  then have fp: "free_find s bp p = Some p" using p Nil.prems(2,3) by (subst free_find.simps) (cases ys; simp)
  have "hptr s q = p" "q < p" using ring_ptr [OF Nil.prems(1)] ring_less [OF Nil.prems(1)] by auto
  then show ?case using fp Nil.prems(2) by (subst free_find.simps) simp
next
  case (Cons v vs)
  have "hptr s q = v" "q < v" "v < p" using ring_ptr [OF Cons.prems(1)] ring_less [OF Cons.prems(1)] ring_less [of s "us @ [q]" v "vs @ p # ys" p] Cons.prems(1) by auto
  moreover have "free_find s bp v = Some p \<and> free_find s bp p = Some p" using Cons.IH [of "us @ [q]" v] Cons.prems by simp
  ultimately show ?case using Cons.prems(2) by (subst (1) free_find.simps) simp
qed

lemma free_find_at:
  assumes "ring s (xs @ p # ys)" "p < bp" "\<forall>y \<in> set ys. bp < y"
  shows "free_find s bp p = Some p"
proof -
  have "hptr s p = first ys (base s)" "base s \<le> p" using ring_ptr [OF assms(1)] ring_base [OF assms(1)] by auto
  then show ?thesis using assms(2,3) by (subst free_find.simps) (cases ys; simp)
qed

lemma free_find_top:
  assumes "ring s (xs @ p # us @ q # vs)" "p < bp" "\<forall>y \<in> set (us @ q # vs). bp < y"
  shows "free_find s bp q = Some p"
  using assms
proof (induction vs arbitrary: us q)
  case Nil
  have q: "hptr s q = base s" "base s \<le> q" using ring_ptr [of s "xs @ p # us" q "[]"] ring_base [OF Nil.prems(1)] Nil.prems(1) by auto
  have "free_find s bp (base s) = Some p"
  proof (cases xs)
    case Nil
    then show ?thesis using free_find_at [of s "[]" p "us @ [q]"] \<open>ring s (xs @ p # us @ [q])\<close> assms(2) \<open>\<forall>y \<in> set (us @ [q]). bp < y\<close> by (auto simp: ring_def)
  next
    case (Cons x xs')
    then show ?thesis using free_find_up [of s "[]" x xs' p "us @ [q]"] \<open>ring s (xs @ p # us @ [q])\<close> assms(2) \<open>\<forall>y \<in> set (us @ [q]). bp < y\<close> by (auto simp: ring_def)
  qed
  moreover have "base s \<le> p" using ring_base [OF Nil.prems(1)] by simp
  ultimately show ?case using q Nil.prems(2,3) by (subst free_find.simps) auto
next
  case (Cons v vs)
  have "hptr s q = v" "q < v" using ring_ptr [of s "xs @ p # us" q "v # vs"] ring_less [of s "xs @ p # us" q "v # vs" v] Cons.prems(1) by auto
  moreover have "free_find s bp v = Some p" using Cons.IH [of "us @ [q]" v] Cons.prems by simp
  ultimately show ?case using Cons.prems(3) by (subst free_find.simps) auto
qed

lemma free_find_ok:
  assumes "ring s (xs @ p # ys)" "p < bp" "\<forall>y \<in> set ys. bp < y" "q \<in> set (xs @ p # ys)"
  shows "free_find s bp q = Some p"
proof -
  consider "q = p" | us vs where "xs = us @ q # vs" | us vs where "ys = us @ q # vs" using assms(4) split_list by fastforce
  then show ?thesis
  proof cases
    case 1
    then show ?thesis using free_find_at [OF assms(1-3)] by simp
  next
    case 2
    then show ?thesis using free_find_up [of s us q vs p ys] assms by simp
  next
    case 3
    then show ?thesis using free_find_top [of s xs p us q vs] assms by simp
  qed
qed

text \<open>The two steps of \<open>free\<close> after the search: the block takes over its right neighbour, then its left neighbour takes over the block.\<close>

definition merge_right :: "nat \<Rightarrow> nat \<Rightarrow> uheap \<Rightarrow> uheap" where
  "merge_right bp p s = (if bp + hsize s bp = hptr s p then set_ptr bp (hptr s (hptr s p)) (set_size bp (hsize s bp + hsize s (hptr s p)) s) else set_ptr bp (hptr s p) s)"

definition merge_left :: "nat \<Rightarrow> nat \<Rightarrow> uheap \<Rightarrow> uheap" where
  "merge_left bp p s = (if p + hsize s p = bp then set_ptr p (hptr s bp) (set_size p (hsize s p + hsize s bp) s) else set_ptr p bp s)"

lemma free_at_eq: "free_at bp p s = (merge_left bp p (merge_right bp p s))\<lparr>freep := p\<rparr>"
  by (simp only: free_at_def merge_right_def merge_left_def Let_def)

text \<open>What only changes the headers \<open>H\<close>.\<close>

definition only_at :: "nat set \<Rightarrow> uheap \<Rightarrow> uheap \<Rightarrow> bool" where
  "only_at H s s' \<longleftrightarrow> (\<forall>a. a \<notin> H \<longrightarrow> hptr s' a = hptr s a \<and> hsize s' a = hsize s a)
     \<and> base s' = base s \<and> hstart s' = hstart s \<and> brk s' = brk s \<and> brk_max s' = brk_max s"

lemma only_atD: "only_at H s s' \<Longrightarrow> a \<notin> H \<Longrightarrow> hptr s' a = hptr s a" "only_at H s s' \<Longrightarrow> a \<notin> H \<Longrightarrow> hsize s' a = hsize s a"
  by (simp_all add: only_at_def)

lemma merge_right_ok:
  assumes r: "ring s (xs @ p # ys)" and bp: "p < bp" "0 < hsize s bp" "\<forall>y \<in> set ys. bp + hsize s bp \<le> y"
  obtains ys' where "set ys' \<subseteq> set ys" "chain (hptr s) ys' (base s)" "gaps (hsize s) ys'" "hptr (merge_right bp p s) bp = first ys' (base s)"
    "\<forall>y \<in> set ys'. bp + hsize (merge_right bp p s) bp < y" "hsize s bp \<le> hsize (merge_right bp p s) bp" "only_at {bp} s (merge_right bp p s)"
    "{bp ..< bp + hsize (merge_right bp p s) bp} \<union> units (hsize s) ys' = {bp ..< bp + hsize s bp} \<union> units (hsize s) ys"
proof (cases "bp + hsize s bp = hptr s p")
  case True
  have "base s \<le> p" using ring_base [OF r] by simp
  then obtain b bs where ys: "ys = b # bs" "b = bp + hsize s bp" using True ring_ptr [OF r] bp(1) by (cases ys) auto
  have b: "hptr s b = first bs (base s)" "\<forall>y \<in> set bs. b + hsize s b < y" "chain (hptr s) bs (base s)" "gaps (hsize s) bs"
    using r ys by (auto simp: ring_def chain_append gaps_append gaps_Cons)
  show ?thesis
    by (rule that [of bs])
       (use b ys True bp in \<open>auto simp: merge_right_def set_ptr_def set_size_def only_at_def\<close>)
next
  case False
  have "hptr s p = first ys (base s)" "chain (hptr s) ys (base s)" "gaps (hsize s) ys" using r by (auto simp: ring_def chain_append gaps_append gaps_Cons)
  moreover have "bp + hsize s bp < y" if "y \<in> set ys" for y
    using that False bp(3) calculation(1,3) by (cases ys) (fastforce simp: gaps_Cons)+
  ultimately show ?thesis
    using False by (intro that [of ys]) (auto simp: merge_right_def set_ptr_def only_at_def)
qed

lemma ring_upd:
  assumes "ring s as" "only_at H s s'" "freep s' \<in> set as'" "as' \<noteq> []" "hd as' = base s" "hsize s' (base s) = 0"
    "chain (hptr s') as' (base s)" "gaps (hsize s') as'" "\<forall>a \<in> set (tl as'). 0 < hsize s' a"
  shows "ring s' as'"
  using assms by (auto simp: ring_def only_at_def)

lemma ring_hd: "ring s (xs @ p # ys) \<Longrightarrow> hd (xs @ [p]) = base s"
  by (cases xs) (auto simp: ring_def)

lemma un_swap: "A \<union> U = B \<union> V \<Longrightarrow> (P \<union> A) \<union> U = (P \<union> V) \<union> B"
  by blast

lemma free_at_ok:
  assumes r: "ring s (xs @ p # ys)" and bp: "p + hsize s p \<le> bp" "p < bp" "0 < hsize s bp" "\<forall>y \<in> set ys. bp + hsize s bp \<le> y"
  obtains as' where "ring (free_at bp p s) as'" "units (hsize (free_at bp p s)) as' = units (hsize s) (xs @ p # ys) \<union> {bp ..< bp + hsize s bp}"
    "only_at {bp, p} s (free_at bp p s)"
proof -
  define s1 where "s1 = merge_right bp p s"
  obtain ys' where y: "set ys' \<subseteq> set ys" "chain (hptr s) ys' (base s)" "gaps (hsize s) ys'" "hptr s1 bp = first ys' (base s)"
    "\<forall>y \<in> set ys'. bp + hsize s1 bp < y" "hsize s bp \<le> hsize s1 bp" "only_at {bp} s s1"
    "{bp ..< bp + hsize s1 bp} \<union> units (hsize s) ys' = {bp ..< bp + hsize s bp} \<union> units (hsize s) ys"
    using merge_right_ok [OF r bp(2-4)] unfolding s1_def by blast
  have xs: "\<forall>x \<in> set xs. x + hsize s x < p" "chain (hptr s) xs p" "gaps (hsize s) xs" "\<forall>x \<in> set xs. x < p"
    using r by (auto simp: ring_def chain_append gaps_append)
  have p: "hsize s1 p = hsize s p" using y(7) bp(2) by (auto simp: only_at_def)
  have nb: "\<forall>y \<in> set ys'. p \<noteq> y \<and> bp \<noteq> y" "\<forall>x \<in> set xs. x \<noteq> p \<and> x \<noteq> bp" using y(5) xs(4) bp(2) by fastforce+
  have far: "\<forall>x \<in> set xs. \<forall>y \<in> set ys'. x + hsize s x < y" "\<forall>x \<in> set xs. x + hsize s x < bp"
    using y(5) xs(1) bp(2) by (meson le_add1 less_trans order.strict_trans1)+
  define s' where "s' = free_at bp p s"
  have s': "s' = (merge_left bp p s1)\<lparr>freep := p\<rparr>" by (simp add: s'_def free_at_eq s1_def)
  have o: "only_at {bp, p} s s'" using y(7) by (auto simp: s' merge_left_def only_at_def set_ptr_def set_size_def)
  have eqs: "\<And>a. a \<in> set xs \<Longrightarrow> hptr s' a = hptr s a" "\<And>a. a \<in> set xs \<Longrightarrow> hsize s' a = hsize s a" "\<And>a. a \<in> set ys' \<Longrightarrow> hptr s' a = hptr s a" "\<And>a. a \<in> set ys' \<Longrightarrow> hsize s' a = hsize s a"
    by (rule only_atD [OF o]; use nb in auto)+
  have ch: "chain (hptr s') xs p = chain (hptr s) xs p" "chain (hptr s') ys' (base s) = chain (hptr s) ys' (base s)" by (rule chain_cong; use eqs in simp)+
  have gp: "gaps (hsize s') xs = gaps (hsize s) xs" "gaps (hsize s') ys' = gaps (hsize s) ys'" by (rule gaps_cong; use eqs in simp)+
  have un: "units (hsize s') xs = units (hsize s) xs" "units (hsize s') ys' = units (hsize s) ys'" by (rule units_cong; use eqs in simp)+
  obtain zs where z: "hptr s' p = first zs (base s)" "chain (hptr s') zs (base s)" "gaps (hsize s') (p # zs)" "set zs \<subseteq> insert bp (set ys')" "\<forall>a \<in> set zs. 0 < hsize s' a"
    "units (hsize s') (p # zs) = units (hsize s) (p # ys) \<union> {bp ..< bp + hsize s bp}" "p = base s \<longrightarrow> hsize s' p = 0" "xs \<noteq> [] \<and> p \<noteq> base s \<longrightarrow> 0 < hsize s' p"
  proof (cases "p + hsize s p = bp")
    case True
    have v: "hptr s' p = first ys' (base s)" "hsize s' p = hsize s p + hsize s1 bp" using y(4) p True by (auto simp: s' merge_left_def set_ptr_def set_size_def)
    have "p \<noteq> base s" using True bp(2) r by (auto simp: ring_def)
    have "units (hsize s') (p # ys') = units (hsize s) (p # ys) \<union> {bp ..< bp + hsize s bp}"
    proof -
      have "{p ..< p + hsize s' p} = {p ..< p + hsize s p} \<union> {bp ..< bp + hsize s1 bp}" using v(2) True by auto
      then show ?thesis using un_swap [OF y(8)] un(2) by simp
    qed
    moreover have "\<forall>a \<in> set ys'. 0 < hsize s' a" using r y(1) eqs(4) by (cases xs) (auto simp: ring_def)
    moreover have "gaps (hsize s') (p # ys')" using gp(2) v(2) y(3,5) True by (simp add: gaps_Cons add.assoc [symmetric])
    moreover have "chain (hptr s') ys' (base s)" "0 < hsize s' p" using ch(2) y(2,6) v(2) bp(3) by simp_all
    ultimately show ?thesis using that [of ys'] v(1) \<open>p \<noteq> base s\<close> by blast
  next
    case False
    have v: "hptr s' p = bp" "hsize s' p = hsize s p" "hptr s' bp = first ys' (base s)" "hsize s' bp = hsize s1 bp"
      using y(4) p False bp(2) by (auto simp: s' merge_left_def set_ptr_def set_size_def)
    have "units (hsize s') (p # bp # ys') = units (hsize s) (p # ys) \<union> {bp ..< bp + hsize s bp}"
      using un_swap [OF y(8), of "{p ..< p + hsize s p}"] un(2) v(2,4) by (simp add: Un_assoc)
    moreover have "\<forall>a \<in> set ys'. 0 < hsize s' a" using r y(1) eqs(4) by (cases xs) (auto simp: ring_def)
    moreover have "p = base s \<longrightarrow> hsize s' p = 0" "xs \<noteq> [] \<and> p \<noteq> base s \<longrightarrow> 0 < hsize s' p" unfolding v(2) using r by (cases xs; auto simp: ring_def)+
    moreover have "gaps (hsize s') (p # bp # ys')" using gp(2) v(2,4) y(3,5) False bp(1,2) by (fastforce simp: gaps_Cons)
    moreover have "chain (hptr s') (bp # ys') (base s)" "0 < hsize s' bp" using ch(2) y(2,6) v(3,4) bp(3) by simp_all
    ultimately show ?thesis by (intro that [of "bp # ys'"]) (use v(1) in \<open>simp_all del: units_simps\<close>)
  qed
  have hd: "hd (xs @ p # zs) = base s" using ring_hd [OF r] by (cases xs) auto
  have pos: "\<forall>x \<in> set (tl xs). 0 < hsize s x" using r by (cases xs) (auto simp: ring_def)
  have b0: "hsize s (base s) = 0" using r by (auto simp: ring_def)
  have sep: "\<forall>x \<in> set xs. \<forall>a \<in> set (p # zs). x + hsize s' x < a" using xs(1) far eqs(2) z(4) by auto
  have "ring s' (xs @ p # zs)"
  proof (rule ring_upd [OF r o])
    show "chain (hptr s') (xs @ p # zs) (base s)" using ch xs z by (simp add: chain_append)
    show "gaps (hsize s') (xs @ p # zs)" using gp(1) xs(3) z(3) sep by (simp add: gaps_append)
    show "hsize s' (base s) = 0" using hd z(7) eqs(2) b0 by (cases xs) auto
    show "\<forall>a \<in> set (tl (xs @ p # zs)). 0 < hsize s' a" using pos eqs(2) z(5,8) xs(4) hd by (cases xs) fastforce+
  qed (use hd in \<open>auto simp: s'\<close>)
  moreover have "units (hsize s') (xs @ p # zs) = units (hsize s) (xs @ p # ys) \<union> {bp ..< bp + hsize s bp}"
    using un z(6) by auto
  ultimately show ?thesis using that o by (simp add: s'_def)
qed

section \<open>Freeing a block\<close>

lemma ring_pos: "ring s as \<Longrightarrow> a \<in> set as \<Longrightarrow> a \<noteq> base s \<Longrightarrow> 0 < hsize s a"
  by (cases as) (auto simp: ring_def)

lemma ring_not_base: "ring s (us @ q # vs) \<Longrightarrow> v \<in> set vs \<Longrightarrow> v \<noteq> base s"
  using ring_less [of s us q vs v] ring_base [of s "us @ q # vs" q] by fastforce

lemma ring_units: "ring s as \<Longrightarrow> a \<in> set as \<Longrightarrow> a \<noteq> base s \<Longrightarrow> a \<in> units (hsize s) as"
  using ring_pos [of s as a] by (auto simp: units_def)

lemma ufree_ok:
  assumes r: "ring s as" and bp: "base s < bp" "0 < hsize s bp" "block (bp, hsize s bp) \<inter> units (hsize s) as = {}"
  obtains s' as' where "ufree (bp + 1) s = Some s'" "ring s' as'" "units (hsize s') as' = units (hsize s) as \<union> block (bp, hsize s bp)" "only_at (insert bp (set as)) s s'"
proof -
  have nu: "u \<notin> units (hsize s) as" if "bp \<le> u" "u < bp + hsize s bp" for u
    using that bp(3) unfolding block_def by (metis IntI atLeastLessThan_iff empty_iff fst_conv snd_conv)
  have nin: "bp \<notin> set as" using ring_units [OF r, of bp] nu [of bp] bp(1,2) by auto
  obtain xs p ys where as: "as = xs @ p # ys" "p < bp" "\<forall>y \<in> set ys. bp < y" using ring_split [OF r bp(1) nin] .
  have "p + hsize s p \<le> bp" using nu [of bp] bp(2) as(1,2) by (force simp: units_def)
  moreover have "\<forall>y \<in> set ys. bp + hsize s bp \<le> y"
  proof
    fix y assume y: "y \<in> set ys"
    then have "y \<in> units (hsize s) as" using ring_units [OF r, of y] ring_not_base [OF r [unfolded as(1)] y] by (simp add: as(1))
    then show "bp + hsize s bp \<le> y" using nu [of y] as(3) y by force
  qed
  ultimately obtain as' where "ring (free_at bp p s) as'" "units (hsize (free_at bp p s)) as' = units (hsize s) as \<union> {bp ..< bp + hsize s bp}" "only_at {bp, p} s (free_at bp p s)"
    using free_at_ok [of s xs p ys bp] r as(1,2) bp(2) by blast
  moreover have "free_find s bp (freep s) = Some p" using free_find_ok [of s xs p ys bp "freep s"] r as by (auto simp: ring_def)
  ultimately show ?thesis using that [of "free_at bp p s" as'] as(1) by (auto simp: ufree_def only_at_def block_def)
qed

lemma heap_block:
  assumes h: "heap_ok s as A" and x: "x \<in> A"
  shows "base s < fst x" "fst x \<notin> set as" "block x \<inter> units (hsize s) as = {}" "fst x \<in> block x" "block x \<subseteq> {hstart s ..< brk s}"
proof -
  show fx: "fst x \<in> block x" using block_start heapD(7) [OF h x] by blast
  have ab: "block x \<subseteq> blocks A" using x by (auto simp: blocks_def)
  then show sub: "block x \<subseteq> {hstart s ..< brk s}" using heapD(4) [OF h] by blast
  then have "hstart s \<le> fst x" using fx by auto
  then show "base s < fst x" using heapD(2) [OF h] by simp
  show d: "block x \<inter> units (hsize s) as = {}" using ab heapD(5) [OF h] by blast
  show "fst x \<notin> set as" using ring_units [OF heapD(1) [OF h], of "fst x"] d fx \<open>base s < fst x\<close> by (auto simp: disjoint_iff)
qed

lemma heap_sizes:
  assumes h: "heap_ok s as A" and o: "only_at (insert a (set as)) s s'" and x: "x \<in> A" and a: "a \<notin> block x"
  shows "0 < snd x \<and> hsize s' (fst x) = snd x"
  using only_atD(2) [OF o, of "fst x"] heap_block(2,4) [OF h x] heapD(7,8) [OF h x] a by auto

lemma ufree_heap:
  assumes h: "heap_ok s as A" and x: "x \<in> A"
  obtains s' as' where "ufree (fst x + 1) s = Some s'" "heap_ok s' as' (A - {x})"
proof -
  note hs = heapD [OF h] heapD(7,8) [OF h x]
  obtain s' as' where s': "ufree (fst x + 1) s = Some s'" "ring s' as'" "units (hsize s') as' = units (hsize s) as \<union> block x" "only_at (insert (fst x) (set as)) s s'"
    using ufree_ok [OF hs(1), of "fst x"] heap_block [OF h x] heapD(7,8) [OF h x] by (metis prod.collapse)
  have sz: "\<forall>y \<in> A - {x}. 0 < snd y \<and> hsize s' (fst y) = snd y"
    using heap_sizes [OF h s'(4)] hs(6) heap_block(4) [OF h x] x unfolding apart_def by blast
  have "base s' = base s" "hstart s' = hstart s" "brk s' = brk s" using s'(4) by (simp_all add: only_at_def)
  moreover have "units (hsize s') as' \<union> blocks (A - {x}) = {hstart s ..< brk s}" "units (hsize s') as' \<inter> blocks (A - {x}) = {}"
    using hs(4,5) blocks_split [OF x] blocks_remove [OF x hs(6)] unfolding s'(3) by blast+
  ultimately have "heap_ok s' as' (A - {x})" using s'(2) sz hs(2,3) apart_remove [OF hs(6)] by (simp add: heap_ok_def)
  then show ?thesis using that s'(1) by blast
qed

section \<open>Taking a block\<close>

lemma ring_succ:
  assumes "ring s as" "q \<in> set as" "hptr s q \<noteq> base s"
  obtains xs ys where "as = xs @ q # hptr s q # ys"
proof -
  obtain xs zs where as: "as = xs @ q # zs" using assms(2) by (meson split_list)
  then have "hptr s q = first zs (base s)" using ring_ptr assms(1) by blast
  then show ?thesis using that as assms(3) by (cases zs) auto
qed

lemma take_exact:
  assumes h: "heap_ok s (xs @ q # p # ys) A" and n: "hsize s p = n"
  defines "s' \<equiv> (set_ptr q (hptr s p) s)\<lparr>freep := q\<rparr>"
  shows "heap_ok s' (xs @ q # ys) (insert (p, n) A)" "block (p, n) \<subseteq> units (hsize s) (xs @ q # p # ys)"
proof -
  note hs = heapD [OF h]
  have sz: "hsize s' = hsize s" "base s' = base s" "hstart s' = hstart s" "brk s' = brk s" "freep s' = q" by (simp_all add: s'_def set_ptr_def)
  have lt: "q < p" "\<forall>x \<in> set xs. x < q" "\<forall>y \<in> set ys. q < y" using hs(1) by (auto simp: ring_def gaps_append gaps_Cons)
  have nb: "p \<noteq> base s" using ring_not_base [OF hs(1), of p] by simp
  have pn: "0 < n" using ring_pos [OF hs(1), of p] nb n by simp
  have ch: "chain (hptr s') xs q = chain (hptr s) xs q" "chain (hptr s') ys (base s) = chain (hptr s) ys (base s)"
    by (rule chain_cong; use lt in \<open>auto simp: s'_def set_ptr_def\<close>)+
  have "hptr s' q = first ys (base s)" using ring_ptr [of s "xs @ [q]" p ys] hs(1) by (simp add: s'_def set_ptr_def)
  then have "chain (hptr s') (xs @ q # ys) (base s)" using ch hs(1) by (auto simp: ring_def chain_append)
  moreover have "gaps (hsize s) (xs @ q # ys)" using hs(1) by (auto simp: ring_def gaps_append gaps_Cons)
  moreover have "xs @ q # ys \<noteq> [] \<and> hd (xs @ q # ys) = base s" "\<forall>a \<in> set (tl (xs @ q # ys)). 0 < hsize s a" using hs(1) by (cases xs; auto simp: ring_def)+
  ultimately have r: "ring s' (xs @ q # ys)" using hs(1) sz by (simp add: ring_def)
  show sub: "block (p, n) \<subseteq> units (hsize s) (xs @ q # p # ys)" using n by (auto simp: block_def)
  have un: "units (hsize s) (xs @ q # p # ys) = units (hsize s) (xs @ q # ys) \<union> block (p, n)" using n by (auto simp: block_def)
  have dj: "units (hsize s) (xs @ q # ys) \<inter> block (p, n) = {}"
    using hs(1) n by (fastforce simp: units_def block_def ring_def gaps_append gaps_Cons)
  have "units (hsize s) (xs @ q # ys) \<union> blocks (insert (p, n) A) = {hstart s ..< brk s}" "units (hsize s) (xs @ q # ys) \<inter> blocks (insert (p, n) A) = {}"
    using hs(4,5) dj unfolding blocks_insert un by blast+
  moreover have "apart (insert (p, n) A)" using apart_insert [OF hs(6)] sub hs(5) by blast
  ultimately show "heap_ok s' (xs @ q # ys) (insert (p, n) A)" using r sz hs(2,3) heapD(7,8) [OF h] n pn by (simp add: heap_ok_def)
qed

lemma take_part:
  assumes h: "heap_ok s as A" and p: "p \<in> set as" and n: "0 < n" "n < hsize s p" and q: "q \<in> set as"
  defines "b \<equiv> p + (hsize s p - n)"
  defines "s' \<equiv> (set_size b n (set_size p (hsize s p - n) s))\<lparr>freep := q\<rparr>"
  shows "heap_ok s' as (insert (b, n) A)" "block (b, n) \<subseteq> units (hsize s) as"
proof -
  note hs = heapD [OF h]
  have bp: "p < b" "b + n = p + hsize s p" "b \<noteq> p" using n by (auto simp: b_def)
  have sz: "hsize s' = (hsize s)(p := hsize s p - n, b := n)" "hptr s' = hptr s" "base s' = base s" "hstart s' = hstart s" "brk s' = brk s" "freep s' = q"
    by (simp_all add: s'_def set_size_def)
  have sep: "a = p \<or> a + hsize s a < p \<or> p + hsize s p < a" if "a \<in> set as" for a
  proof -
    obtain us vs where as: "as = us @ p # vs" using p by (meson split_list)
    then show ?thesis using that hs(1) by (auto simp: ring_def gaps_append gaps_Cons)
  qed
  have nb: "b \<notin> set as" using sep [of b] bp n by auto
  have le: "hsize s' a \<le> hsize s a" if "a \<in> set as" for a using that nb by (auto simp: sz(1))
  have g: "gaps (hsize s') as" using gaps_mono [OF le] hs(1) by (simp add: ring_def)
  have pb: "p \<noteq> base s" "b \<noteq> base s" using hs(1) n(2) ring_base [OF hs(1) p] bp(1) by (auto simp: ring_def)
  have "\<forall>a \<in> set (tl as). 0 < hsize s' a" using hs(1) n by (auto simp: ring_def sz(1))
  then have r: "ring s' as" using hs(1) g q pb by (auto simp: ring_def sz)
  show sub: "block (b, n) \<subseteq> units (hsize s) as" using p bp by (auto simp: block_def units_def)
  have mem: "u \<in> units (hsize s') as \<longleftrightarrow> u \<in> units (hsize s) as \<and> u \<notin> block (b, n)" for u
  proof
    assume "u \<in> units (hsize s') as"
    then obtain a where a: "a \<in> set as" "a \<le> u" "u < a + hsize s' a" by (auto simp: units_def)
    then have "u < a + hsize s a" using le [of a] by simp
    moreover have "u \<notin> block (b, n)" using a sep [of a] nb bp by (auto simp: block_def sz(1) b_def split: if_splits)
    ultimately show "u \<in> units (hsize s) as \<and> u \<notin> block (b, n)" using a by (auto simp: units_def)
  next
    assume "u \<in> units (hsize s) as \<and> u \<notin> block (b, n)"
    then obtain a where a: "a \<in> set as" "a \<le> u" "u < a + hsize s a" "u \<notin> block (b, n)" by (auto simp: units_def)
    then have "u < a + hsize s' a" using nb bp(2) by (auto simp: block_def sz(1) b_def)
    then show "u \<in> units (hsize s') as" using a(1,2) by (auto simp: units_def)
  qed
  have un: "units (hsize s) as = units (hsize s') as \<union> block (b, n)" and dj: "units (hsize s') as \<inter> block (b, n) = {}" using mem sub by blast+
  have "units (hsize s') as \<union> blocks (insert (b, n) A) = {hstart s ..< brk s}" "units (hsize s') as \<inter> blocks (insert (b, n) A) = {}"
    using hs(4,5) dj unfolding blocks_insert un by blast+
  moreover have "apart (insert (b, n) A)" using apart_insert [OF hs(6)] sub hs(5) by blast
  moreover have "\<forall>x \<in> insert (b, n) A. 0 < snd x \<and> hsize s' (fst x) = snd x"
  proof -
    have "b \<in> units (hsize s) as" using sub n(1) by (auto simp: block_def)
    then have "fst x \<noteq> p" "fst x \<noteq> b" if "x \<in> A" for x using that heap_block(2-4) [OF h that] p by (auto simp: disjoint_iff)
    then show ?thesis using heapD(7,8) [OF h] n(1) by (auto simp: sz(1))
  qed
  ultimately show "heap_ok s' as (insert (b, n) A)" using r sz(3-5) hs(2,3) by (simp add: heap_ok_def)
qed

lemma take_block_ok:
  assumes h: "heap_ok s as A" and q: "q \<in> set as" and n: "0 < n" "n \<le> hsize s (hptr s q)"
  obtains b s' as' where "take_block n q (hptr s q) s = (b + 1, s')" "heap_ok s' as' (insert (b, n) A)" "block (b, n) \<inter> blocks A = {}"
proof -
  have "hptr s q \<noteq> base s" using n heapD(1) [OF h] by (auto simp: ring_def)
  then obtain xs ys where as: "as = xs @ q # hptr s q # ys" using ring_succ [OF heapD(1) [OF h] q] by blast
  show ?thesis
  proof (cases "hsize s (hptr s q) = n")
    case True
    then show ?thesis using that take_exact [OF h [unfolded as] True] heapD(5) [OF h] as by (fastforce simp: take_block_def)
  next
    case False
    then have "n < hsize s (hptr s q)" "hptr s q \<in> set as" using n as by auto
    then show ?thesis using that take_part [OF h _ n(1) _ q, of "hptr s q"] heapD(5) [OF h] False by (fastforce simp: take_block_def Let_def set_size_def)
  qed
qed

section \<open>A round of the free list\<close>

definition more_room :: "nat \<Rightarrow> uheap \<Rightarrow> (nat option \<times> uheap) option" where
  "more_room n s = Option.bind (morecore n s) (\<lambda>r. case r of Inl s1 \<Rightarrow> Some (None, s1) | Inr (p, s1) \<Rightarrow> malloc_loop n p (hptr s1 p) s1)"

lemma malloc_loop_step:
  "malloc_loop n prevp p s =
     (if n \<le> hsize s p then Some (case take_block n prevp p s of (ap, s') \<Rightarrow> (Some ap, s')) else if p = freep s then more_room n s else malloc_loop n p (hptr s p) s)"
  by (subst malloc_loop.simps) (simp add: more_room_def)

lemma malloc_path:
  assumes "chain (hptr s) (prevp # rs) (freep s)" "freep s \<notin> set rs"
  shows "(\<exists>q \<in> set (prevp # rs). n \<le> hsize s (hptr s q) \<and> malloc_loop n prevp (first rs (freep s)) s = Some (case take_block n q (hptr s q) s of (ap, s') \<Rightarrow> (Some ap, s')))
    \<or> (\<forall>a \<in> insert (freep s) (set rs). hsize s a < n) \<and> malloc_loop n prevp (first rs (freep s)) s = more_room n s"
  using assms
proof (induction rs arbitrary: prevp)
  case Nil
  then show ?case using malloc_loop_step [of n prevp "freep s" s] by auto
next
  case (Cons a rs)
  show ?case
  proof (cases "n \<le> hsize s a")
    case True
    then show ?thesis using malloc_loop_step [of n prevp a s] Cons.prems by auto
  next
    case False
    then have "malloc_loop n prevp a s = malloc_loop n a (first rs (freep s)) s" using malloc_loop_step [of n prevp a s] Cons.prems by auto
    then show ?thesis using Cons.IH [of a] Cons.prems False by auto
  qed
qed

text \<open>The loop started at \<open>freep\<close> takes a block, or has seen that every free block is too small.\<close>

lemma malloc_round:
  assumes r: "ring s as"
  shows "(\<exists>q \<in> set as. n \<le> hsize s (hptr s q) \<and> malloc_loop n (freep s) (hptr s (freep s)) s = Some (case take_block n q (hptr s q) s of (ap, s') \<Rightarrow> (Some ap, s')))
    \<or> (\<forall>a \<in> set as. hsize s a < n) \<and> malloc_loop n (freep s) (hptr s (freep s)) s = more_room n s"
proof -
  have "freep s \<in> set as" using r by (simp add: ring_def)
  then obtain us vs where as: "as = us @ freep s # vs" by (meson split_list)
  have "gaps (hsize s) (us @ freep s # vs)" using r as by (simp add: ring_def)
  then have lt: "\<forall>u \<in> set us. u < freep s" "\<forall>v \<in> set vs. freep s < v" unfolding gaps_append gaps_Cons by auto
  have b: "first us (freep s) = base s" using ring_hd [of s us "freep s" vs] r as by (cases us) auto
  have "chain (hptr s) as (base s)" using r by (simp add: ring_def)
  then have c: "chain (hptr s) us (freep s)" "chain (hptr s) (freep s # vs) (base s)" using chain_append [of "hptr s" us "freep s # vs" "base s"] as by auto
  have ch: "chain (hptr s) (freep s # vs @ us) (freep s)" using c b chain_append [of "hptr s" "freep s # vs" us "freep s"] by simp
  have "hptr s (freep s) = first (vs @ us) (freep s)" using ch by simp
  moreover have "freep s \<notin> set (vs @ us)" using lt by auto
  moreover have "set as = set (freep s # vs @ us)" by (subst as) auto
  ultimately show ?thesis using malloc_path [OF ch, of n] by simp
qed

lemma one_block:
  assumes g: "gaps sz as" and u: "{b ..< b + n} \<subseteq> units sz as" and n: "0 < n"
  obtains a where "a \<in> set as" "n \<le> sz a"
proof -
  have sep: "a = a' \<or> a + sz a < a' \<or> a' + sz a' < a" if "a \<in> set as" "a' \<in> set as" for a a'
    using g that by (induction as) (auto simp: gaps_Cons)
  have "b \<in> units sz as" using u n by auto
  then obtain a where a: "a \<in> set as" "a \<le> b" "b < a + sz a" by (auto simp: units_def)
  have "b + n \<le> a + sz a"
  proof (rule ccontr)
    assume "\<not> b + n \<le> a + sz a"
    then have "a + sz a \<in> units sz as" using u a by auto
    then obtain a' where "a' \<in> set as" "a' \<le> a + sz a" "a + sz a < a' + sz a'" by (auto simp: units_def)
    then show False using sep [OF a(1), of a'] by auto
  qed
  then show ?thesis using that [of a] a by simp
qed

section \<open>More memory\<close>

lemma bytes_int: "k < 2 ^ 28 \<Longrightarrow> sint (of_nat (k * HEADER) :: u32) = int (k * HEADER)"
  by (simp add: HEADER_def signed_of_nat signed_take_bit_int_eq_self del: of_nat_mult)

lemma sbrk_bytes:
  "k < 2 ^ 28 \<Longrightarrow> sbrk (sint (of_nat (k * HEADER) :: u32)) s = (if brk s + k \<le> brk_max s then (Some (brk s), s\<lparr>brk := brk s + k\<rparr>) else (None, s))"
  by (subst bytes_int) (auto simp: sbrk_def HEADER_def Let_def nat_add_distrib)

lemma grow_heap:
  assumes h: "heap_ok s as A" and k: "0 < k"
  defines "s1 \<equiv> set_size (brk s) k (s\<lparr>brk := brk s + k\<rparr>)"
  obtains s' as' where "ufree (brk s + 1) s1 = Some s'" "heap_ok s' as' A" "\<exists>a \<in> set as'. k \<le> hsize s' a"
proof -
  note hs = heapD [OF h]
  have sz: "hsize s1 = (hsize s)(brk s := k)" "hptr s1 = hptr s" "base s1 = base s" "hstart s1 = hstart s" "brk s1 = brk s + k" "freep s1 = freep s"
    by (simp_all add: s1_def set_size_def)
  have nin: "brk s \<notin> set as" using ring_units [OF hs(1), of "brk s"] hs(2-4) by auto
  have eq: "gaps (hsize s1) as = gaps (hsize s) as" "units (hsize s1) as = units (hsize s) as" by (rule gaps_cong units_cong; use nin sz(1) in auto)+
  have "\<forall>a \<in> set (tl as). 0 < hsize s1 a" using hs(1) k by (auto simp: ring_def sz(1))
  then have r: "ring s1 as" using hs(1-3) eq by (auto simp: ring_def sz)
  have bd: "units (hsize s) as \<subseteq> {hstart s ..< brk s}" "blocks A \<subseteq> {hstart s ..< brk s}" "block (brk s, k) = {brk s ..< brk s + k}" using hs(4) by (auto simp: block_def)
  then have d: "block (brk s, k) \<inter> units (hsize s) as = {}" "block (brk s, k) \<inter> blocks A = {}" by (auto simp: subset_iff disjoint_iff)
  obtain s' as' where s': "ufree (brk s + 1) s1 = Some s'" "ring s' as'" "units (hsize s') as' = units (hsize s) as \<union> block (brk s, k)" "only_at (insert (brk s) (set as)) s1 s'"
    using ufree_ok [OF r, of "brk s"] hs(2,3) k d(1) eq(2) by (auto simp: sz)
  have o: "base s' = base s" "hstart s' = hstart s" "brk s' = brk s + k" using s'(4) sz by (simp_all add: only_at_def)
  have "0 < snd x \<and> hsize s' (fst x) = snd x" if "x \<in> A" for x
  proof -
    have "fst x \<noteq> brk s" using heap_block(4,5) [OF h that] by auto
    then show ?thesis using only_atD(2) [OF s'(4), of "fst x"] heap_block(2) [OF h that] heapD(7,8) [OF h that] sz(1) by simp
  qed
  moreover have "units (hsize s') as' \<union> blocks A = {hstart s ..< brk s + k}"
    using hs(3,4) ivl_disj_un_two(3) [of "hstart s" "brk s" "brk s + k"] unfolding s'(3) bd(3) by auto
  moreover have "units (hsize s') as' \<inter> blocks A = {}" using hs(5) d(2) unfolding s'(3) by blast
  ultimately have "heap_ok s' as' A" using s'(2) hs(2,3,6) o by (simp add: heap_ok_def)
  moreover obtain a where "a \<in> set as'" "k \<le> hsize s' a" using one_block [of "hsize s'" as' "brk s" k] s'(2,3) bd(3) k by (auto simp: ring_def)
  ultimately show ?thesis using that s'(1) by blast
qed

lemma more_room_ok:
  assumes h: "heap_ok s as A" and n: "0 < n" "n < 2 ^ 28"
  shows "brk_max s < brk s + max n 4096 \<and> more_room n s = Some (None, s)
    \<or> (\<exists>b s' as'. more_room n s = Some (Some (b + 1), s') \<and> heap_ok s' as' (insert (b, n) A) \<and> block (b, n) \<inter> blocks A = {})"
proof -
  have sb: "sbrk (sint (of_nat (max n 4096 * HEADER) :: u32)) s = (if brk s + max n 4096 \<le> brk_max s then (Some (brk s), s\<lparr>brk := brk s + max n 4096\<rparr>) else (None, s))"
    using n by (intro sbrk_bytes) auto
  show ?thesis
  proof (cases "brk s + max n 4096 \<le> brk_max s")
    case True
    obtain s' as' where s': "ufree (brk s + 1) (set_size (brk s) (max n 4096) (s\<lparr>brk := brk s + max n 4096\<rparr>)) = Some s'" "heap_ok s' as' A" "\<exists>a \<in> set as'. max n 4096 \<le> hsize s' a"
      using grow_heap [OF h, of "max n 4096"] n(1) by (metis max.strict_coboundedI1)
    then have "morecore n s = Some (Inr (freep s', s'))" using True sb by (simp add: morecore_def)
    then have m: "more_room n s = malloc_loop n (freep s') (hptr s' (freep s')) s'" by (simp add: more_room_def)
    obtain q where q: "q \<in> set as'" "n \<le> hsize s' (hptr s' q)" "more_room n s = Some (case take_block n q (hptr s' q) s' of (ap, s') \<Rightarrow> (Some ap, s'))"
      using malloc_round [OF heapD(1) [OF s'(2)], of n] s'(3) unfolding m by fastforce
    then show ?thesis using take_block_ok [OF s'(2) q(1) n(1) q(2)] by (metis (no_types, lifting) case_prod_conv)
  next
    case False
    then show ?thesis using sb by (simp add: more_room_def morecore_def)
  qed
qed

section \<open>The allocator's promise\<close>

text \<open>Before the first call the heap is empty and \<open>freep\<close> is null.\<close>

definition uheap_ok :: "uheap \<Rightarrow> (nat \<times> nat) set \<Rightarrow> bool" where
  "uheap_ok s A \<longleftrightarrow> (freep s = 0 \<and> A = {} \<and> 0 < base s \<and> base s < hstart s \<and> brk s = hstart s) \<or> (\<exists>as. heap_ok s as A)"

lemma heap_started: "heap_ok s as A \<Longrightarrow> freep s \<noteq> 0"
  using ring_base [of s as "freep s"] by (auto simp: heap_ok_def ring_def)

lemma nunits_bounds:
  assumes "nbytes < 0x7ffffff0"
  shows "0 < nunits_of nbytes" "nunits_of nbytes < 2 ^ 28" "unat nbytes \<le> HEADER * (nunits_of nbytes - 1)"
proof -
  have b: "unat nbytes < 0x7ffffff0" using assms by (simp add: word_less_nat_alt)
  have "unat (nbytes + 7) = unat nbytes + 7" using b by (subst unat_add_lem [THEN iffD1]) auto
  then have "unat ((nbytes + 7) div 8) = (unat nbytes + 7) div 8" by (simp add: unat_div)
  moreover from this have "unat ((nbytes + 7) div 8 + 1) = (unat nbytes + 7) div 8 + 1" using b by (subst unat_add_lem [THEN iffD1]) auto
  ultimately have "nunits_of nbytes = (unat nbytes + 7) div 8 + 1" by (simp add: nunits_of_def add.commute)
  then show "0 < nunits_of nbytes" "nunits_of nbytes < 2 ^ 28" "unat nbytes \<le> HEADER * (nunits_of nbytes - 1)" using b by (auto simp: HEADER_def)
qed

lemma malloc_heap:
  assumes h: "heap_ok s as A" and n: "0 < n" "n < 2 ^ 28"
  shows "(\<forall>a \<in> set as. hsize s a < n) \<and> brk_max s < brk s + max n 4096 \<and> malloc_loop n (freep s) (hptr s (freep s)) s = Some (None, s)
    \<or> (\<exists>b s' as'. malloc_loop n (freep s) (hptr s (freep s)) s = Some (Some (b + 1), s') \<and> heap_ok s' as' (insert (b, n) A) \<and> block (b, n) \<inter> blocks A = {})"
  using malloc_round [OF heapD(1) [OF h], of n]
proof
  assume "\<exists>q \<in> set as. n \<le> hsize s (hptr s q) \<and> malloc_loop n (freep s) (hptr s (freep s)) s = Some (case take_block n q (hptr s q) s of (ap, s') \<Rightarrow> (Some ap, s'))"
  then obtain q where q: "q \<in> set as" "n \<le> hsize s (hptr s q)" "malloc_loop n (freep s) (hptr s (freep s)) s = Some (case take_block n q (hptr s q) s of (ap, s') \<Rightarrow> (Some ap, s'))" by blast
  obtain b s' as' where "take_block n q (hptr s q) s = (b + 1, s')" "heap_ok s' as' (insert (b, n) A)" "block (b, n) \<inter> blocks A = {}" using take_block_ok [OF h q(1) n(1) q(2)] .
  then show ?thesis using q(3) by auto
next
  assume "(\<forall>a \<in> set as. hsize s a < n) \<and> malloc_loop n (freep s) (hptr s (freep s)) s = more_room n s"
  then show ?thesis using more_room_ok [OF h n] by metis
qed

text \<open>The state \<open>malloc\<close> searches: the list is set up by the first call.\<close>

definition started :: "uheap \<Rightarrow> uheap" where
  "started s = (if freep s = 0 then set_size (base s) 0 ((set_ptr (base s) (base s) s)\<lparr>freep := base s\<rparr>) else s)"

lemma malloc_started: "malloc nbytes s = malloc_loop (nunits_of nbytes) (freep (started s)) (hptr (started s) (freep (started s))) (started s)"
  by (simp only: malloc_def started_def Let_def)

lemma started_ok:
  assumes "uheap_ok s A"
  obtains as where "heap_ok (started s) as A" "brk (started s) = brk s" "brk_max (started s) = brk_max s"
proof (cases "freep s = 0")
  case True
  then have "A = {}" "0 < base s" "base s < hstart s" "brk s = hstart s" using assms by (auto simp: uheap_ok_def dest: heap_started)
  then have "heap_ok (started s) [base s] A" using True by (simp add: heap_ok_def ring_def started_def set_ptr_def set_size_def gaps_def blocks_def apart_def)
  then show ?thesis using that True by (simp add: started_def set_ptr_def set_size_def)
next
  case False
  then show ?thesis using that assms by (auto simp: uheap_ok_def started_def)
qed

text \<open>
  C6. On a heap with the blocks \<open>A\<close> given out, \<open>malloc\<close> of less than 2 GB returns, and \<open>free\<close> of each of these blocks returns: neither search of the circular list runs forever, however the blocks
  were freed before. A block from \<open>malloc\<close> has room for the bytes asked for behind its header and shares no unit with another block given out; the null pointer is returned only when every free block is too
  small and the kernel has no room for a larger heap. After either call the free blocks and the blocks given out are disjoint and are together all of the heap: no unit is lost, and none is in two blocks.
\<close>

theorem malloc_free_partition_heap:
  assumes ok: "uheap_ok s A" and n: "nbytes < 0x7ffffff0"
  shows "(\<exists>r s'. malloc nbytes s = Some (r, s') \<and> (case r of
      None \<Rightarrow> uheap_ok s' A \<and> (\<forall>as. ring s as \<longrightarrow> (\<forall>a \<in> set as. hsize s a < nunits_of nbytes)) \<and> brk_max s < brk s + max (nunits_of nbytes) 4096
    | Some ap \<Rightarrow> 0 < ap \<and> block (ap - 1, nunits_of nbytes) \<inter> blocks A = {} \<and> uheap_ok s' (insert (ap - 1, nunits_of nbytes) A)))
    \<and> unat nbytes \<le> HEADER * (nunits_of nbytes - 1)
    \<and> (\<forall>x \<in> A. \<exists>s'. ufree (fst x + 1) s = Some s' \<and> uheap_ok s' (A - {x}))"
proof (intro conjI ballI)
  note nb = nunits_bounds [OF n]
  obtain as where h: "heap_ok (started s) as A" "brk (started s) = brk s" "brk_max (started s) = brk_max s" using started_ok [OF ok] .
  have small: "\<forall>a \<in> set bs. hsize s a < nunits_of nbytes" if "malloc nbytes s = Some (None, s')" "ring s bs" for s' bs
  proof -
    have "freep s \<noteq> 0" using that(2) ring_base [of s bs "freep s"] by (auto simp: ring_def)
    then have st: "started s = s" by (simp add: started_def)
    then show ?thesis using malloc_round [OF that(2), of "nunits_of nbytes"] that(1) unfolding malloc_started st by (auto split: prod.splits)
  qed
  show "\<exists>r s'. malloc nbytes s = Some (r, s') \<and> (case r of
      None \<Rightarrow> uheap_ok s' A \<and> (\<forall>as. ring s as \<longrightarrow> (\<forall>a \<in> set as. hsize s a < nunits_of nbytes)) \<and> brk_max s < brk s + max (nunits_of nbytes) 4096
    | Some ap \<Rightarrow> 0 < ap \<and> block (ap - 1, nunits_of nbytes) \<inter> blocks A = {} \<and> uheap_ok s' (insert (ap - 1, nunits_of nbytes) A))"
    using malloc_heap [OF h(1) nb(1,2)]
  proof
    assume a: "(\<forall>a \<in> set as. hsize (started s) a < nunits_of nbytes) \<and> brk_max (started s) < brk (started s) + max (nunits_of nbytes) 4096
      \<and> malloc_loop (nunits_of nbytes) (freep (started s)) (hptr (started s) (freep (started s))) (started s) = Some (None, started s)"
    then have m: "malloc nbytes s = Some (None, started s)" by (simp add: malloc_started)
    then show ?thesis using a h small [OF m] by (intro exI [of _ None] exI [of _ "started s"]) (auto simp: uheap_ok_def)
  next
    assume "\<exists>b s' as'. malloc_loop (nunits_of nbytes) (freep (started s)) (hptr (started s) (freep (started s))) (started s) = Some (Some (b + 1), s') \<and> heap_ok s' as' (insert (b, nunits_of nbytes) A)
      \<and> block (b, nunits_of nbytes) \<inter> blocks A = {}"
    then obtain b s' as' where b: "malloc nbytes s = Some (Some (b + 1), s')" "heap_ok s' as' (insert (b, nunits_of nbytes) A)" "block (b, nunits_of nbytes) \<inter> blocks A = {}"
      unfolding malloc_started by blast
    then show ?thesis by (intro exI [of _ "Some (b + 1)"] exI [of _ s']) (auto simp: uheap_ok_def)
  qed
  show "unat nbytes \<le> HEADER * (nunits_of nbytes - 1)" by (rule nb(3))
  show "\<exists>s'. ufree (fst x + 1) s = Some s' \<and> uheap_ok s' (A - {x})" if x: "x \<in> A" for x
  proof -
    obtain as where "heap_ok s as A" using ok x by (auto simp: uheap_ok_def)
    then show ?thesis using ufree_heap [of s as A x] x by (metis uheap_ok_def)
  qed
qed

definition demo_heap :: uheap where
  "demo_heap = \<lparr>hptr = (\<lambda>_. 0)(1 := 2, 2 := 1), hsize = (\<lambda>_. 0)(2 := 5, 7 := 3), freep = 1, base = 1, hstart = 2, brk = 10, brk_max = 10000\<rparr>"

lemma demo_heap_ok: "uheap_ok demo_heap {(7, 3)}"
proof -
  have "{2 ..< 7} \<union> {7 ..< 10} = {2 ..< 10 :: nat}" by auto
  then have "heap_ok demo_heap [1, 2] {(7, 3)}"
    by (simp add: heap_ok_def ring_def demo_heap_def gaps_def blocks_def block_def apart_def)
  then show ?thesis by (auto simp: uheap_ok_def)
qed

theorem malloc_free_partition_heap_witness:
  "uheap_ok demo_heap {(7, 3)} \<and> (10 :: u32) < 0x7ffffff0 \<and> map_option fst (malloc 10 demo_heap) = Some (Some 5)
   \<and> (\<exists>s'. malloc 10 demo_heap = Some (Some 5, s') \<and> uheap_ok s' {(4, 3), (7, 3)}) \<and> (\<exists>s'. ufree 8 demo_heap = Some s' \<and> uheap_ok s' {})"
proof -
  have n: "nunits_of 10 = 3" by (simp add: nunits_of_def)
  have m: "map_option fst (malloc 10 demo_heap) = Some (Some 5)"
    by (simp add: malloc_def n demo_heap_def malloc_loop_step take_block_def set_size_def Let_def)
  have "\<exists>s'. malloc 10 demo_heap = Some (Some 5, s') \<and> uheap_ok s' {(4, 3), (7, 3)}"
    using malloc_free_partition_heap [OF demo_heap_ok, of 10] m by (auto simp: n)
  moreover have "\<exists>s'. ufree 8 demo_heap = Some s' \<and> uheap_ok s' {}"
    using malloc_free_partition_heap [OF demo_heap_ok, of 10] by simp
  ultimately show ?thesis using demo_heap_ok m by simp
qed

end
