(* ===== verification/Spec2Isabelle.thy ===== *)
theory Spec2Isabelle
  imports Blist Scheduling Waiting Argsafe Arptable Madt Shprint Shrun Uprogs Umalloc
begin

text \<open>
  \<^bold>\<open>The program.\<close> A teaching kernel in the tradition of xv6 for 32-bit x86, started by a UEFI loader, with a graphical console, an Ethernet driver, a small network stack, and user programs: a shell, a memory
  allocator and file utilities. The sources are those under \<open>src/xv6edk2/xv6\<close>. The kernel serves system calls of processes; a process enters it by a trap and is switched away from by the clock or when it
  sleeps. The file system is layered: system calls on open files, pipes and path names, inodes and directories, a write-ahead log, a cache of blocks, and a disk in memory.

  \<^bold>\<open>How it is modelled.\<close> A kernel function is a state transformer over records (theory \<open>Prelude\<close>). Its outcome is a return (\<open>Ret\<close>), a panic (\<open>Panic\<close>, with the message of the code), or a context switch
  (\<open>Switch\<close>) with the state at the switch and the rest of the function, which takes the state at the time it is resumed; so a function that sleeps is one definition, and what other processes do in between
  is arbitrary. The records follow the layers, each extending the one below: \<open>kbase\<close> (locks, process table), \<open>kmem\<close> (memory, page allocator), \<open>kdisk\<close>, \<open>klog\<close>, \<open>kapic\<close>, \<open>kcons\<close>, \<open>kfs\<close>, \<open>kfile\<close>, \<open>kvm\<close>,
  \<open>kproc\<close>, \<open>knet\<close>, \<open>ktrap\<close>. Memory is a function from 32-bit addresses to bytes; free lists, page tables, trap frames, packets and descriptors are bytes of it. Machine integers are words of their width.

  \<^bold>\<open>The kernel.\<close>
  \<^item> \<open>Prelude\<close>, \<open>Params\<close>: the monad and its rules, little-endian access, and the constants of \<open>param.h\<close>, \<open>memlayout.h\<close>, \<open>mmu.h\<close> and \<open>fs.h\<close>.
  \<^item> \<open>Kstring\<close> (\<open>string.c\<close>): the memory and string routines; \<open>memmove\<close> is correct for overlapping ranges.
  \<^item> \<open>Kstate\<close>, \<open>Spinlock\<close>, \<open>Sleeplock\<close> (\<open>spinlock.c\<close>, \<open>sleeplock.c\<close>, \<open>sleep\<close> and \<open>wakeup\<close> of \<open>proc.c\<close>): \<open>Spinlock\<close> has the atomic pieces of \<open>acquire\<close> and \<open>release\<close> as a step relation of many processors, with mutual exclusion
    and a simulation by the view the rest of the kernel uses, a set of held locks. \<open>sleep\<close> misses no wakeup. The locale \<open>sleeplock_cell\<close> is interpreted for the locks of buffers and of inodes.
  \<^item> \<open>Kalloc\<close> (\<open>kalloc.c\<close>): the free list in the free pages; the locale \<open>page_allocator\<close> is its contract for the layers above.
  \<^item> \<open>Memide\<close>, \<open>Bio\<close>, \<open>Blist\<close> (\<open>memide.c\<close>, \<open>bio.c\<close>): the cache of blocks shows the last content written (locale \<open>block_cache\<close>), and the doubly linked list of the code implements the list \<open>Bio\<close> works with.
  \<^item> \<open>Fsformat\<close>, \<open>Log\<close> (\<open>fs.h\<close>, \<open>log.c\<close>): a crash at any disk write of a commit, followed by recovery, leaves the old or the new contents; recovery may itself be interrupted; operations commit as a group.
  \<^item> \<open>Inode\<close>, \<open>Fs\<close> (\<open>fs.c\<close>): block allocation, reference counts, and contents of files and directories, proved against a view of the blocks inside a transaction (locale \<open>txn_blocks\<close>).
  \<^item> \<open>File\<close> (\<open>file.c\<close>, \<open>pipe.c\<close>): a pipe is a bounded queue (locale \<open>bounded_queue\<close>) with blocking writes and reads.
  \<^item> \<open>Apic\<close>, \<open>Madt\<close> (\<open>lapic.c\<close>, \<open>ioapic.c\<close>, \<open>picirq.c\<close>, \<open>mp_uefi.c\<close>): the interrupt controllers, and when the search for processors ends.
  \<^item> \<open>Console\<close> (\<open>console.c\<close>, \<open>graphic.c\<close>, \<open>font.c\<close>, \<open>uart.c\<close>): output stays on the screen, and the circular input buffer is a queue of lines with an editable last line.
  \<^item> \<open>Vm\<close>, \<open>Paging\<close>, \<open>Copyuvm\<close>, \<open>Freevm\<close> (\<open>vm.c\<close>): page tables in memory and what they map; the kernel map; a copied address space has equal contents and shares nothing, and freeing it gives back every page.
  \<^item> \<open>Proc\<close>, \<open>Scheduling\<close>, \<open>Waiting\<close>, \<open>Demo\<close> (\<open>proc.c\<close>): process creation and end, the scheduler; every runnable process runs in each pass, the clock preempts, and \<open>wait\<close> frees what a child had. \<open>Demo\<close> is a machine for witnesses.
  \<^item> \<open>Syscall\<close>, \<open>Argsafe\<close>, \<open>Exec\<close>, \<open>Sysfile\<close>, \<open>Trap\<close> (\<open>syscall.c\<close>, \<open>sysproc.c\<close>, \<open>exec.c\<close>, \<open>sysfile.c\<close>, \<open>trap.c\<close>, \<open>kbd.c\<close>): all system calls and the trap handler; arguments are only read below the size of the process.
  \<^item> \<open>Nic\<close>, \<open>Net\<close>, \<open>Checksum\<close>, \<open>Arptable\<close> (\<open>i8254.c\<close>, \<open>pci.c\<close>, \<open>eth.c\<close>, \<open>arp.c\<close>, \<open>ipv4.c\<close>, \<open>icmp.c\<close>, \<open>tcp.c\<close>, \<open>http.c\<close>): the driver and the protocols; echo replies have valid checksums, and the address table is a map until it is full.

  \<^bold>\<open>The user programs.\<close>
  \<^item> \<open>Ulib\<close> (\<open>ulib.c\<close>, \<open>printf.c\<close>): the library on memory; \<open>Usys\<close>: programs as trees of system calls, possibly infinite, and their runs in a world that answers the calls.
  \<^item> \<open>Umalloc\<close> (\<open>umalloc.c\<close>): \<open>malloc\<close> and \<open>free\<close> return, and free and given out blocks are always a partition of the heap.
  \<^item> \<open>Sh\<close>, \<open>Shprint\<close>, \<open>Shrun\<close> (\<open>sh.c\<close>): the parser is total, its trees are well formed and every tree can be typed; a pipeline is connected as it should be.
  \<^item> \<open>Grep\<close>, \<open>Uprogs\<close> (\<open>grep.c\<close>, \<open>wc.c\<close>, \<open>cat.c\<close>, \<open>echo.c\<close>, \<open>init.c\<close>, \<open>kill.c\<close>, \<open>ln.c\<close>, \<open>ls.c\<close>, \<open>mkdir.c\<close>, \<open>rm.c\<close>, \<open>hello.c\<close>, \<open>zombie.c\<close>): the matcher decides the language of its pattern, \<open>grep\<close> prints the lines that match, \<open>init\<close> never ends.

  \<^bold>\<open>Loops and bounds.\<close> Loops over tables and ranges are structural or have a termination proof; a loop of the code whose 32-bit counter would wrap around ends in \<open>forever\<close>, which never returns. A waiting loop is
  \<open>iterate\<close>, one round for each time the process is resumed. Scans that may run past the end of what they look at, and the searches of \<open>Umalloc\<close>, are partial functions, and that they return is part of the lemmas. The functions of the parser of the shell that call each
  other have fuel, one unit for each call: \<open>4 * length + 3\<close> is enough for every line, which is part of the property of the parser. A pass of the scheduler runs each process up to its next context switch. Requests to \<open>malloc\<close> are
  below 2 GB, where the sizes of the code do not wrap around.

  \<^bold>\<open>Parameters.\<close> What ports, the clock chip, the firmware tables, the network card and the keyboard deliver, the glyphs, and the results of system calls in user programs are arguments or fields of the state.

  \<^bold>\<open>Not modelled.\<close> The assembly (\<open>entry.S\<close>, \<open>swtch.S\<close>, \<open>trapasm.S\<close>, \<open>initcode.S\<close> and others), whose interface is the outcome \<open>Switch\<close> and the trap frame; \<open>main.c\<close>, which calls the initialisation functions; \<open>bootmain.c\<close>, \<open>ide.c\<close> and \<open>mp.c\<close>,
  which the UEFI and memory-disk build replaces; \<open>debug.c\<close>, which only prints; \<open>mkfs.c\<close>, which runs on the host; the tests \<open>forktest.c\<close>, \<open>stressfs.c\<close> and \<open>usertests.c\<close>; the loader in \<open>MyLoaderPkg\<close>, which consists of calls of firmware services; and
  the firmware itself in \<open>src/edk2\<close>. Caches and the reordering of memory accesses by the processor are not modelled: the steps of \<open>Spinlock\<close> are sequentially consistent.
\<close>

end
